(* ===== verification/Prelude.thy ===== *)
theory Prelude
  imports Main "HOL-Library.Word" "HOL-Library.Stream"
begin

unbundle bit_operations_syntax

text \<open>
  Types and generic lemmas shared by the component theories.  Fixed-width Rust
  integers are HOL words, \<open>usize\<close> values that only measure lengths and offsets are
  natural numbers (their 64-bit overflow checks are written out by \<open>checked_add_usize\<close>),
  byte slices and arrays are lists of 8-bit words, and a fallible call returns a sum
  whose left side is the Rust error.
\<close>

type_synonym u8 = "8 word"
type_synonym u16 = "16 word"
type_synonym u32 = "32 word"
type_synonym u64 = "64 word"
type_synonym usize = nat
type_synonym bytes = "u8 list"

named_theorems guard_simps "evaluation of the module's entry guards"
named_theorems inv_defs "well-formedness predicates of the components"

subsection \<open>Rust arithmetic on fixed-width integers\<close>

text \<open>\<open>saturating_add\<close> and \<open>saturating_mul\<close> stop at the type's maximum.\<close>

definition sat_add :: "'a::len word \<Rightarrow> 'a word \<Rightarrow> 'a word" where
  "sat_add a b = (if unat a + unat b < 2 ^ LENGTH('a) then a + b else - 1)"

definition sat_mul :: "'a::len word \<Rightarrow> 'a word \<Rightarrow> 'a word" where
  "sat_mul a b = (if unat a * unat b < 2 ^ LENGTH('a) then a * b else - 1)"

text \<open>\<open>div_ceil\<close> rounds the quotient up.\<close>

definition div_ceil :: "'a::len word \<Rightarrow> 'a word \<Rightarrow> 'a word" where
  "div_ceil a b = (if a mod b \<noteq> 0 then a div b + 1 else a div b)"

definition checked_add_usize :: "usize \<Rightarrow> usize \<Rightarrow> usize option" where
  "checked_add_usize a b = (if a + b < 2 ^ 64 then Some (a + b) else None)"

lemma unat_minus_one_max: "unat (- 1 :: 'a::len word) = 2 ^ LENGTH('a) - 1"
  by (simp add: unsigned_minus_1_eq_mask mask_eq_exp_minus_1)

lemma unat_sat_add: "unat (sat_add a (b :: 'a::len word)) = min (unat a + unat b) (2 ^ LENGTH('a) - 1)"
proof (cases "unat a + unat b < 2 ^ LENGTH('a)")
  case True
  then show ?thesis by (simp add: sat_add_def unat_word_ariths)
next
  case False
  then show ?thesis by (simp add: sat_add_def unat_minus_one_max)
qed

lemma unat_sat_mul: "unat (sat_mul a (b :: 'a::len word)) = min (unat a * unat b) (2 ^ LENGTH('a) - 1)"
proof (cases "unat a * unat b < 2 ^ LENGTH('a)")
  case True
  then show ?thesis by (simp add: sat_mul_def unat_word_ariths)
next
  case False
  then have "2 ^ LENGTH('a) - 1 \<le> unat a * unat b" by linarith
  with False show ?thesis by (simp only: sat_mul_def unat_minus_one_max if_False min_absorb2)
qed

lemma sat_add_1_nat: "a < b \<Longrightarrow> unat (sat_add a (1 :: 'a::len word)) = Suc (unat a)"
proof -
  assume "a < b"
  then have "unat a < unat b" by (simp add: word_less_nat_alt)
  moreover have "unat b < 2 ^ LENGTH('a)" by (rule unsigned_less)
  ultimately have "Suc (unat a) \<le> 2 ^ LENGTH('a) - 1" by linarith
  then show ?thesis by (simp add: unat_sat_add min_absorb1)
qed

lemma unat_ucast_u32: "unat (ucast (w :: u32) :: u64) = unat w"
  using unsigned_less [of w, where 'a = nat] by (simp add: unsigned_ucast_eq take_bit_nat_eq_self)

lemma ceil_div_cases:
  fixes a b :: nat
  assumes "0 < b"
  shows "(a + b - 1) div b = (if a mod b = 0 then a div b else a div b + 1)"
proof (cases "a mod b = 0")
  case True
  then have "b * (a div b) = a" by auto
  with assms True show ?thesis by (simp add: div_nat_eqI)
next
  case False
  define q r where "q = a div b" and "r = a mod b"
  have a: "a = b * q + r" by (simp add: q_def r_def)
  have r: "0 < r" "r < b" using False assms by (simp_all add: r_def)
  have "(b * q + r + b - 1) div b = Suc q"
    by (rule div_nat_eqI) (use r in \<open>simp_all add: algebra_simps\<close>)
  then have "(a + b - 1) div b = Suc q" by (simp only: a)
  with False show ?thesis by (simp add: q_def)
qed

lemma unat_div_ceil:
  assumes "b \<noteq> (0 :: 'a::len word)"
  shows "unat (div_ceil a b) = (unat a + unat b - 1) div unat b"
proof -
  have b: "0 < unat b" using assms by (simp add: unat_gt_0)
  have m: "a mod b = 0 \<longleftrightarrow> unat a mod unat b = 0"
    by (metis unat_0 unat_eq_zero unat_mod_distrib)
  have "unat (a div b + 1) = unat a div unat b + 1" if "unat a mod unat b \<noteq> 0"
  proof -
    have "unat b \<noteq> 1" using that by (cases "unat b = 1") auto
    then have "unat a div unat b < unat a" using that b by (cases "unat a = 0") auto
    moreover have "unat a < 2 ^ LENGTH('a)" by (rule unsigned_less)
    ultimately have "unat a div unat b + 1 < 2 ^ LENGTH('a)" by linarith
    then show ?thesis by (simp add: unat_word_ariths unat_div_distrib)
  qed
  then show ?thesis using m b
    by (simp add: div_ceil_def ceil_div_cases unat_div_distrib del: One_nat_def)
qed

text \<open>
  A word through its integer value.  Code equations use it to evaluate words eagerly, so that
  evaluation in the kernel does not repeat work.
\<close>

definition eval_word :: "'a::len word \<Rightarrow> 'a word" where
  "eval_word w = word_of_int (uint w)"

lemma eval_word_simp [simp]: "eval_word w = w"
  by (simp add: eval_word_def)

subsection \<open>Byte arrays\<close>

text \<open>
  \<open>dst[off..off + src.len()].copy_from_slice(src)\<close>.  Rust panics when the range does not fit;
  the callers' invariants put every use in range, where the length is unchanged.
\<close>

definition copy_at :: "'a list \<Rightarrow> usize \<Rightarrow> 'a list \<Rightarrow> 'a list" where
  "copy_at dst off src = take off dst @ src @ drop (off + length src) dst"

lemma length_copy_at [simp]:
  "off + length src \<le> length dst \<Longrightarrow> length (copy_at dst off src) = length dst"
  by (simp add: copy_at_def)

lemma take_copy_at:
  "off \<le> length dst \<Longrightarrow> take (off + length src) (copy_at dst off src) = take off dst @ src"
  by (simp add: copy_at_def)

lemma copy_at_full: "length src = length dst \<Longrightarrow> copy_at dst 0 src = src"
  by (simp add: copy_at_def)

definition zeros :: "nat \<Rightarrow> bytes" where
  "zeros n = replicate n 0"

lemma length_zeros [simp]: "length (zeros n) = n"
  by (simp add: zeros_def)

text \<open>\<open>to_be_bytes\<close> and \<open>from_be_bytes\<close>.\<close>

definition be_of_u32 :: "u32 \<Rightarrow> bytes" where
  "be_of_u32 w = [ucast (drop_bit 24 w), ucast (drop_bit 16 w), ucast (drop_bit 8 w), ucast w]"

definition be_of_u64 :: "u64 \<Rightarrow> bytes" where
  "be_of_u64 w = [ucast (drop_bit 56 w), ucast (drop_bit 48 w), ucast (drop_bit 40 w),
    ucast (drop_bit 32 w), ucast (drop_bit 24 w), ucast (drop_bit 16 w), ucast (drop_bit 8 w), ucast w]"

definition u32_of_be :: "u8 \<Rightarrow> u8 \<Rightarrow> u8 \<Rightarrow> u8 \<Rightarrow> u32" where
  "u32_of_be a b c d =
     push_bit 24 (ucast a) OR push_bit 16 (ucast b) OR push_bit 8 (ucast c) OR ucast d"

definition u64_of_be :: "u8 \<Rightarrow> u8 \<Rightarrow> u8 \<Rightarrow> u8 \<Rightarrow> u8 \<Rightarrow> u8 \<Rightarrow> u8 \<Rightarrow> u8 \<Rightarrow> u64" where
  "u64_of_be a b c d e f g h =
     push_bit 56 (ucast a) OR push_bit 48 (ucast b) OR push_bit 40 (ucast c) OR
     push_bit 32 (ucast d) OR push_bit 24 (ucast e) OR push_bit 16 (ucast f) OR
     push_bit 8 (ucast g) OR ucast h"

lemma length_be_of_u32 [simp]: "length (be_of_u32 w) = 4"
  by (simp add: be_of_u32_def)

lemma length_be_of_u64 [simp]: "length (be_of_u64 w) = 8"
  by (simp add: be_of_u64_def)

lemma length_concat_be_u32 [simp]: "length (concat (map be_of_u32 ws)) = 4 * length ws"
  by (induction ws) simp_all

lemma length_concat_be_u64 [simp]: "length (concat (map be_of_u64 ws)) = 8 * length ws"
  by (induction ws) simp_all

end
