(* ===== verification/Module_Services.thy ===== *)
theory Module_Services
  imports Prelude
begin

unbundle bit_operations_syntax

text \<open>
  Service enumeration and algorithm-profile gating of \<open>oxicrypt-module\<close>
  (\<^verbatim>\<open>src/crates/oxicrypt-module/src/lib.rs\<close>, from \<open>AlgorithmProfile\<close> on).  The Rust enum
  \<open>Service\<close> is flat, with 256 variants; here each crate section of the enum is a datatype of its
  own with the variants' names, the 36 SLH-DSA variants are a parameter set and an operation, and
  the 80 LMS variants a family, a tree height and a Winternitz parameter.  The functions
  \<open>*_u16\<close> give every variant its source discriminant and \<open>*_name\<close> its \<open>Display\<close> text, so the
  correspondence with the flat enum is checked by \<open>all_services_ascending\<close> below.
\<close>

subsection \<open>Service families\<close>

datatype sha_service =
    Sha1
  | Sha224
  | Sha256
  | Sha384
  | Sha512
  | Sha512_224
  | Sha512_256
  | Sha3_224
  | Sha3_256
  | Sha3_384
  | Sha3_512

fun sha_u16 :: "sha_service \<Rightarrow> u16" where
  "sha_u16 Sha1 = 0"
| "sha_u16 Sha224 = 1"
| "sha_u16 Sha256 = 2"
| "sha_u16 Sha384 = 3"
| "sha_u16 Sha512 = 4"
| "sha_u16 Sha512_224 = 5"
| "sha_u16 Sha512_256 = 6"
| "sha_u16 Sha3_224 = 10"
| "sha_u16 Sha3_256 = 11"
| "sha_u16 Sha3_384 = 12"
| "sha_u16 Sha3_512 = 13"

fun sha_name :: "sha_service \<Rightarrow> string" where
  "sha_name Sha1 = ''SHA-1''"
| "sha_name Sha224 = ''SHA-224''"
| "sha_name Sha256 = ''SHA-256''"
| "sha_name Sha384 = ''SHA-384''"
| "sha_name Sha512 = ''SHA-512''"
| "sha_name Sha512_224 = ''SHA-512/224''"
| "sha_name Sha512_256 = ''SHA-512/256''"
| "sha_name Sha3_224 = ''SHA3-224''"
| "sha_name Sha3_256 = ''SHA3-256''"
| "sha_name Sha3_384 = ''SHA3-384''"
| "sha_name Sha3_512 = ''SHA3-512''"

datatype xof_service =
    Shake128
  | Shake256
  | CShake128
  | CShake256
  | Kmac128
  | Kmac256
  | KmacXof128
  | KmacXof256
  | TupleHash128
  | TupleHash256
  | TupleHashXof128
  | TupleHashXof256
  | ParallelHash128
  | ParallelHash256
  | ParallelHashXof128
  | ParallelHashXof256

fun xof_u16 :: "xof_service \<Rightarrow> u16" where
  "xof_u16 Shake128 = 20"
| "xof_u16 Shake256 = 21"
| "xof_u16 CShake128 = 22"
| "xof_u16 CShake256 = 23"
| "xof_u16 Kmac128 = 24"
| "xof_u16 Kmac256 = 25"
| "xof_u16 KmacXof128 = 26"
| "xof_u16 KmacXof256 = 27"
| "xof_u16 TupleHash128 = 28"
| "xof_u16 TupleHash256 = 29"
| "xof_u16 TupleHashXof128 = 30"
| "xof_u16 TupleHashXof256 = 31"
| "xof_u16 ParallelHash128 = 32"
| "xof_u16 ParallelHash256 = 33"
| "xof_u16 ParallelHashXof128 = 34"
| "xof_u16 ParallelHashXof256 = 35"

fun xof_name :: "xof_service \<Rightarrow> string" where
  "xof_name Shake128 = ''SHAKE128''"
| "xof_name Shake256 = ''SHAKE256''"
| "xof_name CShake128 = ''cSHAKE128''"
| "xof_name CShake256 = ''cSHAKE256''"
| "xof_name Kmac128 = ''KMAC128''"
| "xof_name Kmac256 = ''KMAC256''"
| "xof_name KmacXof128 = ''KMACXOF128''"
| "xof_name KmacXof256 = ''KMACXOF256''"
| "xof_name TupleHash128 = ''TupleHash128''"
| "xof_name TupleHash256 = ''TupleHash256''"
| "xof_name TupleHashXof128 = ''TupleHashXOF128''"
| "xof_name TupleHashXof256 = ''TupleHashXOF256''"
| "xof_name ParallelHash128 = ''ParallelHash128''"
| "xof_name ParallelHash256 = ''ParallelHash256''"
| "xof_name ParallelHashXof128 = ''ParallelHashXOF128''"
| "xof_name ParallelHashXof256 = ''ParallelHashXOF256''"

datatype hmac_service =
    HmacSha1
  | HmacSha224
  | HmacSha256
  | HmacSha384
  | HmacSha512
  | HmacSha512_224
  | HmacSha512_256
  | HmacSha3_224
  | HmacSha3_256
  | HmacSha3_384
  | HmacSha3_512

fun hmac_u16 :: "hmac_service \<Rightarrow> u16" where
  "hmac_u16 HmacSha1 = 40"
| "hmac_u16 HmacSha224 = 41"
| "hmac_u16 HmacSha256 = 42"
| "hmac_u16 HmacSha384 = 43"
| "hmac_u16 HmacSha512 = 44"
| "hmac_u16 HmacSha512_224 = 45"
| "hmac_u16 HmacSha512_256 = 46"
| "hmac_u16 HmacSha3_224 = 47"
| "hmac_u16 HmacSha3_256 = 48"
| "hmac_u16 HmacSha3_384 = 49"
| "hmac_u16 HmacSha3_512 = 50"

fun hmac_name :: "hmac_service \<Rightarrow> string" where
  "hmac_name HmacSha1 = ''HMAC-SHA-1''"
| "hmac_name HmacSha224 = ''HMAC-SHA-224''"
| "hmac_name HmacSha256 = ''HMAC-SHA-256''"
| "hmac_name HmacSha384 = ''HMAC-SHA-384''"
| "hmac_name HmacSha512 = ''HMAC-SHA-512''"
| "hmac_name HmacSha512_224 = ''HMAC-SHA-512/224''"
| "hmac_name HmacSha512_256 = ''HMAC-SHA-512/256''"
| "hmac_name HmacSha3_224 = ''HMAC-SHA3-224''"
| "hmac_name HmacSha3_256 = ''HMAC-SHA3-256''"
| "hmac_name HmacSha3_384 = ''HMAC-SHA3-384''"
| "hmac_name HmacSha3_512 = ''HMAC-SHA3-512''"

datatype cmac_service =
    CmacAes128
  | CmacAes192
  | CmacAes256

fun cmac_u16 :: "cmac_service \<Rightarrow> u16" where
  "cmac_u16 CmacAes128 = 60"
| "cmac_u16 CmacAes192 = 61"
| "cmac_u16 CmacAes256 = 62"

fun cmac_name :: "cmac_service \<Rightarrow> string" where
  "cmac_name CmacAes128 = ''CMAC-AES-128''"
| "cmac_name CmacAes192 = ''CMAC-AES-192''"
| "cmac_name CmacAes256 = ''CMAC-AES-256''"

datatype aes_service =
    Aes128Ecb
  | Aes128Cbc
  | Aes128Ctr
  | Aes128Gcm
  | Aes128Ccm
  | Aes128Kw
  | Aes128Kwp
  | Aes192Ecb
  | Aes192Cbc
  | Aes192Ctr
  | Aes192Gcm
  | Aes192Ccm
  | Aes192Kw
  | Aes192Kwp
  | Aes256Ecb
  | Aes256Cbc
  | Aes256Ctr
  | Aes256Gcm
  | Aes256Ccm
  | Aes256Kw
  | Aes256Kwp
  | Aes128
  | Aes192
  | Aes256

fun aes_u16 :: "aes_service \<Rightarrow> u16" where
  "aes_u16 Aes128Ecb = 70"
| "aes_u16 Aes128Cbc = 71"
| "aes_u16 Aes128Ctr = 72"
| "aes_u16 Aes128Gcm = 73"
| "aes_u16 Aes128Ccm = 74"
| "aes_u16 Aes128Kw = 75"
| "aes_u16 Aes128Kwp = 76"
| "aes_u16 Aes192Ecb = 80"
| "aes_u16 Aes192Cbc = 81"
| "aes_u16 Aes192Ctr = 82"
| "aes_u16 Aes192Gcm = 83"
| "aes_u16 Aes192Ccm = 84"
| "aes_u16 Aes192Kw = 85"
| "aes_u16 Aes192Kwp = 86"
| "aes_u16 Aes256Ecb = 90"
| "aes_u16 Aes256Cbc = 91"
| "aes_u16 Aes256Ctr = 92"
| "aes_u16 Aes256Gcm = 93"
| "aes_u16 Aes256Ccm = 94"
| "aes_u16 Aes256Kw = 95"
| "aes_u16 Aes256Kwp = 96"
| "aes_u16 Aes128 = 97"
| "aes_u16 Aes192 = 98"
| "aes_u16 Aes256 = 99"

fun aes_name :: "aes_service \<Rightarrow> string" where
  "aes_name Aes128Ecb = ''AES-128-ECB''"
| "aes_name Aes128Cbc = ''AES-128-CBC''"
| "aes_name Aes128Ctr = ''AES-128-CTR''"
| "aes_name Aes128Gcm = ''AES-128-GCM''"
| "aes_name Aes128Ccm = ''AES-128-CCM''"
| "aes_name Aes128Kw = ''AES-128-KW''"
| "aes_name Aes128Kwp = ''AES-128-KWP''"
| "aes_name Aes192Ecb = ''AES-192-ECB''"
| "aes_name Aes192Cbc = ''AES-192-CBC''"
| "aes_name Aes192Ctr = ''AES-192-CTR''"
| "aes_name Aes192Gcm = ''AES-192-GCM''"
| "aes_name Aes192Ccm = ''AES-192-CCM''"
| "aes_name Aes192Kw = ''AES-192-KW''"
| "aes_name Aes192Kwp = ''AES-192-KWP''"
| "aes_name Aes256Ecb = ''AES-256-ECB''"
| "aes_name Aes256Cbc = ''AES-256-CBC''"
| "aes_name Aes256Ctr = ''AES-256-CTR''"
| "aes_name Aes256Gcm = ''AES-256-GCM''"
| "aes_name Aes256Ccm = ''AES-256-CCM''"
| "aes_name Aes256Kw = ''AES-256-KW''"
| "aes_name Aes256Kwp = ''AES-256-KWP''"
| "aes_name Aes128 = ''AES-128''"
| "aes_name Aes192 = ''AES-192''"
| "aes_name Aes256 = ''AES-256''"

datatype drbg_service =
    CtrDrbgAes128
  | CtrDrbgAes192
  | CtrDrbgAes256
  | HashDrbgSha256
  | HashDrbgSha384
  | HashDrbgSha512
  | HmacDrbgSha256
  | HmacDrbgSha384
  | HmacDrbgSha512

fun drbg_u16 :: "drbg_service \<Rightarrow> u16" where
  "drbg_u16 CtrDrbgAes128 = 100"
| "drbg_u16 CtrDrbgAes192 = 101"
| "drbg_u16 CtrDrbgAes256 = 102"
| "drbg_u16 HashDrbgSha256 = 103"
| "drbg_u16 HashDrbgSha384 = 104"
| "drbg_u16 HashDrbgSha512 = 105"
| "drbg_u16 HmacDrbgSha256 = 106"
| "drbg_u16 HmacDrbgSha384 = 107"
| "drbg_u16 HmacDrbgSha512 = 108"

fun drbg_name :: "drbg_service \<Rightarrow> string" where
  "drbg_name CtrDrbgAes128 = ''CTR_DRBG-AES-128''"
| "drbg_name CtrDrbgAes192 = ''CTR_DRBG-AES-192''"
| "drbg_name CtrDrbgAes256 = ''CTR_DRBG-AES-256''"
| "drbg_name HashDrbgSha256 = ''Hash_DRBG-SHA-256''"
| "drbg_name HashDrbgSha384 = ''Hash_DRBG-SHA-384''"
| "drbg_name HashDrbgSha512 = ''Hash_DRBG-SHA-512''"
| "drbg_name HmacDrbgSha256 = ''HMAC_DRBG-SHA-256''"
| "drbg_name HmacDrbgSha384 = ''HMAC_DRBG-SHA-384''"
| "drbg_name HmacDrbgSha512 = ''HMAC_DRBG-SHA-512''"

datatype kdf_service =
    HkdfSha1
  | HkdfSha256
  | HkdfSha384
  | HkdfSha512
  | KbkdfHmacSha256
  | KbkdfHmacSha384
  | KbkdfHmacSha512
  | KbkdfCmacAes128
  | KbkdfCmacAes192
  | KbkdfCmacAes256
  | Pbkdf2HmacSha1
  | Pbkdf2HmacSha224
  | Pbkdf2HmacSha256
  | Pbkdf2HmacSha384
  | Pbkdf2HmacSha512

fun kdf_u16 :: "kdf_service \<Rightarrow> u16" where
  "kdf_u16 HkdfSha1 = 120"
| "kdf_u16 HkdfSha256 = 121"
| "kdf_u16 HkdfSha384 = 122"
| "kdf_u16 HkdfSha512 = 123"
| "kdf_u16 KbkdfHmacSha256 = 130"
| "kdf_u16 KbkdfHmacSha384 = 131"
| "kdf_u16 KbkdfHmacSha512 = 132"
| "kdf_u16 KbkdfCmacAes128 = 133"
| "kdf_u16 KbkdfCmacAes192 = 134"
| "kdf_u16 KbkdfCmacAes256 = 135"
| "kdf_u16 Pbkdf2HmacSha1 = 140"
| "kdf_u16 Pbkdf2HmacSha224 = 141"
| "kdf_u16 Pbkdf2HmacSha256 = 142"
| "kdf_u16 Pbkdf2HmacSha384 = 143"
| "kdf_u16 Pbkdf2HmacSha512 = 144"

fun kdf_name :: "kdf_service \<Rightarrow> string" where
  "kdf_name HkdfSha1 = ''HKDF-SHA-1''"
| "kdf_name HkdfSha256 = ''HKDF-SHA-256''"
| "kdf_name HkdfSha384 = ''HKDF-SHA-384''"
| "kdf_name HkdfSha512 = ''HKDF-SHA-512''"
| "kdf_name KbkdfHmacSha256 = ''KBKDF-HMAC-SHA-256''"
| "kdf_name KbkdfHmacSha384 = ''KBKDF-HMAC-SHA-384''"
| "kdf_name KbkdfHmacSha512 = ''KBKDF-HMAC-SHA-512''"
| "kdf_name KbkdfCmacAes128 = ''KBKDF-CMAC-AES-128''"
| "kdf_name KbkdfCmacAes192 = ''KBKDF-CMAC-AES-192''"
| "kdf_name KbkdfCmacAes256 = ''KBKDF-CMAC-AES-256''"
| "kdf_name Pbkdf2HmacSha1 = ''PBKDF2-HMAC-SHA-1''"
| "kdf_name Pbkdf2HmacSha224 = ''PBKDF2-HMAC-SHA-224''"
| "kdf_name Pbkdf2HmacSha256 = ''PBKDF2-HMAC-SHA-256''"
| "kdf_name Pbkdf2HmacSha384 = ''PBKDF2-HMAC-SHA-384''"
| "kdf_name Pbkdf2HmacSha512 = ''PBKDF2-HMAC-SHA-512''"

datatype rsa_service =
    RsaKeygen2048
  | RsaPkcs1v15Sign2048
  | RsaPssSign2048
  | RsaOaep2048
  | RsaPkcs1v15Verify2048
  | RsaPssVerify2048
  | RsaKeygen3072
  | RsaPkcs1v15Sign3072
  | RsaPssSign3072
  | RsaOaep3072
  | RsaPkcs1v15Verify3072
  | RsaPssVerify3072
  | RsaKeygen4096
  | RsaPkcs1v15Sign4096
  | RsaPssSign4096
  | RsaOaep4096
  | RsaPkcs1v15Verify4096
  | RsaPssVerify4096

fun rsa_u16 :: "rsa_service \<Rightarrow> u16" where
  "rsa_u16 RsaKeygen2048 = 150"
| "rsa_u16 RsaPkcs1v15Sign2048 = 151"
| "rsa_u16 RsaPssSign2048 = 152"
| "rsa_u16 RsaOaep2048 = 153"
| "rsa_u16 RsaPkcs1v15Verify2048 = 154"
| "rsa_u16 RsaPssVerify2048 = 155"
| "rsa_u16 RsaKeygen3072 = 160"
| "rsa_u16 RsaPkcs1v15Sign3072 = 161"
| "rsa_u16 RsaPssSign3072 = 162"
| "rsa_u16 RsaOaep3072 = 163"
| "rsa_u16 RsaPkcs1v15Verify3072 = 164"
| "rsa_u16 RsaPssVerify3072 = 165"
| "rsa_u16 RsaKeygen4096 = 170"
| "rsa_u16 RsaPkcs1v15Sign4096 = 171"
| "rsa_u16 RsaPssSign4096 = 172"
| "rsa_u16 RsaOaep4096 = 173"
| "rsa_u16 RsaPkcs1v15Verify4096 = 174"
| "rsa_u16 RsaPssVerify4096 = 175"

fun rsa_name :: "rsa_service \<Rightarrow> string" where
  "rsa_name RsaKeygen2048 = ''RSA-2048 keygen''"
| "rsa_name RsaPkcs1v15Sign2048 = ''RSA-PKCS1v1.5-Sign-2048''"
| "rsa_name RsaPssSign2048 = ''RSA-PSS-Sign-2048''"
| "rsa_name RsaOaep2048 = ''RSA-OAEP-2048''"
| "rsa_name RsaPkcs1v15Verify2048 = ''RSA-PKCS1v1.5-Verify-2048''"
| "rsa_name RsaPssVerify2048 = ''RSA-PSS-Verify-2048''"
| "rsa_name RsaKeygen3072 = ''RSA-3072 keygen''"
| "rsa_name RsaPkcs1v15Sign3072 = ''RSA-PKCS1v1.5-Sign-3072''"
| "rsa_name RsaPssSign3072 = ''RSA-PSS-Sign-3072''"
| "rsa_name RsaOaep3072 = ''RSA-OAEP-3072''"
| "rsa_name RsaPkcs1v15Verify3072 = ''RSA-PKCS1v1.5-Verify-3072''"
| "rsa_name RsaPssVerify3072 = ''RSA-PSS-Verify-3072''"
| "rsa_name RsaKeygen4096 = ''RSA-4096 keygen''"
| "rsa_name RsaPkcs1v15Sign4096 = ''RSA-PKCS1v1.5-Sign-4096''"
| "rsa_name RsaPssSign4096 = ''RSA-PSS-Sign-4096''"
| "rsa_name RsaOaep4096 = ''RSA-OAEP-4096''"
| "rsa_name RsaPkcs1v15Verify4096 = ''RSA-PKCS1v1.5-Verify-4096''"
| "rsa_name RsaPssVerify4096 = ''RSA-PSS-Verify-4096''"

datatype ecdsa_service =
    EcdsaP256Sign
  | EcdsaP256Verify
  | EcdsaP256Keygen
  | EcdsaP384Sign
  | EcdsaP384Verify
  | EcdsaP384Keygen

fun ecdsa_u16 :: "ecdsa_service \<Rightarrow> u16" where
  "ecdsa_u16 EcdsaP256Sign = 200"
| "ecdsa_u16 EcdsaP256Verify = 201"
| "ecdsa_u16 EcdsaP256Keygen = 202"
| "ecdsa_u16 EcdsaP384Sign = 210"
| "ecdsa_u16 EcdsaP384Verify = 211"
| "ecdsa_u16 EcdsaP384Keygen = 212"

fun ecdsa_name :: "ecdsa_service \<Rightarrow> string" where
  "ecdsa_name EcdsaP256Sign = ''ECDSA-P256 sign''"
| "ecdsa_name EcdsaP256Verify = ''ECDSA-P256 verify''"
| "ecdsa_name EcdsaP256Keygen = ''ECDSA-P256 keygen''"
| "ecdsa_name EcdsaP384Sign = ''ECDSA-P384 sign''"
| "ecdsa_name EcdsaP384Verify = ''ECDSA-P384 verify''"
| "ecdsa_name EcdsaP384Keygen = ''ECDSA-P384 keygen''"

datatype ecdh_service =
    EcdhP256
  | EcdhP384

fun ecdh_u16 :: "ecdh_service \<Rightarrow> u16" where
  "ecdh_u16 EcdhP256 = 220"
| "ecdh_u16 EcdhP384 = 221"

fun ecdh_name :: "ecdh_service \<Rightarrow> string" where
  "ecdh_name EcdhP256 = ''ECDH-P256''"
| "ecdh_name EcdhP384 = ''ECDH-P384''"

datatype eddsa_service =
    Ed25519Sign
  | Ed25519Verify
  | Ed25519Keygen

fun eddsa_u16 :: "eddsa_service \<Rightarrow> u16" where
  "eddsa_u16 Ed25519Sign = 230"
| "eddsa_u16 Ed25519Verify = 231"
| "eddsa_u16 Ed25519Keygen = 232"

fun eddsa_name :: "eddsa_service \<Rightarrow> string" where
  "eddsa_name Ed25519Sign = ''Ed25519 sign''"
| "eddsa_name Ed25519Verify = ''Ed25519 verify''"
| "eddsa_name Ed25519Keygen = ''Ed25519 keygen''"

datatype tls_kdf_service =
    Tls12Kdf
  | Tls13Kdf

fun tls_kdf_u16 :: "tls_kdf_service \<Rightarrow> u16" where
  "tls_kdf_u16 Tls12Kdf = 240"
| "tls_kdf_u16 Tls13Kdf = 241"

fun tls_kdf_name :: "tls_kdf_service \<Rightarrow> string" where
  "tls_kdf_name Tls12Kdf = ''TLS 1.2 KDF''"
| "tls_kdf_name Tls13Kdf = ''TLS 1.3 KDF''"

datatype ml_kem_service =
    MlKem1024Encaps
  | MlKem1024Decaps
  | MlKem1024Keygen
  | MlKem512Encaps
  | MlKem512Decaps
  | MlKem512Keygen
  | MlKem768Encaps
  | MlKem768Decaps
  | MlKem768Keygen

fun ml_kem_u16 :: "ml_kem_service \<Rightarrow> u16" where
  "ml_kem_u16 MlKem1024Encaps = 300"
| "ml_kem_u16 MlKem1024Decaps = 301"
| "ml_kem_u16 MlKem1024Keygen = 302"
| "ml_kem_u16 MlKem512Encaps = 303"
| "ml_kem_u16 MlKem512Decaps = 304"
| "ml_kem_u16 MlKem512Keygen = 305"
| "ml_kem_u16 MlKem768Encaps = 306"
| "ml_kem_u16 MlKem768Decaps = 307"
| "ml_kem_u16 MlKem768Keygen = 308"

fun ml_kem_name :: "ml_kem_service \<Rightarrow> string" where
  "ml_kem_name MlKem1024Encaps = ''ML-KEM-1024 encaps''"
| "ml_kem_name MlKem1024Decaps = ''ML-KEM-1024 decaps''"
| "ml_kem_name MlKem1024Keygen = ''ML-KEM-1024 keygen''"
| "ml_kem_name MlKem512Encaps = ''ML-KEM-512 encaps''"
| "ml_kem_name MlKem512Decaps = ''ML-KEM-512 decaps''"
| "ml_kem_name MlKem512Keygen = ''ML-KEM-512 keygen''"
| "ml_kem_name MlKem768Encaps = ''ML-KEM-768 encaps''"
| "ml_kem_name MlKem768Decaps = ''ML-KEM-768 decaps''"
| "ml_kem_name MlKem768Keygen = ''ML-KEM-768 keygen''"

datatype ml_dsa_service =
    MlDsa87Sign
  | MlDsa87Verify
  | MlDsa87Keygen
  | MlDsa44Sign
  | MlDsa44Verify
  | MlDsa44Keygen
  | MlDsa65Sign
  | MlDsa65Verify
  | MlDsa65Keygen

fun ml_dsa_u16 :: "ml_dsa_service \<Rightarrow> u16" where
  "ml_dsa_u16 MlDsa87Sign = 310"
| "ml_dsa_u16 MlDsa87Verify = 311"
| "ml_dsa_u16 MlDsa87Keygen = 312"
| "ml_dsa_u16 MlDsa44Sign = 313"
| "ml_dsa_u16 MlDsa44Verify = 314"
| "ml_dsa_u16 MlDsa44Keygen = 315"
| "ml_dsa_u16 MlDsa65Sign = 316"
| "ml_dsa_u16 MlDsa65Verify = 317"
| "ml_dsa_u16 MlDsa65Keygen = 318"

fun ml_dsa_name :: "ml_dsa_service \<Rightarrow> string" where
  "ml_dsa_name MlDsa87Sign = ''ML-DSA-87 sign''"
| "ml_dsa_name MlDsa87Verify = ''ML-DSA-87 verify''"
| "ml_dsa_name MlDsa87Keygen = ''ML-DSA-87 keygen''"
| "ml_dsa_name MlDsa44Sign = ''ML-DSA-44 sign''"
| "ml_dsa_name MlDsa44Verify = ''ML-DSA-44 verify''"
| "ml_dsa_name MlDsa44Keygen = ''ML-DSA-44 keygen''"
| "ml_dsa_name MlDsa65Sign = ''ML-DSA-65 sign''"
| "ml_dsa_name MlDsa65Verify = ''ML-DSA-65 verify''"
| "ml_dsa_name MlDsa65Keygen = ''ML-DSA-65 keygen''"

text \<open>SLH-DSA: twelve parameter sets, three consecutive discriminants each.\<close>

datatype slh_dsa_set =
    Sha2_256s
  | Sha2_128s
  | Sha2_128f
  | Sha2_192s
  | Sha2_192f
  | Sha2_256f
  | Shake_128s
  | Shake_128f
  | Shake_192s
  | Shake_192f
  | Shake_256s
  | Shake_256f

datatype slh_dsa_op = SlhKeygen | SlhSign | SlhVerify

fun slh_dsa_base :: "slh_dsa_set \<Rightarrow> u16" where
  "slh_dsa_base Sha2_256s = 320"
| "slh_dsa_base Sha2_128s = 323"
| "slh_dsa_base Sha2_128f = 326"
| "slh_dsa_base Sha2_192s = 329"
| "slh_dsa_base Sha2_192f = 332"
| "slh_dsa_base Sha2_256f = 335"
| "slh_dsa_base Shake_128s = 338"
| "slh_dsa_base Shake_128f = 341"
| "slh_dsa_base Shake_192s = 344"
| "slh_dsa_base Shake_192f = 347"
| "slh_dsa_base Shake_256s = 350"
| "slh_dsa_base Shake_256f = 353"

fun slh_dsa_offset :: "slh_dsa_op \<Rightarrow> u16" where
  "slh_dsa_offset SlhKeygen = 0"
| "slh_dsa_offset SlhSign = 1"
| "slh_dsa_offset SlhVerify = 2"

definition slh_dsa_u16 :: "slh_dsa_set \<Rightarrow> slh_dsa_op \<Rightarrow> u16" where
  "slh_dsa_u16 p x = slh_dsa_base p + slh_dsa_offset x"

fun slh_dsa_set_name :: "slh_dsa_set \<Rightarrow> string" where
  "slh_dsa_set_name Sha2_256s = ''SHA2-256s''"
| "slh_dsa_set_name Sha2_128s = ''SHA2-128s''"
| "slh_dsa_set_name Sha2_128f = ''SHA2-128f''"
| "slh_dsa_set_name Sha2_192s = ''SHA2-192s''"
| "slh_dsa_set_name Sha2_192f = ''SHA2-192f''"
| "slh_dsa_set_name Sha2_256f = ''SHA2-256f''"
| "slh_dsa_set_name Shake_128s = ''SHAKE-128s''"
| "slh_dsa_set_name Shake_128f = ''SHAKE-128f''"
| "slh_dsa_set_name Shake_192s = ''SHAKE-192s''"
| "slh_dsa_set_name Shake_192f = ''SHAKE-192f''"
| "slh_dsa_set_name Shake_256s = ''SHAKE-256s''"
| "slh_dsa_set_name Shake_256f = ''SHAKE-256f''"

fun slh_dsa_op_name :: "slh_dsa_op \<Rightarrow> string" where
  "slh_dsa_op_name SlhKeygen = ''keygen''"
| "slh_dsa_op_name SlhSign = ''sign''"
| "slh_dsa_op_name SlhVerify = ''verify''"

definition slh_dsa_name :: "slh_dsa_set \<Rightarrow> slh_dsa_op \<Rightarrow> string" where
  "slh_dsa_name p x = ''SLH-DSA-'' @ slh_dsa_set_name p @ '' '' @ slh_dsa_op_name x"

text \<open>LMS: per family, tree height ascending and then Winternitz parameter ascending.\<close>

datatype lms_family = Sha256M32 | Sha256M24 | ShakeM32 | ShakeM24
datatype lms_height = H5 | H10 | H15 | H20 | H25
datatype lms_width = W1 | W2 | W4 | W8

fun lms_base :: "lms_family \<Rightarrow> u16" where
  "lms_base Sha256M32 = 501"
| "lms_base Sha256M24 = 541"
| "lms_base ShakeM32 = 581"
| "lms_base ShakeM24 = 621"

fun lms_height_offset :: "lms_height \<Rightarrow> u16" where
  "lms_height_offset H5 = 0"
| "lms_height_offset H10 = 8"
| "lms_height_offset H15 = 16"
| "lms_height_offset H20 = 24"
| "lms_height_offset H25 = 32"

fun lms_width_offset :: "lms_width \<Rightarrow> u16" where
  "lms_width_offset W1 = 0"
| "lms_width_offset W2 = 2"
| "lms_width_offset W4 = 4"
| "lms_width_offset W8 = 6"

definition lms_u16 :: "lms_family \<Rightarrow> lms_height \<Rightarrow> lms_width \<Rightarrow> u16" where
  "lms_u16 f h w = lms_base f + lms_height_offset h + lms_width_offset w"

fun lms_family_name :: "lms_family \<Rightarrow> string" where
  "lms_family_name Sha256M32 = ''SHA-256 M=32''"
| "lms_family_name Sha256M24 = ''SHA-256 M=24''"
| "lms_family_name ShakeM32 = ''SHAKE M=32''"
| "lms_family_name ShakeM24 = ''SHAKE M=24''"

fun lms_height_name :: "lms_height \<Rightarrow> string" where
  "lms_height_name H5 = ''5''"
| "lms_height_name H10 = ''10''"
| "lms_height_name H15 = ''15''"
| "lms_height_name H20 = ''20''"
| "lms_height_name H25 = ''25''"

fun lms_width_name :: "lms_width \<Rightarrow> string" where
  "lms_width_name W1 = ''1''"
| "lms_width_name W2 = ''2''"
| "lms_width_name W4 = ''4''"
| "lms_width_name W8 = ''8''"

definition lms_name :: "lms_family \<Rightarrow> lms_height \<Rightarrow> lms_width \<Rightarrow> string" where
  "lms_name f h w = ''LMS '' @ lms_family_name f @ '' H='' @ lms_height_name h
     @ '' W='' @ lms_width_name w @ '' verify''"

subsection \<open>The service enumeration\<close>

datatype service =
    ShaS sha_service
  | XofS xof_service
  | HmacS hmac_service
  | CmacS cmac_service
  | AesS aes_service
  | DrbgS drbg_service
  | KdfS kdf_service
  | RsaS rsa_service
  | EcdsaS ecdsa_service
  | EcdhS ecdh_service
  | EddsaS eddsa_service
  | TlsKdfS tls_kdf_service
  | MlKemS ml_kem_service
  | MlDsaS ml_dsa_service
  | SlhDsaS slh_dsa_set slh_dsa_op
  | XmssVerify
  | Dh3072
  | LmsVerify lms_family lms_height lms_width

fun service_u16 :: "service \<Rightarrow> u16" where
  "service_u16 (ShaS s) = sha_u16 s"
| "service_u16 (XofS s) = xof_u16 s"
| "service_u16 (HmacS s) = hmac_u16 s"
| "service_u16 (CmacS s) = cmac_u16 s"
| "service_u16 (AesS s) = aes_u16 s"
| "service_u16 (DrbgS s) = drbg_u16 s"
| "service_u16 (KdfS s) = kdf_u16 s"
| "service_u16 (RsaS s) = rsa_u16 s"
| "service_u16 (EcdsaS s) = ecdsa_u16 s"
| "service_u16 (EcdhS s) = ecdh_u16 s"
| "service_u16 (EddsaS s) = eddsa_u16 s"
| "service_u16 (TlsKdfS s) = tls_kdf_u16 s"
| "service_u16 (MlKemS s) = ml_kem_u16 s"
| "service_u16 (MlDsaS s) = ml_dsa_u16 s"
| "service_u16 (SlhDsaS p x) = slh_dsa_u16 p x"
| "service_u16 XmssVerify = 371"
| "service_u16 Dh3072 = 380"
| "service_u16 (LmsVerify f h w) = lms_u16 f h w"

fun service_name :: "service \<Rightarrow> string" where
  "service_name (ShaS s) = sha_name s"
| "service_name (XofS s) = xof_name s"
| "service_name (HmacS s) = hmac_name s"
| "service_name (CmacS s) = cmac_name s"
| "service_name (AesS s) = aes_name s"
| "service_name (DrbgS s) = drbg_name s"
| "service_name (KdfS s) = kdf_name s"
| "service_name (RsaS s) = rsa_name s"
| "service_name (EcdsaS s) = ecdsa_name s"
| "service_name (EcdhS s) = ecdh_name s"
| "service_name (EddsaS s) = eddsa_name s"
| "service_name (TlsKdfS s) = tls_kdf_name s"
| "service_name (MlKemS s) = ml_kem_name s"
| "service_name (MlDsaS s) = ml_dsa_name s"
| "service_name (SlhDsaS p x) = slh_dsa_name p x"
| "service_name XmssVerify = ''XMSS verify''"
| "service_name Dh3072 = ''DH-3072''"
| "service_name (LmsVerify f h w) = lms_name f h w"

text \<open>Every service, in the order of the discriminants.\<close>

definition all_sha :: "sha_service list" where
  "all_sha = [Sha1, Sha224, Sha256, Sha384, Sha512, Sha512_224, Sha512_256, Sha3_224, Sha3_256, Sha3_384, Sha3_512]"

definition all_xof :: "xof_service list" where
  "all_xof = [Shake128, Shake256, CShake128, CShake256, Kmac128, Kmac256, KmacXof128, KmacXof256, TupleHash128, TupleHash256, TupleHashXof128, TupleHashXof256, ParallelHash128, ParallelHash256, ParallelHashXof128, ParallelHashXof256]"

definition all_hmac :: "hmac_service list" where
  "all_hmac = [HmacSha1, HmacSha224, HmacSha256, HmacSha384, HmacSha512, HmacSha512_224, HmacSha512_256, HmacSha3_224, HmacSha3_256, HmacSha3_384, HmacSha3_512]"

definition all_cmac :: "cmac_service list" where
  "all_cmac = [CmacAes128, CmacAes192, CmacAes256]"

definition all_aes :: "aes_service list" where
  "all_aes = [Aes128Ecb, Aes128Cbc, Aes128Ctr, Aes128Gcm, Aes128Ccm, Aes128Kw, Aes128Kwp, Aes192Ecb, Aes192Cbc, Aes192Ctr, Aes192Gcm, Aes192Ccm, Aes192Kw, Aes192Kwp, Aes256Ecb, Aes256Cbc, Aes256Ctr, Aes256Gcm, Aes256Ccm, Aes256Kw, Aes256Kwp, Aes128, Aes192, Aes256]"

definition all_drbg :: "drbg_service list" where
  "all_drbg = [CtrDrbgAes128, CtrDrbgAes192, CtrDrbgAes256, HashDrbgSha256, HashDrbgSha384, HashDrbgSha512, HmacDrbgSha256, HmacDrbgSha384, HmacDrbgSha512]"

definition all_kdf :: "kdf_service list" where
  "all_kdf = [HkdfSha1, HkdfSha256, HkdfSha384, HkdfSha512, KbkdfHmacSha256, KbkdfHmacSha384, KbkdfHmacSha512, KbkdfCmacAes128, KbkdfCmacAes192, KbkdfCmacAes256, Pbkdf2HmacSha1, Pbkdf2HmacSha224, Pbkdf2HmacSha256, Pbkdf2HmacSha384, Pbkdf2HmacSha512]"

definition all_rsa :: "rsa_service list" where
  "all_rsa = [RsaKeygen2048, RsaPkcs1v15Sign2048, RsaPssSign2048, RsaOaep2048, RsaPkcs1v15Verify2048, RsaPssVerify2048, RsaKeygen3072, RsaPkcs1v15Sign3072, RsaPssSign3072, RsaOaep3072, RsaPkcs1v15Verify3072, RsaPssVerify3072, RsaKeygen4096, RsaPkcs1v15Sign4096, RsaPssSign4096, RsaOaep4096, RsaPkcs1v15Verify4096, RsaPssVerify4096]"

definition all_ecdsa :: "ecdsa_service list" where
  "all_ecdsa = [EcdsaP256Sign, EcdsaP256Verify, EcdsaP256Keygen, EcdsaP384Sign, EcdsaP384Verify, EcdsaP384Keygen]"

definition all_ecdh :: "ecdh_service list" where
  "all_ecdh = [EcdhP256, EcdhP384]"

definition all_eddsa :: "eddsa_service list" where
  "all_eddsa = [Ed25519Sign, Ed25519Verify, Ed25519Keygen]"

definition all_tls_kdf :: "tls_kdf_service list" where
  "all_tls_kdf = [Tls12Kdf, Tls13Kdf]"

definition all_ml_kem :: "ml_kem_service list" where
  "all_ml_kem = [MlKem1024Encaps, MlKem1024Decaps, MlKem1024Keygen, MlKem512Encaps, MlKem512Decaps, MlKem512Keygen, MlKem768Encaps, MlKem768Decaps, MlKem768Keygen]"

definition all_ml_dsa :: "ml_dsa_service list" where
  "all_ml_dsa = [MlDsa87Sign, MlDsa87Verify, MlDsa87Keygen, MlDsa44Sign, MlDsa44Verify, MlDsa44Keygen, MlDsa65Sign, MlDsa65Verify, MlDsa65Keygen]"

definition all_slh_dsa :: "service list" where
  "all_slh_dsa =
     [SlhDsaS p x.
        p \<leftarrow> [Sha2_256s, Sha2_128s, Sha2_128f, Sha2_192s, Sha2_192f, Sha2_256f,
              Shake_128s, Shake_128f, Shake_192s, Shake_192f, Shake_256s, Shake_256f],
        x \<leftarrow> [SlhKeygen, SlhSign, SlhVerify]]"

definition all_lms :: "service list" where
  "all_lms =
     [LmsVerify f h w.
        f \<leftarrow> [Sha256M32, Sha256M24, ShakeM32, ShakeM24],
        h \<leftarrow> [H5, H10, H15, H20, H25],
        w \<leftarrow> [W1, W2, W4, W8]]"

definition all_services :: "service list" where
  "all_services =
     map ShaS all_sha @ map XofS all_xof @ map HmacS all_hmac @ map CmacS all_cmac @ map AesS all_aes @
     map DrbgS all_drbg @ map KdfS all_kdf @ map RsaS all_rsa @ map EcdsaS all_ecdsa @ map EcdhS all_ecdh @
     map EddsaS all_eddsa @ map TlsKdfS all_tls_kdf @ map MlKemS all_ml_kem @ map MlDsaS all_ml_dsa @
     all_slh_dsa @ [XmssVerify, Dh3072] @ all_lms"

subsection \<open>Profiles\<close>

datatype algorithm_profile = Unrestricted | Cnsa2 | Cnsa1 | Migration

fun profile_u8 :: "algorithm_profile \<Rightarrow> u8" where
  "profile_u8 Unrestricted = 0"
| "profile_u8 Cnsa2 = 1"
| "profile_u8 Cnsa1 = 2"
| "profile_u8 Migration = 3"

definition profile_from_u8 :: "u8 \<Rightarrow> algorithm_profile" where
  "profile_from_u8 raw =
     (if raw = 0 then Unrestricted
      else if raw = 2 then Cnsa1
      else if raw = 3 then Migration
      else Cnsa2)"

fun profile_name :: "algorithm_profile \<Rightarrow> string" where
  "profile_name Unrestricted = ''Unrestricted''"
| "profile_name Cnsa2 = ''CNSA 2.0''"
| "profile_name Cnsa1 = ''CNSA 1.0''"
| "profile_name Migration = ''Migration (CNSA 1.0 + CNSA 2.0)''"

text \<open>The LMS block: odd discriminants from the first LMS variant to the last.\<close>

definition lms_block_contains :: "u16 \<Rightarrow> bool" where
  "lms_block_contains discriminant \<longleftrightarrow>
     discriminant \<ge> service_u16 (LmsVerify Sha256M32 H5 W1) \<and>
     discriminant \<le> service_u16 (LmsVerify ShakeM24 H25 W8) \<and>
     discriminant AND 1 = 1"

definition is_lms_service :: "service \<Rightarrow> bool" where
  "is_lms_service s = lms_block_contains (service_u16 s)"

definition lms_services :: "service list" where
  "lms_services =
    [LmsVerify Sha256M32 H5 W1, LmsVerify Sha256M32 H5 W2, LmsVerify Sha256M32 H5 W4, LmsVerify Sha256M32 H5 W8,
     LmsVerify Sha256M32 H10 W1, LmsVerify Sha256M32 H10 W2, LmsVerify Sha256M32 H10 W4, LmsVerify Sha256M32 H10 W8,
     LmsVerify Sha256M32 H15 W1, LmsVerify Sha256M32 H15 W2, LmsVerify Sha256M32 H15 W4, LmsVerify Sha256M32 H15 W8,
     LmsVerify Sha256M32 H20 W1, LmsVerify Sha256M32 H20 W2, LmsVerify Sha256M32 H20 W4, LmsVerify Sha256M32 H20 W8,
     LmsVerify Sha256M32 H25 W1, LmsVerify Sha256M32 H25 W2, LmsVerify Sha256M32 H25 W4, LmsVerify Sha256M32 H25 W8,
     LmsVerify Sha256M24 H5 W1, LmsVerify Sha256M24 H5 W2, LmsVerify Sha256M24 H5 W4, LmsVerify Sha256M24 H5 W8,
     LmsVerify Sha256M24 H10 W1, LmsVerify Sha256M24 H10 W2, LmsVerify Sha256M24 H10 W4, LmsVerify Sha256M24 H10 W8,
     LmsVerify Sha256M24 H15 W1, LmsVerify Sha256M24 H15 W2, LmsVerify Sha256M24 H15 W4, LmsVerify Sha256M24 H15 W8,
     LmsVerify Sha256M24 H20 W1, LmsVerify Sha256M24 H20 W2, LmsVerify Sha256M24 H20 W4, LmsVerify Sha256M24 H20 W8,
     LmsVerify Sha256M24 H25 W1, LmsVerify Sha256M24 H25 W2, LmsVerify Sha256M24 H25 W4, LmsVerify Sha256M24 H25 W8,
     LmsVerify ShakeM32 H5 W1, LmsVerify ShakeM32 H5 W2, LmsVerify ShakeM32 H5 W4, LmsVerify ShakeM32 H5 W8,
     LmsVerify ShakeM32 H10 W1, LmsVerify ShakeM32 H10 W2, LmsVerify ShakeM32 H10 W4, LmsVerify ShakeM32 H10 W8,
     LmsVerify ShakeM32 H15 W1, LmsVerify ShakeM32 H15 W2, LmsVerify ShakeM32 H15 W4, LmsVerify ShakeM32 H15 W8,
     LmsVerify ShakeM32 H20 W1, LmsVerify ShakeM32 H20 W2, LmsVerify ShakeM32 H20 W4, LmsVerify ShakeM32 H20 W8,
     LmsVerify ShakeM32 H25 W1, LmsVerify ShakeM32 H25 W2, LmsVerify ShakeM32 H25 W4, LmsVerify ShakeM32 H25 W8,
     LmsVerify ShakeM24 H5 W1, LmsVerify ShakeM24 H5 W2, LmsVerify ShakeM24 H5 W4, LmsVerify ShakeM24 H5 W8,
     LmsVerify ShakeM24 H10 W1, LmsVerify ShakeM24 H10 W2, LmsVerify ShakeM24 H10 W4, LmsVerify ShakeM24 H10 W8,
     LmsVerify ShakeM24 H15 W1, LmsVerify ShakeM24 H15 W2, LmsVerify ShakeM24 H15 W4, LmsVerify ShakeM24 H15 W8,
     LmsVerify ShakeM24 H20 W1, LmsVerify ShakeM24 H20 W2, LmsVerify ShakeM24 H20 W4, LmsVerify ShakeM24 H20 W8,
     LmsVerify ShakeM24 H25 W1, LmsVerify ShakeM24 H25 W2, LmsVerify ShakeM24 H25 W4, LmsVerify ShakeM24 H25 W8]"

text \<open>The arms of the \<open>matches!\<close> expression of \<open>is_cnsa2_allowed\<close>, in source order.\<close>

definition cnsa2_services :: "service list" where
  "cnsa2_services =
    [AesS Aes256Ecb,
     AesS Aes256Cbc,
     AesS Aes256Ctr,
     AesS Aes256Gcm,
     AesS Aes256Ccm,
     AesS Aes256Kw,
     AesS Aes256Kwp,
     AesS Aes256,
     ShaS Sha384,
     ShaS Sha512,
     HmacS HmacSha384,
     HmacS HmacSha512,
     CmacS CmacAes256,
     DrbgS CtrDrbgAes256,
     DrbgS HashDrbgSha384,
     DrbgS HashDrbgSha512,
     DrbgS HmacDrbgSha384,
     DrbgS HmacDrbgSha512,
     KdfS HkdfSha384,
     KdfS HkdfSha512,
     KdfS KbkdfHmacSha384,
     KdfS KbkdfHmacSha512,
     KdfS KbkdfCmacAes256,
     MlKemS MlKem1024Encaps,
     MlKemS MlKem1024Decaps,
     MlKemS MlKem1024Keygen,
     MlDsaS MlDsa87Sign,
     MlDsaS MlDsa87Verify,
     MlDsaS MlDsa87Keygen,
     XmssVerify]"

definition is_cnsa2_allowed :: "service \<Rightarrow> bool" where
  "is_cnsa2_allowed s \<longleftrightarrow> s \<in> set cnsa2_services \<or> is_lms_service s"

text \<open>The arms of the \<open>matches!\<close> expression of \<open>is_cnsa1_allowed\<close>, in source order.\<close>

definition cnsa1_services :: "service list" where
  "cnsa1_services =
    [AesS Aes256,
     AesS Aes256Ecb,
     AesS Aes256Cbc,
     AesS Aes256Ctr,
     AesS Aes256Gcm,
     AesS Aes256Ccm,
     AesS Aes256Kw,
     AesS Aes256Kwp,
     EcdhS EcdhP384,
     EcdsaS EcdsaP384Keygen,
     EcdsaS EcdsaP384Sign,
     EcdsaS EcdsaP384Verify,
     ShaS Sha384,
     Dh3072,
     RsaS RsaKeygen3072,
     RsaS RsaKeygen4096,
     RsaS RsaOaep3072,
     RsaS RsaOaep4096,
     RsaS RsaPkcs1v15Sign3072,
     RsaS RsaPkcs1v15Sign4096,
     RsaS RsaPkcs1v15Verify3072,
     RsaS RsaPkcs1v15Verify4096,
     RsaS RsaPssSign3072,
     RsaS RsaPssSign4096,
     RsaS RsaPssVerify3072,
     RsaS RsaPssVerify4096,
     DrbgS CtrDrbgAes256,
     DrbgS HashDrbgSha384,
     DrbgS HmacDrbgSha384,
     HmacS HmacSha384,
     CmacS CmacAes256,
     KdfS HkdfSha384,
     KdfS KbkdfHmacSha384,
     KdfS KbkdfCmacAes256]"

definition is_cnsa1_allowed :: "service \<Rightarrow> bool" where
  "is_cnsa1_allowed s \<longleftrightarrow> s \<in> set cnsa1_services"

fun is_allowed :: "algorithm_profile \<Rightarrow> service \<Rightarrow> bool" where
  "is_allowed Unrestricted s = True"
| "is_allowed Cnsa2 s = is_cnsa2_allowed s"
| "is_allowed Cnsa1 s = is_cnsa1_allowed s"
| "is_allowed Migration s = (is_cnsa1_allowed s \<or> is_cnsa2_allowed s)"


subsection \<open>The enumeration is complete and its discriminants are distinct\<close>

lemmas all_family_defs =
  all_sha_def all_xof_def all_hmac_def all_cmac_def all_aes_def all_drbg_def all_kdf_def all_rsa_def all_ecdsa_def all_ecdh_def all_eddsa_def all_tls_kdf_def all_ml_kem_def all_ml_dsa_def

lemma all_services_complete: "s \<in> set all_services"
proof (cases s)
  case (SlhDsaS p x)
  then show ?thesis by (cases p; cases x) (simp_all add: all_services_def all_slh_dsa_def)
next
  case (LmsVerify f h w)
  then show ?thesis by (cases f; cases h; cases w) (simp_all add: all_services_def all_lms_def)
next
  case (ShaS x)
  then show ?thesis by (cases x) (simp_all add: all_services_def all_sha_def)
next
  case (XofS x)
  then show ?thesis by (cases x) (simp_all add: all_services_def all_xof_def)
next
  case (HmacS x)
  then show ?thesis by (cases x) (simp_all add: all_services_def all_hmac_def)
next
  case (CmacS x)
  then show ?thesis by (cases x) (simp_all add: all_services_def all_cmac_def)
next
  case (AesS x)
  then show ?thesis by (cases x) (simp_all add: all_services_def all_aes_def)
next
  case (DrbgS x)
  then show ?thesis by (cases x) (simp_all add: all_services_def all_drbg_def)
next
  case (KdfS x)
  then show ?thesis by (cases x) (simp_all add: all_services_def all_kdf_def)
next
  case (RsaS x)
  then show ?thesis by (cases x) (simp_all add: all_services_def all_rsa_def)
next
  case (EcdsaS x)
  then show ?thesis by (cases x) (simp_all add: all_services_def all_ecdsa_def)
next
  case (EcdhS x)
  then show ?thesis by (cases x) (simp_all add: all_services_def all_ecdh_def)
next
  case (EddsaS x)
  then show ?thesis by (cases x) (simp_all add: all_services_def all_eddsa_def)
next
  case (TlsKdfS x)
  then show ?thesis by (cases x) (simp_all add: all_services_def all_tls_kdf_def)
next
  case (MlKemS x)
  then show ?thesis by (cases x) (simp_all add: all_services_def all_ml_kem_def)
next
  case (MlDsaS x)
  then show ?thesis by (cases x) (simp_all add: all_services_def all_ml_dsa_def)
qed (simp_all add: all_services_def)

lemma all_services_ascending: "successively (<) (map service_u16 all_services)"
  by code_simp

lemma successively_less_distinct: "successively (<) (xs :: 'a::linorder list) \<Longrightarrow> distinct xs"
  by (simp add: successively_conv_sorted_wrt strict_sorted_iff)

lemma inj_service_u16: "inj service_u16"
proof (rule injI)
  fix s t :: service
  assume "service_u16 s = service_u16 t"
  moreover have "distinct (map service_u16 all_services)"
    by (rule successively_less_distinct) (rule all_services_ascending)
  ultimately show "s = t"
    by (auto simp: distinct_map inj_on_def all_services_complete)
qed

text \<open>The order of the \<open>repr(u16)\<close> discriminants.\<close>

instantiation service :: linorder
begin

definition less_eq_service :: "service \<Rightarrow> service \<Rightarrow> bool" where
  "less_eq_service s t \<longleftrightarrow> service_u16 s \<le> service_u16 t"

definition less_service :: "service \<Rightarrow> service \<Rightarrow> bool" where
  "less_service s t \<longleftrightarrow> service_u16 s < service_u16 t"

instance
  by standard
    (auto simp: less_eq_service_def less_service_def
       intro: le_neq_implies_less dest: injD [OF inj_service_u16])

end

lemma all_services_sorted: "sorted_wrt (<) all_services"
  using all_services_ascending
  by (simp add: less_service_def [abs_def] successively_conv_sorted_wrt sorted_wrt_map)

end
