(* ===== verification/Module_State.thy ===== *)
theory Module_State
  imports Module_Services
begin

unbundle bit_operations_syntax

text \<open>
  The module state word, the error type of the module boundary and the entry guards
  (\<^verbatim>\<open>src/crates/oxicrypt-module/src/lib.rs\<close>).  The atomic \<open>STATE\<close> is a 64-bit word and \<open>PROFILE\<close>
  a byte; a guard is a pure function of the value its atomic load returns, so that a caller
  chooses which value each load sees.
\<close>

subsection \<open>State and its encoding\<close>

datatype state = PowerOff | SelfTest | Operational | Error | IntegrityUnverified

fun state_u8 :: "state \<Rightarrow> u8" where
  "state_u8 PowerOff = 0"
| "state_u8 SelfTest = 1"
| "state_u8 Operational = 2"
| "state_u8 Error = 3"
| "state_u8 IntegrityUnverified = 4"

definition state_from_u8 :: "u8 \<Rightarrow> state" where
  "state_from_u8 raw =
     (if raw = 0 then PowerOff
      else if raw = 1 then SelfTest
      else if raw = 2 then Operational
      else if raw = 4 then IntegrityUnverified
      else Error)"

fun state_name :: "state \<Rightarrow> string" where
  "state_name PowerOff = ''PowerOff''"
| "state_name SelfTest = ''SelfTest''"
| "state_name Operational = ''Operational''"
| "state_name Error = ''Error''"
| "state_name IntegrityUnverified = ''IntegrityUnverified''"

abbreviation STATE_BITS :: nat where "STATE_BITS \<equiv> 8"

definition POWER_OFF :: u64 where "POWER_OFF = ucast (state_u8 PowerOff)"
definition OPERATIONAL :: u64 where "OPERATIONAL = ucast (state_u8 Operational)"
definition ERROR :: u64 where "ERROR = ucast (state_u8 Error)"
definition INTEGRITY_UNVERIFIED :: u64 where
  "INTEGRITY_UNVERIFIED = ucast (state_u8 IntegrityUnverified)"

definition self_test_word :: "u64 \<Rightarrow> u64" where
  "self_test_word owner = push_bit STATE_BITS owner OR ucast (state_u8 SelfTest)"

definition decode :: "u64 \<Rightarrow> state" where
  "decode word =
     (let discriminant = (ucast word :: u8);
          owned = drop_bit STATE_BITS word \<noteq> 0
      in case (state_from_u8 discriminant, owned) of
           (SelfTest, True) \<Rightarrow> SelfTest
         | (SelfTest, False) \<Rightarrow> Error
         | (_, True) \<Rightarrow> Error
         | (st, False) \<Rightarrow> st)"

text \<open>\<open>id.leading_zeros() >= 8\<close> is \<open>id < 2^56\<close>.\<close>

definition leading_zeros :: "u64 \<Rightarrow> nat" where
  "leading_zeros w = length (takeWhile Not (map (bit w) (rev [0..<64])))"

definition owner_id :: "u64 option \<Rightarrow> u64 option" where
  "owner_id raw =
     (case raw of
        None \<Rightarrow> None
      | Some tid \<Rightarrow> if tid \<noteq> 0 \<and> leading_zeros tid \<ge> STATE_BITS then Some tid else None)"

definition THREAD_ID_CHECK :: string where
  "THREAD_ID_CHECK = ''initialising thread id: none the module can record''"

subsection \<open>Errors of the module boundary\<close>

datatype error =
    NotOperational state
  | SelfTestFailed string
  | ConditionalTestFailed string
  | IntegrityNotAttested
  | AlreadyInitialized
  | AlreadyFailed
  | InvalidInput
  | AlgorithmRestricted service
  | NotImplemented
  | EntropyInputTooShort
  | NonceTooShort

text \<open>The marker a failing self-test returns.\<close>

datatype self_test_failure = SelfTestFailure

text \<open>
  \<open>Display\<close> of an error reads the active profile a second time, so the loaded profile byte is
  an argument.  The section sign of the two DRBG messages is written as its UTF-8 bytes.
\<close>

fun error_display :: "u8 \<Rightarrow> error \<Rightarrow> string" where
  "error_display _ (NotOperational current) =
     ''FIPS module not operational (state = '' @ state_name current @ '')''"
| "error_display _ (SelfTestFailed test) = ''FIPS power-up self-test failed: '' @ test"
| "error_display _ (ConditionalTestFailed reason) =
     ''FIPS conditional self-test failed: '' @ reason"
| "error_display _ IntegrityNotAttested =
     ''this module did not check itself at startup, so it cannot tell whether this '' @
     ''copy is the one that was built and signed. That does not mean the module is '' @
     ''damaged: the program that started it skipped the check.''"
| "error_display _ AlreadyInitialized = ''FIPS module already initialized''"
| "error_display _ AlreadyFailed =
     ''FIPS module initialization already failed; restart the process to retry''"
| "error_display _ InvalidInput = ''invalid input to FIPS service''"
| "error_display prof (AlgorithmRestricted service) =
     ''algorithm '' @ service_name service @ '' is not permitted under the '' @
     profile_name (profile_from_u8 prof) @ '' profile''"
| "error_display _ NotImplemented = ''algorithm not yet implemented''"
| "error_display _ EntropyInputTooShort =
     ''DRBG entropy input is shorter than the minimum for the instantiated '' @
     ''security strength (SP 800-90A Rev. 1 Tables 2 and 3)''"
| "error_display _ NonceTooShort =
     ''DRBG nonce is shorter than half the instantiated security strength, '' @
     ''the module's nonce floor (SP 800-90A Rev. 1 '' @ [CHR 0xC2, CHR 0xA7] @ ''9.1 step 8)''"

subsection \<open>Guards\<close>

definition is_operational :: "u64 \<Rightarrow> bool" where
  "is_operational word \<longleftrightarrow> word = OPERATIONAL"

definition require_operational :: "u64 \<Rightarrow> error + unit" where
  "require_operational word =
     (if word = OPERATIONAL then Inr () else Inl (NotOperational (decode word)))"

text \<open>The raw operating-system id of the calling thread, if any, is the first argument.\<close>

definition require_self_test_started :: "u64 option \<Rightarrow> u64 \<Rightarrow> error + unit" where
  "require_self_test_started os_tid word =
     (if word = OPERATIONAL then Inr ()
      else
        let current = decode word in
        if current = SelfTest \<and> map_option self_test_word (owner_id os_tid) = Some word
        then Inr ()
        else Inl (NotOperational current))"

definition require_allowed :: "u8 \<Rightarrow> service \<Rightarrow> error + unit" where
  "require_allowed prof service =
     (let profile = profile_from_u8 prof in
      if is_allowed profile service then Inr () else Inl (AlgorithmRestricted service))"

subsection \<open>Facts about the state word\<close>

lemma POWER_OFF_simp: "POWER_OFF = 0" by (simp add: POWER_OFF_def)
lemma OPERATIONAL_simp: "OPERATIONAL = 2" by (simp add: OPERATIONAL_def)
lemma ERROR_simp: "ERROR = 3" by (simp add: ERROR_def)
lemma INTEGRITY_UNVERIFIED_simp: "INTEGRITY_UNVERIFIED = 4" by (simp add: INTEGRITY_UNVERIFIED_def)

lemmas state_word_simps =
  POWER_OFF_simp OPERATIONAL_simp ERROR_simp INTEGRITY_UNVERIFIED_simp

lemma state_from_u8_state_u8 [simp]: "state_from_u8 (state_u8 st) = st"
  by (cases st) (simp_all add: state_from_u8_def)

lemma bit_self_test_word:
  "bit (self_test_word owner) n \<longleftrightarrow> (8 \<le> n \<and> n < 64 \<and> bit owner (n - 8)) \<or> n = 0"
  by (auto simp: self_test_word_def bit_simps bit_1_iff)

lemma low_byte_self_test_word: "(ucast (self_test_word owner) :: u8) = 1"
  by (rule bit_word_eqI) (auto simp: bit_simps bit_self_test_word bit_1_iff)

lemma less_2p_iff_bits:
  fixes w :: "'a::len word"
  shows "unat w < 2 ^ k \<longleftrightarrow> (\<forall>n \<ge> k. \<not> bit w n)"
proof -
  have "unat w < 2 ^ k \<longleftrightarrow> take_bit k (unat w) = unat w"
    by (simp add: take_bit_nat_eq_self_iff)
  also have "\<dots> \<longleftrightarrow> take_bit k w = w"
    by (metis unsigned_take_bit_eq unsigned_word_eqI)
  also have "\<dots> \<longleftrightarrow> (\<forall>n \<ge> k. \<not> bit w n)"
    by (simp add: bit_eq_iff bit_simps) (meson bit_imp_le_length linorder_not_le)
  finally show ?thesis .
qed

lemma owner_field_self_test_word:
  assumes "unat owner < 2 ^ 56"
  shows "drop_bit 8 (self_test_word owner) = owner"
proof (rule bit_word_eqI)
  fix n assume "n < LENGTH(64)"
  moreover have "\<not> bit owner n" if "56 \<le> n"
    using assms that unfolding less_2p_iff_bits by blast
  ultimately show "bit (drop_bit 8 (self_test_word owner)) n = bit owner n"
    by (auto simp: bit_simps bit_self_test_word not_le [symmetric])
qed

lemma le_length_takeWhile:
  "n \<le> length (takeWhile P xs) \<longleftrightarrow> n \<le> length xs \<and> (\<forall>i < n. P (xs ! i))"
proof (induction xs arbitrary: n)
  case (Cons x xs)
  show ?case
  proof (cases n)
    case (Suc m)
    then show ?thesis using Cons.IH [of m] by (auto simp: less_Suc_eq_0_disj)
  qed simp
qed auto

lemma leading_zeros_ge:
  assumes "k \<le> 64"
  shows "leading_zeros w \<ge> k \<longleftrightarrow> unat w < 2 ^ (64 - k)"
proof -
  have "leading_zeros w \<ge> k \<longleftrightarrow> (\<forall>i < k. \<not> bit w (63 - i))"
    using assms by (auto simp: leading_zeros_def le_length_takeWhile rev_nth)
  also have "\<dots> \<longleftrightarrow> (\<forall>n \<ge> 64 - k. \<not> bit w n)"
  proof safe
    fix n assume *: "\<forall>i < k. \<not> bit w (63 - i)" "64 - k \<le> n" "bit w n"
    from \<open>bit w n\<close> have "n < 64" using bit_imp_le_length by fastforce
    with * assms have "63 - n < k" "63 - (63 - n) = n" by arith+
    with * show False by metis
  next
    fix i assume *: "\<forall>n \<ge> 64 - k. \<not> bit w n" "i < k" "bit w (63 - i)"
    with assms have "64 - k \<le> 63 - i" by arith
    with * show False by blast
  qed
  finally show ?thesis by (simp add: less_2p_iff_bits)
qed

text \<open>An owner id the state word can hold.\<close>

definition valid_owner :: "u64 \<Rightarrow> bool" where
  "valid_owner own \<longleftrightarrow> own \<noteq> 0 \<and> unat own < 2 ^ 56"

lemma owner_id_Some_iff: "owner_id raw = Some own \<longleftrightarrow> raw = Some own \<and> valid_owner own"
  by (auto simp: owner_id_def valid_owner_def leading_zeros_ge split: option.splits if_splits)

lemma owner_id_valid: "owner_id raw = Some own \<Longrightarrow> valid_owner own"
  by (simp add: owner_id_Some_iff)

lemma decode_word_simps [simp]:
  "decode POWER_OFF = PowerOff" "decode OPERATIONAL = Operational"
  "decode ERROR = Error" "decode INTEGRITY_UNVERIFIED = IntegrityUnverified"
  by (simp_all add: decode_def state_word_simps state_from_u8_def)

lemma decode_self_test_word [simp]:
  "valid_owner own \<Longrightarrow> decode (self_test_word own) = SelfTest"
  by (simp add: decode_def low_byte_self_test_word owner_field_self_test_word valid_owner_def
      state_from_u8_def)

lemma self_test_word_inject:
  "valid_owner a \<Longrightarrow> valid_owner b \<Longrightarrow> self_test_word a = self_test_word b \<longleftrightarrow> a = b"
  by (metis owner_field_self_test_word valid_owner_def)

lemma self_test_word_distinct:
  assumes "valid_owner own"
  shows "self_test_word own \<noteq> POWER_OFF" "self_test_word own \<noteq> OPERATIONAL"
    "self_test_word own \<noteq> ERROR" "self_test_word own \<noteq> INTEGRITY_UNVERIFIED"
  using decode_self_test_word [OF assms] by (metis decode_word_simps state.distinct)+

lemma state_words_distinct [simp]:
  "POWER_OFF \<noteq> OPERATIONAL" "POWER_OFF \<noteq> ERROR" "POWER_OFF \<noteq> INTEGRITY_UNVERIFIED"
  "OPERATIONAL \<noteq> POWER_OFF" "OPERATIONAL \<noteq> ERROR" "OPERATIONAL \<noteq> INTEGRITY_UNVERIFIED"
  "ERROR \<noteq> POWER_OFF" "ERROR \<noteq> OPERATIONAL" "ERROR \<noteq> INTEGRITY_UNVERIFIED"
  "INTEGRITY_UNVERIFIED \<noteq> POWER_OFF" "INTEGRITY_UNVERIFIED \<noteq> OPERATIONAL"
  "INTEGRITY_UNVERIFIED \<noteq> ERROR"
  by (simp_all add: state_word_simps)

text \<open>A word whose low byte and owner field are known is known.\<close>

lemma word_from_fields:
  fixes w :: u64
  assumes "(ucast w :: u8) = b"
  shows "w = push_bit 8 (drop_bit 8 w) OR ucast b"
proof -
  have "bit (ucast w :: u8) n \<longleftrightarrow> bit b n" for n using assms by simp
  then have *: "bit b n \<longleftrightarrow> n < 8 \<and> bit w n" for n by (simp add: bit_simps)
  show ?thesis by (rule bit_word_eqI) (auto simp: bit_simps *)
qed

lemma state_from_u8_eq:
  "state_from_u8 b = PowerOff \<longleftrightarrow> b = 0"
  "state_from_u8 b = SelfTest \<longleftrightarrow> b = 1"
  "state_from_u8 b = Operational \<longleftrightarrow> b = 2"
  "state_from_u8 b = IntegrityUnverified \<longleftrightarrow> b = 4"
  by (simp_all add: state_from_u8_def)

lemma drop_8_less: "unat (drop_bit 8 (w :: u64)) < 2 ^ 56"
proof -
  have "\<not> bit (drop_bit 8 w) n" if "56 \<le> n" for n
    using that bit_imp_le_length [of w "8 + n"] by (auto simp: bit_simps)
  then show ?thesis unfolding less_2p_iff_bits by blast
qed

lemma decode_eq_iff:
  "decode w = PowerOff \<longleftrightarrow> w = POWER_OFF"
  "decode w = Operational \<longleftrightarrow> w = OPERATIONAL"
  "decode w = IntegrityUnverified \<longleftrightarrow> w = INTEGRITY_UNVERIFIED"
proof -
  have *: "decode w = st \<longleftrightarrow> state_from_u8 (ucast w) = st \<and> drop_bit 8 w = 0"
    if "st \<in> {PowerOff, Operational, IntegrityUnverified}" for st
    using that
    by (cases "state_from_u8 (ucast w)"; cases "drop_bit 8 w = 0") (auto simp: decode_def)
  have w: "w = ucast b" if "(ucast w :: u8) = b" "drop_bit 8 w = 0" for b
    using word_from_fields [OF that(1)] that(2) by simp
  show "decode w = PowerOff \<longleftrightarrow> w = POWER_OFF"
    using w [of 0] by (auto simp: * state_from_u8_eq state_word_simps)
  show "decode w = Operational \<longleftrightarrow> w = OPERATIONAL"
    using w [of 2] by (auto simp: * state_from_u8_eq state_word_simps)
  show "decode w = IntegrityUnverified \<longleftrightarrow> w = INTEGRITY_UNVERIFIED"
    using w [of 4] by (auto simp: * state_from_u8_eq state_word_simps)
qed

lemma decode_SelfTest_iff:
  "decode w = SelfTest \<longleftrightarrow> (\<exists>own. valid_owner own \<and> w = self_test_word own)"
proof
  assume d: "decode w = SelfTest"
  then have "(ucast w :: u8) = 1 \<and> drop_bit 8 w \<noteq> 0"
    by (cases "state_from_u8 (ucast w)"; cases "drop_bit 8 w = 0")
      (simp_all add: decode_def flip: state_from_u8_eq)
  then have "valid_owner (drop_bit 8 w)" "w = self_test_word (drop_bit 8 w)"
    using word_from_fields [of w 1]
    unfolding valid_owner_def by (simp_all only: drop_8_less self_test_word_def) simp_all
  then show "\<exists>own. valid_owner own \<and> w = self_test_word own" by blast
qed auto

subsection \<open>Guards, by cases of the word\<close>

lemma require_operational_ok [guard_simps]:
  "require_operational w = Inr x \<longleftrightarrow> w = OPERATIONAL"
  by (simp add: require_operational_def)

lemma require_operational_err [guard_simps]:
  "require_operational w = Inl e \<longleftrightarrow> w \<noteq> OPERATIONAL \<and> e = NotOperational (decode w)"
  by (auto simp: require_operational_def)

lemma require_operational_operational [simp]: "require_operational OPERATIONAL = Inr ()"
  by (simp add: require_operational_def)

lemma require_self_test_started_ok [guard_simps]:
  "require_self_test_started tid w = Inr x \<longleftrightarrow>
     w = OPERATIONAL \<or> (\<exists>own. tid = Some own \<and> valid_owner own \<and> w = self_test_word own)"
  by (auto simp: require_self_test_started_def Let_def owner_id_Some_iff)

lemma require_self_test_started_err [guard_simps]:
  "require_self_test_started tid w = Inl e \<Longrightarrow> e = NotOperational (decode w) \<and> w \<noteq> OPERATIONAL"
  by (auto simp: require_self_test_started_def Let_def split: if_splits)

lemma require_allowed_ok [guard_simps]:
  "require_allowed p s = Inr x \<longleftrightarrow> is_allowed (profile_from_u8 p) s"
  by (simp add: require_allowed_def Let_def)

lemma require_allowed_err [guard_simps]:
  "require_allowed p s = Inl e \<longleftrightarrow>
     \<not> is_allowed (profile_from_u8 p) s \<and> e = AlgorithmRestricted s"
  by (auto simp: require_allowed_def Let_def)

subsection \<open>How the state word may change\<close>

text \<open>
  One write of the state word, and any number of them.  The machine of \<open>Module_Machine\<close> makes no
  others; an operation that loads the word several times may rely on \<open>word_later\<close> between its
  loads.
\<close>

definition word_next :: "u64 \<Rightarrow> u64 \<Rightarrow> bool" where
  "word_next w w' \<longleftrightarrow>
     w' = w \<or> w' = ERROR \<or> (w = POWER_OFF \<and> decode w' = SelfTest) \<or>
     (decode w = SelfTest \<and> w' \<in> {OPERATIONAL, INTEGRITY_UNVERIFIED})"

definition word_later :: "u64 \<Rightarrow> u64 \<Rightarrow> bool" where
  "word_later w w' \<longleftrightarrow> word_next\<^sup>*\<^sup>* w w'"

lemma word_later_refl [simp, intro]: "word_later w w"
  by (simp add: word_later_def)

lemma word_later_next: "word_next w w' \<Longrightarrow> word_later w' w'' \<Longrightarrow> word_later w w''"
  by (simp add: word_later_def)

lemma word_later_invariant:
  assumes "word_later w w'" "P w" "\<And>v v'. word_next v v' \<Longrightarrow> P v \<Longrightarrow> P v'"
  shows "P w'"
  using assms(1) unfolding word_later_def by (induction rule: rtranclp_induct) (auto intro: assms)

lemma word_later_operational: "word_later OPERATIONAL w \<Longrightarrow> w \<in> {OPERATIONAL, ERROR}"
  by (rule word_later_invariant [where P = "\<lambda>w. w \<in> {OPERATIONAL, ERROR}"])
    (auto simp: word_next_def)

lemma word_later_error: "word_later ERROR w \<Longrightarrow> w = ERROR"
  by (rule word_later_invariant [where P = "\<lambda>w. w = ERROR"]) (auto simp: word_next_def)

lemma word_later_failed:
  "word_later w w' \<Longrightarrow> w \<in> {ERROR, INTEGRITY_UNVERIFIED} \<Longrightarrow> w' \<in> {ERROR, INTEGRITY_UNVERIFIED}"
  by (rule word_later_invariant [where P = "\<lambda>w. w \<in> {ERROR, INTEGRITY_UNVERIFIED}"])
    (auto simp: word_next_def)

end
