(* ===== verification/Module_Gating.thy ===== *)
theory Module_Gating
  imports Module_State
begin

unbundle bit_operations_syntax

text \<open>
  What the algorithm profiles admit (\<^verbatim>\<open>src/crates/oxicrypt-module/src/lib.rs\<close>, \<open>is_allowed\<close> and
  the LMS block).  Facts about single services are decided over the list of all of them.
\<close>

lemma lms_services_eq: "lms_services = all_lms"
  by (simp add: lms_services_def all_lms_def)

definition is_lms_variant :: "service \<Rightarrow> bool" where
  "is_lms_variant s = (case s of LmsVerify _ _ _ \<Rightarrow> True | _ \<Rightarrow> False)"

lemma all_lms_iff: "s \<in> set all_lms \<longleftrightarrow> is_lms_variant s"
proof (cases s)
  case (LmsVerify f h w)
  then show ?thesis by (cases f; cases h; cases w) (simp_all add: all_lms_def is_lms_variant_def)
qed (simp_all add: all_lms_def is_lms_variant_def)

lemma is_lms_service_variant: "is_lms_service s = is_lms_variant s"
proof -
  have "list_all (\<lambda>s. is_lms_service s = is_lms_variant s) all_services" by code_simp
  then show ?thesis using all_services_complete [of s] by (simp add: list_all_iff)
qed

lemma is_cnsa2_allowed_fast: "is_cnsa2_allowed s \<longleftrightarrow> is_lms_variant s \<or> List.member cnsa2_services s"
  by (auto simp: is_cnsa2_allowed_def is_lms_service_variant)

subsection \<open>Properties\<close>

text \<open>The arithmetic LMS test admits exactly the 80 LMS services: their discriminants are the
  odd numbers 501 to 659 in order, the raw test is true of exactly those numbers, and no other
  service of the enumeration sits on one of them.\<close>

theorem lms_block_exact:
  "map service_u16 lms_services = map (\<lambda>k. of_nat (501 + 2 * k)) [0..<80] \<and>
   (lms_block_contains d \<longleftrightarrow> 501 \<le> d \<and> d \<le> 659 \<and> odd (unat d)) \<and>
   (is_lms_service s \<longleftrightarrow> s \<in> set lms_services)"
proof (intro conjI)
  show "map service_u16 lms_services = map (\<lambda>k. of_nat (501 + 2 * k)) [0..<80]"
    by code_simp
  have "d AND 1 = 1 \<longleftrightarrow> odd (unat d)"
    using bit_unsigned_iff [of d 0, where 'a = nat]
    by (simp add: bit_0 and_one_eq odd_iff_mod_2_eq_one [where 'a = "16 word"])
  then show "lms_block_contains d \<longleftrightarrow> 501 \<le> d \<and> d \<le> 659 \<and> odd (unat d)"
    by (simp add: lms_block_contains_def lms_u16_def)
  show "is_lms_service s \<longleftrightarrow> s \<in> set lms_services"
    by (simp add: is_lms_service_variant lms_services_eq all_lms_iff)
qed

definition cnsa_shared :: "service list" where
  "cnsa_shared =
     map AesS [Aes256, Aes256Ecb, Aes256Cbc, Aes256Ctr, Aes256Gcm, Aes256Ccm, Aes256Kw, Aes256Kwp] @
     [ShaS Sha384, HmacS HmacSha384, CmacS CmacAes256] @
     map DrbgS [CtrDrbgAes256, HashDrbgSha384, HmacDrbgSha384] @
     map KdfS [HkdfSha384, KbkdfHmacSha384, KbkdfCmacAes256]"


text \<open>Services no CNSA profile is meant to admit, by what makes them unfit: a key, modulus, curve
  or digest below the suites' level, a Keccak function as such, or a function the suites do not
  name.\<close>

fun outside_cnsa :: "service \<Rightarrow> bool" where
  "outside_cnsa (ShaS s) \<longleftrightarrow> s \<notin> {Sha384, Sha512}"
| "outside_cnsa (XofS s) \<longleftrightarrow> True"
| "outside_cnsa (HmacS s) \<longleftrightarrow> s \<notin> {HmacSha384, HmacSha512}"
| "outside_cnsa (CmacS s) \<longleftrightarrow> s \<noteq> CmacAes256"
| "outside_cnsa (AesS s) \<longleftrightarrow>
     s \<in> {Aes128Ecb, Aes128Cbc, Aes128Ctr, Aes128Gcm, Aes128Ccm, Aes128Kw, Aes128Kwp, Aes128,
          Aes192Ecb, Aes192Cbc, Aes192Ctr, Aes192Gcm, Aes192Ccm, Aes192Kw, Aes192Kwp, Aes192}"
| "outside_cnsa (DrbgS s) \<longleftrightarrow> s \<in> {CtrDrbgAes128, CtrDrbgAes192, HashDrbgSha256, HmacDrbgSha256}"
| "outside_cnsa (KdfS s) \<longleftrightarrow>
     s \<in> {HkdfSha1, HkdfSha256, KbkdfHmacSha256, KbkdfCmacAes128, KbkdfCmacAes192, Pbkdf2HmacSha1,
          Pbkdf2HmacSha224, Pbkdf2HmacSha256, Pbkdf2HmacSha384, Pbkdf2HmacSha512}"
| "outside_cnsa (RsaS s) \<longleftrightarrow>
     s \<in> {RsaKeygen2048, RsaPkcs1v15Sign2048, RsaPssSign2048, RsaOaep2048,
          RsaPkcs1v15Verify2048, RsaPssVerify2048}"
| "outside_cnsa (EcdsaS s) \<longleftrightarrow> s \<in> {EcdsaP256Sign, EcdsaP256Verify, EcdsaP256Keygen}"
| "outside_cnsa (EcdhS s) \<longleftrightarrow> s = EcdhP256"
| "outside_cnsa (EddsaS s) \<longleftrightarrow> True"
| "outside_cnsa (TlsKdfS s) \<longleftrightarrow> True"
| "outside_cnsa (MlKemS s) \<longleftrightarrow> s \<notin> {MlKem1024Encaps, MlKem1024Decaps, MlKem1024Keygen}"
| "outside_cnsa (MlDsaS s) \<longleftrightarrow> s \<notin> {MlDsa87Sign, MlDsa87Verify, MlDsa87Keygen}"
| "outside_cnsa (SlhDsaS p x) \<longleftrightarrow> True"
| "outside_cnsa XmssVerify \<longleftrightarrow> False"
| "outside_cnsa Dh3072 \<longleftrightarrow> False"
| "outside_cnsa (LmsVerify f h w) \<longleftrightarrow> False"

lemma in_cnsa_services_iff:
  "s \<in> set cnsa1_services \<or> s \<in> set cnsa2_services \<or> is_lms_variant s \<longleftrightarrow> \<not> outside_cnsa s"
proof -
  have "list_all (\<lambda>s. (List.member cnsa1_services s \<or> List.member cnsa2_services s \<or> is_lms_variant s) =
      (\<not> outside_cnsa s)) all_services"
    by code_simp
  then show ?thesis using all_services_complete [of s] by (simp add: list_all_iff)
qed

lemma in_cnsa_shared_iff:
  "s \<in> set cnsa1_services \<and> (s \<in> set cnsa2_services \<or> is_lms_variant s) \<longleftrightarrow> s \<in> set cnsa_shared"
proof -
  have "list_all (\<lambda>s. (List.member cnsa1_services s \<and> (List.member cnsa2_services s \<or> is_lms_variant s)) =
      List.member cnsa_shared s) all_services"
    by code_simp
  then show ?thesis using all_services_complete [of s] by (simp add: list_all_iff)
qed

text \<open>The migration profile is the union of the two CNSA profiles; what the two share is
  AES-256, SHA-384 and the DRBGs, MAC and KDFs built on them, seventeen services in all; neither
  contains the other, since CNSA 1.0 alone admits RSA-3072 and P-384 and CNSA 2.0 alone admits
  ML-KEM-1024 and every LMS parameter set.\<close>

theorem profile_lattice:
  "(is_allowed Migration s \<longleftrightarrow> is_allowed Cnsa1 s \<or> is_allowed Cnsa2 s) \<and>
   (is_allowed Cnsa1 s \<and> is_allowed Cnsa2 s \<longleftrightarrow> s \<in> set cnsa_shared) \<and>
   (s \<in> {RsaS RsaKeygen3072, EcdsaS EcdsaP384Sign} \<longrightarrow> is_allowed Cnsa1 s \<and> \<not> is_allowed Cnsa2 s) \<and>
   (s \<in> {MlKemS MlKem1024Keygen, LmsVerify f h w} \<longrightarrow> is_allowed Cnsa2 s \<and> \<not> is_allowed Cnsa1 s)"
proof (intro conjI impI)
  show "is_allowed Cnsa1 s \<and> is_allowed Cnsa2 s \<longleftrightarrow> s \<in> set cnsa_shared"
    using in_cnsa_shared_iff [of s]
    by (simp add: is_cnsa1_allowed_def is_cnsa2_allowed_def is_lms_service_variant)
qed (auto simp: is_cnsa1_allowed_def is_cnsa2_allowed_def is_lms_service_variant
    is_lms_variant_def cnsa1_services_def cnsa2_services_def)

theorem profile_lattice_witness:
  "(is_allowed Migration (MlKemS MlKem1024Keygen) \<longleftrightarrow>
      is_allowed Cnsa1 (MlKemS MlKem1024Keygen) \<or> is_allowed Cnsa2 (MlKemS MlKem1024Keygen)) \<and>
   is_allowed Cnsa2 (MlKemS MlKem1024Keygen) \<and> \<not> is_allowed Cnsa1 (MlKemS MlKem1024Keygen)"
  using profile_lattice [of "MlKemS MlKem1024Keygen" Sha256M32 H5 W1] by blast

text \<open>C8: Fail-safe default.  Whatever byte the profile word holds other than 0, a service outside
  the two suites (SHA-1, SHA-256 and the truncations, every Keccak hash, XOF and MAC, AES-128 and
  AES-192, RSA-2048, P-256, Ed25519, PBKDF2, the TLS KDFs, SLH-DSA, the smaller ML-KEM and ML-DSA
  sets and the DRBGs, MACs and KDFs below the suites' level) is refused, and under the migration
  profile nothing else is.\<close>

theorem restricted_profiles_refuse:
  "(p \<noteq> 0 \<and> outside_cnsa s \<longrightarrow> require_allowed p s = Inl (AlgorithmRestricted s)) \<and>
   (require_allowed 3 s = Inr () \<longleftrightarrow> \<not> outside_cnsa s)"
proof -
  have "\<not> is_allowed (profile_from_u8 p) s" if "p \<noteq> 0" "outside_cnsa s"
    using that in_cnsa_services_iff [of s]
    by (auto simp: profile_from_u8_def is_cnsa1_allowed_def is_cnsa2_allowed_def is_lms_service_variant)
  moreover have "is_allowed (profile_from_u8 3) s \<longleftrightarrow> \<not> outside_cnsa s"
    using in_cnsa_services_iff [of s]
    by (auto simp: profile_from_u8_def is_cnsa1_allowed_def is_cnsa2_allowed_def is_lms_service_variant)
  ultimately show ?thesis by (auto simp: require_allowed_ok require_allowed_err)
qed

theorem restricted_profiles_refuse_witness:
  "require_allowed 77 (ShaS Sha256) = Inl (AlgorithmRestricted (ShaS Sha256)) \<and>
   (require_allowed 3 (ShaS Sha256) = Inr () \<longleftrightarrow> \<not> outside_cnsa (ShaS Sha256))"
  using restricted_profiles_refuse [of 77 "ShaS Sha256"] by simp

end
