(* ===== verification/Module_Machine.thy ===== *)
theory Module_Machine
  imports Module_State
begin

unbundle bit_operations_syntax

text \<open>
  Initialisation of the module as a machine of interleaved calls
  (\<^verbatim>\<open>initialize_as\<close>, \<^verbatim>\<open>settle\<close>, \<^verbatim>\<open>already_left_power_off\<close>, \<^verbatim>\<open>UnwindToError\<close> and
  \<^verbatim>\<open>enter_error_state\<close> of \<^verbatim>\<open>src/crates/oxicrypt-module/src/lib.rs\<close>).  Any number of calls,
  numbered by natural numbers, run concurrently; a step is one access to \<open>STATE\<close> or \<open>PROFILE\<close>,
  or one self-test, of one call, or a conditional self-test latching the error state from
  anywhere.  The accesses interleave sequentially.  The outcome of a self-test is chosen by
  the step, unwinding included.
\<close>

subsection \<open>A call of initialize\<close>

record kat_entry =
  kat_name :: string

datatype kat_outcome = Pass | Fail | Unwind

record init_args =
  arg_tid :: "u64 option"
  arg_integrity :: "kat_entry list"
  arg_tests :: "kat_entry list"
  arg_profile :: algorithm_profile

text \<open>\<open>compare_exchange(current, new)\<close>: the result, and the word afterwards.\<close>

definition compare_exchange :: "'w \<Rightarrow> 'w \<Rightarrow> 'w \<Rightarrow> ('w + 'w) \<times> 'w" where
  "compare_exchange current new w = (if w = current then (Inr w, new) else (Inl w, w))"

definition claim_of :: "init_args \<Rightarrow> u64" where
  "claim_of a = (case owner_id (arg_tid a) of None \<Rightarrow> ERROR | Some own \<Rightarrow> self_test_word own)"

abbreviation entries :: "init_args \<Rightarrow> kat_entry list" where
  "entries a \<equiv> arg_integrity a @ arg_tests a"

text \<open>
  Where a call stands.  \<open>Settling to e\<close> and \<open>Dropping r\<close> are about to exchange the claim;
  \<open>r = None\<close> is a call that is unwinding, and \<open>Finished None\<close> one that has unwound.
  \<open>Waiting observed\<close> is \<open>already_left_power_off\<close> with the word it last loaded.
\<close>

datatype pc =
    Entry
  | RunTest nat
  | StoreProfile
  | CasOperational
  | RestoreProfile
  | LoadState
  | Settling u64 error
  | Dropping "(error + unit) option"
  | Waiting u64
  | Finished "(error + unit) option"

definition settle :: "u64 \<Rightarrow> u64 \<Rightarrow> u64 \<Rightarrow> u64" where
  "settle claim to w = snd (compare_exchange claim to w)"

text \<open>What the losing call reports once it stops waiting.\<close>

fun loser_error :: "state \<Rightarrow> error" where
  "loser_error Operational = AlreadyInitialized"
| "loser_error SelfTest = NotOperational SelfTest"
| "loser_error PowerOff = AlreadyFailed"
| "loser_error Error = AlreadyFailed"
| "loser_error IntegrityUnverified = AlreadyFailed"

definition next_test :: "init_args \<Rightarrow> nat \<Rightarrow> pc" where
  "next_test a k = (if k < length (entries a) then RunTest k else StoreProfile)"

fun call_step :: "init_args \<Rightarrow> kat_outcome \<Rightarrow> pc \<Rightarrow> u64 \<Rightarrow> u8 \<Rightarrow> pc \<times> u64 \<times> u8" where
  "call_step a out Entry w p =
     (case compare_exchange POWER_OFF (claim_of a) w of
        (Inl observed, w') \<Rightarrow> (Waiting observed, w', p)
      | (Inr _, w') \<Rightarrow>
          (if owner_id (arg_tid a) = None
           then Finished (Some (Inl (SelfTestFailed THREAD_ID_CHECK)))
           else if arg_integrity a = [] then Settling INTEGRITY_UNVERIFIED IntegrityNotAttested
           else next_test a 0, w', p))"
| "call_step a out (RunTest k) w p =
     (case out of
        Pass \<Rightarrow> (next_test a (k + 1), w, p)
      | Fail \<Rightarrow> (Settling ERROR (SelfTestFailed (kat_name (entries a ! k))), w, p)
      | Unwind \<Rightarrow> (Dropping None, w, p))"
| "call_step a out (Settling to e) w p =
     (Dropping (Some (Inl e)), settle (claim_of a) to w, p)"
| "call_step a out StoreProfile w p =
     (CasOperational, w, profile_u8 (arg_profile a))"
| "call_step a out CasOperational w p =
     (case compare_exchange (claim_of a) OPERATIONAL w of
        (Inr _, w') \<Rightarrow> (Dropping (Some (Inr ())), w', p)
      | (Inl _, w') \<Rightarrow> (RestoreProfile, w', p))"
| "call_step a out RestoreProfile w p = (LoadState, w, profile_u8 Unrestricted)"
| "call_step a out LoadState w p =
     (Dropping (Some (Inl (NotOperational (decode w)))), w, p)"
| "call_step a out (Dropping r) w p = (Finished r, settle (claim_of a) ERROR w, p)"
| "call_step a out (Waiting observed) w p =
     (if decode observed = SelfTest \<and> observed \<noteq> claim_of a then (Waiting w, w, p)
      else (Finished (Some (Inl (loser_error (decode observed)))), w, p))"
| "call_step a out (Finished r) w p = (Finished r, w, p)"

subsection \<open>The machine\<close>

text \<open>
  \<open>winner\<close> and \<open>runs\<close> are ghost state: the call that claimed \<open>SelfTest\<close>, and every self-test run,
  as the call, the index of the entry and its outcome, in order.
\<close>

record machine =
  word :: u64
  prof :: u8
  pcs :: "nat \<Rightarrow> pc"
  winner :: "nat option"
  runs :: "(nat \<times> nat \<times> kat_outcome) list"

definition power_on :: machine where
  "power_on = \<lparr>word = POWER_OFF, prof = profile_u8 Unrestricted, pcs = (\<lambda>_. Entry),
     winner = None, runs = []\<rparr>"

datatype label = Call nat kat_outcome | Latch

definition enter_error_state :: "machine \<Rightarrow> machine" where
  "enter_error_state m = m\<lparr>word := ERROR\<rparr>"

definition run_call :: "(nat \<Rightarrow> init_args) \<Rightarrow> nat \<Rightarrow> kat_outcome \<Rightarrow> machine \<Rightarrow> machine" where
  "run_call as i out m =
     (let (pc', w', p') = call_step (as i) out (pcs m i) (word m) (prof m) in
      \<lparr>word = w', prof = p', pcs = (pcs m)(i := pc'),
       winner = (if pcs m i = Entry \<and> word m = POWER_OFF \<and> owner_id (arg_tid (as i)) \<noteq> None
                 then Some i else winner m),
       runs = (case pcs m i of RunTest k \<Rightarrow> runs m @ [(i, k, out)] | _ \<Rightarrow> runs m)\<rparr>)"

fun exec_label :: "(nat \<Rightarrow> init_args) \<Rightarrow> label \<Rightarrow> machine \<Rightarrow> machine" where
  "exec_label as (Call i out) m = run_call as i out m"
| "exec_label as Latch m = enter_error_state m"

definition exec :: "(nat \<Rightarrow> init_args) \<Rightarrow> label list \<Rightarrow> machine \<Rightarrow> machine" where
  "exec as ls m = fold (exec_label as) ls m"

inductive reach :: "(nat \<Rightarrow> init_args) \<Rightarrow> machine \<Rightarrow> bool" for as where
  reach_init: "reach as power_on"
| reach_step: "reach as m \<Longrightarrow> reach as (exec_label as l m)"

lemma exec_simps [simp]:
  "exec as [] m = m"
  "exec as (l # ls) m = exec as ls (exec_label as l m)"
  "exec as (ls @ ls') m = exec as ls' (exec as ls m)"
  by (simp_all add: exec_def)

lemma reach_exec: "reach as m \<Longrightarrow> reach as (exec as ls m)"
  by (induction ls arbitrary: m) (auto intro: reach_step)

lemma reach_run_call: "reach as m \<Longrightarrow> reach as (run_call as i out m)"
  using reach_step [of as m "Call i out"] by simp

subsection \<open>The invariant\<close>

definition passes :: "nat \<Rightarrow> nat \<Rightarrow> (nat \<times> nat \<times> kat_outcome) list" where
  "passes i k = map (\<lambda>t. (i, t, Pass)) [0..<k]"

lemma passes_simps [simp]:
  "passes i 0 = []" "passes i (Suc k) = passes i k @ [(i, k, Pass)]"
  by (simp_all add: passes_def)

lemma length_passes [simp]: "length (passes i k) = k"
  by (simp add: passes_def)

text \<open>The error a failed test, an empty integrity group or a latched error returns.\<close>

definition failed_run :: "init_args \<Rightarrow> nat \<Rightarrow> error \<Rightarrow> (nat \<times> nat \<times> kat_outcome) list \<Rightarrow> bool" where
  "failed_run a i e rs \<longleftrightarrow>
     (\<exists>k < length (entries a). rs = passes i k @ [(i, k, Fail)] \<and>
        e = SelfTestFailed (kat_name (entries a ! k)))"

text \<open>What holds once the call has a result \<open>r\<close>, \<open>None\<close> being an unwinding.\<close>

fun result_inv ::
  "init_args \<Rightarrow> nat \<Rightarrow> (error + unit) option \<Rightarrow> u64 \<Rightarrow> u8 \<Rightarrow> (nat \<times> nat \<times> kat_outcome) list \<Rightarrow> bool"
where
  "result_inv a i (Some (Inr _)) w p rs \<longleftrightarrow>
     w \<in> {OPERATIONAL, ERROR} \<and> p = profile_u8 (arg_profile a) \<and>
     arg_integrity a \<noteq> [] \<and> rs = passes i (length (entries a))"
| "result_inv a i (Some (Inl e)) w p rs \<longleftrightarrow>
     p = 0 \<and>
     (e = IntegrityNotAttested \<and> arg_integrity a = [] \<and> rs = [] \<and>
        w \<in> {INTEGRITY_UNVERIFIED, ERROR} \<or>
      arg_integrity a \<noteq> [] \<and> w = ERROR \<and>
        (failed_run a i e rs \<or>
         e = NotOperational Error \<and> rs = passes i (length (entries a))))"
| "result_inv a i None w p rs \<longleftrightarrow>
     p = 0 \<and> w \<in> {claim_of a, ERROR} \<and> arg_integrity a \<noteq> [] \<and>
     (\<exists>k < length (entries a). rs = passes i k @ [(i, k, Unwind)])"

fun winner_inv :: "init_args \<Rightarrow> nat \<Rightarrow> pc \<Rightarrow> u64 \<Rightarrow> u8 \<Rightarrow> (nat \<times> nat \<times> kat_outcome) list \<Rightarrow> bool" where
  "winner_inv a i (RunTest k) w p rs \<longleftrightarrow>
     w \<in> {claim_of a, ERROR} \<and> p = 0 \<and> arg_integrity a \<noteq> [] \<and>
     k < length (entries a) \<and> rs = passes i k"
| "winner_inv a i (Settling to e) w p rs \<longleftrightarrow>
     w \<in> {claim_of a, ERROR} \<and> p = 0 \<and>
     (to = INTEGRITY_UNVERIFIED \<and> e = IntegrityNotAttested \<and> arg_integrity a = [] \<and> rs = [] \<or>
      to = ERROR \<and> arg_integrity a \<noteq> [] \<and> failed_run a i e rs)"
| "winner_inv a i StoreProfile w p rs \<longleftrightarrow>
     w \<in> {claim_of a, ERROR} \<and> p = 0 \<and> arg_integrity a \<noteq> [] \<and> rs = passes i (length (entries a))"
| "winner_inv a i CasOperational w p rs \<longleftrightarrow>
     w \<in> {claim_of a, ERROR} \<and> p = profile_u8 (arg_profile a) \<and> arg_integrity a \<noteq> [] \<and>
     rs = passes i (length (entries a))"
| "winner_inv a i RestoreProfile w p rs \<longleftrightarrow>
     w = ERROR \<and> arg_integrity a \<noteq> [] \<and> rs = passes i (length (entries a))"
| "winner_inv a i LoadState w p rs \<longleftrightarrow>
     w = ERROR \<and> p = 0 \<and> arg_integrity a \<noteq> [] \<and> rs = passes i (length (entries a))"
| "winner_inv a i (Dropping r) w p rs \<longleftrightarrow> result_inv a i r w p rs"
| "winner_inv a i (Finished r) w p rs \<longleftrightarrow> result_inv a i r w p rs \<and> (r = None \<longrightarrow> w = ERROR)"
| "winner_inv a i Entry w p rs \<longleftrightarrow> False"
| "winner_inv a i (Waiting obs) w p rs \<longleftrightarrow> False"

text \<open>A call that did not win: not started, waiting, or finished with a loser's error.\<close>

definition loser_errors :: "error set" where
  "loser_errors =
     {AlreadyInitialized, AlreadyFailed, NotOperational SelfTest, SelfTestFailed THREAD_ID_CHECK}"

fun loser_inv :: "pc \<Rightarrow> bool" where
  "loser_inv Entry \<longleftrightarrow> True"
| "loser_inv (Waiting _) \<longleftrightarrow> True"
| "loser_inv (Finished (Some (Inl e))) \<longleftrightarrow> e \<in> loser_errors"
| "loser_inv _ \<longleftrightarrow> False"

definition machine_inv :: "(nat \<Rightarrow> init_args) \<Rightarrow> machine \<Rightarrow> bool" where
  "machine_inv as m \<longleftrightarrow>
     (\<forall>j. winner m \<noteq> Some j \<longrightarrow> loser_inv (pcs m j)) \<and>
     (case winner m of
        None \<Rightarrow> word m \<in> {POWER_OFF, ERROR} \<and> prof m = 0 \<and> runs m = []
      | Some i \<Rightarrow> (\<exists>own. owner_id (arg_tid (as i)) = Some own) \<and>
          winner_inv (as i) i (pcs m i) (word m) (prof m) (runs m))"

lemma claim_of_owner: "owner_id (arg_tid a) = Some own \<Longrightarrow> claim_of a = self_test_word own"
  by (simp only: claim_of_def option.case)

lemma claim_words:
  assumes "owner_id (arg_tid a) = Some own"
  shows "claim_of a \<notin> {POWER_OFF, OPERATIONAL, ERROR, INTEGRITY_UNVERIFIED}"
    "decode (claim_of a) = SelfTest"
  using self_test_word_distinct [OF owner_id_valid [OF assms]] owner_id_valid [OF assms]
  by (simp_all add: claim_of_owner [OF assms])

lemma claim_not_POWER_OFF: "claim_of a \<noteq> POWER_OFF"
  using claim_words(1) [of a] by (cases "owner_id (arg_tid a)") (auto simp: claim_of_def [of a])

lemma compare_exchange_eq [simp]: "compare_exchange c n c = (Inr c, n)"
  by (simp add: compare_exchange_def)

lemma compare_exchange_neq [simp]: "w \<noteq> c \<Longrightarrow> compare_exchange c n w = (Inl w, w)"
  by (simp add: compare_exchange_def)

lemma settle_simps [simp]:
  "settle c to c = to" "w \<noteq> c \<Longrightarrow> settle c to w = w"
  by (simp_all add: settle_def)

lemma winner_inv_latch: "winner_inv a i pc w p rs \<Longrightarrow> winner_inv a i pc ERROR p rs"
proof (cases pc)
  case (Dropping r)
  assume "winner_inv a i pc w p rs"
  with Dropping show ?thesis by (cases "(a, i, r, w, p, rs)" rule: result_inv.cases) auto
next
  case (Finished r)
  assume "winner_inv a i pc w p rs"
  with Finished show ?thesis by (cases "(a, i, r, w, p, rs)" rule: result_inv.cases) auto
qed auto

lemma winner_inv_word: "winner_inv a i pc w p rs \<Longrightarrow> w \<noteq> POWER_OFF"
proof (cases pc)
  case (Dropping r)
  assume "winner_inv a i pc w p rs"
  with Dropping claim_not_POWER_OFF [of a] show ?thesis
    by (cases "(a, i, r, w, p, rs)" rule: result_inv.cases) auto
next
  case (Finished r)
  assume "winner_inv a i pc w p rs"
  with Finished claim_not_POWER_OFF [of a] show ?thesis
    by (cases "(a, i, r, w, p, rs)" rule: result_inv.cases) auto
qed (use claim_not_POWER_OFF [of a] in auto)

lemma result_inv_drop:
  assumes own: "owner_id (arg_tid a) = Some own" and inv: "result_inv a i r w p rs"
  shows "winner_inv a i (Finished r) (settle (claim_of a) ERROR w) p rs"
  using inv claim_words(1) [OF own]
  by (cases "(a, i, r, w, p, rs)" rule: result_inv.cases) auto

definition runs_after :: "nat \<Rightarrow> kat_outcome \<Rightarrow> pc \<Rightarrow> (nat \<times> nat \<times> kat_outcome) list
    \<Rightarrow> (nat \<times> nat \<times> kat_outcome) list" where
  "runs_after i out pc rs = (case pc of RunTest k \<Rightarrow> rs @ [(i, k, out)] | _ \<Rightarrow> rs)"

lemma winner_inv_next:
  assumes "w \<in> {claim_of a, ERROR}" "arg_integrity a \<noteq> []" "k \<le> length (entries a)"
  shows "winner_inv a i (next_test a k) w 0 (passes i k)"
  using assms by (cases "k = length (entries a)") (auto simp: next_test_def)

lemma winner_inv_step:
  assumes own: "owner_id (arg_tid a) = Some own"
    and inv: "winner_inv a i pc w p rs"
    and step: "call_step a out pc w p = (pc', w', p')"
  shows "winner_inv a i pc' w' p' (runs_after i out pc rs)"
proof (cases pc)
  case (RunTest k)
  show ?thesis
  proof (cases out)
    case Pass
    with RunTest inv step show ?thesis
      using winner_inv_next [of w a "Suc k" i] by (auto simp: runs_after_def)
  next
    case Fail
    with RunTest inv step show ?thesis by (auto simp: runs_after_def failed_run_def)
  next
    case Unwind
    with RunTest inv step show ?thesis by (auto simp: runs_after_def)
  qed
next
  case (Settling to e)
  with inv step claim_words(1) [OF own] show ?thesis by (auto simp: runs_after_def)
next
  case CasOperational
  with inv step claim_words(1) [OF own] show ?thesis by (auto simp: runs_after_def)
next
  case (Dropping r)
  with inv step show ?thesis using result_inv_drop [OF own] by (auto simp: runs_after_def)
qed (use inv step in \<open>auto simp: runs_after_def\<close>)

lemma loser_inv_step:
  assumes "loser_inv pc" "w \<noteq> POWER_OFF" "call_step a out pc w p = (pc', w', p')"
  shows "loser_inv pc' \<and> w' = w \<and> p' = p"
proof (cases pc)
  case (Waiting obs)
  with assms show ?thesis
    by (cases "decode obs") (auto simp: loser_errors_def split: if_splits)
qed (use assms in auto)

lemma loser_not_running: "loser_inv pc \<Longrightarrow> runs_after i out pc rs = rs"
  by (cases pc) (auto simp: runs_after_def)

lemma run_call_eq:
  assumes "call_step (as i) out (pcs m i) (word m) (prof m) = (pc', w', p')"
  shows "run_call as i out m =
    \<lparr>word = w', prof = p', pcs = (pcs m)(i := pc'),
     winner = (if pcs m i = Entry \<and> word m = POWER_OFF \<and> owner_id (arg_tid (as i)) \<noteq> None
               then Some i else winner m),
     runs = runs_after i out (pcs m i) (runs m)\<rparr>"
  using assms by (simp add: run_call_def runs_after_def)

lemma machine_inv_init: "machine_inv as power_on"
  by (simp add: machine_inv_def power_on_def)

lemma machine_inv_latch: "machine_inv as m \<Longrightarrow> machine_inv as (enter_error_state m)"
  by (auto simp: machine_inv_def enter_error_state_def winner_inv_latch split: option.splits)

lemma claim_step:
  assumes "owner_id (arg_tid a) = Some own"
  shows "\<exists>pc'. call_step a out Entry POWER_OFF p = (pc', claim_of a, p) \<and>
    winner_inv a i pc' (claim_of a) 0 []"
  using assms winner_inv_next [of "claim_of a" a 0 i]
  by (cases "arg_integrity a = []") auto

lemma machine_inv_call:
  assumes inv: "machine_inv as m"
  shows "machine_inv as (run_call as i out m)"
proof -
  obtain pc' w' p' where step: "call_step (as i) out (pcs m i) (word m) (prof m) = (pc', w', p')"
    by (rule prod_cases3)
  note run = run_call_eq [where as = as and i = i and m = m, OF step]
  have losers: "loser_inv (pcs m j)" if "winner m \<noteq> Some j" for j
    using inv that by (simp add: machine_inv_def)
  show ?thesis
  proof (cases "winner m")
    case (Some j)
    then obtain own where own: "owner_id (arg_tid (as j)) = Some own"
      and wi: "winner_inv (as j) j (pcs m j) (word m) (prof m) (runs m)"
      using inv by (auto simp: machine_inv_def)
    have w: "word m \<noteq> POWER_OFF" using winner_inv_word [OF wi] .
    show ?thesis
    proof (cases "i = j")
      case True
      with winner_inv_step [OF own wi] step own w Some losers show ?thesis
        unfolding machine_inv_def run by auto
    next
      case False
      with losers Some have "loser_inv (pcs m i)" by auto
      with loser_inv_step [OF this w step] loser_not_running [OF this] own w Some losers wi False
      show ?thesis unfolding machine_inv_def run by auto
    qed
  next
    case None
    then have m: "word m \<in> {POWER_OFF, ERROR}" "prof m = 0" "runs m = []"
      using inv by (auto simp: machine_inv_def)
    have li: "loser_inv (pcs m i)" using losers None by simp
    show ?thesis
    proof (cases "word m = POWER_OFF \<and> pcs m i = Entry")
      case True
      then have step': "call_step (as i) out Entry POWER_OFF (prof m) = (pc', w', p')"
        using step by simp
      show ?thesis
      proof (cases "owner_id (arg_tid (as i))")
        case None': None
        with step' True m losers None show ?thesis
          by (auto simp: machine_inv_def run claim_of_def loser_errors_def
              runs_after_def)
      next
        case (Some own)
        with claim_step [of "as i" own out "prof m" i] step' True m losers None show ?thesis
          by (auto simp: machine_inv_def run runs_after_def)
      qed
    next
      case False
      have "loser_inv pc' \<and> w' = word m \<and> p' = prof m"
      proof (cases "word m = POWER_OFF")
        case True
        with False li step show ?thesis
          by (cases "pcs m i"; cases "decode (case pcs m i of Waiting obs \<Rightarrow> obs | _ \<Rightarrow> 0)")
            (auto simp: loser_errors_def split: if_splits)
      next
        case w: False
        show ?thesis by (rule loser_inv_step [OF li w step])
      qed
      with False None m losers loser_not_running [OF li] show ?thesis
        by (auto simp: machine_inv_def run)
    qed
  qed
qed

lemma reach_inv: "reach as m \<Longrightarrow> machine_inv as m"
proof (induction rule: reach.induct)
  case (reach_step m l)
  then show ?case by (cases l) (simp_all add: machine_inv_call machine_inv_latch)
qed (rule machine_inv_init)

subsection \<open>How the word, the winner and its result evolve\<close>

definition succeeded :: "machine \<Rightarrow> bool" where
  "succeeded m \<longleftrightarrow> (\<exists>i. winner m = Some i \<and>
     pcs m i \<in> {Dropping (Some (Inr ())), Finished (Some (Inr ()))})"

lemma call_step_word:
  assumes "winner_inv a i pc w p rs" "owner_id (arg_tid a) = Some own"
    "call_step a out pc w p = (pc', w', p')"
  shows "word_next w w'"
proof -
  have c: "decode (claim_of a) = SelfTest" using claim_words(2) [OF assms(2)] .
  show ?thesis
  proof (cases pc)
    case (RunTest k)
    with assms show ?thesis by (cases out) (auto simp: word_next_def)
  next
    case (Dropping r)
    with assms c show ?thesis
      by (cases "w = claim_of a") (auto simp: word_next_def)
  qed (use assms c in \<open>auto simp: word_next_def compare_exchange_def settle_def split: if_splits\<close>)
qed

lemma loser_word_next:
  assumes "loser_inv pc" "call_step a out pc w p = (pc', w', p')"
  shows "word_next w w'"
proof (cases pc)
  case Entry
  with assms claim_words(2) [of a] show ?thesis
    by (cases "owner_id (arg_tid a)")
      (auto simp: word_next_def compare_exchange_def claim_of_def [of a] split: if_splits)
qed (use assms in \<open>auto simp: word_next_def split: if_splits\<close>)

lemma reach_word_next:
  assumes "reach as m"
  shows "word_next (word m) (word (exec_label as l m))"
proof (cases l)
  case (Call i out)
  obtain pc' w' p' where step: "call_step (as i) out (pcs m i) (word m) (prof m) = (pc', w', p')"
    by (rule prod_cases3)
  note run = run_call_eq [where as = as and i = i and m = m, OF step]
  have "word_next (word m) w'"
  proof (cases "winner m = Some i")
    case True
    then show ?thesis using reach_inv [OF assms] call_step_word [OF _ _ step]
      by (auto simp: machine_inv_def)
  next
    case False
    then show ?thesis using reach_inv [OF assms] loser_word_next [OF _ step]
      by (auto simp: machine_inv_def)
  qed
  with Call show ?thesis by (simp add: run)
qed (simp add: word_next_def enter_error_state_def)

lemma exec_word_later: "reach as m \<Longrightarrow> word_later (word m) (word (exec as ls m))"
proof (induction ls arbitrary: m)
  case (Cons l ls)
  from word_later_next [OF reach_word_next [OF Cons.prems, of l] Cons.IH [OF reach_step [OF Cons.prems]]]
  show ?case by simp
qed simp

lemma word_next_failed:
  "word_next w w' \<Longrightarrow> w \<in> {ERROR, INTEGRITY_UNVERIFIED} \<Longrightarrow> w' = w \<or> w' = ERROR"
  by (auto simp: word_next_def)

lemma word_next_left_self_test:
  "word_next w w' \<Longrightarrow> w \<noteq> POWER_OFF \<Longrightarrow> decode w \<noteq> SelfTest \<Longrightarrow>
     w' \<noteq> POWER_OFF \<and> decode w' \<noteq> SelfTest"
  by (auto simp: word_next_def)

lemma winner_stable: "reach as m \<Longrightarrow> winner m = Some i \<Longrightarrow> winner (exec_label as l m) = Some i"
proof (cases l)
  case (Call j out)
  assume "reach as m" "winner m = Some i"
  then have "word m \<noteq> POWER_OFF"
    using reach_inv [of as m] winner_inv_word by (fastforce simp: machine_inv_def)
  with Call \<open>winner m = Some i\<close> show ?thesis
    by (simp add: run_call_def split: prod.splits)
qed (simp add: enter_error_state_def)

lemma run_call_other: "j \<noteq> i \<Longrightarrow> pcs (run_call as i out m) j = pcs m j"
  by (simp add: run_call_def split: prod.splits)

lemma exec_label_other: "(\<forall>out. l \<noteq> Call j out) \<Longrightarrow> pcs (exec_label as l m) j = pcs m j"
  by (cases l) (auto simp: run_call_other enter_error_state_def)

lemma winner_prof:
  assumes inv: "machine_inv as m" and won: "winner m = Some i" and "j \<noteq> i"
  shows "prof (run_call as j out m) = prof m"
proof -
  obtain pc' w' p' where step: "call_step (as j) out (pcs m j) (word m) (prof m) = (pc', w', p')"
    by (rule prod_cases3)
  have "loser_inv (pcs m j)" "word m \<noteq> POWER_OFF"
    using inv won \<open>j \<noteq> i\<close> winner_inv_word by (fastforce simp: machine_inv_def)+
  from loser_inv_step [OF this step] show ?thesis
    by (simp add: run_call_eq [where as = as and i = j and m = m, OF step])
qed

lemma succeeded_step:
  assumes reach: "reach as m" and suc: "succeeded m"
  shows "succeeded (exec_label as l m) \<and> prof (exec_label as l m) = prof m"
proof -
  obtain i where won: "winner m = Some i"
    and pc: "pcs m i \<in> {Dropping (Some (Inr ())), Finished (Some (Inr ()))}"
    using suc by (auto simp: succeeded_def)
  note stable = winner_stable [OF reach won, of l]
  show ?thesis
  proof (cases "\<exists>out. l = Call i out")
    case True
    then show ?thesis using pc stable
      by (auto simp: succeeded_def run_call_def)
  next
    case False
    then have "pcs (exec_label as l m) i = pcs m i" by (simp add: exec_label_other)
    moreover have "prof (exec_label as l m) = prof m"
      using False winner_prof [OF reach_inv [OF reach] won]
      by (cases l) (auto simp: enter_error_state_def)
    ultimately show ?thesis using pc stable by (auto simp: succeeded_def)
  qed
qed

lemma operational_succeeded:
  assumes "reach as m" "word m = OPERATIONAL"
  obtains i where "winner m = Some i" "succeeded m" "arg_integrity (as i) \<noteq> []"
    "runs m = passes i (length (entries (as i)))" "prof m = profile_u8 (arg_profile (as i))"
proof -
  have inv: "machine_inv as m" by (rule reach_inv [OF assms(1)])
  then obtain i own where i: "winner m = Some i" "owner_id (arg_tid (as i)) = Some own"
    and wi: "winner_inv (as i) i (pcs m i) OPERATIONAL (prof m) (runs m)"
    using assms(2) by (auto simp: machine_inv_def split: option.splits)
  have c: "claim_of (as i) \<noteq> OPERATIONAL" using claim_words(1) [OF i(2)] by simp
  have "\<exists>r. pcs m i \<in> {Dropping r, Finished r} \<and>
      result_inv (as i) i r OPERATIONAL (prof m) (runs m)"
    using wi c by (cases "pcs m i") auto
  then obtain r where r: "pcs m i \<in> {Dropping r, Finished r}"
    "result_inv (as i) i r OPERATIONAL (prof m) (runs m)" by blast
  from r(2) c have "r = Some (Inr ())"
    by (cases "(as i, i, r, OPERATIONAL, prof m, runs m)" rule: result_inv.cases) auto
  with r i that show thesis by (auto simp: succeeded_def)
qed

subsection \<open>What the losing calls have seen\<close>

definition seen :: "(nat \<Rightarrow> init_args) \<Rightarrow> machine \<Rightarrow> u64 \<Rightarrow> bool" where
  "seen as m obs \<longleftrightarrow>
     obs = OPERATIONAL \<and> succeeded m \<or>
     obs \<in> {ERROR, INTEGRITY_UNVERIFIED} \<and> word m \<in> {ERROR, INTEGRITY_UNVERIFIED} \<or>
     (\<exists>i. winner m = Some i \<and> obs = claim_of (as i) \<and> decode obs = SelfTest)"

definition loser_reason :: "(nat \<Rightarrow> init_args) \<Rightarrow> machine \<Rightarrow> nat \<Rightarrow> error \<Rightarrow> bool" where
  "loser_reason as m j e \<longleftrightarrow>
     e = AlreadyInitialized \<and> succeeded m \<or>
     e = AlreadyFailed \<and> word m \<in> {ERROR, INTEGRITY_UNVERIFIED} \<or>
     e = NotOperational SelfTest \<and>
       (\<exists>i. winner m = Some i \<and> owner_id (arg_tid (as i)) = owner_id (arg_tid (as j)) \<and>
          owner_id (arg_tid (as j)) \<noteq> None) \<or>
     e = SelfTestFailed THREAD_ID_CHECK \<and> owner_id (arg_tid (as j)) = None \<and> word m = ERROR"

definition losers_inv :: "(nat \<Rightarrow> init_args) \<Rightarrow> machine \<Rightarrow> bool" where
  "losers_inv as m \<longleftrightarrow> (\<forall>j. winner m \<noteq> Some j \<longrightarrow>
     (\<forall>obs. pcs m j = Waiting obs \<longrightarrow> seen as m obs) \<and>
     (\<forall>e. pcs m j = Finished (Some (Inl e)) \<longrightarrow> loser_reason as m j e))"

lemma winner_inv_words:
  "winner_inv a i pc w p rs \<Longrightarrow> w \<in> {claim_of a, OPERATIONAL, ERROR, INTEGRITY_UNVERIFIED}"
proof -
  assume wi: "winner_inv a i pc w p rs"
  have r: "result_inv a i r w p rs \<Longrightarrow> w \<in> {claim_of a, OPERATIONAL, ERROR, INTEGRITY_UNVERIFIED}" for r
    by (cases "(a, i, r, w, p, rs)" rule: result_inv.cases) auto
  show ?thesis using wi r by (cases pc) auto
qed

lemma seen_now:
  assumes "reach as m" "word m \<noteq> POWER_OFF"
  shows "seen as m (word m)"
proof (cases "word m = OPERATIONAL")
  case True
  then show ?thesis using operational_succeeded [OF assms(1)] by (auto simp: seen_def)
next
  case False
  have inv: "machine_inv as m" by (rule reach_inv [OF assms(1)])
  show ?thesis
  proof (cases "winner m")
    case None
    with inv assms(2) show ?thesis by (auto simp: machine_inv_def seen_def)
  next
    case (Some i)
    with inv obtain own where own: "owner_id (arg_tid (as i)) = Some own"
      and wi: "winner_inv (as i) i (pcs m i) (word m) (prof m) (runs m)"
      by (auto simp: machine_inv_def)
    from winner_inv_words [OF wi] claim_words(2) [OF own] False Some show ?thesis
      by (auto simp: seen_def)
  qed
qed

lemma seen_step:
  assumes "reach as m" "seen as m obs"
  shows "seen as (exec_label as l m) obs"
  using assms(2) succeeded_step [OF assms(1), of l] winner_stable [OF assms(1), of _ l]
    word_next_failed [OF reach_word_next [OF assms(1), of l]]
  by (auto simp: seen_def)

lemma loser_reason_step:
  assumes "reach as m" "loser_reason as m j e"
  shows "loser_reason as (exec_label as l m) j e"
  using assms(2) succeeded_step [OF assms(1), of l] winner_stable [OF assms(1), of _ l]
    word_next_failed [OF reach_word_next [OF assms(1), of l]]
  by (auto simp: loser_reason_def)

lemma claims_equal:
  assumes "claim_of a = claim_of b" "decode (claim_of a) = SelfTest"
  shows "owner_id (arg_tid a) = owner_id (arg_tid b) \<and> owner_id (arg_tid b) \<noteq> None"
proof -
  have "\<exists>own. owner_id (arg_tid c) = Some own" if "decode (claim_of c) = SelfTest" for c
    using that by (cases "owner_id (arg_tid c)") (auto simp: claim_of_def)
  with assms obtain x y where xy: "owner_id (arg_tid a) = Some x" "owner_id (arg_tid b) = Some y"
    by metis
  with assms self_test_word_inject [of x y] owner_id_valid [OF xy(1)] owner_id_valid [OF xy(2)]
  show ?thesis by (simp add: claim_of_owner)
qed

lemma seen_answer:
  assumes "seen as m obs" "\<not> (decode obs = SelfTest \<and> obs \<noteq> claim_of (as j))"
  shows "loser_reason as m j (loser_error (decode obs))"
proof -
  consider "obs = OPERATIONAL" "succeeded m"
    | "obs \<in> {ERROR, INTEGRITY_UNVERIFIED}" "word m \<in> {ERROR, INTEGRITY_UNVERIFIED}"
    | i where "winner m = Some i" "obs = claim_of (as i)" "decode obs = SelfTest"
    using assms(1) by (auto simp: seen_def)
  then show ?thesis
  proof cases
    case 3
    with assms(2) have "claim_of (as i) = claim_of (as j)" by simp
    from claims_equal [OF this] 3 show ?thesis by (simp add: loser_reason_def)
  qed (auto simp: loser_reason_def)
qed

lemma losers_inv_call:
  assumes reach: "reach as m" and inv: "losers_inv as m"
  shows "losers_inv as (run_call as i out m)"
proof -
  obtain pc' w' p' where step: "call_step (as i) out (pcs m i) (word m) (prof m) = (pc', w', p')"
    by (rule prod_cases3)
  note run = run_call_eq [where as = as and i = i and m = m, OF step]
  let ?m = "run_call as i out m"
  note keep = seen_step [OF reach, of _ "Call i out"] loser_reason_step [OF reach, of _ _ "Call i out"]
  have others: "(\<forall>obs. pcs ?m j = Waiting obs \<longrightarrow> seen as ?m obs) \<and>
      (\<forall>e. pcs ?m j = Finished (Some (Inl e)) \<longrightarrow> loser_reason as ?m j e)"
    if "winner m \<noteq> Some j" "j \<noteq> i" for j
    using inv that keep by (auto simp: losers_inv_def run_call_other)
  have mine: "(\<forall>obs. pc' = Waiting obs \<longrightarrow> seen as ?m obs) \<and>
      (\<forall>e. pc' = Finished (Some (Inl e)) \<longrightarrow> loser_reason as ?m i e)"
    if not_won: "winner m \<noteq> Some i" "winner ?m \<noteq> Some i"
  proof (cases "pcs m i")
    case Entry
    show ?thesis
    proof (cases "word m = POWER_OFF")
      case True
      with not_won(2) Entry have "owner_id (arg_tid (as i)) = None"
        by (auto simp: run split: if_splits)
      with step Entry True show ?thesis by (auto simp: loser_reason_def run claim_of_def)
    next
      case False
      with step Entry keep(1) [OF seen_now [OF reach False]] show ?thesis by auto
    qed
  next
    case (Waiting obs)
    with inv not_won have seen: "seen as m obs" by (auto simp: losers_inv_def)
    show ?thesis
    proof (cases "decode obs = SelfTest \<and> obs \<noteq> claim_of (as i)")
      case True
      with seen have "word m \<noteq> POWER_OFF"
        using reach_inv [OF reach] winner_inv_word
        by (fastforce simp: seen_def machine_inv_def)
      with True step Waiting keep(1) [OF seen_now [OF reach]] show ?thesis by auto
    next
      case False
      with step Waiting keep(2) [OF seen_answer [OF seen False]] show ?thesis by auto
    qed
  next
    case (Finished r)
    with inv not_won step keep(2) show ?thesis by (auto simp: losers_inv_def)
  qed (use reach_inv [OF reach] not_won in \<open>auto simp: machine_inv_def dest!: spec [of _ i]\<close>)
  have "winner m \<noteq> Some j" if "winner ?m \<noteq> Some j" for j
    using winner_stable [OF reach, of j "Call i out"] that by auto
  with others mine show ?thesis
    unfolding losers_inv_def by (metis run fun_upd_same machine.select_convs(3))
qed

lemma reach_losers: "reach as m \<Longrightarrow> losers_inv as m"
proof (induction rule: reach.induct)
  case reach_init
  show ?case by (simp add: losers_inv_def power_on_def)
next
  case (reach_step m l)
  show ?case
  proof (cases l)
    case Latch
    with reach_step.IH seen_step [OF reach_step.hyps, of _ Latch]
      loser_reason_step [OF reach_step.hyps, of _ _ Latch]
    show ?thesis by (simp add: losers_inv_def enter_error_state_def)
  qed (use reach_step in \<open>simp add: losers_inv_call\<close>)
qed

subsection \<open>Progress\<close>

fun rank :: "init_args \<Rightarrow> pc \<Rightarrow> nat" where
  "rank a Entry = length (entries a) + 7"
| "rank a (RunTest k) = (length (entries a) - k) + 6"
| "rank a StoreProfile = 5"
| "rank a CasOperational = 4"
| "rank a RestoreProfile = 3"
| "rank a LoadState = 2"
| "rank a (Settling to e) = 2"
| "rank a (Dropping r) = 1"
| "rank a (Waiting obs) = 0"
| "rank a (Finished r) = 0"

text \<open>How many of the steps are call \<open>i\<close>'s own.\<close>

definition own_steps :: "nat \<Rightarrow> label list \<Rightarrow> nat" where
  "own_steps i ls = length (filter (\<lambda>l. case l of Call j _ \<Rightarrow> j = i | Latch \<Rightarrow> False) ls)"

lemma own_steps_simps [simp]:
  "own_steps i [] = 0"
  "own_steps i (Call j out # ls) = (if j = i then Suc (own_steps i ls) else own_steps i ls)"
  "own_steps i (Latch # ls) = own_steps i ls"
  by (simp_all add: own_steps_def)

lemma rank_step:
  assumes "call_step a out pc w p = (pc', w', p')" "\<forall>obs. pc \<noteq> Waiting obs" "\<forall>r. pc \<noteq> Finished r"
  shows "rank a pc' < rank a pc"
proof (cases pc)
  case (RunTest k)
  with assms show ?thesis by (cases out) (auto simp: next_test_def)
qed (use assms in \<open>auto simp: next_test_def compare_exchange_def split: if_splits\<close>)

lemma winner_progress:
  assumes "reach as m" "winner m = Some i" "rank (as i) (pcs m i) \<le> own_steps i ls"
  shows "\<exists>r. pcs (exec as ls m) i = Finished r"
  using assms
proof (induction ls arbitrary: m)
  case Nil
  then have "winner_inv (as i) i (pcs m i) (word m) (prof m) (runs m)"
    using reach_inv [of as m] by (auto simp: machine_inv_def)
  with Nil show ?case by (cases "pcs m i") auto
next
  case (Cons l ls)
  let ?m = "exec_label as l m"
  have next_m: "reach as ?m" "winner ?m = Some i"
    using Cons.prems winner_stable by (auto intro: reach_step)
  show ?case
  proof (cases "\<exists>out. l = Call i out")
    case True
    then obtain out where l: "l = Call i out" by blast
    obtain pc' w' p' where step: "call_step (as i) out (pcs m i) (word m) (prof m) = (pc', w', p')"
      by (rule prod_cases3)
    have pc': "pcs ?m i = pc'"
      by (simp add: l run_call_eq [where as = as and i = i and m = m, OF step])
    have "winner_inv (as i) i (pcs m i) (word m) (prof m) (runs m)"
      using reach_inv [OF Cons.prems(1)] Cons.prems(2) by (auto simp: machine_inv_def)
    then have not_waiting: "\<forall>obs. pcs m i \<noteq> Waiting obs" by auto
    have "rank (as i) pc' \<le> own_steps i ls"
    proof (cases "\<exists>r. pcs m i = Finished r")
      case True
      then obtain r where r: "pcs m i = Finished r" by blast
      have "pc' = Finished r" using step by (simp add: r)
      then show ?thesis by simp
    next
      case False
      with rank_step [OF step not_waiting] Cons.prems(3) l show ?thesis by simp
    qed
    with Cons.IH [OF next_m] pc' show ?thesis by simp
  next
    case False
    then have "pcs ?m i = pcs m i" "own_steps i (l # ls) = own_steps i ls"
      by (auto simp: exec_label_other split: label.splits) (cases l; auto)
    with Cons.IH [OF next_m] Cons.prems show ?thesis by simp
  qed
qed

definition settled :: "machine \<Rightarrow> bool" where
  "settled m \<longleftrightarrow> word m \<noteq> POWER_OFF \<and> decode (word m) \<noteq> SelfTest"

lemma settled_step: "reach as m \<Longrightarrow> settled m \<Longrightarrow> settled (exec_label as l m)"
  using reach_word_next [of as m l] word_next_left_self_test by (auto simp: settled_def)

lemma settled_exec: "reach as m \<Longrightarrow> settled m \<Longrightarrow> settled (exec as ls m)"
  by (induction ls arbitrary: m) (auto intro: settled_step reach_step)

lemma finished_settled:
  assumes "reach as m" "winner m = Some i" "pcs m i = Finished r"
  shows "settled m"
proof -
  have wi: "winner_inv (as i) i (Finished r) (word m) (prof m) (runs m)"
    using reach_inv [OF assms(1)] assms(2,3) by (auto simp: machine_inv_def)
  then have "word m \<in> {OPERATIONAL, ERROR, INTEGRITY_UNVERIFIED}"
    by (cases "(as i, i, r, word m, prof m, runs m)" rule: result_inv.cases) auto
  then show ?thesis by (auto simp: settled_def)
qed

fun loser_rank :: "pc \<Rightarrow> nat" where
  "loser_rank Entry = 3"
| "loser_rank (Waiting obs) = (if decode obs = SelfTest then 2 else 1)"
| "loser_rank _ = 0"

lemma loser_progress:
  assumes "reach as m" "settled m" "loser_inv (pcs m j)" "loser_rank (pcs m j) \<le> own_steps j ls"
  shows "\<exists>r. pcs (exec as ls m) j = Finished r"
  using assms
proof (induction ls arbitrary: m)
  case Nil
  then show ?case by (cases "pcs m j") (auto split: if_splits)
next
  case (Cons l ls)
  let ?m = "exec_label as l m"
  have next_m: "reach as ?m" "settled ?m"
    using Cons.prems settled_step by (auto intro: reach_step)
  show ?case
  proof (cases "\<exists>out. l = Call j out")
    case True
    then obtain out where l: "l = Call j out" by blast
    obtain pc' w' p' where step: "call_step (as j) out (pcs m j) (word m) (prof m) = (pc', w', p')"
      by (rule prod_cases3)
    have pc': "pcs ?m j = pc'"
      by (simp add: l run_call_eq [where as = as and i = j and m = m, OF step])
    have word: "word m \<noteq> POWER_OFF" "decode (word m) \<noteq> SelfTest"
      using Cons.prems(2) by (simp_all add: settled_def)
    have "loser_inv pc'" using loser_inv_step [OF Cons.prems(3) word(1) step] by simp
    moreover have "loser_rank pc' \<le> own_steps j ls"
      using Cons.prems(3,4) step word l
    proof (cases "pcs m j")
      case (Finished r)
      have "pc' = Finished r" using step by (simp add: Finished)
      then show ?thesis by simp
    qed (auto split: if_splits)
    ultimately show ?thesis using Cons.IH [OF next_m] pc' by simp
  next
    case False
    then have "pcs ?m j = pcs m j" "own_steps j (l # ls) = own_steps j ls"
      by (auto simp: exec_label_other split: label.splits) (cases l; auto)
    with Cons.IH [OF next_m] Cons.prems show ?thesis by simp
  qed
qed

lemma rank_bound: "rank a pc \<le> length (entries a) + 7"
  by (cases pc) auto

lemma loser_rank_bound: "loser_rank pc \<le> 3"
  by (cases pc) auto

lemma finished_exec: "pcs m i = Finished r \<Longrightarrow> pcs (exec as ls m) i = Finished r"
proof (induction ls arbitrary: m)
  case (Cons l ls)
  have "pcs (exec_label as l m) i = Finished r"
  proof (cases "\<exists>out. l = Call i out")
    case True
    with Cons.prems show ?thesis by (auto simp: run_call_def)
  next
    case False
    with Cons.prems show ?thesis by (simp add: exec_label_other)
  qed
  with Cons.IH show ?case by simp
qed simp

lemma winner_stable_exec: "reach as m \<Longrightarrow> winner m = Some i \<Longrightarrow> winner (exec as ls m) = Some i"
  by (induction ls arbitrary: m) (auto intro: winner_stable reach_step)

subsection \<open>A call running alone\<close>

text \<open>The tests run in order up to the first that does not pass.\<close>

fun run_all :: "kat_entry list \<Rightarrow> kat_outcome list \<Rightarrow> (error + unit) option" where
  "run_all [] _ = Some (Inr ())"
| "run_all (e # es) (Pass # outs) = run_all es outs"
| "run_all (e # es) (Fail # outs) = Some (Inl (SelfTestFailed (kat_name e)))"
| "run_all (e # es) (Unwind # outs) = None"
| "run_all (e # es) [] = None"

definition initialize_spec :: "init_args \<Rightarrow> kat_outcome list \<Rightarrow> (error + unit) option \<times> u64 \<times> u8" where
  "initialize_spec a outs =
     (if owner_id (arg_tid a) = None
      then (Some (Inl (SelfTestFailed THREAD_ID_CHECK)), ERROR, profile_u8 Unrestricted)
      else if arg_integrity a = []
      then (Some (Inl IntegrityNotAttested), INTEGRITY_UNVERIFIED, profile_u8 Unrestricted)
      else
        let r = run_all (entries a) outs in
        if r = Some (Inr ()) then (r, OPERATIONAL, profile_u8 (arg_profile a))
        else (r, ERROR, profile_u8 Unrestricted))"

definition solo :: "init_args \<Rightarrow> kat_outcome list \<Rightarrow> pc \<times> u64 \<times> u8 \<Rightarrow> pc \<times> u64 \<times> u8" where
  "solo a outs s = fold (\<lambda>out (pc, w, p). call_step a out pc w p) outs s"

lemma solo_simps [simp]:
  "solo a [] s = s"
  "solo a (out # outs) (pc, w, p) = solo a outs (call_step a out pc w p)"
  "solo a (outs @ outs') s = solo a outs' (solo a outs s)"
  by (simp_all add: solo_def)

lemma solo_finished [simp]: "solo a outs (Finished r, w, p) = (Finished r, w, p)"
  by (induction outs) simp_all

lemma exec_solo:
  "(pcs (exec as (map (Call i) outs) m) i, word (exec as (map (Call i) outs) m),
    prof (exec as (map (Call i) outs) m)) = solo (as i) outs (pcs m i, word m, prof m)"
proof (induction outs arbitrary: m)
  case (Cons out outs)
  obtain pc' w' p' where step: "call_step (as i) out (pcs m i) (word m) (prof m) = (pc', w', p')"
    by (rule prod_cases3)
  show ?case
    using Cons.IH [of "run_call as i out m"] step
    by (simp add: run_call_eq [where as = as and i = i and m = m, OF step])
qed simp

lemma solo_dropping:
  "outs \<noteq> [] \<Longrightarrow> solo a outs (Dropping r, w, p) = (Finished r, settle (claim_of a) ERROR w, p)"
  by (cases outs) simp_all

lemma solo_settling:
  "2 \<le> length outs \<Longrightarrow> solo a outs (Settling to e, w, p) =
     (Finished (Some (Inl e)), settle (claim_of a) ERROR (settle (claim_of a) to w), p)"
  by (cases outs) (auto simp: solo_dropping Suc_le_eq)

lemma solo_run_all:
  assumes own: "owner_id (arg_tid a) = Some own"
    and "entries a = pre @ es" "length outs = length es"
  shows "solo a (outs @ replicate 4 Pass) (next_test a (length pre), claim_of a, 0) =
    (let r = run_all es outs in
     if r = Some (Inr ()) then (Finished r, OPERATIONAL, profile_u8 (arg_profile a))
     else (Finished r, ERROR, 0))"
  using assms(2,3)
proof (induction es arbitrary: pre outs)
  case Nil
  have "claim_of a \<noteq> OPERATIONAL" using claim_words(1) [OF own] by simp
  then have "settle (claim_of a) ERROR OPERATIONAL = OPERATIONAL" by simp
  with Nil show ?case by (simp add: next_test_def eval_nat_numeral)
next
  case (Cons e es)
  then obtain out outs' where outs: "outs = out # outs'" "length outs' = length es"
    by (cases outs) auto
  have k: "next_test a (length pre) = RunTest (length pre)"
    and e: "entries a ! length pre = e"
    using Cons.prems(1) by (simp_all add: next_test_def)
  show ?case
  proof (cases out)
    case Pass
    with Cons.IH [of "pre @ [e]" outs'] Cons.prems outs k show ?thesis by simp
  next
    case Fail
    have "solo a (outs' @ replicate 4 Pass) (Settling ERROR (SelfTestFailed (kat_name e)), claim_of a, 0)
        = (Finished (Some (Inl (SelfTestFailed (kat_name e)))), ERROR, 0)"
      using claim_words(1) [OF own] by (subst solo_settling) auto
    with Fail outs k e show ?thesis by (simp del: solo_simps(3))
  next
    case Unwind
    have "solo a (outs' @ replicate 4 Pass) (Dropping None, claim_of a, 0) = (Finished None, ERROR, 0)"
      by (subst solo_dropping) auto
    with Unwind outs k show ?thesis by (simp del: solo_simps(3))
  qed
qed

text \<open>The whole call, from the module's start: its claim, then its tests, then four more steps.\<close>

lemma solo_initialize:
  assumes "length outs = length (entries a)"
  shows "solo a (Pass # outs @ replicate 4 Pass) (Entry, POWER_OFF, 0) =
    (case initialize_spec a outs of (r, w, p) \<Rightarrow> (Finished r, w, p))"
proof (cases "owner_id (arg_tid a)")
  case None
  then show ?thesis by (simp add: initialize_spec_def claim_of_def del: solo_simps(3))
next
  case (Some own)
  have c: "claim_of a \<noteq> INTEGRITY_UNVERIFIED" using claim_words(1) [OF Some] by simp
  show ?thesis
  proof (cases "arg_integrity a = []")
    case True
    with Some c show ?thesis
      by (simp add: initialize_spec_def solo_settling del: solo_simps(3))
  next
    case False
    with Some solo_run_all [OF Some, of "[]" "entries a" outs] assms show ?thesis
      by (simp add: initialize_spec_def Let_def del: solo_simps(3))
  qed
qed

lemma exec_alone:
  assumes "length outs = length (entries (as i))"
  shows "let m = exec as (map (Call i) (Pass # outs @ replicate 4 Pass)) power_on in
    (pcs m i, word m, prof m) =
      (case initialize_spec (as i) outs of (r, w, p) \<Rightarrow> (Finished r, w, p))"
  using exec_solo [of as i "Pass # outs @ replicate 4 Pass" power_on] solo_initialize [OF assms]
  by (simp add: power_on_def Let_def del: list.map map_append exec_simps solo_simps)

subsection \<open>A concrete run\<close>

text \<open>
  Call 0 of \<open>demo_args\<close> asks for CNSA 1.0 with one integrity entry and one test; \<open>demo_up\<close> is
  the machine after it has run alone and both have passed, \<open>demo_race\<close> after call 1 has also
  arrived in the middle, and \<open>demo_bad\<close> after the second entry has failed.
\<close>

definition demo_args :: "nat \<Rightarrow> init_args" where
  "demo_args i = \<lparr>arg_tid = Some (of_nat i + 41), arg_integrity = [\<lparr>kat_name = ''integrity''\<rparr>],
     arg_tests = [\<lparr>kat_name = ''sha''\<rparr>], arg_profile = Cnsa1\<rparr>"

definition demo_up :: machine where
  "demo_up = exec demo_args (map (Call 0) (Pass # [Pass, Pass] @ replicate 4 Pass)) power_on"

definition demo_bad :: machine where
  "demo_bad = exec demo_args (map (Call 0) (Pass # [Pass, Fail] @ replicate 4 Pass)) power_on"

definition demo_claimed :: machine where
  "demo_claimed = exec demo_args [Call 0 Pass] power_on"

lemma reach_demo: "reach demo_args demo_up" "reach demo_args demo_bad" "reach demo_args demo_claimed"
  unfolding demo_up_def demo_bad_def demo_claimed_def by (intro reach_exec reach_init)+

lemma demo_owner: "owner_id (arg_tid (demo_args 0)) = Some 41"
  by (simp add: demo_args_def owner_id_Some_iff valid_owner_def)

lemma demo_owner1: "owner_id (arg_tid (demo_args 1)) = Some 42"
  by (simp add: demo_args_def owner_id_Some_iff valid_owner_def)

lemma demo_up_eq: "pcs demo_up 0 = Finished (Some (Inr ()))" "word demo_up = OPERATIONAL"
    "prof demo_up = 2"
  using exec_alone [of "[Pass, Pass]" demo_args 0]
  unfolding demo_up_def initialize_spec_def demo_owner Let_def
  by (simp_all add: demo_args_def)

lemma demo_bad_eq: "pcs demo_bad 0 = Finished (Some (Inl (SelfTestFailed ''sha'')))"
    "word demo_bad = ERROR" "prof demo_bad = 0"
  using exec_alone [of "[Pass, Fail]" demo_args 0]
  unfolding demo_bad_def initialize_spec_def demo_owner Let_def
  by (simp_all add: demo_args_def)

lemma demo_claimed_eq: "word demo_claimed = self_test_word 41" "winner demo_claimed = Some 0"
    "runs demo_claimed = []"
  using claim_of_owner [OF demo_owner] demo_owner
  by (simp_all add: demo_claimed_def power_on_def run_call_def demo_args_def)

lemma winner_exec_claimed: "winner (exec demo_args ls demo_claimed) = Some 0"
  by (rule winner_stable_exec [OF reach_demo(3) demo_claimed_eq(2)])

lemma demo_winner: "winner demo_up = Some 0" "winner demo_bad = Some 0"
  using winner_exec_claimed [of "map (Call 0) ([Pass, Pass] @ replicate 4 Pass)"]
    winner_exec_claimed [of "map (Call 0) ([Pass, Fail] @ replicate 4 Pass)"]
  by (simp_all add: demo_up_def demo_bad_def demo_claimed_def)

subsection \<open>Properties\<close>

text \<open>C1: Whenever the guard of the approved services admits a call, exactly one call of
  \<open>initialize\<close> has claimed the self-tests, its integrity group was not empty, every entry of the
  integrity group and then every other entry was run once, in order, and passed, and the active
  profile is the one that call asked for.\<close>

theorem services_only_after_all_tests:
  assumes "reach as m" "require_operational (word m) = Inr ()"
  shows "\<exists>i. winner m = Some i \<and> arg_integrity (as i) \<noteq> [] \<and>
    runs m = map (\<lambda>k. (i, k, Pass)) [0..<length (arg_integrity (as i) @ arg_tests (as i))] \<and>
    profile_from_u8 (prof m) = arg_profile (as i)"
proof -
  have "word m = OPERATIONAL" using assms(2) by (simp add: require_operational_ok)
  from operational_succeeded [OF assms(1) this] obtain i where
    "winner m = Some i" "arg_integrity (as i) \<noteq> []" "runs m = passes i (length (entries (as i)))"
    "prof m = profile_u8 (arg_profile (as i))" .
  then show ?thesis
    by (cases "arg_profile (as i)") (auto simp: passes_def profile_from_u8_def)
qed

theorem services_only_after_all_tests_witness:
  "\<exists>i. winner demo_up = Some i \<and> arg_integrity (demo_args i) \<noteq> [] \<and>
    runs demo_up = map (\<lambda>k. (i, k, Pass))
      [0..<length (arg_integrity (demo_args i) @ arg_tests (demo_args i))] \<and>
    profile_from_u8 (prof demo_up) = arg_profile (demo_args i)"
  by (rule services_only_after_all_tests [OF reach_demo(1)])
    (simp add: demo_up_eq require_operational_def)

text \<open>C2: The failed states are terminal.  Once the state word reads \<open>Error\<close> or
  \<open>IntegrityUnverified\<close>, no further step of any call, in any order, brings it to another state
  (a conditional self-test can still turn \<open>IntegrityUnverified\<close> into \<open>Error\<close>), and both entry
  guards refuse every thread.\<close>

theorem failed_states_terminal:
  assumes "reach as m" "decode (word m) \<in> {Error, IntegrityUnverified}"
  shows "word (exec as ls m) \<in> {word m, ERROR} \<and>
    require_operational (word (exec as ls m)) = Inl (NotOperational (decode (word (exec as ls m)))) \<and>
    require_self_test_started tid (word (exec as ls m)) =
      Inl (NotOperational (decode (word (exec as ls m))))"
proof -
  have words: "word m \<in> {ERROR, INTEGRITY_UNVERIFIED}"
  proof -
    have "word m \<noteq> POWER_OFF" using assms(2) by auto
    from seen_now [OF assms(1) this] assms(2) show ?thesis by (auto simp: seen_def)
  qed
  have "word (exec as ls m) \<in> {word m, ERROR}" using assms(1) words
  proof (induction ls arbitrary: m)
    case (Cons l ls)
    from word_next_failed [OF reach_word_next [OF Cons.prems(1), of l] Cons.prems(2)]
    have "word (exec_label as l m) \<in> {word m, ERROR}" by auto
    with Cons.IH [OF reach_step [OF Cons.prems(1), of l]] Cons.prems(2) show ?case by auto
  qed simp
  moreover from this words have "word (exec as ls m) \<in> {ERROR, INTEGRITY_UNVERIFIED}" by auto
  ultimately show ?thesis by (auto simp: require_operational_def require_self_test_started_def)
qed

theorem failed_states_terminal_witness:
  "word (exec demo_args [Call 1 Pass, Call 1 Pass] demo_bad) \<in> {word demo_bad, ERROR} \<and>
    require_operational (word (exec demo_args [Call 1 Pass, Call 1 Pass] demo_bad)) =
      Inl (NotOperational (decode (word (exec demo_args [Call 1 Pass, Call 1 Pass] demo_bad)))) \<and>
    require_self_test_started (Some 41) (word (exec demo_args [Call 1 Pass, Call 1 Pass] demo_bad)) =
      Inl (NotOperational (decode (word (exec demo_args [Call 1 Pass, Call 1 Pass] demo_bad))))"
  by (rule failed_states_terminal [OF reach_demo(2)]) (simp add: demo_bad_eq)

text \<open>C6: The profile is immutable once set: from a state in which the module is operational, no
  sequence of steps changes the active profile, even after the error state has been latched.\<close>

theorem profile_immutable:
  assumes "reach as m" "is_operational (word m)"
  shows "prof (exec as ls m) = prof m"
proof -
  from assms operational_succeeded [OF assms(1)] have "succeeded m" by (auto simp: is_operational_def)
  with assms(1) show ?thesis
  proof (induction ls arbitrary: m)
    case (Cons l ls)
    with succeeded_step [OF Cons.prems, of l] show ?case by (simp add: reach_step)
  qed simp
qed

theorem profile_immutable_witness:
  "prof (exec demo_args [Call 1 Fail, Latch, Call 1 Pass] demo_up) = prof demo_up"
  by (rule profile_immutable [OF reach_demo(1)]) (simp add: demo_up_eq is_operational_def)

lemma winner_runs:
  assumes "winner_inv a i pc w p rs"
  shows "\<exists>k. rs = passes i k \<or> (\<exists>out. out \<noteq> Pass \<and> rs = passes i k @ [(i, k, out)])"
proof -
  have *: "?thesis" if "failed_run a i e rs" for e
    using that by (auto simp: failed_run_def)
  have zero: "[] = passes i 0" by simp
  show ?thesis
  proof (cases pc)
    case (Dropping r)
    with assms * zero show ?thesis
      by (cases "(a, i, r, w, p, rs)" rule: result_inv.cases) (auto simp del: passes_simps)
  next
    case (Finished r)
    with assms * zero show ?thesis
      by (cases "(a, i, r, w, p, rs)" rule: result_inv.cases) (auto simp del: passes_simps)
  qed (use assms * zero in \<open>auto simp del: passes_simps\<close>)
qed

text \<open>C4: Under any interleaving, the self-tests are run by one call only, the one that claimed the
  module, each at most once, in order, and none after one that did not pass.\<close>

theorem tests_run_once:
  assumes "reach as m" "(i, k, out) \<in> set (runs m)"
  shows "winner m = Some i \<and> map fst (runs m) = replicate (length (runs m)) i \<and>
    map (fst \<circ> snd) (runs m) = [0..<length (runs m)] \<and>
    list_all (\<lambda>r. snd (snd r) = Pass) (butlast (runs m))"
proof -
  have inv: "machine_inv as m" by (rule reach_inv [OF assms(1)])
  then obtain j where j: "winner m = Some j"
    using assms(2) by (cases "winner m") (auto simp: machine_inv_def)
  then have "winner_inv (as j) j (pcs m j) (word m) (prof m) (runs m)"
    using inv by (auto simp: machine_inv_def)
  from winner_runs [OF this] obtain n where
    rs: "runs m = passes j n \<or> (\<exists>out. out \<noteq> Pass \<and> runs m = passes j n @ [(j, n, out)])" by blast
  moreover from rs assms(2) have "i = j" by (auto simp: passes_def)
  moreover have "map fst (passes j n) = replicate n j" "map (fst \<circ> snd) (passes j n) = [0..<n]"
    "\<forall>r \<in> set (passes j n). snd (snd r) = Pass"
    by (auto simp: passes_def comp_def intro: nth_equalityI)
  ultimately show ?thesis using j
    by (auto simp: replicate_append_same in_set_butlastD list_all_iff)
qed

theorem tests_run_once_witness:
  "winner demo_up = Some 0 \<and> map fst (runs demo_up) = replicate (length (runs demo_up)) 0 \<and>
    map (fst \<circ> snd) (runs demo_up) = [0..<length (runs demo_up)] \<and>
    list_all (\<lambda>r. snd (snd r) = Pass) (butlast (runs demo_up))"
proof (rule tests_run_once [OF reach_demo(1)])
  from operational_succeeded [OF reach_demo(1) demo_up_eq(2)] obtain i where
    "winner demo_up = Some i" and rs: "runs demo_up = passes i (length (entries (demo_args i)))" .
  then have "i = 0" by (simp add: demo_winner)
  then show "(0, 0, Pass) \<in> set (runs demo_up)"
    by (simp add: rs demo_args_def eval_nat_numeral)
qed

text \<open>What a call that returns reports is true of the module.  A call that returns \<open>Ok\<close> won,
  ran every test successfully, set its profile, and only a latched error can have displaced
  \<open>Operational\<close>; a winning call that returns an error or unwinds leaves the module in a failed
  state with the default profile, and \<open>IntegrityNotAttested\<close> is returned exactly for an empty
  integrity group.\<close>

theorem winner_result:
  assumes "reach as m" "winner m = Some i" "pcs m i = Finished r"
  shows "case r of
      Some (Inr _) \<Rightarrow> decode (word m) \<in> {Operational, Error} \<and>
        profile_from_u8 (prof m) = arg_profile (as i) \<and> arg_integrity (as i) \<noteq> [] \<and>
        runs m = map (\<lambda>k. (i, k, Pass)) [0..<length (entries (as i))]
    | Some (Inl e) \<Rightarrow> decode (word m) \<in> {Error, IntegrityUnverified} \<and>
        profile_from_u8 (prof m) = Unrestricted \<and>
        (e = IntegrityNotAttested \<longleftrightarrow> arg_integrity (as i) = []) \<and>
        (decode (word m) = IntegrityUnverified \<longrightarrow> e = IntegrityNotAttested)
    | None \<Rightarrow> decode (word m) = Error \<and> profile_from_u8 (prof m) = Unrestricted"
proof -
  have wi: "winner_inv (as i) i (Finished r) (word m) (prof m) (runs m)"
    using reach_inv [OF assms(1)] assms(2,3) by (auto simp: machine_inv_def)
  have prof: "profile_from_u8 (profile_u8 q) = q" for q
    by (cases q) (simp_all add: profile_from_u8_def)
  show ?thesis using wi prof [of Unrestricted]
    by (cases "(as i, i, r, word m, prof m, runs m)" rule: result_inv.cases)
      (auto simp: prof passes_def failed_run_def)
qed

theorem winner_result_witness:
  "decode (word demo_bad) \<in> {Error, IntegrityUnverified} \<and>
    profile_from_u8 (prof demo_bad) = Unrestricted \<and>
    arg_integrity (demo_args 0) \<noteq> [] \<and> decode (word demo_bad) \<noteq> IntegrityUnverified"
  using winner_result [OF reach_demo(2) demo_winner(2) demo_bad_eq(1)] by auto

text \<open>A call that did not claim the self-tests changes nothing and reports what happened:
  \<open>AlreadyInitialized\<close> only if the winning call succeeded, \<open>AlreadyFailed\<close> only in a failed
  state, \<open>NotOperational SelfTest\<close> only on the thread that runs the tests (a test calling
  \<open>initialize\<close>), and the thread-id failure only on a thread the state word cannot record.\<close>

theorem loser_result:
  assumes "reach as m" "winner m \<noteq> Some j" "pcs m j = Finished r"
  shows "\<exists>e. r = Some (Inl e) \<and>
    (e = AlreadyInitialized \<and> (\<exists>i. winner m = Some i \<and>
         pcs m i \<in> {Dropping (Some (Inr ())), Finished (Some (Inr ()))}) \<or>
     e = AlreadyFailed \<and> decode (word m) \<in> {Error, IntegrityUnverified} \<or>
     e = NotOperational SelfTest \<and> (\<exists>i own. winner m = Some i \<and>
         owner_id (arg_tid (as i)) = Some own \<and> owner_id (arg_tid (as j)) = Some own) \<or>
     e = SelfTestFailed THREAD_ID_CHECK \<and> owner_id (arg_tid (as j)) = None \<and>
         decode (word m) = Error)"
proof -
  have "loser_inv (Finished r)"
    using reach_inv [OF assms(1)] assms(2,3) unfolding machine_inv_def by metis
  then obtain e where e: "r = Some (Inl e)" by (cases "Finished r" rule: loser_inv.cases) auto
  then have "loser_reason as m j e"
    using reach_losers [OF assms(1)] assms(2,3) by (simp add: losers_inv_def)
  with e show ?thesis by (auto simp: loser_reason_def succeeded_def)
qed

definition demo_race :: machine where
  "demo_race = exec demo_args (Call 1 Pass # Call 1 Pass # map (Call 0) ([Pass, Pass] @ replicate 8 Pass)
     @ replicate 3 (Call 1 Pass)) demo_claimed"

lemma demo_race_facts: "reach demo_args demo_race" "winner demo_race = Some 0"
    "\<exists>r. pcs demo_race 1 = Finished r"
proof -
  have "reach demo_args demo_race"
    unfolding demo_race_def by (intro reach_exec reach_demo)
  moreover have w: "winner demo_race = Some 0"
    unfolding demo_race_def by (rule winner_exec_claimed)
  ultimately show "reach demo_args demo_race" "winner demo_race = Some 0" by auto
  let ?m = "exec demo_args (Call 1 Pass # Call 1 Pass # map (Call 0) ([Pass, Pass] @ replicate 8 Pass))
    demo_claimed"
  have reach: "reach demo_args ?m" by (intro reach_exec reach_demo)
  have win: "winner ?m = Some 0" by (rule winner_exec_claimed)
  let ?c = "exec demo_args [Call 1 Pass, Call 1 Pass] demo_claimed"
  have split: "?m = exec demo_args (map (Call 0) ([Pass, Pass] @ replicate 8 Pass)) ?c" by simp
  have c: "reach demo_args ?c" "winner ?c = Some 0"
    by (intro reach_exec reach_demo, rule winner_exec_claimed)
  have "pcs demo_claimed 0 = RunTest 0"
    using demo_owner by (simp add: demo_claimed_def power_on_def run_call_def demo_args_def next_test_def)
  then have "pcs ?c 0 = RunTest 0" by (simp add: run_call_other)
  then have "rank (demo_args 0) (pcs ?c 0) \<le> own_steps 0 (map (Call 0) ([Pass, Pass] @ replicate 8 Pass))"
    by (simp add: demo_args_def eval_nat_numeral)
  from winner_progress [OF c this] split obtain r where r: "pcs ?m 0 = Finished r" by metis
  from finished_settled [OF reach win r] have "settled ?m" .
  moreover have "loser_inv (pcs ?m 1)"
    using reach_inv [OF reach] win by (simp add: machine_inv_def)
  moreover have "loser_rank (pcs ?m 1) \<le> own_steps 1 (replicate 3 (Call 1 Pass))"
    using loser_rank_bound [of "pcs ?m 1"] by (simp add: eval_nat_numeral)
  ultimately have "\<exists>r. pcs (exec demo_args (replicate 3 (Call 1 Pass)) ?m) 1 = Finished r"
    by (rule loser_progress [OF reach])
  then show "\<exists>r. pcs demo_race 1 = Finished r" by (simp add: demo_race_def)
qed

theorem loser_result_witness:
  "\<exists>r e. pcs demo_race 1 = Finished r \<and> r = Some (Inl e) \<and>
    (e = AlreadyInitialized \<and> (\<exists>i. winner demo_race = Some i \<and>
         pcs demo_race i \<in> {Dropping (Some (Inr ())), Finished (Some (Inr ()))}) \<or>
     e = AlreadyFailed \<and> decode (word demo_race) \<in> {Error, IntegrityUnverified} \<or>
     e = NotOperational SelfTest \<and> (\<exists>i own. winner demo_race = Some i \<and>
         owner_id (arg_tid (demo_args i)) = Some own \<and> owner_id (arg_tid (demo_args 1)) = Some own) \<or>
     e = SelfTestFailed THREAD_ID_CHECK \<and> owner_id (arg_tid (demo_args 1)) = None \<and>
         decode (word demo_race) = Error)"
proof -
  obtain r where r: "pcs demo_race 1 = Finished r" using demo_race_facts(3) by blast
  have "winner demo_race \<noteq> Some 1" by (simp add: demo_race_facts(2))
  from loser_result [OF demo_race_facts(1) this r] r show ?thesis by blast
qed

text \<open>C7: While the module is not operational, the guard of the internal functions admits exactly
  the thread that claimed the self-tests and is still running them: the state word holds that
  thread's id, and every other thread is refused with the state observed.\<close>

theorem self_test_guard_admits_owner:
  assumes "reach as m" "\<not> is_operational (word m)"
  shows "require_self_test_started tid (word m) = Inr () \<longleftrightarrow>
    (\<exists>i own. winner m = Some i \<and> owner_id (arg_tid (as i)) = Some own \<and>
       owner_id tid = Some own \<and> word m = self_test_word own)"
proof
  assume "require_self_test_started tid (word m) = Inr ()"
  with assms(2) obtain own where own: "tid = Some own" "valid_owner own" "word m = self_test_word own"
    by (auto simp: require_self_test_started_ok is_operational_def)
  have st: "decode (word m) = SelfTest" using own by simp
  then have "word m \<noteq> POWER_OFF" by auto
  from seen_now [OF assms(1) this] st obtain i where i: "winner m = Some i" "word m = claim_of (as i)"
    by (auto simp: seen_def)
  then obtain own' where own': "owner_id (arg_tid (as i)) = Some own'"
    using reach_inv [OF assms(1)] by (auto simp: machine_inv_def)
  then have "own' = own"
    using i own owner_id_valid [OF own'] by (simp add: claim_of_owner self_test_word_inject)
  with i own own' show "\<exists>i own. winner m = Some i \<and> owner_id (arg_tid (as i)) = Some own \<and>
      owner_id tid = Some own \<and> word m = self_test_word own"
    by (auto simp: owner_id_Some_iff)
next
  assume "\<exists>i own. winner m = Some i \<and> owner_id (arg_tid (as i)) = Some own \<and>
      owner_id tid = Some own \<and> word m = self_test_word own"
  then show "require_self_test_started tid (word m) = Inr ()"
    by (auto simp: require_self_test_started_ok owner_id_Some_iff)
qed

theorem self_test_guard_admits_owner_witness:
  "require_self_test_started (Some 41) (word demo_claimed) = Inr () \<longleftrightarrow>
    (\<exists>i own. winner demo_claimed = Some i \<and> owner_id (arg_tid (demo_args i)) = Some own \<and>
       owner_id (Some 41) = Some own \<and> word demo_claimed = self_test_word own)"
  by (rule self_test_guard_admits_owner [OF reach_demo(3)])
    (simp add: is_operational_def demo_claimed_eq self_test_word_distinct valid_owner_def)

text \<open>C5: Initialisation makes progress under every schedule: once the winning call has taken as
  many steps of its own as it has entries, plus seven, it has returned or unwound, whatever the
  other calls and the conditional tests did meanwhile; from then on any other call returns within
  three steps of its own, so no caller spins forever on a settled module.\<close>

theorem initialize_returns:
  assumes "reach as m" "winner m = Some i" "length (entries (as i)) + 7 \<le> own_steps i ls"
    "3 \<le> own_steps j ls'"
  shows "(\<exists>r. pcs (exec as ls m) i = Finished r) \<and> (\<exists>r. pcs (exec as (ls @ ls') m) j = Finished r)"
proof -
  let ?m = "exec as ls m"
  have m: "reach as ?m" "winner ?m = Some i"
    using assms reach_exec winner_stable_exec by blast+
  have "rank (as i) (pcs m i) \<le> own_steps i ls"
    using rank_bound [of "as i" "pcs m i"] assms(3) by simp
  then obtain r where r: "pcs ?m i = Finished r"
    using winner_progress [OF assms(1,2)] by blast
  have "\<exists>r. pcs (exec as ls' ?m) j = Finished r"
  proof (cases "j = i")
    case True
    with finished_exec [OF r] show ?thesis by auto
  next
    case False
    then have "loser_inv (pcs ?m j)"
      using reach_inv [OF m(1)] m(2) by (auto simp: machine_inv_def)
    moreover have "loser_rank (pcs ?m j) \<le> own_steps j ls'"
      using loser_rank_bound [of "pcs ?m j"] assms(4) by simp
    ultimately show ?thesis
      by (rule loser_progress [OF m(1) finished_settled [OF m r]])
  qed
  with r show ?thesis by auto
qed

theorem initialize_returns_witness:
  "(\<exists>r. pcs (exec demo_args (replicate 9 (Call 0 Pass)) demo_claimed) 0 = Finished r) \<and>
   (\<exists>r. pcs (exec demo_args (replicate 9 (Call 0 Pass) @ replicate 3 (Call 1 Fail)) demo_claimed) 1
      = Finished r)"
  by (rule initialize_returns [OF reach_demo(3) demo_claimed_eq(2)])
    (simp_all add: demo_args_def eval_nat_numeral)

text \<open>C3: A call that runs alone from power-off refines its sequential specification: refused
  without a recordable thread id, \<open>IntegrityUnverified\<close> for an empty integrity group, otherwise
  the tests run in order, the first that fails named in the error, and only a run in which all
  pass ends in \<open>Operational\<close> with the requested profile.\<close>

theorem initialize_refines_spec:
  assumes "length outs = length (arg_integrity (as i) @ arg_tests (as i))"
  shows "let m = exec as (map (Call i) (Pass # outs @ replicate 4 Pass)) power_on in
    \<exists>r. pcs m i = Finished r \<and> (r, word m, prof m) = initialize_spec (as i) outs"
  using exec_alone [of outs as i] assms by (cases "initialize_spec (as i) outs") (auto simp: Let_def)

theorem initialize_refines_spec_witness:
  "let m = exec demo_args (map (Call 0) (Pass # [Pass, Unwind] @ replicate 4 Pass)) power_on in
    \<exists>r. pcs m 0 = Finished r \<and> (r, word m, prof m) = initialize_spec (demo_args 0) [Pass, Unwind]"
  by (rule initialize_refines_spec) (simp add: demo_args_def)

end
