(* ===== verification/Gates.thy ===== *)
theory Gates
  imports Module_State "HOL-Library.Stream"
begin

text \<open>
  The entry guards as the algorithm crates call them.  An operation may pass several guards, and
  the module's state can change between them, so the values the guards load are an explicit
  input: a stream of loads of \<open>STATE\<close> and one of \<open>PROFILE\<close>, each guard consuming the next value.
  \<open>chain\<close> is the Rust \<open>?\<close> operator on results that thread this environment.
\<close>

record env =
  os_tid :: "u64 option"
  state_loads :: "u64 stream"
  profile_loads :: "u8 stream"

type_synonym ('e, 'a) gated = "env \<Rightarrow> ('e + 'a) \<times> env"

definition ok :: "'a \<Rightarrow> ('e, 'a) gated" where
  "ok x env = (Inr x, env)"

definition fail :: "'e \<Rightarrow> ('e, 'a) gated" where
  "fail e env = (Inl e, env)"

definition chain :: "('e, 'a) gated \<Rightarrow> ('a \<Rightarrow> ('e, 'b) gated) \<Rightarrow> ('e, 'b) gated" where
  "chain m f env = (case m env of (Inl e, env') \<Rightarrow> (Inl e, env') | (Inr x, env') \<Rightarrow> f x env')"

text \<open>\<open>map_err\<close> of the error conversions the \<open>?\<close> operator applies.\<close>

definition gated_map_err :: "('e \<Rightarrow> 'f) \<Rightarrow> ('e, 'a) gated \<Rightarrow> ('f, 'a) gated" where
  "gated_map_err g m env = (case m env of (Inl e, env') \<Rightarrow> (Inl (g e), env') | (Inr x, env') \<Rightarrow> (Inr x, env'))"

definition gate_operational :: "(error, unit) gated" where
  "gate_operational env =
     (require_operational (shd (state_loads env)), env\<lparr>state_loads := stl (state_loads env)\<rparr>)"

definition gate_self_test_started :: "(error, unit) gated" where
  "gate_self_test_started env =
     (require_self_test_started (os_tid env) (shd (state_loads env)),
      env\<lparr>state_loads := stl (state_loads env)\<rparr>)"

definition gate_allowed :: "service \<Rightarrow> (error, unit) gated" where
  "gate_allowed service env =
     (require_allowed (shd (profile_loads env)) service,
      env\<lparr>profile_loads := stl (profile_loads env)\<rparr>)"

text \<open>The two-gate pattern of the approved services.\<close>

definition gate_service :: "service \<Rightarrow> (error, unit) gated" where
  "gate_service service = chain gate_operational (\<lambda>_. gate_allowed service)"

subsection \<open>Reasoning about guarded operations\<close>

lemma ok_simps [simp]: "ok x env = (Inr x, env)" "fail e env = (Inl e, env)"
  by (simp_all add: ok_def fail_def)

lemma chain_Inr:
  "chain m f env = (Inr y, env'') \<longleftrightarrow> (\<exists>x env'. m env = (Inr x, env') \<and> f x env' = (Inr y, env''))"
  by (auto simp: chain_def split: prod.splits sum.splits)

lemma chain_Inl:
  "chain m f env = (Inl e, env'') \<longleftrightarrow>
     m env = (Inl e, env'') \<or> (\<exists>x env'. m env = (Inr x, env') \<and> f x env' = (Inl e, env''))"
  by (auto simp: chain_def split: prod.splits sum.splits)

lemma chain_simps [simp]:
  "m env = (Inr x, env') \<Longrightarrow> chain m f env = f x env'"
  "m env = (Inl e, env') \<Longrightarrow> chain m f env = (Inl e, env')"
  by (simp_all add: chain_def)

lemma chain_assoc: "chain (chain m f) g = chain m (\<lambda>x. chain (f x) g)"
  by (rule ext) (simp add: chain_def split: prod.splits sum.splits)

text \<open>An environment in which every load returns the same values.\<close>

definition steady :: "u64 option \<Rightarrow> u64 \<Rightarrow> u8 \<Rightarrow> env" where
  "steady tid w p = \<lparr>os_tid = tid, state_loads = sconst w, profile_loads = sconst p\<rparr>"

lemma gate_operational_steady [simp]:
  "gate_operational (steady tid w p) = (require_operational w, steady tid w p)"
  by (simp add: gate_operational_def steady_def)

lemma gate_self_test_started_steady [simp]:
  "gate_self_test_started (steady tid w p) = (require_self_test_started tid w, steady tid w p)"
  by (simp add: gate_self_test_started_def steady_def)

lemma gate_allowed_steady [simp]:
  "gate_allowed s (steady tid w p) = (require_allowed p s, steady tid w p)"
  by (simp add: gate_allowed_def steady_def)

lemma steady_loads [simp]:
  "shd (state_loads (steady tid w p)) = w" "shd (profile_loads (steady tid w p)) = p"
  "os_tid (steady tid w p) = tid"
  by (simp_all add: steady_def)

text \<open>Loads that some run of the module can produce.\<close>

definition legal_loads :: "env \<Rightarrow> bool" where
  "legal_loads env \<longleftrightarrow> (\<forall>i j. i \<le> j \<longrightarrow> word_later (state_loads env !! i) (state_loads env !! j))"

lemma legal_loads_stl: "legal_loads env \<Longrightarrow> legal_loads (env\<lparr>state_loads := stl (state_loads env)\<rparr>)"
proof -
  assume *: "legal_loads env"
  have "word_later (stl (state_loads env) !! i) (stl (state_loads env) !! j)" if "i \<le> j" for i j
    using * [unfolded legal_loads_def, rule_format, of "Suc i" "Suc j"] that by simp
  then show ?thesis by (simp add: legal_loads_def)
qed

lemma legal_loads_profile [simp]: "legal_loads (env\<lparr>profile_loads := ps\<rparr>) = legal_loads env"
  by (simp add: legal_loads_def)

lemma legal_loads_shd:
  "legal_loads env \<Longrightarrow> word_later (shd (state_loads env)) (state_loads env !! j)"
  unfolding legal_loads_def by (metis le0 snth.simps(1))

lemma legal_loads_steady [simp]: "legal_loads (steady tid w p)"
  by (simp add: legal_loads_def steady_def)

text \<open>Once every load is a failed word, both guards refuse for good.\<close>

definition dead :: "env \<Rightarrow> bool" where
  "dead env \<longleftrightarrow> (\<forall>j. state_loads env !! j \<in> {ERROR, INTEGRITY_UNVERIFIED})"

lemma dead_gates:
  assumes "dead env"
  shows "gate_operational env =
      (Inl (NotOperational (decode (shd (state_loads env)))), env\<lparr>state_loads := stl (state_loads env)\<rparr>)"
    and "gate_self_test_started env =
      (Inl (NotOperational (decode (shd (state_loads env)))), env\<lparr>state_loads := stl (state_loads env)\<rparr>)"
    and "dead (env\<lparr>state_loads := stl (state_loads env)\<rparr>)"
proof -
  from assms have "shd (state_loads env) \<in> {ERROR, INTEGRITY_UNVERIFIED}"
    unfolding dead_def by (metis snth.simps(1))
  then show "gate_operational env =
      (Inl (NotOperational (decode (shd (state_loads env)))), env\<lparr>state_loads := stl (state_loads env)\<rparr>)"
    "gate_self_test_started env =
      (Inl (NotOperational (decode (shd (state_loads env)))), env\<lparr>state_loads := stl (state_loads env)\<rparr>)"
    by (auto simp: gate_operational_def gate_self_test_started_def require_operational_def
        require_self_test_started_def)
  show "dead (env\<lparr>state_loads := stl (state_loads env)\<rparr>)"
    using assms by (simp add: dead_def) (metis snth.simps(2))
qed

lemma legal_loads_dead:
  assumes "legal_loads env" "shd (state_loads env) \<in> {ERROR, INTEGRITY_UNVERIFIED}"
  shows "dead env"
  using assms legal_loads_shd [OF assms(1)] word_later_failed unfolding dead_def by blast

lemma dead_steady [simp]: "dead (steady tid w p) \<longleftrightarrow> w \<in> {ERROR, INTEGRITY_UNVERIFIED}"
  by (simp add: dead_def steady_def)

subsection \<open>Several loads\<close>

text \<open>The internal guard on the \<open>i\<close>-th load from now, and the environment after \<open>k\<close> loads.\<close>

definition gate_at :: "env \<Rightarrow> nat \<Rightarrow> error + unit" where
  "gate_at env i = require_self_test_started (os_tid env) (state_loads env !! i)"

definition env_later :: "env \<Rightarrow> nat \<Rightarrow> env" where
  "env_later env k = env\<lparr>state_loads := sdrop k (state_loads env)\<rparr>"

lemma sdrop_plus: "sdrop m (sdrop n s) = sdrop (n + m) s"
  by (induction n arbitrary: s) simp_all

lemma gate_at_later [simp]:
  "gate_at (env_later env k) i = gate_at env (k + i)" "env_later (env_later env a) b = env_later env (a + b)"
  "env_later env 0 = env" "os_tid (env_later env k) = os_tid env"
  by (simp_all add: gate_at_def env_later_def sdrop_snth sdrop_plus add.commute)

lemma gate_self_test_started_at: "gate_self_test_started env = (gate_at env 0, env_later env 1)"
  by (simp add: gate_self_test_started_def gate_at_def env_later_def)

lemma gate_at_steady [simp]:
  "gate_at (steady tid w p) i = require_self_test_started tid w"
  "env_later (steady tid w p) k = steady tid w p"
  by (simp_all add: gate_at_def env_later_def steady_def sdrop_siterate)

text \<open>
  The environments of a module that has become operational: from then on a load is operational or
  failed, and a refusal is final.
\<close>

definition live :: "env \<Rightarrow> bool" where
  "live env \<longleftrightarrow> legal_loads env \<and> (\<forall>j. state_loads env !! j \<in> {OPERATIONAL, ERROR})"

lemma live_start:
  assumes "legal_loads env" "shd (state_loads env) = OPERATIONAL"
  shows "live env"
proof -
  have "state_loads env !! j \<in> {OPERATIONAL, ERROR}" for j
    using legal_loads_shd [OF assms(1), of j] word_later_operational unfolding assms(2) by blast
  with assms(1) show ?thesis by (simp add: live_def)
qed

lemma legal_loads_later: "legal_loads env \<Longrightarrow> legal_loads (env_later env k)"
  by (auto simp: legal_loads_def env_later_def sdrop_snth)

lemma live_later: "live env \<Longrightarrow> live (env_later env k)"
  by (simp add: live_def legal_loads_later) (simp add: env_later_def sdrop_snth)

lemma live_refused:
  assumes "live env" "gate_at env i = Inl e"
  shows "dead (env_later env i)"
proof -
  have "state_loads env !! i \<noteq> OPERATIONAL"
    using assms(2) by (auto simp: gate_at_def require_self_test_started_def)
  then have "state_loads env !! i = ERROR" using assms(1) by (auto simp: live_def)
  moreover have "shd (state_loads (env_later env i)) = state_loads env !! i"
    by (simp add: env_later_def)
  ultimately show ?thesis
    using assms(1) legal_loads_later [of env i] by (intro legal_loads_dead) (auto simp: live_def)
qed

lemma dead_later: "dead env \<Longrightarrow> dead (env_later env k)"
  by (simp add: dead_def env_later_def sdrop_snth)

lemma dead_gate_at: "dead env \<Longrightarrow> \<exists>e. gate_at env i = Inl e"
proof -
  assume "dead env"
  then have "state_loads env !! i \<in> {ERROR, INTEGRITY_UNVERIFIED}" by (simp add: dead_def)
  then show ?thesis by (auto simp: gate_at_def require_self_test_started_def)
qed

text \<open>A guarded computation that only reads: \<open>k\<close> loads, then a value.\<close>

fun guards :: "nat \<Rightarrow> 'a \<Rightarrow> (error, 'a) gated" where
  "guards 0 x = ok x"
| "guards (Suc k) x = chain gate_self_test_started (\<lambda>_. guards k x)"

lemma guards_steady [simp]:
  "require_self_test_started tid w = Inr () \<Longrightarrow> guards k x (steady tid w p) = (Inr x, steady tid w p)"
  by (induction k) simp_all

end
