(* ===== verification/Entropy_Timer.thy ===== *)
theory Entropy_Timer
  imports Gates
begin

unbundle bit_operations_syntax

text \<open>
  Timer reads and the timer-adequacy measurement
  (\<^verbatim>\<open>src/crates/oxicrypt-entropy/src/timer.rs\<close>).  A timer (\<^verbatim>\<open>TimerRead\<close>) is any device, so its
  future reads are an arbitrary stream; the platform timers behind it are operating-system and
  CPU calls and are not modelled.
\<close>

datatype timer_source = RawCounter | OsNanoClock | InternalTimerThread

record timer =
  timer_reads :: "u64 stream"
  width_bits :: u32

definition timer_read :: "timer \<Rightarrow> u64 \<times> timer" where
  "timer_read t = (shd (timer_reads t), t\<lparr>timer_reads := stl (timer_reads t)\<rparr>)"

datatype inadequacy_reason = TooCoarse | TooUniform | NonMonotonic

record adequacy_report =
  deltas :: u32
  zero_deltas :: u32
  min_positive_delta :: "u64 option"
  distinct_deltas :: u32
  backwards_violations :: u32

datatype timer_error =
    Unsupported
  | TimerUnavailable
  | Backwards
  | Inadequate inadequacy_reason adequacy_report
  | TimerModule error

definition wrapping_delta :: "u64 \<Rightarrow> u64 \<Rightarrow> u32 \<Rightarrow> timer_error + u64" where
  "wrapping_delta prev now w =
     (let masked = (\<lambda>v. if w \<ge> 64 then v else v AND (push_bit (unat w) 1 - 1));
          delta = masked (now - prev);
          top_bit = push_bit (min (unat w - 1) 63) (1 :: u64)
      in if delta AND top_bit \<noteq> 0 then Inl Backwards else Inr delta)"

record adequacy_config =
  samples :: u32
  workload_samples :: u32
  max_zero_delta_permille :: u32
  min_distinct_deltas :: u32

definition MIN_DISTINCT_DELTAS_FLOOR :: u32 where "MIN_DISTINCT_DELTAS_FLOOR = 2"

definition default_adequacy_config :: adequacy_config where
  "default_adequacy_config =
     \<lparr>samples = 4096, workload_samples = 256, max_zero_delta_permille = 900, min_distinct_deltas = 4\<rparr>"

definition ensure_sound :: "adequacy_report \<Rightarrow> adequacy_config \<Rightarrow> timer_error + unit" where
  "ensure_sound r config =
     (if backwards_violations r > 0 then Inl (Inadequate NonMonotonic r)
      else
        let lhs = sat_mul (ucast (zero_deltas r)) 1000 :: u64;
            rhs = sat_mul (ucast (deltas r)) (ucast (max_zero_delta_permille config))
        in if lhs > rhs then Inl (Inadequate TooCoarse r) else Inr ())"

definition ensure_varied :: "adequacy_report \<Rightarrow> adequacy_config \<Rightarrow> timer_error + unit" where
  "ensure_varied r config =
     (if distinct_deltas r < max (min_distinct_deltas config) MIN_DISTINCT_DELTAS_FLOOR
      then Inl (Inadequate TooUniform r) else Inr ())"

definition ensure_adequate :: "adequacy_report \<Rightarrow> adequacy_config \<Rightarrow> timer_error + unit" where
  "ensure_adequate r config =
     (case ensure_sound r config of Inl e \<Rightarrow> Inl e | Inr _ \<Rightarrow>
       (case ensure_varied r config of Inl e \<Rightarrow> Inl e | Inr _ \<Rightarrow> Inr ()))"

record adequacy_acc =
  report :: adequacy_report
  seen :: "u64 list"
  seen_len :: usize

definition acc_new :: adequacy_acc where
  "acc_new =
     \<lparr>report = \<lparr>deltas = 0, zero_deltas = 0, min_positive_delta = None, distinct_deltas = 0,
               backwards_violations = 0\<rparr>,
      seen = replicate 16 0, seen_len = 0\<rparr>"

text \<open>The arms of the match on one measured delta, then the count of deltas.\<close>

definition acc_violation :: "adequacy_acc \<Rightarrow> adequacy_acc" where
  "acc_violation a =
     a\<lparr>report := (report a)\<lparr>backwards_violations := sat_add (backwards_violations (report a)) 1\<rparr>\<rparr>"

definition acc_zero :: "adequacy_acc \<Rightarrow> adequacy_acc" where
  "acc_zero a = a\<lparr>report := (report a)\<lparr>zero_deltas := sat_add (zero_deltas (report a)) 1\<rparr>\<rparr>"

definition acc_positive :: "u64 \<Rightarrow> adequacy_acc \<Rightarrow> adequacy_acc" where
  "acc_positive d a =
     (let m = (case min_positive_delta (report a) of
                 Some m \<Rightarrow> if m \<le> d then m else d
               | None \<Rightarrow> d);
          a = a\<lparr>report := (report a)\<lparr>min_positive_delta := Some m\<rparr>\<rparr>;
          known = d \<in> set (take (seen_len a) (seen a))
      in if \<not> known \<and> seen_len a < length (seen a)
         then a\<lparr>seen := (seen a)[seen_len a := d], seen_len := seen_len a + 1\<rparr>
         else a)"

definition acc_record :: "(timer_error + u64) \<Rightarrow> adequacy_acc \<Rightarrow> adequacy_acc" where
  "acc_record delta a =
     (let a = (case delta of
                 Inl e \<Rightarrow> if e = Backwards then acc_violation a else acc_zero a
               | Inr d \<Rightarrow> if d = 0 then acc_zero a else acc_positive d a)
      in a\<lparr>report := (report a)\<lparr>deltas := sat_add (deltas (report a)) 1\<rparr>\<rparr>)"

definition acc_finish :: "adequacy_acc \<Rightarrow> adequacy_report" where
  "acc_finish a =
     (report a)\<lparr>distinct_deltas := (if seen_len a < 2 ^ 32 then word_of_nat (seen_len a) else - 1)\<rparr>"

function measure_loop ::
  "u32 \<Rightarrow> u32 \<Rightarrow> u32 \<Rightarrow> u64 \<Rightarrow> adequacy_acc \<Rightarrow> timer \<Rightarrow> adequacy_acc \<times> timer" where
  "measure_loop w n fed prev a t =
     (if fed < n then
        let (now, t) = timer_read t
        in measure_loop w n (sat_add fed 1) now (acc_record (wrapping_delta prev now w) a) t
      else (a, t))"
  by pat_completeness auto
termination
  by (relation "measure (\<lambda>(w, n, fed, prev, a, t). unat n - unat fed)")
    (auto simp: sat_add_1_nat word_less_nat_alt)

declare measure_loop.simps [simp del]

definition measure_adequacy :: "timer \<Rightarrow> adequacy_config \<Rightarrow> adequacy_report \<times> timer" where
  "measure_adequacy t config =
     (let w = width_bits t;
          (prev, t) = timer_read t;
          (a, t) = measure_loop w (samples config) 1 prev acc_new t
      in (acc_finish a, t))"

subsection \<open>Deltas of a counter\<close>

lemma wrapping_delta_nat:
  assumes "1 \<le> unat w" "unat w \<le> 64"
  shows "wrapping_delta prev now w =
    (let d = unat (now - prev) mod 2 ^ unat w
     in if d < 2 ^ (unat w - 1) then Inr (word_of_nat d) else Inl Backwards)"
proof -
  let ?w = "unat w" and ?D = "now - prev"
  have lt: "w \<ge> 64 \<longleftrightarrow> ?w = 64" using assms by (auto simp: word_le_nat_alt)
  have masked: "(if w \<ge> 64 then ?D else ?D AND (push_bit ?w 1 - 1)) = take_bit ?w ?D"
  proof (cases "?w = 64")
    case True
    then show ?thesis using lt by (simp add: take_bit_word_eq_self)
  next
    case False
    then show ?thesis using lt by (simp add: take_bit_eq_mask mask_eq_decr_exp push_bit_eq_mult)
  qed
  have top: "min (?w - 1) 63 = ?w - 1" using assms by simp
  have bit: "(take_bit ?w ?D AND push_bit (?w - 1) 1 \<noteq> 0) \<longleftrightarrow> bit ?D (?w - 1)"
    using assms by (simp add: push_bit_eq_mult and_exp_eq_0_iff_not_bit bit_take_bit_iff)
  have d: "unat ?D mod 2 ^ ?w = take_bit ?w (unat ?D)" by (simp add: take_bit_eq_mod)
  have ub: "take_bit ?w (unat ?D) < 2 ^ (?w - 1) \<longleftrightarrow> \<not> bit ?D (?w - 1)"
  proof -
    have "take_bit ?w (unat ?D) = take_bit (?w - 1) (unat ?D) + (if bit (unat ?D) (?w - 1) then 2 ^ (?w - 1) else 0)"
      using take_bit_Suc_from_most [of "?w - 1" "unat ?D"] assms by (simp add: of_bool_def)
    moreover have "take_bit (?w - 1) (unat ?D) < 2 ^ (?w - 1)" by simp
    moreover have "bit (unat ?D) (?w - 1) = bit ?D (?w - 1)"
      by (simp add: bit_unsigned_iff)
    ultimately show ?thesis by auto
  qed
  have w: "take_bit ?w ?D = word_of_nat (take_bit ?w (unat ?D))"
    by (simp add: of_nat_take_bit word_unat_eq_iff)
  show ?thesis
    unfolding wrapping_delta_def Let_def masked top bit d ub using w by simp
qed

lemma take_bit_diff_word:
  "n \<le> LENGTH('a) \<Longrightarrow> take_bit n (take_bit n a - take_bit n b) = take_bit n (a - b :: 'a::len word)"
  by transfer (simp add: take_bit_diff min_def)

subsection \<open>What the accumulator reports\<close>

definition positives :: "(timer_error + u64) list \<Rightarrow> u64 list" where
  "positives ds = concat (map (\<lambda>d. case d of Inl _ \<Rightarrow> [] | Inr x \<Rightarrow> if x = 0 then [] else [x]) ds)"

definition is_zero :: "timer_error + u64 \<Rightarrow> bool" where
  "is_zero d \<longleftrightarrow> (case d of Inl e \<Rightarrow> e \<noteq> Backwards | Inr x \<Rightarrow> x = 0)"

definition capped :: "nat \<Rightarrow> nat" where "capped n = min n (2 ^ 32 - 1)"

definition acc_describes :: "adequacy_acc \<Rightarrow> (timer_error + u64) list \<Rightarrow> bool" where
  "acc_describes a ds \<longleftrightarrow>
     unat (deltas (report a)) = capped (length ds) \<and>
     unat (zero_deltas (report a)) = capped (length (filter is_zero ds)) \<and>
     unat (backwards_violations (report a)) = capped (count_list ds (Inl Backwards)) \<and>
     min_positive_delta (report a) =
       (if positives ds = [] then None else Some (Min (set (positives ds)))) \<and>
     length (seen a) = 16 \<and> seen_len a = min 16 (card (set (positives ds))) \<and>
     distinct (take (seen_len a) (seen a)) \<and> set (take (seen_len a) (seen a)) \<subseteq> set (positives ds)"

lemma positives_snoc:
  "positives (ds @ [d]) = positives ds @ (case d of Inl _ \<Rightarrow> [] | Inr x \<Rightarrow> if x = 0 then [] else [x])"
  by (simp add: positives_def)

lemma capped_Suc: "unat (v :: u32) = capped n \<Longrightarrow> unat (sat_add v 1) = capped (Suc n)"
  by (simp add: capped_def unat_sat_add)

lemma acc_positive_describes:
  fixes a :: adequacy_acc and d :: u64
  defines "s \<equiv> take (seen_len a) (seen a)" and "s' \<equiv> take (seen_len (acc_positive d a)) (seen (acc_positive d a))"
  assumes "length (seen a) = 16" "seen_len a = min 16 (card P)" "distinct s" "set s \<subseteq> P" "finite P"
  shows "length (seen (acc_positive d a)) = 16 \<and>
    seen_len (acc_positive d a) = min 16 (card (insert d P)) \<and> distinct s' \<and> set s' \<subseteq> insert d P"
proof -
  have card_s: "card (set s) = min 16 (card P)"
    using assms distinct_card [of s] by simp
  have full: "set s = P" if "card P < 16"
    using that card_s assms by (intro card_subset_eq) simp_all
  show ?thesis
  proof (cases "d \<in> set s")
    case True
    then have "insert d P = P" using assms(6) by auto
    with True assms show ?thesis by (simp add: acc_positive_def Let_def)
  next
    case False
    show ?thesis
    proof (cases "seen_len a < 16")
      case True
      then have "card P < 16" using assms(4) by simp
      with full False have "d \<notin> P" by simp
      then have "card (insert d P) = Suc (card P)" using assms(7) by simp
      moreover have "take (Suc (seen_len a)) ((seen a)[seen_len a := d]) = s @ [d]"
        using True assms(3) by (simp add: s_def take_Suc_conv_app_nth)
      moreover have "seen_len a = card P" using True assms(4) by simp
      moreover have "distinct (s @ [d])" "set (s @ [d]) \<subseteq> insert d P" using False assms(5,6) by auto
      ultimately show ?thesis
        using False True assms(3) \<open>card P < 16\<close>
        by (simp add: acc_positive_def Let_def s_def s'_def)
    next
      case not_full: False
      then have "16 \<le> card P" using assms(4) by simp
      then have "16 \<le> card (insert d P)" using card_mono [of "insert d P" P, OF _ subset_insertI] assms(7) by simp
      with not_full False assms show ?thesis
        by (auto simp: acc_positive_def Let_def)
    qed
  qed
qed

lemma acc_record_describes:
  assumes "acc_describes a ds"
  shows "acc_describes (acc_record d a) (ds @ [d])"
proof -
  note D = assms [unfolded acc_describes_def]
  note caps = D [THEN conjunct1, THEN capped_Suc]
    D [THEN conjunct2, THEN conjunct1, THEN capped_Suc]
    D [THEN conjunct2, THEN conjunct2, THEN conjunct1, THEN capped_Suc]
  show ?thesis
  proof (cases "\<exists>x. d = Inr x \<and> x \<noteq> 0")
    case True
    then obtain x where d: "d = Inr x" "x \<noteq> 0" by blast
    have sl: "length (seen a) = 16" "seen_len a = min 16 (card (set (positives ds)))"
      "distinct (take (seen_len a) (seen a))" "set (take (seen_len a) (seen a)) \<subseteq> set (positives ds)"
      using D by blast+
    have seen: "length (seen (acc_positive x a)) = 16 \<and>
        seen_len (acc_positive x a) = min 16 (card (insert x (set (positives ds)))) \<and>
        distinct (take (seen_len (acc_positive x a)) (seen (acc_positive x a))) \<and>
        set (take (seen_len (acc_positive x a)) (seen (acc_positive x a))) \<subseteq> insert x (set (positives ds))"
      by (rule acc_positive_describes [OF sl finite_set])
    have rep: "report (acc_positive x a) = (report a)\<lparr>min_positive_delta :=
        Some (case min_positive_delta (report a) of Some m \<Rightarrow> if m \<le> x then m else x | None \<Rightarrow> x)\<rparr>"
      by (simp add: acc_positive_def Let_def)
    have mn: "(case min_positive_delta (report a) of Some m \<Rightarrow> if m \<le> x then m else x | None \<Rightarrow> x) =
        Min (insert x (set (positives ds)))"
    proof (cases "positives ds = []")
      case True
      then show ?thesis using D by simp
    next
      case False
      then have "Min (insert x (set (positives ds))) = min x (Min (set (positives ds)))" by simp
      moreover have "min_positive_delta (report a) = Some (Min (set (positives ds)))"
        using D False by simp
      ultimately show ?thesis using linear [of x "Min (set (positives ds))"] by (auto simp: min_def)
    qed
    show ?thesis
      using D caps(1) seen d mn
      by (elim conjE, simp add: acc_describes_def acc_record_def Let_def rep positives_snoc is_zero_def
          insert_commute)
  next
    case False
    then have p: "positives (ds @ [d]) = positives ds"
      by (auto simp: positives_snoc split: sum.splits)
    have "acc_record d a = (let a = (if d = Inl Backwards then acc_violation a else acc_zero a)
        in a\<lparr>report := (report a)\<lparr>deltas := sat_add (deltas (report a)) 1\<rparr>\<rparr>)"
      using False by (cases d) (auto simp: acc_record_def Let_def)
    moreover have "is_zero d \<longleftrightarrow> d \<noteq> Inl Backwards"
      using False by (cases d) (auto simp: is_zero_def)
    moreover have "min_positive_delta (report a) =
        (if positives ds = [] then None else Some (Min (set (positives ds))))"
      "length (seen a) = 16" "seen_len a = min 16 (card (set (positives ds)))"
      "distinct (take (seen_len a) (seen a))" "set (take (seen_len a) (seen a)) \<subseteq> set (positives ds)"
      using D by blast+
    moreover have "unat (deltas (report a)) = capped (length ds)"
      "unat (zero_deltas (report a)) = capped (length (filter is_zero ds))"
      "unat (backwards_violations (report a)) = capped (count_list ds (Inl Backwards))"
      using D by blast+
    ultimately show ?thesis
      unfolding acc_describes_def p using caps
      by (cases "d = Inl Backwards") (simp_all add: Let_def acc_violation_def acc_zero_def)
  qed
qed

lemma acc_describes_fold: "acc_describes (fold acc_record ds acc_new) ds"
proof (induction ds rule: rev_induct)
  case Nil
  show ?case by (simp add: acc_describes_def acc_new_def positives_def capped_def)
next
  case (snoc d ds)
  from acc_record_describes [OF this] show ?case by simp
qed

definition report_of :: "(timer_error + u64) list \<Rightarrow> adequacy_report" where
  "report_of ds = acc_finish (fold acc_record ds acc_new)"

lemma report_of_fields:
  "unat (deltas (report_of ds)) = capped (length ds)"
  "unat (zero_deltas (report_of ds)) = capped (length (filter is_zero ds))"
  "unat (backwards_violations (report_of ds)) = capped (count_list ds (Inl Backwards))"
  "min_positive_delta (report_of ds) = (if positives ds = [] then None else Some (Min (set (positives ds))))"
  "unat (distinct_deltas (report_of ds)) = min 16 (card (set (positives ds)))"
proof -
  note D = acc_describes_fold [of ds, unfolded acc_describes_def]
  then have "seen_len (fold acc_record ds acc_new) = min 16 (card (set (positives ds)))" by simp
  moreover have "min 16 (card (set (positives ds))) < 2 ^ 32" by (rule le_less_trans [of _ 16]) simp_all
  ultimately show "unat (distinct_deltas (report_of ds)) = min 16 (card (set (positives ds)))"
    by (simp add: report_of_def acc_finish_def unsigned_of_nat take_bit_nat_eq_self)
qed (use acc_describes_fold [of ds] in \<open>simp_all add: report_of_def acc_finish_def acc_describes_def\<close>)

text \<open>The deltas between \<open>k + 1\<close> consecutive reads.\<close>

definition bare_deltas :: "u32 \<Rightarrow> u64 stream \<Rightarrow> nat \<Rightarrow> (timer_error + u64) list" where
  "bare_deltas w rs k = map (\<lambda>i. wrapping_delta (rs !! i) (rs !! Suc i) w) [0..<k]"

lemma bare_deltas_Suc:
  "bare_deltas w (r ## rs) (Suc k) = wrapping_delta r (shd rs) w # bare_deltas w rs k"
  by (simp add: bare_deltas_def upt_conv_Cons map_Suc_upt [symmetric] del: upt_Suc)

lemma measure_loop_deltas:
  "measure_loop w n fed prev a t =
     (fold acc_record (bare_deltas w (prev ## timer_reads t) (unat n - unat fed)) a,
      t\<lparr>timer_reads := sdrop (unat n - unat fed) (timer_reads t)\<rparr>)"
proof (induction w n fed prev a t rule: measure_loop.induct)
  case (1 w n fed prev a t)
  show ?case
  proof (cases "fed < n")
    case True
    then have "unat n - unat fed = Suc (unat n - unat (sat_add fed 1))"
      by (simp add: sat_add_1_nat word_less_nat_alt)
    with True 1 [OF True, of "(shd (timer_reads t), t\<lparr>timer_reads := stl (timer_reads t)\<rparr>)"]
    show ?thesis
      by (simp add: measure_loop.simps [of w n fed prev a t] timer_read_def bare_deltas_Suc
          stream.collapse)
  next
    case False
    then show ?thesis
      by (simp add: measure_loop.simps [of w n fed prev a t] bare_deltas_def word_less_nat_alt)
  qed
qed

lemma measure_adequacy_report:
  "measure_adequacy t config =
     (report_of (bare_deltas (width_bits t) (timer_reads t) (unat (samples config) - 1)),
      t\<lparr>timer_reads := sdrop (unat (samples config) - 1) (stl (timer_reads t))\<rparr>)"
  by (simp add: measure_adequacy_def timer_read_def measure_loop_deltas report_of_def)

lemma ensure_adequate_cases:
  "ensure_sound r config =
     (if 0 < unat (backwards_violations r) then Inl (Inadequate NonMonotonic r)
      else if unat (zero_deltas r) * 1000 > unat (deltas r) * unat (max_zero_delta_permille config)
        then Inl (Inadequate TooCoarse r)
      else Inr ())"
  "ensure_varied r config =
     (if unat (distinct_deltas r) < max (unat (min_distinct_deltas config)) 2
      then Inl (Inadequate TooUniform r) else Inr ())"
proof -
  have a: "unat (sat_mul (ucast (zero_deltas r)) 1000 :: u64) = unat (zero_deltas r) * 1000"
    using unsigned_less [of "zero_deltas r", where 'a = nat] by (simp add: unat_sat_mul unat_ucast_u32)
  have "unat (deltas r) * unat (max_zero_delta_permille config) \<le> (2 ^ 32 - 1) * (2 ^ 32 - 1)"
    using unsigned_less [of "deltas r", where 'a = nat]
      unsigned_less [of "max_zero_delta_permille config", where 'a = nat]
    by (intro mult_le_mono) simp_all
  then have b: "unat (sat_mul (ucast (deltas r)) (ucast (max_zero_delta_permille config)) :: u64) =
      unat (deltas r) * unat (max_zero_delta_permille config)"
    by (simp add: unat_sat_mul unat_ucast_u32)
  show "ensure_sound r config =
     (if 0 < unat (backwards_violations r) then Inl (Inadequate NonMonotonic r)
      else if unat (zero_deltas r) * 1000 > unat (deltas r) * unat (max_zero_delta_permille config)
        then Inl (Inadequate TooCoarse r)
      else Inr ())"
    unfolding ensure_sound_def Let_def word_less_nat_alt a b by simp
  have "unat (max m 2) = max (unat m) 2" for m :: u32
    by (simp add: max_def word_le_nat_alt)
  then show "ensure_varied r config =
     (if unat (distinct_deltas r) < max (unat (min_distinct_deltas config)) 2
      then Inl (Inadequate TooUniform r) else Inr ())"
    by (simp add: ensure_varied_def MIN_DISTINCT_DELTAS_FLOOR_def word_less_nat_alt)
qed

subsection \<open>Properties\<close>

text \<open>The delta of two reads of a \<open>w\<close>-bit counter is their difference modulo \<open>2 ^ w\<close>, also
  across a wrap of the counter, and a backwards violation exactly when that difference has its top
  bit set; in particular an advance of fewer than \<open>2 ^ (w - 1)\<close> ticks is recovered exactly.\<close>

theorem wrapping_delta_exact:
  assumes "1 \<le> unat w" "unat w \<le> 64"
  shows "wrapping_delta prev now w =
      (let d = unat (now - prev) mod 2 ^ unat w
       in if d < 2 ^ (unat w - 1) then Inr (word_of_nat d) else Inl Backwards) \<and>
    (unat ticks < 2 ^ (unat w - 1) \<longrightarrow>
      wrapping_delta (take_bit (unat w) t) (take_bit (unat w) (t + ticks)) w = Inr ticks)"
proof -
  have "wrapping_delta (take_bit (unat w) t) (take_bit (unat w) (t + ticks)) w = Inr ticks"
    if small: "unat ticks < 2 ^ (unat w - 1)"
  proof -
    let ?d = "take_bit (unat w) (t + ticks) - take_bit (unat w) t"
    have "take_bit (unat w) ?d = take_bit (unat w) (t + ticks - t)"
      using assms by (intro take_bit_diff_word) simp
    then have "unat (take_bit (unat w) ?d) = unat (take_bit (unat w) ticks)" by simp
    then have "take_bit (unat w) (unat ?d) = take_bit (unat w) (unat ticks)"
      by (simp only: unsigned_take_bit_eq)
    moreover have "unat ticks < 2 ^ unat w"
      using small by (rule less_le_trans) simp
    ultimately have "unat ?d mod 2 ^ unat w = unat ticks"
      by (simp add: take_bit_eq_mod)
    with small show ?thesis
      unfolding wrapping_delta_nat [OF assms] Let_def by simp
  qed
  with wrapping_delta_nat [OF assms] show ?thesis by blast
qed

lemma wrapping_delta_exact_witness:
  "wrapping_delta 250 4 8 = Inr 10 \<and> wrapping_delta 4 250 8 = Inl Backwards"
  using wrapping_delta_exact [of 8 250 4 10 250] wrapping_delta_exact [of 8 4 250 0 0] by simp

text \<open>The adequacy check refuses a timer for exactly the documented reasons, in the documented
  order: any backwards delta among the measured ones, more zero deltas than the configured
  permille, or fewer distinct positive deltas (counted up to 16) than the configured bound, which
  cannot be set below two; the counters cannot saturate.\<close>

theorem adequacy_exact:
  fixes config :: adequacy_config and t :: timer
  assumes "samples config \<noteq> 0"
  defines "ds \<equiv> bare_deltas (width_bits t) (timer_reads t) (unat (samples config) - 1)"
  shows "let r = fst (measure_adequacy t config) in ensure_adequate r config =
    (if Inl Backwards \<in> set ds then Inl (Inadequate NonMonotonic r)
     else if length ds * unat (max_zero_delta_permille config) < length (filter is_zero ds) * 1000
       then Inl (Inadequate TooCoarse r)
     else if min 16 (card (set (positives ds))) < max 2 (unat (min_distinct_deltas config))
       then Inl (Inadequate TooUniform r)
     else Inr ())"
proof -
  have len: "length ds < 2 ^ 32 - 1"
    using unsigned_less [of "samples config", where 'a = nat] assms(1)
    by (simp add: ds_def bare_deltas_def unat_gt_0 [symmetric])
  have le: "length (filter is_zero ds) \<le> length ds" "count_list ds (Inl Backwards) \<le> length ds"
    by (rule length_filter_le, rule count_le_length)
  have fields: "unat (deltas (report_of ds)) = length ds"
    "unat (zero_deltas (report_of ds)) = length (filter is_zero ds)"
    "unat (backwards_violations (report_of ds)) = count_list ds (Inl Backwards)"
    "unat (distinct_deltas (report_of ds)) = min 16 (card (set (positives ds)))"
    using le_less_trans [OF le(1) len] le_less_trans [OF le(2) len] len
    by (simp_all add: report_of_fields capped_def min_absorb1 less_imp_le)
  have r: "fst (measure_adequacy t config) = report_of ds"
    by (simp add: measure_adequacy_report ds_def)
  have "0 < count_list ds (Inl Backwards) \<longleftrightarrow> Inl Backwards \<in> set ds"
    using count_list_0_iff [of ds "Inl Backwards"] by auto
  then show ?thesis
    unfolding r Let_def ensure_adequate_def ensure_adequate_cases fields by (simp add: max.commute)
qed

lemma adequacy_exact_witness:
  "fst (measure_adequacy \<lparr>timer_reads = [100, 100, 100] @- sconst 100, width_bits = 64\<rparr>
      (default_adequacy_config\<lparr>samples := 3\<rparr>)) = report_of [Inr 0, Inr 0] \<and>
   ensure_adequate (report_of [Inr 0, Inr 0]) (default_adequacy_config\<lparr>samples := 3\<rparr>) =
     Inl (Inadequate TooCoarse (report_of [Inr 0, Inr 0]))"
proof -
  let ?t = "\<lparr>timer_reads = [100, 100, 100] @- sconst 100, width_bits = 64\<rparr>"
  let ?c = "default_adequacy_config\<lparr>samples := 3\<rparr>"
  have ds: "bare_deltas (width_bits ?t) (timer_reads ?t) (unat (samples ?c) - 1) = [Inr 0, Inr 0]"
  proof -
    have "[0..<2] = [0, 1 :: nat]" by code_simp
    then show ?thesis by (simp add: bare_deltas_def wrapping_delta_def)
  qed
  have "fst (measure_adequacy ?t ?c) = report_of [Inr 0, Inr 0]"
    unfolding measure_adequacy_report ds by simp
  with adequacy_exact [of ?c ?t, unfolded ds] show ?thesis
    by (simp add: Let_def default_adequacy_config_def is_zero_def)
qed

end
