(* ===== verification/Entropy_Health.thy ===== *)
theory Entropy_Health
  imports Gates
begin

unbundle bit_operations_syntax

text \<open>
  Entropy accounting and the continuous health tests of SP 800-90B
  (\<^verbatim>\<open>src/crates/oxicrypt-entropy/src/h.rs\<close>, \<^verbatim>\<open>sp800_90b.rs\<close> and \<^verbatim>\<open>health.rs\<close>): min-entropy in
  steps of 1/256 bit, the transcribed cutoff tables, the repetition count test, the adaptive
  proportion test and the monitor that runs both and poisons itself.
\<close>

subsection \<open>Min-entropy\<close>

definition H_STEPS_PER_BIT :: u32 where "H_STEPS_PER_BIT = 256"

datatype min_entropy = MinEntropy (steps: u32)

instantiation min_entropy :: linorder
begin

definition less_eq_min_entropy :: "min_entropy \<Rightarrow> min_entropy \<Rightarrow> bool" where
  "less_eq_min_entropy g h \<longleftrightarrow> steps g \<le> steps h"

definition less_min_entropy :: "min_entropy \<Rightarrow> min_entropy \<Rightarrow> bool" where
  "less_min_entropy g h \<longleftrightarrow> steps g < steps h"

instance
  by standard (auto simp: less_eq_min_entropy_def less_min_entropy_def min_entropy.expand)

end

definition h_from_bits :: "u8 \<Rightarrow> min_entropy" where
  "h_from_bits bits = MinEntropy (sat_mul (ucast bits) H_STEPS_PER_BIT)"

definition h_from_fraction_floor :: "u64 \<Rightarrow> u64 \<Rightarrow> min_entropy option" where
  "h_from_fraction_floor num den =
     (if den = 0 then None
      else
        let st = sat_mul num (ucast H_STEPS_PER_BIT) div den
        in if st < 2 ^ 32 then Some (MinEntropy (ucast st)) else None)"

definition h_bits_floor :: "min_entropy \<Rightarrow> u32" where
  "h_bits_floor h = steps h div H_STEPS_PER_BIT"

subsection \<open>Transcribed constants\<close>

record spec_ratio =
  num :: u32
  den :: u32

record apt_row =
  row_h :: spec_ratio
  row_cutoff :: u32

abbreviation row :: "u32 \<Rightarrow> u32 \<Rightarrow> u32 \<Rightarrow> apt_row" where
  "row n d c \<equiv> \<lparr>row_h = \<lparr>num = n, den = d\<rparr>, row_cutoff = c\<rparr>"

definition CONTINUOUS_ALPHA_EXP_RECOMMENDED_MIN :: u32 where
  "CONTINUOUS_ALPHA_EXP_RECOMMENDED_MIN = 20"
definition CONTINUOUS_ALPHA_EXP_RECOMMENDED_MAX :: u32 where
  "CONTINUOUS_ALPHA_EXP_RECOMMENDED_MAX = 40"
definition STARTUP_MIN_SAMPLES :: u32 where "STARTUP_MIN_SAMPLES = 1024"
definition APT_WINDOW_BINARY :: u32 where "APT_WINDOW_BINARY = 1024"
definition APT_WINDOW_NON_BINARY :: u32 where "APT_WINDOW_NON_BINARY = 512"
definition APT_TABLE2_ALPHA_EXP :: u32 where "APT_TABLE2_ALPHA_EXP = 20"
definition APT_ALPHA30_ALPHA_EXP :: u32 where "APT_ALPHA30_ALPHA_EXP = 30"
definition VETTED_SHA256_NW_BITS :: u32 where "VETTED_SHA256_NW_BITS = 256"
definition VETTED_SHA256_NOUT_BITS :: u32 where "VETTED_SHA256_NOUT_BITS = 256"
definition FULL_ENTROPY_INPUT_MARGIN_BITS :: u32 where "FULL_ENTROPY_INPUT_MARGIN_BITS = 64"

definition APT_TABLE2_BINARY :: "apt_row list" where
  "APT_TABLE2_BINARY = [row 1 5 941, row 2 5 840, row 3 5 748, row 4 5 664, row 1 1 589]"

definition APT_TABLE2_NON_BINARY :: "apt_row list" where
  "APT_TABLE2_NON_BINARY = [row 1 2 410, row 1 1 311, row 2 1 177, row 4 1 62, row 8 1 13]"

definition APT_ALPHA30_BINARY :: "apt_row list" where
  "APT_ALPHA30_BINARY = [row 1 5 952, row 2 5 856, row 3 5 766, row 4 5 683, row 1 1 609]"

definition APT_ALPHA30_NON_BINARY :: "apt_row list" where
  "APT_ALPHA30_NON_BINARY = [row 1 2 422, row 1 1 325, row 2 1 190, row 4 1 71, row 8 1 16]"

subsection \<open>The cutoff parameter and the errors\<close>

datatype alpha = Alpha (alpha_exp: u32)

definition alpha_DEFAULT :: alpha where "alpha_DEFAULT = Alpha 30"

definition alpha_from_exp :: "u32 \<Rightarrow> alpha option" where
  "alpha_from_exp e =
     (if e \<ge> CONTINUOUS_ALPHA_EXP_RECOMMENDED_MIN \<and> e \<le> CONTINUOUS_ALPHA_EXP_RECOMMENDED_MAX
      then Some (Alpha e) else None)"

datatype health_test = Rct | Apt

datatype health_error = Failed health_test | Poisoned | UnsupportedAlpha u32

type_synonym raw_sample = u8

subsection \<open>Repetition count test\<close>

record rct =
  rct_cutoff :: u32
  rct_last :: "raw_sample option"
  run_len :: u32

definition rct_new :: "min_entropy \<Rightarrow> alpha \<Rightarrow> rct option" where
  "rct_new h a =
     (let st = steps h in
      if st = 0 then None
      else
        let c = sat_add 1 (div_ceil (sat_mul (alpha_exp a) H_STEPS_PER_BIT) st)
        in Some \<lparr>rct_cutoff = c, rct_last = None, run_len = 0\<rparr>)"

definition rct_feed :: "rct \<Rightarrow> raw_sample \<Rightarrow> (health_error + unit) \<times> rct" where
  "rct_feed t x =
     (let t = (if rct_last t = Some x then t\<lparr>run_len := sat_add (run_len t) 1\<rparr>
               else t\<lparr>rct_last := Some x, run_len := 1\<rparr>)
      in if run_len t \<ge> rct_cutoff t then (Inl (Failed Rct), t) else (Inr (), t))"

subsection \<open>Adaptive proportion test\<close>

text \<open>The largest table row that does not exceed the claim.\<close>

fun choose_row :: "u32 \<Rightarrow> u32 option \<Rightarrow> apt_row list \<Rightarrow> u32 option" where
  "choose_row st chosen [] = chosen"
| "choose_row st chosen (r # rs) =
     (let lhs = sat_mul (ucast (num (row_h r))) (ucast H_STEPS_PER_BIT) :: u64;
          rhs = sat_mul (ucast st) (ucast (den (row_h r)))
      in choose_row st (if lhs \<le> rhs then Some (row_cutoff r) else chosen) rs)"

definition apt_table :: "alpha \<Rightarrow> bool \<Rightarrow> apt_row list option" where
  "apt_table a is_binary =
     (if alpha_exp a = APT_TABLE2_ALPHA_EXP \<and> is_binary then Some APT_TABLE2_BINARY
      else if alpha_exp a = APT_TABLE2_ALPHA_EXP \<and> \<not> is_binary then Some APT_TABLE2_NON_BINARY
      else if alpha_exp a = APT_ALPHA30_ALPHA_EXP \<and> is_binary then Some APT_ALPHA30_BINARY
      else if alpha_exp a = APT_ALPHA30_ALPHA_EXP \<and> \<not> is_binary then Some APT_ALPHA30_NON_BINARY
      else None)"

definition apt_cutoff_for :: "min_entropy \<Rightarrow> bool \<Rightarrow> alpha \<Rightarrow> health_error + u32" where
  "apt_cutoff_for h is_binary a =
     (case apt_table a is_binary of
        None \<Rightarrow> Inl (UnsupportedAlpha (alpha_exp a))
      | Some table \<Rightarrow>
          (case choose_row (steps h) None table of
             None \<Rightarrow> Inl (UnsupportedAlpha (alpha_exp a))
           | Some c \<Rightarrow> Inr c))"

record apt =
  window :: u32
  apt_cutoff :: u32
  reference :: "raw_sample option"
  count :: u32
  pos :: u32

definition apt_new :: "min_entropy \<Rightarrow> bool \<Rightarrow> alpha \<Rightarrow> health_error + apt" where
  "apt_new h is_binary a =
     (case apt_cutoff_for h is_binary a of
        Inl e \<Rightarrow> Inl e
      | Inr c \<Rightarrow>
          Inr \<lparr>window = (if is_binary then APT_WINDOW_BINARY else APT_WINDOW_NON_BINARY),
               apt_cutoff = c, reference = None, count = 0, pos = 0\<rparr>)"

definition apt_feed :: "apt \<Rightarrow> raw_sample \<Rightarrow> (health_error + unit) \<times> apt" where
  "apt_feed t x =
     (let t = (case reference t of
                 None \<Rightarrow> t\<lparr>reference := Some x, count := 1, pos := 1\<rparr>
               | Some r \<Rightarrow>
                   let t = t\<lparr>pos := sat_add (pos t) 1\<rparr>
                   in if x = r then t\<lparr>count := sat_add (count t) 1\<rparr> else t)
      in if count t \<ge> apt_cutoff t then (Inl (Failed Apt), t)
         else if pos t \<ge> window t then (Inr (), t\<lparr>reference := None, count := 0, pos := 0\<rparr>)
         else (Inr (), t))"

subsection \<open>The monitor\<close>

record monitor =
  mon_rct :: rct
  mon_apt :: apt
  poisoned :: bool

definition monitor_new :: "min_entropy \<Rightarrow> bool \<Rightarrow> alpha \<Rightarrow> health_error + monitor" where
  "monitor_new h is_binary a =
     (case rct_new h a of
        None \<Rightarrow> Inl (UnsupportedAlpha (alpha_exp a))
      | Some r \<Rightarrow>
          (case apt_new h is_binary a of
             Inl e \<Rightarrow> Inl e
           | Inr t \<Rightarrow> Inr \<lparr>mon_rct = r, mon_apt = t, poisoned = False\<rparr>))"

definition monitor_feed :: "monitor \<Rightarrow> raw_sample \<Rightarrow> (health_error + unit) \<times> monitor" where
  "monitor_feed m x =
     (if poisoned m then (Inl Poisoned, m)
      else
        let (r, rct') = rct_feed (mon_rct m) x;
            (a, apt') = apt_feed (mon_apt m) x;
            m = m\<lparr>mon_rct := rct', mon_apt := apt'\<rparr>
        in case r of Inl e \<Rightarrow> (Inl e, m\<lparr>poisoned := True\<rparr>)
         | Inr _ \<Rightarrow> (case a of Inl e \<Rightarrow> (Inl e, m\<lparr>poisoned := True\<rparr>) | Inr _ \<Rightarrow> (Inr (), m)))"

subsection \<open>Feeding a sequence\<close>

text \<open>The test after every sample of a sequence has passed, or the first error.\<close>

fun feed_all :: "('t \<Rightarrow> raw_sample \<Rightarrow> (health_error + unit) \<times> 't) \<Rightarrow> 't \<Rightarrow> raw_sample list \<Rightarrow> health_error + 't" where
  "feed_all feed t [] = Inr t"
| "feed_all feed t (x # xs) =
     (case feed t x of (Inl e, t') \<Rightarrow> Inl e | (Inr _, t') \<Rightarrow> feed_all feed t' xs)"

lemma feed_all_snoc:
  "feed_all feed t (xs @ [x]) =
     (case feed_all feed t xs of
        Inl e \<Rightarrow> Inl e
      | Inr t' \<Rightarrow> (case feed t' x of (Inl e, _) \<Rightarrow> Inl e | (Inr _, t'') \<Rightarrow> Inr t''))"
  by (induction xs arbitrary: t) (auto split: sum.splits prod.splits)

text \<open>Runs of equal samples at the end, and anywhere.\<close>

definition trailing :: "'a list \<Rightarrow> nat" where
  "trailing xs = (if xs = [] then 0 else length (takeWhile (\<lambda>y. y = last xs) (rev xs)))"

definition has_run :: "nat \<Rightarrow> 'a list \<Rightarrow> bool" where
  "has_run c xs \<longleftrightarrow> (\<exists>i v. i + c \<le> length xs \<and> take c (drop i xs) = replicate c v)"

lemma trailing_snoc:
  "trailing (xs @ [x]) = (if xs \<noteq> [] \<and> last xs = x then Suc (trailing xs) else 1)"
proof (cases xs rule: rev_cases)
  case (snoc ys y)
  then show ?thesis by (cases "y = x") (auto simp: trailing_def)
qed (simp add: trailing_def)

lemma trailing_ge_iff:
  assumes "0 < c"
  shows "c \<le> trailing xs \<longleftrightarrow> c \<le> length xs \<and> (\<exists>v. drop (length xs - c) xs = replicate c v)"
proof (cases "xs = []")
  case False
  have "c \<le> trailing xs \<longleftrightarrow> c \<le> length xs \<and> (\<forall>i < c. rev xs ! i = last xs)"
    using False by (simp add: trailing_def le_length_takeWhile)
  also have "\<dots> \<longleftrightarrow> c \<le> length xs \<and> take c (rev xs) = replicate c (last xs)"
    by (auto simp: list_eq_iff_nth_eq)
  also have "\<dots> \<longleftrightarrow> c \<le> length xs \<and> drop (length xs - c) xs = replicate c (last xs)"
  proof -
    have "drop (length xs - c) xs = rev (take c (rev xs))" by (simp add: rev_take)
    then show ?thesis by (metis rev_replicate rev_rev_ident)
  qed
  also have "\<dots> \<longleftrightarrow> c \<le> length xs \<and> (\<exists>v. drop (length xs - c) xs = replicate c v)"
  proof -
    have "v = last xs" if "c \<le> length xs" "drop (length xs - c) xs = replicate c v" for v
    proof -
      have "last xs = last (drop (length xs - c) xs)" using that(1) assms False by (simp add: last_drop)
      also have "\<dots> = v" unfolding that(2) using assms by simp
      finally show ?thesis ..
    qed
    then show ?thesis by auto
  qed
  finally show ?thesis .
qed (use assms in \<open>auto simp: trailing_def\<close>)

lemma has_run_snoc:
  assumes "0 < c"
  shows "has_run c (xs @ [x]) \<longleftrightarrow> has_run c xs \<or> c \<le> trailing (xs @ [x])"
proof -
  have "has_run c (xs @ [x]) \<longleftrightarrow>
      (\<exists>i v. i + c \<le> length xs \<and> take c (drop i (xs @ [x])) = replicate c v) \<or>
      (\<exists>i v. i + c = Suc (length xs) \<and> take c (drop i (xs @ [x])) = replicate c v)"
    unfolding has_run_def by (auto simp: le_Suc_eq)
  also have "(\<exists>i v. i + c \<le> length xs \<and> take c (drop i (xs @ [x])) = replicate c v) \<longleftrightarrow> has_run c xs"
    unfolding has_run_def by auto
  also have "(\<exists>i v. i + c = Suc (length xs) \<and> take c (drop i (xs @ [x])) = replicate c v) \<longleftrightarrow>
      c \<le> trailing (xs @ [x])"
    unfolding trailing_ge_iff [OF assms]
  proof safe
    fix i v assume i: "i + c = Suc (length xs)" "take c (drop i (xs @ [x])) = replicate c v"
    then have "i = length (xs @ [x]) - c" "take c (drop i (xs @ [x])) = drop i (xs @ [x])" by simp_all
    with i show "c \<le> length (xs @ [x])" "\<exists>v. drop (length (xs @ [x]) - c) (xs @ [x]) = replicate c v"
      by auto
  next
    fix v assume "c \<le> length (xs @ [x])" "drop (length (xs @ [x]) - c) (xs @ [x]) = replicate c v"
    then show "\<exists>i v. i + c = Suc (length xs) \<and> take c (drop i (xs @ [x])) = replicate c v"
      by (intro exI [of _ "length (xs @ [x]) - c"] exI [of _ v]) auto
  qed
  finally show ?thesis .
qed

text \<open>The repetition count test fails exactly at a run of \<open>C\<close> equal samples.\<close>

lemma rct_feed_all:
  assumes c: "1 < unat (rct_cutoff t0)" "rct_last t0 = None" "run_len t0 = 0"
  shows "(\<exists>t. feed_all rct_feed t0 xs = Inr t \<and> rct_cutoff t = rct_cutoff t0 \<and>
             rct_last t = (if xs = [] then None else Some (last xs)) \<and>
             unat (run_len t) = trailing xs \<and> trailing xs < unat (rct_cutoff t0) \<and>
             \<not> has_run (unat (rct_cutoff t0)) xs) \<or>
         feed_all rct_feed t0 xs = Inl (Failed Rct) \<and> has_run (unat (rct_cutoff t0)) xs"
proof (induction xs rule: rev_induct)
  case Nil
  with assms show ?case by (auto simp: trailing_def has_run_def)
next
  case (snoc x xs)
  let ?c = "unat (rct_cutoff t0)"
  have run: "has_run ?c (xs @ [x]) \<longleftrightarrow> has_run ?c xs \<or> ?c \<le> trailing (xs @ [x])"
    using c by (intro has_run_snoc) simp
  show ?case
  proof (cases "feed_all rct_feed t0 xs")
    case (Inl e)
    with snoc run show ?thesis by (simp add: feed_all_snoc)
  next
    case (Inr t)
    with snoc have t: "rct_cutoff t = rct_cutoff t0"
      "rct_last t = (if xs = [] then None else Some (last xs))"
      "unat (run_len t) = trailing xs" "trailing xs < ?c" "\<not> has_run ?c xs"
      by auto
    let ?n = "if rct_last t = Some x then sat_add (run_len t) 1 else 1"
    have bound: "?c < 2 ^ 32" using unsigned_less [of "rct_cutoff t0", where 'a = nat] by simp
    have n: "unat ?n = trailing (xs @ [x])"
      using t bound by (auto simp: trailing_snoc unat_sat_add)
    have feed: "rct_feed t x =
        (if ?c \<le> trailing (xs @ [x]) then Inl (Failed Rct) else Inr (),
         t\<lparr>rct_last := Some x, run_len := ?n\<rparr>)"
      using n t(1) by (auto simp: rct_feed_def Let_def word_le_nat_alt)
    show ?thesis
    proof (cases "?c \<le> trailing (xs @ [x])")
      case True
      with Inr feed run show ?thesis by (simp add: feed_all_snoc)
    next
      case False
      with Inr feed run t n show ?thesis by (simp add: feed_all_snoc)
    qed
  qed
qed

subsection \<open>The adaptive proportion test over a sequence\<close>

text \<open>
  A window passes when its first sample occurs fewer than \<open>C\<close> times in it; the last window may
  be incomplete.
\<close>

definition window_ok :: "nat \<Rightarrow> 'a list \<Rightarrow> bool" where
  "window_ok c ws \<longleftrightarrow> ws = [] \<or> count_list ws (hd ws) < c"

definition windows_ok :: "nat \<Rightarrow> nat \<Rightarrow> 'a list \<Rightarrow> bool" where
  "windows_ok w c xs \<longleftrightarrow> (\<forall>k. window_ok c (take w (drop (k * w) xs)))"

definition open_window :: "nat \<Rightarrow> 'a list \<Rightarrow> 'a list" where
  "open_window w xs = drop (length xs div w * w) xs"

lemma length_open_window: "length (open_window w xs) = length xs mod w"
  by (simp add: open_window_def minus_div_mult_eq_mod)

lemma open_window_snoc:
  assumes "0 < w"
  shows "open_window w (xs @ [x]) =
    (if Suc (length xs mod w) = w then [] else open_window w xs @ [x])"
proof (cases "Suc (length xs mod w) = w")
  case True
  then have "Suc (length xs) mod w = 0" by (simp add: mod_Suc)
  then have "length (open_window w (xs @ [x])) = 0" by (simp add: length_open_window)
  with True show ?thesis by simp
next
  case False
  then have "Suc (length xs) div w = length xs div w" by (simp add: div_Suc mod_Suc)
  with False show ?thesis by (simp add: open_window_def)
qed

lemma window_ok_mono: "window_ok c (ws @ [x]) \<Longrightarrow> window_ok c ws"
  by (cases ws) (auto simp: window_ok_def split: if_splits)

lemma windows_ok_snoc:
  assumes w: "0 < w"
  shows "windows_ok w c (xs @ [x]) \<longleftrightarrow> windows_ok w c xs \<and> window_ok c (open_window w xs @ [x])"
proof -
  let ?q = "length xs div w"
  have q: "?q * w \<le> length xs" "length xs < ?q * w + w"
    using mod_less_divisor [OF w, of "length xs"] div_mult_mod_eq [of "length xs" w] by linarith+
  have below: "take w (drop (k * w) (xs @ [x])) = take w (drop (k * w) xs)" if "k < ?q" for k
  proof -
    have "k * w + w = Suc k * w" by simp
    also have "\<dots> \<le> ?q * w" using that by (intro mult_le_mono1) simp
    finally have "k * w + w \<le> length xs" using q(1) by linarith
    then show ?thesis by simp
  qed
  have at: "take w (drop (?q * w) (xs @ [x])) = open_window w xs @ [x]"
    "take w (drop (?q * w) xs) = open_window w xs"
    using q by (simp_all add: open_window_def)
  have above: "take w (drop (k * w) (xs @ [x])) = []" "take w (drop (k * w) xs) = []" if "?q < k" for k
  proof -
    have "?q * w + w = Suc ?q * w" by simp
    also have "\<dots> \<le> k * w" using that by (intro mult_le_mono1) simp
    finally have "length xs < k * w" using q(2) by linarith
    then show "take w (drop (k * w) (xs @ [x])) = []" "take w (drop (k * w) xs) = []" by simp_all
  qed
  have nil: "window_ok c []" by (simp add: window_ok_def)
  show ?thesis
  proof
    assume *: "windows_ok w c (xs @ [x])"
    then have last: "window_ok c (open_window w xs @ [x])" unfolding windows_ok_def using at by metis
    moreover have "window_ok c (take w (drop (k * w) xs))" for k
    proof (cases k ?q rule: linorder_cases)
      case less
      with * below show ?thesis unfolding windows_ok_def by metis
    next
      case equal
      show ?thesis unfolding equal at by (rule window_ok_mono [OF last])
    next
      case greater
      show ?thesis unfolding above [OF greater] by (rule nil)
    qed
    ultimately show "windows_ok w c xs \<and> window_ok c (open_window w xs @ [x])"
      by (simp add: windows_ok_def)
  next
    assume *: "windows_ok w c xs \<and> window_ok c (open_window w xs @ [x])"
    have "window_ok c (take w (drop (k * w) (xs @ [x])))" for k
    proof (cases k ?q rule: linorder_cases)
      case less
      with * show ?thesis unfolding below [OF less] windows_ok_def by blast
    next
      case equal
      show ?thesis unfolding equal at using * by blast
    next
      case greater
      show ?thesis unfolding above [OF greater] by (rule nil)
    qed
    then show "windows_ok w c (xs @ [x])" by (simp add: windows_ok_def)
  qed
qed

text \<open>The state of the test between two samples describes the open window.\<close>

definition apt_state :: "apt \<Rightarrow> raw_sample list \<Rightarrow> bool" where
  "apt_state t ws \<longleftrightarrow>
     reference t = (if ws = [] then None else Some (hd ws)) \<and>
     unat (count t) = (if ws = [] then 0 else count_list ws (hd ws)) \<and>
     unat (pos t) = length ws"

lemma apt_feed_state:
  assumes "apt_state t ws" "length ws < unat (window t)"
  shows "(\<exists>t'. apt_feed t x = (Inr (), t') \<and> window_ok (unat (apt_cutoff t)) (ws @ [x]) \<and>
             apt_cutoff t' = apt_cutoff t \<and> window t' = window t \<and>
             apt_state t' (if Suc (length ws) = unat (window t) then [] else ws @ [x])) \<or>
         (\<exists>t'. apt_feed t x = (Inl (Failed Apt), t')) \<and> \<not> window_ok (unat (apt_cutoff t)) (ws @ [x])"
proof (cases "ws = []")
  case True
  with assms show ?thesis
    by (auto simp: apt_state_def apt_feed_def window_ok_def word_le_nat_alt Let_def)
next
  case False
  have bound: "unat (window t) < 2 ^ 32" using unsigned_less [of "window t", where 'a = nat] by simp
  have "count_list ws (hd ws) \<le> length ws" by (rule count_le_length)
  with assms False bound
  have p: "unat (sat_add (pos t) 1) = Suc (length ws)"
    and n: "unat (sat_add (count t) 1) = Suc (count_list ws (hd ws))"
    by (auto simp: apt_state_def unat_sat_add)
  have r: "reference t = Some (hd ws)" using assms False by (simp add: apt_state_def)
  have c: "unat (count t) = count_list ws (hd ws)" using assms False by (simp add: apt_state_def)
  have hd: "hd (ws @ [x]) = hd ws" using False by simp
  show ?thesis
    using assms(2) False p n r c hd
    by (auto simp: apt_state_def apt_feed_def window_ok_def word_le_nat_alt Let_def)
qed

lemma apt_feed_all:
  assumes "apt_state t0 []" "0 < unat (window t0)"
  shows "(\<exists>t. feed_all apt_feed t0 xs = Inr t \<and> apt_cutoff t = apt_cutoff t0 \<and>
             window t = window t0 \<and> apt_state t (open_window (unat (window t0)) xs) \<and>
             windows_ok (unat (window t0)) (unat (apt_cutoff t0)) xs) \<or>
         feed_all apt_feed t0 xs = Inl (Failed Apt) \<and>
         \<not> windows_ok (unat (window t0)) (unat (apt_cutoff t0)) xs"
proof (induction xs rule: rev_induct)
  case Nil
  with assms show ?case by (simp add: open_window_def windows_ok_def window_ok_def)
next
  case (snoc x xs)
  let ?w = "unat (window t0)" and ?c = "unat (apt_cutoff t0)"
  note step = windows_ok_snoc [OF assms(2), of ?c xs x]
  show ?case
  proof (cases "feed_all apt_feed t0 xs")
    case (Inl e)
    with snoc step show ?thesis by (simp add: feed_all_snoc)
  next
    case (Inr t)
    with snoc have t: "apt_cutoff t = apt_cutoff t0" "window t = window t0"
      "apt_state t (open_window ?w xs)" "windows_ok ?w ?c xs"
      by auto
    have "length (open_window ?w xs) < unat (window t)"
      using assms(2) t(2) by (simp add: length_open_window)
    from apt_feed_state [OF t(3) this, of x] show ?thesis
      using Inr t step
      by (auto simp: feed_all_snoc open_window_snoc [OF assms(2)] length_open_window)
  qed
qed

subsection \<open>Cutoffs\<close>

lemma ceil_times_ge:
  assumes "0 < (s :: nat)"
  shows "x \<le> ((x + s - 1) div s) * s"
proof -
  have "x + s - 1 = ((x + s - 1) div s) * s + (x + s - 1) mod s" by simp
  moreover have "(x + s - 1) mod s < s" using assms by simp
  ultimately show ?thesis by linarith
qed

lemma ceil_minus_one_times_less:
  assumes "0 < (s :: nat)" "0 < x"
  shows "((x + s - 1) div s - 1) * s < x"
proof -
  have "((x + s - 1) div s) * s \<le> x + s - 1" by (rule div_times_less_eq_dividend)
  moreover have "((x + s - 1) div s - 1) * s = ((x + s - 1) div s) * s - s"
    by (simp add: diff_mult_distrib)
  ultimately show ?thesis using assms by linarith
qed

lemma ceil_div_antimono:
  fixes x :: nat
  assumes "s \<le> s'" "0 < s"
  shows "(x + s' - 1) div s' \<le> (x + s - 1) div s"
proof (cases "x = 0")
  case False
  have "(x + s' - 1) div s' = 1 + (x - 1) div s'" "(x + s - 1) div s = 1 + (x - 1) div s"
    using False assms div_add_self2 [of s' "x - 1"] div_add_self2 [of s "x - 1"] by simp_all
  with assms show ?thesis by (simp add: div_le_mono2)
qed (use assms in simp)

lemma sat_mul_ucast_32:
  "unat (sat_mul (ucast (a :: u32)) (ucast (b :: u32)) :: u64) = unat a * unat b"
proof -
  have "unat a \<le> 2 ^ 32 - 1" "unat b \<le> 2 ^ 32 - 1"
    using unsigned_less [of a, where 'a = nat] unsigned_less [of b, where 'a = nat] by simp_all
  then have "unat a * unat b \<le> (2 ^ 32 - 1) * (2 ^ 32 - 1)" by (rule mult_le_mono)
  then show ?thesis by (simp add: unat_sat_mul unat_ucast_u32)
qed

definition covered :: "u32 \<Rightarrow> apt_row \<Rightarrow> bool" where
  "covered st r \<longleftrightarrow> unat (num (row_h r)) * 256 \<le> unat st * unat (den (row_h r))"

lemma choose_row_filter:
  "choose_row st chosen rs =
     (if filter (covered st) rs = [] then chosen else Some (row_cutoff (last (filter (covered st) rs))))"
proof (induction rs arbitrary: chosen)
  case (Cons r rs)
  have "sat_mul (ucast (num (row_h r))) (ucast H_STEPS_PER_BIT) \<le>
      (sat_mul (ucast st) (ucast (den (row_h r))) :: u64) \<longleftrightarrow> covered st r"
    unfolding word_le_nat_alt sat_mul_ucast_32 by (simp add: covered_def H_STEPS_PER_BIT_def)
  with Cons show ?case by (simp add: Let_def)
qed simp

lemmas apt_tables = APT_TABLE2_BINARY_def APT_TABLE2_NON_BINARY_def
  APT_ALPHA30_BINARY_def APT_ALPHA30_NON_BINARY_def

lemma apt_cutoff_for_20_binary:
  "alpha_exp a = 20 \<Longrightarrow> apt_cutoff_for h True a =
     (let s = unat (steps h) in
      if 256 \<le> s then Inr 589 else if 1024 \<le> s * 5 then Inr 664 else if 768 \<le> s * 5 then Inr 748
      else if 512 \<le> s * 5 then Inr 840 else if 256 \<le> s * 5 then Inr 941 else Inl (UnsupportedAlpha 20))"
  by (simp add: apt_cutoff_for_def apt_table_def APT_TABLE2_ALPHA_EXP_def APT_TABLE2_BINARY_def
      choose_row_filter covered_def)

lemma apt_cutoff_for_20_wide:
  "alpha_exp a = 20 \<Longrightarrow> apt_cutoff_for h False a =
     (let s = unat (steps h) in
      if 2048 \<le> s then Inr 13 else if 1024 \<le> s then Inr 62 else if 512 \<le> s then Inr 177
      else if 256 \<le> s then Inr 311 else if 128 \<le> s then Inr 410 else Inl (UnsupportedAlpha 20))"
  by (simp add: apt_cutoff_for_def apt_table_def APT_TABLE2_ALPHA_EXP_def APT_TABLE2_NON_BINARY_def
      choose_row_filter covered_def)

lemma apt_cutoff_for_30_binary:
  "alpha_exp a = 30 \<Longrightarrow> apt_cutoff_for h True a =
     (let s = unat (steps h) in
      if 256 \<le> s then Inr 609 else if 1024 \<le> s * 5 then Inr 683 else if 768 \<le> s * 5 then Inr 766
      else if 512 \<le> s * 5 then Inr 856 else if 256 \<le> s * 5 then Inr 952 else Inl (UnsupportedAlpha 30))"
  by (simp add: apt_cutoff_for_def apt_table_def APT_TABLE2_ALPHA_EXP_def APT_ALPHA30_ALPHA_EXP_def
      APT_ALPHA30_BINARY_def choose_row_filter covered_def)

lemma apt_cutoff_for_30_wide:
  "alpha_exp a = 30 \<Longrightarrow> apt_cutoff_for h False a =
     (let s = unat (steps h) in
      if 2048 \<le> s then Inr 16 else if 1024 \<le> s then Inr 71 else if 512 \<le> s then Inr 190
      else if 256 \<le> s then Inr 325 else if 128 \<le> s then Inr 422 else Inl (UnsupportedAlpha 30))"
  by (simp add: apt_cutoff_for_def apt_table_def APT_TABLE2_ALPHA_EXP_def APT_ALPHA30_ALPHA_EXP_def
      APT_ALPHA30_NON_BINARY_def choose_row_filter covered_def)

lemma apt_cutoff_for_other:
  "alpha_exp a \<noteq> 20 \<Longrightarrow> alpha_exp a \<noteq> 30 \<Longrightarrow> apt_cutoff_for h b a = Inl (UnsupportedAlpha (alpha_exp a))"
  by (simp add: apt_cutoff_for_def apt_table_def APT_TABLE2_ALPHA_EXP_def APT_ALPHA30_ALPHA_EXP_def)

lemmas apt_cutoff_for_eqs = apt_cutoff_for_20_binary apt_cutoff_for_20_wide
  apt_cutoff_for_30_binary apt_cutoff_for_30_wide apt_cutoff_for_other

lemma apt_cutoff_for_cases:
  obtains "alpha_exp a = 20" b | "alpha_exp a = 20" "\<not> b" | "alpha_exp a = 30" b
  | "alpha_exp a = 30" "\<not> b" | "alpha_exp a \<noteq> 20" "alpha_exp a \<noteq> 30"
  by blast

lemma rct_cutoff_nat:
  assumes "rct_new h a = Some t" "unat (alpha_exp a) * 256 < 2 ^ 31"
  shows "0 < unat (steps h)"
    and "unat (rct_cutoff t) = 1 + (unat (alpha_exp a) * 256 + unat (steps h) - 1) div unat (steps h)"
    and "rct_last t = None" "run_len t = 0"
proof -
  let ?s = "steps h"
  from assms(1) have s: "?s \<noteq> 0"
    and t: "t = \<lparr>rct_cutoff = sat_add 1 (div_ceil (sat_mul (alpha_exp a) H_STEPS_PER_BIT) ?s),
                rct_last = None, run_len = 0\<rparr>"
    by (auto simp: rct_new_def Let_def split: if_splits)
  show pos: "0 < unat ?s" using s by (simp add: unat_gt_0)
  show "rct_last t = None" "run_len t = 0" by (simp_all add: t)
  have m: "unat (sat_mul (alpha_exp a) H_STEPS_PER_BIT) = unat (alpha_exp a) * 256"
    using assms(2) by (simp add: unat_sat_mul H_STEPS_PER_BIT_def)
  have "(unat (alpha_exp a) * 256 + unat ?s - 1) div unat ?s \<le> unat (alpha_exp a) * 256"
  proof -
    have "unat (alpha_exp a) * 256 \<le> unat (alpha_exp a) * 256 * unat ?s" using pos by simp
    then have "unat (alpha_exp a) * 256 + unat ?s - 1 < Suc (unat (alpha_exp a) * 256) * unat ?s"
      using pos by (simp only: mult_Suc)
    from less_mult_imp_div_less [OF this] show ?thesis by simp
  qed
  with assms(2) show "unat (rct_cutoff t) =
      1 + (unat (alpha_exp a) * 256 + unat ?s - 1) div unat ?s"
    by (simp add: t unat_sat_add unat_div_ceil [OF s] m)
qed

subsection \<open>The monitor over a sequence\<close>

definition monitor_after :: "monitor \<Rightarrow> raw_sample list \<Rightarrow> monitor" where
  "monitor_after m xs = fold (\<lambda>x m. snd (monitor_feed m x)) xs m"

lemma monitor_after_snoc: "monitor_after m (xs @ [x]) = snd (monitor_feed (monitor_after m xs) x)"
  by (simp add: monitor_after_def)

text \<open>What SP 800-90B section 4.4 lets through: no run of \<open>C\<close>, no window over its cutoff.\<close>

definition passes :: "nat \<Rightarrow> nat \<Rightarrow> nat \<Rightarrow> raw_sample list \<Rightarrow> bool" where
  "passes c w c' xs \<longleftrightarrow> \<not> has_run c xs \<and> windows_ok w c' xs"

definition verdict :: "nat \<Rightarrow> nat \<Rightarrow> nat \<Rightarrow> raw_sample list \<Rightarrow> raw_sample \<Rightarrow> health_error + unit" where
  "verdict c w c' xs x =
     (if \<not> passes c w c' xs then Inl Poisoned
      else if has_run c (xs @ [x]) then Inl (Failed Rct)
      else if \<not> windows_ok w c' (xs @ [x]) then Inl (Failed Apt)
      else Inr ())"

definition fresh_monitor :: "monitor \<Rightarrow> bool" where
  "fresh_monitor m \<longleftrightarrow> \<not> poisoned m \<and> rct_last (mon_rct m) = None \<and> run_len (mon_rct m) = 0 \<and>
     1 < unat (rct_cutoff (mon_rct m)) \<and> apt_state (mon_apt m) [] \<and> 0 < unat (window (mon_apt m))"

abbreviation monitor_verdict :: "monitor \<Rightarrow> raw_sample list \<Rightarrow> raw_sample \<Rightarrow> health_error + unit" where
  "monitor_verdict m \<equiv>
     verdict (unat (rct_cutoff (mon_rct m))) (unat (window (mon_apt m))) (unat (apt_cutoff (mon_apt m)))"

abbreviation monitor_passes :: "monitor \<Rightarrow> raw_sample list \<Rightarrow> bool" where
  "monitor_passes m \<equiv>
     passes (unat (rct_cutoff (mon_rct m))) (unat (window (mon_apt m))) (unat (apt_cutoff (mon_apt m)))"

text \<open>
  The monitor after a sequence: unpoisoned with both tests in the state the sequence leaves them
  in, or poisoned.
\<close>

lemma feed_errors:
  "rct_feed t x = (Inl e, t') \<Longrightarrow> e = Failed Rct"
  "apt_feed u x = (Inl e, u') \<Longrightarrow> e = Failed Apt"
  by (auto simp: rct_feed_def apt_feed_def Let_def split: if_splits)

lemma monitor_after_state:
  assumes "fresh_monitor m"
  shows "(poisoned (monitor_after m xs) \<longleftrightarrow> \<not> monitor_passes m xs) \<and>
    (monitor_passes m xs \<longrightarrow> feed_all rct_feed (mon_rct m) xs = Inr (mon_rct (monitor_after m xs)) \<and>
       feed_all apt_feed (mon_apt m) xs = Inr (mon_apt (monitor_after m xs)))"
    and "fst (monitor_feed (monitor_after m xs) x) = monitor_verdict m xs x"
proof -
  let ?c = "unat (rct_cutoff (mon_rct m))" and ?w = "unat (window (mon_apt m))"
    and ?c' = "unat (apt_cutoff (mon_apt m))"
  from assms have r: "\<And>xs. \<not> has_run ?c xs \<longleftrightarrow> (\<exists>t. feed_all rct_feed (mon_rct m) xs = Inr t)"
    and re: "\<And>xs. has_run ?c xs \<longleftrightarrow> feed_all rct_feed (mon_rct m) xs = Inl (Failed Rct)"
    using rct_feed_all [of "mon_rct m"] unfolding fresh_monitor_def
    by (metis sum.simps(4))+
  from assms have a: "\<And>xs. windows_ok ?w ?c' xs \<longleftrightarrow> (\<exists>t. feed_all apt_feed (mon_apt m) xs = Inr t)"
    and ae: "\<And>xs. \<not> windows_ok ?w ?c' xs \<longleftrightarrow> feed_all apt_feed (mon_apt m) xs = Inl (Failed Apt)"
    using apt_feed_all [of "mon_apt m"] unfolding fresh_monitor_def
    by (metis sum.simps(4))+
  have step: "(fst (monitor_feed m' x) = monitor_verdict m xs x) \<and>
      (poisoned (snd (monitor_feed m' x)) \<longleftrightarrow> \<not> monitor_passes m (xs @ [x])) \<and>
      (monitor_passes m (xs @ [x]) \<longrightarrow>
         feed_all rct_feed (mon_rct m) (xs @ [x]) = Inr (mon_rct (snd (monitor_feed m' x))) \<and>
         feed_all apt_feed (mon_apt m) (xs @ [x]) = Inr (mon_apt (snd (monitor_feed m' x))))"
    if ok: "poisoned m' \<longleftrightarrow> \<not> monitor_passes m xs"
      "monitor_passes m xs \<Longrightarrow> feed_all rct_feed (mon_rct m) xs = Inr (mon_rct m')"
      "monitor_passes m xs \<Longrightarrow> feed_all apt_feed (mon_apt m) xs = Inr (mon_apt m')" for m' xs x
  proof (cases "monitor_passes m xs")
    case False
    then have "\<not> monitor_passes m (xs @ [x])"
      unfolding passes_def r a by (auto simp: feed_all_snoc split: sum.splits prod.splits)
    with False ok(1) show ?thesis by (simp add: monitor_feed_def verdict_def)
  next
    case True
    with ok have "\<not> poisoned m'"
      "feed_all rct_feed (mon_rct m) xs = Inr (mon_rct m')"
      "feed_all apt_feed (mon_apt m) xs = Inr (mon_apt m')" by simp_all
    then show ?thesis
      using True re [of "xs @ [x]"] ae [of "xs @ [x]"]
      by (auto simp: monitor_feed_def verdict_def passes_def feed_all_snoc Let_def
          split: prod.splits sum.splits dest: feed_errors)
  qed
  show state: "(poisoned (monitor_after m xs) \<longleftrightarrow> \<not> monitor_passes m xs) \<and>
    (monitor_passes m xs \<longrightarrow> feed_all rct_feed (mon_rct m) xs = Inr (mon_rct (monitor_after m xs)) \<and>
       feed_all apt_feed (mon_apt m) xs = Inr (mon_apt (monitor_after m xs)))" for xs
  proof (induction xs rule: rev_induct)
    case Nil
    have "monitor_passes m []" unfolding passes_def r a by simp
    with assms show ?case by (simp add: monitor_after_def fresh_monitor_def)
  next
    case (snoc x xs)
    with step [of "monitor_after m xs" xs x] show ?case by (simp add: monitor_after_snoc)
  qed
  show "fst (monitor_feed (monitor_after m xs) x) = monitor_verdict m xs x"
    using step [of "monitor_after m xs" xs x] state [of xs] by simp
qed

lemma monitor_new_Inr:
  assumes "monitor_new h b a = Inr m"
  shows "alpha_exp a = 20 \<or> alpha_exp a = 30"
    and "0 < unat (steps h)"
    and "unat (rct_cutoff (mon_rct m)) =
           1 + (unat (alpha_exp a) * 256 + unat (steps h) - 1) div unat (steps h)"
    and "unat (window (mon_apt m)) = (if b then 1024 else 512)"
    and "apt_cutoff_for h b a = Inr (apt_cutoff (mon_apt m))"
    and "fresh_monitor m"
proof -
  from assms obtain r t where r: "rct_new h a = Some r" and t: "apt_new h b a = Inr t"
    and m: "m = \<lparr>mon_rct = r, mon_apt = t, poisoned = False\<rparr>"
    by (auto simp: monitor_new_def split: option.splits sum.splits)
  from t obtain c where c: "apt_cutoff_for h b a = Inr c"
    and t: "t = \<lparr>window = (if b then APT_WINDOW_BINARY else APT_WINDOW_NON_BINARY),
                apt_cutoff = c, reference = None, count = 0, pos = 0\<rparr>"
    by (auto simp: apt_new_def split: sum.splits)
  from c show a: "alpha_exp a = 20 \<or> alpha_exp a = 30" by (metis apt_cutoff_for_other sum.simps(4))
  then have "unat (alpha_exp a) = 20 \<or> unat (alpha_exp a) = 30" by auto
  then have small: "unat (alpha_exp a) * 256 < 2 ^ 31" and "0 < unat (alpha_exp a)" by auto
  note rr = rct_cutoff_nat [OF r small]
  show "0 < unat (steps h)" by (rule rr(1))
  show cutoff: "unat (rct_cutoff (mon_rct m)) =
      1 + (unat (alpha_exp a) * 256 + unat (steps h) - 1) div unat (steps h)"
    by (simp add: m rr(2))
  show w: "unat (window (mon_apt m)) = (if b then 1024 else 512)"
    by (simp add: m t APT_WINDOW_BINARY_def APT_WINDOW_NON_BINARY_def)
  show "apt_cutoff_for h b a = Inr (apt_cutoff (mon_apt m))" by (simp add: m t c)
  have "unat (steps h) \<le> unat (alpha_exp a) * 256 + unat (steps h) - 1"
    using \<open>0 < unat (alpha_exp a)\<close> by simp
  from div_le_mono [OF this, of "unat (steps h)"] rr(1)
  have "1 < unat (rct_cutoff (mon_rct m))" unfolding cutoff by simp
  moreover have "0 < unat (window (mon_apt m))" unfolding w by simp
  ultimately show "fresh_monitor m"
    by (simp add: fresh_monitor_def m t rr apt_state_def)
qed

subsection \<open>Properties\<close>

text \<open>C15: The health monitor implements the continuous tests of SP 800-90B section 4.4 exactly.
  Whatever was fed before, a sample is answered with \<open>Poisoned\<close> if an earlier sample failed, with
  the repetition count failure if it ends a run of \<open>1 + ceil(a / H)\<close> equal samples, with the
  adaptive proportion failure if its window (of 1024 binary or 512 wider samples) now holds the
  window's first value as often as the table's cutoff, and is accepted otherwise.\<close>

theorem monitor_verdict_exact:
  assumes "monitor_new h b a = Inr m"
  shows "\<exists>c. apt_cutoff_for h b a = Inr c \<and>
    (\<forall>xs x. fst (monitor_feed (monitor_after m xs) x) =
       verdict (1 + (unat (alpha_exp a) * 256 + unat (steps h) - 1) div unat (steps h))
         (if b then 1024 else 512) (unat c) xs x)"
  using monitor_new_Inr(3-5) [OF assms] monitor_after_state(2) [OF monitor_new_Inr(6) [OF assms]]
  by (intro exI [of _ "apt_cutoff (mon_apt m)"]) simp

definition two_bits :: monitor where
  "two_bits =
     \<lparr>mon_rct = \<lparr>rct_cutoff = 16, rct_last = None, run_len = 0\<rparr>,
      mon_apt = \<lparr>window = 512, apt_cutoff = 190, reference = None, count = 0, pos = 0\<rparr>,
      poisoned = False\<rparr>"

lemma two_bits_new: "monitor_new (h_from_bits 2) False alpha_DEFAULT = Inr two_bits"
proof -
  have "steps (h_from_bits 2) = 512"
    by (simp add: h_from_bits_def sat_mul_def H_STEPS_PER_BIT_def)
  moreover have "apt_cutoff_for (h_from_bits 2) False alpha_DEFAULT = Inr 190"
    by (simp add: apt_cutoff_for_30_wide calculation alpha_DEFAULT_def)
  ultimately show ?thesis
    by (simp add: monitor_new_def rct_new_def apt_new_def two_bits_def alpha_DEFAULT_def
        sat_mul_def sat_add_def div_ceil_def H_STEPS_PER_BIT_def APT_WINDOW_NON_BINARY_def)
qed

lemma monitor_verdict_exact_witness:
  "fst (monitor_feed (monitor_after two_bits (replicate 15 7)) 7) =
     verdict 16 512 190 (replicate 15 7) 7"
proof -
  have h: "unat (alpha_exp alpha_DEFAULT) = 30" "unat (steps (h_from_bits 2)) = 512"
    by (simp_all add: alpha_DEFAULT_def h_from_bits_def sat_mul_def H_STEPS_PER_BIT_def)
  moreover have "apt_cutoff_for (h_from_bits 2) False alpha_DEFAULT = Inr 190"
    by (simp add: apt_cutoff_for_30_wide h alpha_DEFAULT_def)
  ultimately show ?thesis using monitor_verdict_exact [OF two_bits_new] by auto
qed

text \<open>Poisoning is permanent and exact: after any sequence the monitor is poisoned if and only
  if the sequence violates one of the two tests, and a poisoned monitor answers \<open>Poisoned\<close> to
  every further sample and never changes.\<close>

theorem monitor_poisoned_iff:
  assumes "monitor_new h b a = Inr m"
  shows "(poisoned (monitor_after m xs) \<longleftrightarrow>
      has_run (unat (rct_cutoff (mon_rct m))) xs \<or>
      \<not> windows_ok (unat (window (mon_apt m))) (unat (apt_cutoff (mon_apt m))) xs) \<and>
    (poisoned m' \<longrightarrow> monitor_feed m' x = (Inl Poisoned, m'))"
  using monitor_after_state(1) [OF monitor_new_Inr(6) [OF assms], of xs]
  by (auto simp: passes_def monitor_feed_def)

lemma monitor_poisoned_iff_witness:
  "(poisoned (monitor_after two_bits (replicate 16 7)) \<longleftrightarrow>
      has_run 16 (replicate 16 (7 :: u8)) \<or> \<not> windows_ok 512 190 (replicate 16 (7 :: u8))) \<and>
   monitor_feed (two_bits\<lparr>poisoned := True\<rparr>) 3 = (Inl Poisoned, two_bits\<lparr>poisoned := True\<rparr>)"
  using monitor_poisoned_iff [OF two_bits_new, of "replicate 16 7" "two_bits\<lparr>poisoned := True\<rparr>" 3]
  by (simp add: two_bits_def)

lemma apt_cutoff_for_total:
  "case apt_cutoff_for h b a of
     Inl e \<Rightarrow> e = UnsupportedAlpha (alpha_exp a) \<and>
       \<not> ((alpha_exp a = 20 \<or> alpha_exp a = 30) \<and>
          (if b then 256 \<le> unat (steps h) * 5 else 128 \<le> unat (steps h)))
   | Inr c \<Rightarrow> (alpha_exp a = 20 \<or> alpha_exp a = 30) \<and>
       (if b then 256 \<le> unat (steps h) * 5 else 128 \<le> unat (steps h))"
  by (cases a b rule: apt_cutoff_for_cases) (simp_all add: apt_cutoff_for_eqs Let_def)

lemma table_sorted:
  "apt_table a b = Some table \<Longrightarrow>
     sorted_wrt (\<lambda>r r'. unat (num (row_h r)) * unat (den (row_h r')) \<le>
                        unat (num (row_h r')) * unat (den (row_h r))) table"
  by (auto simp: apt_table_def apt_tables split: if_splits)

lemma sorted_wrt_last:
  "sorted_wrt P xs \<Longrightarrow> x \<in> set xs \<Longrightarrow> P (last xs) (last xs) \<Longrightarrow> P x (last xs)"
  by (induction xs) auto

lemma apt_cutoff_for_row:
  assumes "apt_cutoff_for h b a = Inr c"
  obtains table r where "apt_table a b = Some table" "r \<in> set table" "covered (steps h) r"
    "c = row_cutoff r"
    "\<And>r'. r' \<in> set table \<Longrightarrow> covered (steps h) r' \<Longrightarrow>
       unat (num (row_h r')) * unat (den (row_h r)) \<le> unat (num (row_h r)) * unat (den (row_h r'))"
proof -
  from assms obtain table where table: "apt_table a b = Some table"
    and ne: "filter (covered (steps h)) table \<noteq> []"
    and c: "c = row_cutoff (last (filter (covered (steps h)) table))"
    by (auto simp: apt_cutoff_for_def choose_row_filter split: option.splits if_splits)
  let ?r = "last (filter (covered (steps h)) table)"
  have mem: "?r \<in> set table" "covered (steps h) ?r" using last_in_set [OF ne] by auto
  show thesis
    using sorted_wrt_last [OF sorted_wrt_filter [OF table_sorted [OF table]]]
    by (intro that [OF table mem c]) auto
qed

text \<open>C16: A monitor exists exactly for the two tabulated error probabilities and the claims of at
  least the smallest tabulated entropy; any other request is refused with \<open>UnsupportedAlpha\<close>.
  The repetition cutoff is the smallest \<open>C\<close> with \<open>(C - 1) * H\<close> at least \<open>a\<close> bits, and the
  proportion cutoff is that of the largest tabulated entropy not above the claim.\<close>

theorem health_cutoffs:
  fixes h :: min_entropy and b :: bool and a :: alpha
  defines "s \<equiv> unat (steps h)" and "e \<equiv> unat (alpha_exp a)"
  shows "case monitor_new h b a of
      Inl err \<Rightarrow> err = UnsupportedAlpha (alpha_exp a) \<and>
        \<not> ((alpha_exp a = 20 \<or> alpha_exp a = 30) \<and> (if b then 256 \<le> s * 5 else 128 \<le> s))
    | Inr m \<Rightarrow> (alpha_exp a = 20 \<or> alpha_exp a = 30) \<and> (if b then 256 \<le> s * 5 else 128 \<le> s) \<and>
        256 * e \<le> (unat (rct_cutoff (mon_rct m)) - 1) * s \<and>
        (unat (rct_cutoff (mon_rct m)) - 2) * s < 256 * e \<and>
        (\<exists>table r. apt_table a b = Some table \<and> r \<in> set table \<and> covered (steps h) r \<and>
           apt_cutoff (mon_apt m) = row_cutoff r \<and>
           (\<forall>r' \<in> set table. covered (steps h) r' \<longrightarrow>
              unat (num (row_h r')) * unat (den (row_h r)) \<le> unat (num (row_h r)) * unat (den (row_h r'))))"
proof (cases "monitor_new h b a")
  case (Inl err)
  then have "err = UnsupportedAlpha (alpha_exp a) \<and>
      (s = 0 \<or> (\<exists>e. apt_cutoff_for h b a = Inl e))"
    using apt_cutoff_for_total [where h = h and b = b and a = a]
    by (auto simp: monitor_new_def rct_new_def apt_new_def Let_def s_def
        split: option.splits sum.splits if_splits)
  with Inl show ?thesis using apt_cutoff_for_total [where h = h and b = b and a = a] by (auto simp: s_def)
next
  case (Inr m)
  note new = monitor_new_Inr [OF Inr]
  have pos: "0 < s" "0 < e" using new(1,2) by (auto simp: s_def e_def)
  have c: "unat (rct_cutoff (mon_rct m)) = 1 + (e * 256 + s - 1) div s"
    using new(3) by (simp add: s_def e_def)
  have ge: "256 * e \<le> ((e * 256 + s - 1) div s) * s"
    using ceil_times_ge [OF pos(1)] by (simp add: mult.commute)
  have lt: "((e * 256 + s - 1) div s - 1) * s < 256 * e"
    using ceil_minus_one_times_less [OF pos(1), of "e * 256"] pos(2) by (simp add: mult.commute)
  obtain table r where "apt_table a b = Some table" "r \<in> set table" "covered (steps h) r"
    "apt_cutoff (mon_apt m) = row_cutoff r"
    "\<forall>r' \<in> set table. covered (steps h) r' \<longrightarrow>
       unat (num (row_h r')) * unat (den (row_h r)) \<le> unat (num (row_h r)) * unat (den (row_h r'))"
    using apt_cutoff_for_row [OF new(5)] by metis
  with Inr c ge lt show ?thesis
    using apt_cutoff_for_total [where h = h and b = b and a = a] unfolding new(5) by (auto simp: s_def)
qed

lemma health_cutoffs_witness:
  "unat (rct_cutoff (mon_rct two_bits)) = 16 \<and> 256 * 30 \<le> (16 - 1) * (512 :: nat) \<and>
   apt_cutoff (mon_apt two_bits) = 190"
  using health_cutoffs [where h = "h_from_bits 2" and b = False and a = alpha_DEFAULT]
  unfolding two_bits_new by (simp add: two_bits_def)

text \<open>A stronger claim never makes the tests more lenient: neither cutoff increases with the
  claimed entropy.\<close>

theorem cutoffs_antitone:
  assumes "h \<le> h'" "monitor_new h b a = Inr m"
  shows "\<exists>m'. monitor_new h' b a = Inr m' \<and> rct_cutoff (mon_rct m') \<le> rct_cutoff (mon_rct m) \<and>
    apt_cutoff (mon_apt m') \<le> apt_cutoff (mon_apt m)"
proof -
  note new = monitor_new_Inr [OF assms(2)]
  have le: "unat (steps h) \<le> unat (steps h')"
    using assms(1) by (simp add: less_eq_min_entropy_def word_le_nat_alt)
  have "\<exists>c'. apt_cutoff_for h' b a = Inr c' \<and> c' \<le> apt_cutoff (mon_apt m)"
    using new(5) le by (cases a b rule: apt_cutoff_for_cases)
      (auto simp: apt_cutoff_for_eqs Let_def split: if_splits)
  then obtain c' where c': "apt_cutoff_for h' b a = Inr c'" "c' \<le> apt_cutoff (mon_apt m)" by blast
  moreover have "steps h' \<noteq> 0" using le new(2) by auto
  ultimately obtain m' where m': "monitor_new h' b a = Inr m'"
    by (auto simp: monitor_new_def rct_new_def apt_new_def Let_def)
  note new' = monitor_new_Inr [OF m']
  have "unat (rct_cutoff (mon_rct m')) \<le> unat (rct_cutoff (mon_rct m))"
    unfolding new(3) new'(3) using ceil_div_antimono [OF le new(2)] by simp
  with m' c' new'(5) show ?thesis by (simp add: word_le_nat_alt)
qed

lemma cutoffs_antitone_witness:
  "\<exists>m'. monitor_new (h_from_bits 4) False alpha_DEFAULT = Inr m' \<and> rct_cutoff (mon_rct m') \<le> 16 \<and>
    apt_cutoff (mon_apt m') \<le> 190"
proof -
  have "h_from_bits 2 \<le> h_from_bits 4"
    by (simp add: less_eq_min_entropy_def h_from_bits_def sat_mul_def H_STEPS_PER_BIT_def)
  from cutoffs_antitone [OF this two_bits_new] show ?thesis by (simp add: two_bits_def)
qed

text \<open>A fraction is rounded down to the grid of 1/256 bit exactly while \<open>256 * num\<close> fits in
  64 bits.  Beyond that the product saturates, and a fraction that is one bit of entropy can be
  returned as a smaller value instead of the documented \<open>None\<close>; the value is never too large.\<close>

theorem h_from_fraction_exact:
  "(unat n * 256 < 2 ^ 64 \<longrightarrow> h_from_fraction_floor n d =
      (if d = 0 \<or> 2 ^ 32 \<le> unat n * 256 div unat d then None
       else Some (MinEntropy (word_of_nat (unat n * 256 div unat d))))) \<and>
   (h_from_fraction_floor n d = Some h \<longrightarrow> unat (steps h) * unat d \<le> unat n * 256) \<and>
   h_from_fraction_floor (2 ^ 60) (2 ^ 60) = Some (MinEntropy 15)"
proof -
  have st: "unat (sat_mul n (ucast H_STEPS_PER_BIT) div d) = min (unat n * 256) (2 ^ 64 - 1) div unat d"
    by (simp add: unat_sat_mul unat_div_distrib H_STEPS_PER_BIT_def)
  have cast: "unat (ucast w :: u32) = unat w" if "unat w < 2 ^ 32" for w :: u64
    using that by (simp add: unsigned_ucast_eq take_bit_nat_eq_self)
  have lt: "(sat_mul n (ucast H_STEPS_PER_BIT) div d < 2 ^ 32) =
      (min (unat n * 256) (2 ^ 64 - 1) div unat d < 2 ^ 32)"
    unfolding st [symmetric] by (simp add: word_less_nat_alt)
  have exact: "h_from_fraction_floor n d =
      (if d = 0 \<or> 2 ^ 32 \<le> unat n * 256 div unat d then None
       else Some (MinEntropy (word_of_nat (unat n * 256 div unat d))))"
    if small: "unat n * 256 < 2 ^ 64"
  proof -
    from small have m: "min (unat n * 256) (2 ^ 64 - 1) = unat n * 256" by simp
    have "(ucast (sat_mul n (ucast H_STEPS_PER_BIT) div d) :: u32) =
        word_of_nat (unat n * 256 div unat d)" if "unat n * 256 div unat d < 2 ^ 32"
    proof (rule word_unat_eq_iff [THEN iffD2])
      show "unat (ucast (sat_mul n (ucast H_STEPS_PER_BIT) div d) :: u32) =
          unat (word_of_nat (unat n * 256 div unat d) :: u32)"
        using that st m by (simp add: cast unsigned_of_nat take_bit_nat_eq_self)
    qed
    then show ?thesis
      using lt m by (simp add: h_from_fraction_floor_def Let_def not_le)
  qed
  have below: "unat (steps h) * unat d \<le> unat n * 256" if "h_from_fraction_floor n d = Some h"
  proof -
    from that have "d \<noteq> 0" "unat (steps h) = min (unat n * 256) (2 ^ 64 - 1) div unat d"
      using lt st cast by (auto simp: h_from_fraction_floor_def Let_def split: if_splits)
    then have "unat (steps h) * unat d \<le> min (unat n * 256) (2 ^ 64 - 1)"
      by (simp only: div_times_less_eq_dividend)
    then show ?thesis by simp
  qed
  have "h_from_fraction_floor (2 ^ 60) (2 ^ 60) = Some (MinEntropy 15)"
    by (simp add: h_from_fraction_floor_def sat_mul_def H_STEPS_PER_BIT_def)
  with exact below show ?thesis by blast
qed

lemma h_from_fraction_exact_witness:
  "h_from_fraction_floor 1 5 = Some (MinEntropy 51) \<and> unat (steps (MinEntropy 51)) * 5 \<le> (256 :: nat)"
proof -
  have "h_from_fraction_floor 1 5 = Some (MinEntropy 51)"
    using h_from_fraction_exact [of 1 5 "MinEntropy 51"] by simp
  with h_from_fraction_exact [of 1 5 "MinEntropy 51"] show ?thesis by simp
qed

end
