(* ===== verification/Sha_Stream.thy ===== *)
theory Sha_Stream
  imports Gates
begin

unbundle bit_operations_syntax

text \<open>
  The streaming hasher the SHA-1 and SHA-2 types of \<open>oxicrypt-sha\<close> share: every one of
  \<^verbatim>\<open>sha1.rs\<close>, \<^verbatim>\<open>sha224.rs\<close>, \<^verbatim>\<open>sha256.rs\<close> and \<^verbatim>\<open>sha512.rs\<close> writes out the same \<open>update\<close> and
  the same padding, with its block size, length-field size and compression function, which are
  parameters here.  The locale \<open>merkle_damgard\<close> proves once that streaming equals the one-shot
  definition of FIPS 180-4; \<open>stream_hash\<close> is the contract (\<open>BlockHash\<close> in \<open>oxicrypt-hmac\<close>) on which
  HMAC and the DRBGs rely.
\<close>

record 'w hasher =
  hs_state :: "'w list"
  buffer :: bytes
  buffer_len :: usize
  total_len :: u64

definition hasher_new :: "usize \<Rightarrow> 'w list \<Rightarrow> 'w hasher" where
  "hasher_new B iv = \<lparr>hs_state = iv, buffer = zeros B, buffer_len = 0, total_len = 0\<rparr>"

text \<open>The loop over complete blocks: the state after them, and the remaining bytes.\<close>

function absorb_blocks ::
  "usize \<Rightarrow> ('w list \<Rightarrow> bytes \<Rightarrow> 'w list) \<Rightarrow> 'w list \<Rightarrow> bytes \<Rightarrow> 'w list \<times> bytes" where
  "absorb_blocks B f s data =
     (if B = 0 \<or> length data < B then (s, data)
      else absorb_blocks B f (f s (take B data)) (drop B data))"
  by auto
termination by (relation "measure (\<lambda>(B, f, s, data). length data)") auto

declare absorb_blocks.simps [simp del]

text \<open>The end of \<open>update\<close>: the complete blocks, then the remainder into the buffer.\<close>

definition update_rest ::
  "usize \<Rightarrow> ('w list \<Rightarrow> bytes \<Rightarrow> 'w list) \<Rightarrow> 'w hasher \<Rightarrow> bytes \<Rightarrow> 'w hasher" where
  "update_rest B f h data =
     (let (s, rest) = absorb_blocks B f (hs_state h) data;
          h = h\<lparr>hs_state := s\<rparr>
      in if rest \<noteq> [] then h\<lparr>buffer := copy_at (buffer h) 0 rest, buffer_len := length rest\<rparr> else h)"

definition hasher_update ::
  "usize \<Rightarrow> ('w list \<Rightarrow> bytes \<Rightarrow> 'w list) \<Rightarrow> 'w hasher \<Rightarrow> bytes \<Rightarrow> 'w hasher" where
  "hasher_update B f h data =
     (let h = h\<lparr>total_len := total_len h + of_nat (length data)\<rparr>
      in if buffer_len h > 0 then
           let need = B - buffer_len h
           in if length data < need then
                h\<lparr>buffer := copy_at (buffer h) (buffer_len h) data,
                  buffer_len := buffer_len h + length data\<rparr>
              else
                let head = take need data; tail = drop need data;
                    block = copy_at (buffer h) (buffer_len h) head
                in update_rest B f
                     (h\<lparr>buffer := block, hs_state := f (hs_state h) block, buffer_len := 0\<rparr>) tail
         else update_rest B f h data)"

text \<open>Padding and the last one or two blocks; \<open>len_field\<close> is 8 or 16 bytes.\<close>

definition hasher_finalize_state ::
  "usize \<Rightarrow> usize \<Rightarrow> ('w list \<Rightarrow> bytes \<Rightarrow> 'w list) \<Rightarrow> 'w hasher \<Rightarrow> 'w list" where
  "hasher_finalize_state B len_field f h =
     (let bit_len = total_len h * 8;
          buf = (buffer h)[buffer_len h := 0x80];
          n = buffer_len h + 1;
          (s, buf, n) =
            (if n > B - len_field then
               let buf = take n buf @ zeros (B - n) in (f (hs_state h) buf, buf, 0)
             else (hs_state h, buf, n));
          buf = copy_at buf n (zeros (B - len_field - n));
          buf = copy_at buf (B - len_field) (zeros (len_field - 8));
          buf = copy_at buf (B - 8) (be_of_u64 bit_len)
      in f s buf)"

subsection \<open>The one-shot definition\<close>

text \<open>
  FIPS 180-4, 5.1: the message, a one bit, the fewest zero bits that complete a block with the
  length field, and the length in bits.  The length is reduced modulo \<open>2^64\<close>, which the standard's
  bound on the message makes exact.
\<close>

definition pad_zeros :: "usize \<Rightarrow> usize \<Rightarrow> nat \<Rightarrow> nat" where
  "pad_zeros B len_field n = (B - (n + 1 + len_field) mod B) mod B"

definition md_pad :: "usize \<Rightarrow> usize \<Rightarrow> bytes \<Rightarrow> bytes" where
  "md_pad B len_field m =
     m @ [0x80] @ zeros (pad_zeros B len_field (length m)) @ zeros (len_field - 8) @
     be_of_u64 (of_nat (8 * length m))"

fun blocks :: "usize \<Rightarrow> nat \<Rightarrow> bytes \<Rightarrow> bytes list" where
  "blocks B 0 xs = []"
| "blocks B (Suc k) xs = take B xs # blocks B k (drop B xs)"

definition md_state ::
  "usize \<Rightarrow> usize \<Rightarrow> ('w list \<Rightarrow> bytes \<Rightarrow> 'w list) \<Rightarrow> 'w list \<Rightarrow> bytes \<Rightarrow> 'w list" where
  "md_state B len_field f iv m =
     (let p = md_pad B len_field m in foldl f iv (blocks B (length p div B) p))"

subsection \<open>Absorbing blocks\<close>

lemma absorb_blocks_short: "length data < B \<Longrightarrow> absorb_blocks B f s data = (s, data)"
  by (simp add: absorb_blocks.simps)

lemma absorb_blocks_block:
  "0 < B \<Longrightarrow> length b = B \<Longrightarrow> absorb_blocks B f s (b @ data) = absorb_blocks B f (f s b) data"
  by (subst absorb_blocks.simps) auto

lemma absorb_blocks_rest: "0 < B \<Longrightarrow> length (snd (absorb_blocks B f s data)) < B"
  by (induction B f s data rule: absorb_blocks.induct) (subst absorb_blocks.simps, auto)

lemma absorb_blocks_append:
  "0 < B \<Longrightarrow> absorb_blocks B f s (m @ d) =
     (case absorb_blocks B f s m of (s', r) \<Rightarrow> absorb_blocks B f s' (r @ d))"
proof (induction B f s m rule: absorb_blocks.induct)
  case (1 B f s m)
  show ?case
  proof (cases "length m < B")
    case True
    then show ?thesis by (simp add: absorb_blocks_short)
  next
    case False
    then have m: "m = take B m @ drop B m" "length (take B m) = B" by simp_all
    have l: "absorb_blocks B f s (m @ d) = absorb_blocks B f (f s (take B m)) (drop B m @ d)"
      using absorb_blocks_block [OF 1(2) m(2), of f s "drop B m @ d"]
      by (metis append_assoc append_take_drop_id)
    have r: "absorb_blocks B f s m = absorb_blocks B f (f s (take B m)) (drop B m)"
      using absorb_blocks_block [OF 1(2) m(2), of f s "drop B m"]
      by (metis append_take_drop_id)
    show ?thesis using 1 False by (simp add: l r)
  qed
qed

lemma absorb_blocks_blocks:
  "0 < B \<Longrightarrow> length p = k * B \<Longrightarrow> absorb_blocks B f s p = (foldl f s (blocks B k p), [])"
proof (induction k arbitrary: s p)
  case (Suc k)
  then have "length (take B p) = B" "length (drop B p) = k * B" by simp_all
  with Suc absorb_blocks_block [of B "take B p" f s "drop B p"] show ?case by simp
qed (simp add: absorb_blocks_short)

subsection \<open>The contract of a streaming hash\<close>

locale stream_hash =
  fixes B L :: nat
    and new :: 'h
    and update :: "'h \<Rightarrow> bytes \<Rightarrow> 'h"
    and finalize :: "'h \<Rightarrow> bytes"
    and absorbed :: "'h \<Rightarrow> bytes \<Rightarrow> bool"
    and hash :: "bytes \<Rightarrow> bytes"
  assumes absorbed_new: "absorbed new []"
    and absorbed_update: "absorbed h m \<Longrightarrow> absorbed (update h d) (m @ d)"
    and finalize_absorbed: "absorbed h m \<Longrightarrow> finalize h = hash m"
    and length_hash: "length (hash m) = L"
    and output_fits: "L \<le> B"
begin

lemma absorbed_updates: "absorbed h m \<Longrightarrow> absorbed (foldl update h ds) (m @ concat ds)"
  by (induction ds arbitrary: h m) (use absorbed_update in \<open>fastforce+\<close>)

lemma streamed: "finalize (foldl update new ds) = hash (concat ds)"
  using finalize_absorbed [OF absorbed_updates [OF absorbed_new]] by simp

lemma one_shot: "finalize (update new m) = hash m"
  using streamed [of "[m]"] by simp

lemma length_finalize: "absorbed h m \<Longrightarrow> length (finalize h) = L"
  by (simp add: finalize_absorbed length_hash)

end

subsection \<open>Merkle-Damgard hashes satisfy it\<close>

definition absorbs ::
  "usize \<Rightarrow> ('w list \<Rightarrow> bytes \<Rightarrow> 'w list) \<Rightarrow> 'w list \<Rightarrow> 'w hasher \<Rightarrow> bytes \<Rightarrow> bool" where
  "absorbs B f iv h m \<longleftrightarrow>
     length (buffer h) = B \<and> buffer_len h < B \<and>
     absorb_blocks B f iv m = (hs_state h, take (buffer_len h) (buffer h)) \<and>
     total_len h = of_nat (length m)"

lemma update_rest_absorbs:
  assumes B: "0 < B" and buf: "length (buffer h) = B" "buffer_len h = 0"
    and data: "absorb_blocks B f iv m' = absorb_blocks B f (hs_state h) data"
    and total: "total_len h = of_nat (length m')"
  shows "absorbs B f iv (update_rest B f h data) m'"
proof -
  obtain s rest where ab: "absorb_blocks B f (hs_state h) data = (s, rest)" by fastforce
  with absorb_blocks_rest [OF B, of f "hs_state h" data] have "length rest < B" by simp
  moreover from this buf have "take (length rest) (copy_at (buffer h) 0 rest) = rest"
    using take_copy_at [of 0 "buffer h" rest] by simp
  ultimately show ?thesis using buf data total ab B
    by (simp add: update_rest_def absorbs_def Let_def)
qed

lemma hasher_update_absorbs:
  assumes B: "0 < B" and h: "absorbs B f iv h m"
  shows "absorbs B f iv (hasher_update B f h d) (m @ d)"
proof -
  let ?n = "buffer_len h" and ?r = "take (buffer_len h) (buffer h)"
  have inv: "length (buffer h) = B" "?n < B" "absorb_blocks B f iv m = (hs_state h, ?r)"
    "total_len h = of_nat (length m)"
    using h unfolding absorbs_def by blast+
  have len: "length ?r = ?n" using inv(1,2) by simp
  have app: "absorb_blocks B f iv (m @ d) = absorb_blocks B f (hs_state h) (?r @ d)"
    using absorb_blocks_append [OF B, of f iv m d] by (simp only: inv prod.case)
  let ?h = "h\<lparr>total_len := total_len h + of_nat (length d)\<rparr>"
  have total: "total_len ?h = of_nat (length (m @ d))" using inv by simp
  consider "?n = 0" | "?n > 0" "length d < B - ?n" | "?n > 0" "\<not> length d < B - ?n" by linarith
  then show ?thesis
  proof cases
    case 1
    then have "hasher_update B f h d = update_rest B f ?h d" by (simp add: hasher_update_def Let_def)
    moreover have "absorbs B f iv (update_rest B f ?h d) (m @ d)"
      by (rule update_rest_absorbs [OF B _ _ _ total]) (use 1 inv app in simp_all)
    ultimately show ?thesis by simp
  next
    case 2
    then have "take (?n + length d) (copy_at (buffer h) ?n d) = ?r @ d" "length (?r @ d) < B"
      using inv len take_copy_at [of ?n "buffer h" d] by simp_all
    with 2 app inv show ?thesis
      by (simp add: hasher_update_def Let_def absorbs_def absorb_blocks_short)
  next
    case 3
    let ?head = "take (B - ?n) d" and ?tail = "drop (B - ?n) d"
    let ?h' = "?h\<lparr>buffer := ?r @ ?head, hs_state := f (hs_state h) (?r @ ?head), buffer_len := 0\<rparr>"
    have block: "copy_at (buffer h) ?n ?head = ?r @ ?head"
      using 3 inv by (simp add: copy_at_def)
    then have "hasher_update B f h d = update_rest B f ?h' ?tail"
      using 3 by (simp add: hasher_update_def Let_def)
    moreover have full: "length (?r @ ?head) = B" using 3 inv len by simp
    have "absorb_blocks B f (hs_state h) (?r @ d) =
        absorb_blocks B f (f (hs_state h) (?r @ ?head)) ?tail"
      using absorb_blocks_block [OF B full, of f "hs_state h" ?tail]
      by (metis append_assoc append_take_drop_id)
    with app have "absorbs B f iv (update_rest B f ?h' ?tail) (m @ d)"
      by (intro update_rest_absorbs [OF B]) (use full total in simp_all)
    ultimately show ?thesis by simp
  qed
qed

lemma pad_zeros_block:
  assumes "0 < B"
  shows "B dvd n + 1 + pad_zeros B len_field n + len_field"
proof -
  let ?t = "n + 1 + len_field"
  have "?t mod B \<le> B" using assms by (simp add: less_imp_le)
  then have "(?t + (B - ?t mod B)) mod B = 0"
    by (metis add_diff_inverse_nat mod_add_left_eq mod_self not_le)
  then have "(?t + pad_zeros B len_field n) mod B = 0"
    unfolding pad_zeros_def by (metis mod_add_right_eq)
  then show ?thesis by (simp add: mod_eq_0_iff_dvd add_ac)
qed

lemma length_md_pad:
  "8 \<le> len_field \<Longrightarrow> length (md_pad B len_field m) = length m + 1 + pad_zeros B len_field (length m) + len_field"
  by (simp add: md_pad_def)

lemma md_state_absorb:
  assumes "0 < B" "8 \<le> len_field"
  shows "absorb_blocks B f iv (md_pad B len_field m) = (md_state B len_field f iv m, [])"
proof -
  have "B dvd length (md_pad B len_field m)"
    using pad_zeros_block [OF assms(1), of "length m" len_field] by (simp add: length_md_pad [OF assms(2)])
  then show ?thesis
    by (simp add: md_state_def Let_def absorb_blocks_blocks [OF assms(1)])
qed

lemma md_state_single:
  "md_pad B len_field m = p \<Longrightarrow> 0 < B \<Longrightarrow> length p = B \<Longrightarrow> md_state B len_field f iv m = f iv p"
  by (simp add: md_state_def Let_def)

lemma absorb_blocks_mod: "0 < B \<Longrightarrow> length (snd (absorb_blocks B f s m)) = length m mod B"
proof (induction B f s m rule: absorb_blocks.induct)
  case (1 B f s m)
  show ?case
  proof (cases "length m < B")
    case True
    then show ?thesis by (simp add: absorb_blocks_short)
  next
    case False
    then have "absorb_blocks B f s m = absorb_blocks B f (f s (take B m)) (drop B m)"
      using 1(2) by (subst absorb_blocks.simps) simp
    with 1 False show ?thesis by (simp add: mod_if [of "length m"])
  qed
qed

lemma absorbs_buffer_len:
  assumes "0 < B" "absorbs B f iv h m"
  shows "buffer_len h = length m mod B"
proof -
  have "length (snd (absorb_blocks B f iv m)) = buffer_len h"
    using assms(2) by (simp add: absorbs_def)
  then show ?thesis using absorb_blocks_mod [OF assms(1)] by metis
qed

lemma pad_zeros_mod: "pad_zeros B len_field (n mod B) = pad_zeros B len_field n"
  unfolding pad_zeros_def by (metis add.assoc mod_add_left_eq)

lemma pad_zeros_cases:
  assumes "n < B" "8 \<le> len_field" "len_field < B"
  shows "n + 1 \<le> B - len_field \<Longrightarrow> pad_zeros B len_field n = B - len_field - (n + 1)"
    and "\<not> n + 1 \<le> B - len_field \<Longrightarrow> pad_zeros B len_field n = (B - (n + 1)) + (B - len_field)"
proof -
  assume "n + 1 \<le> B - len_field"
  then show "pad_zeros B len_field n = B - len_field - (n + 1)"
    using assms by (cases "n + 1 + len_field = B") (simp_all add: pad_zeros_def)
next
  assume *: "\<not> n + 1 \<le> B - len_field"
  then have "(n + 1 + len_field) mod B = n + 1 + len_field - B"
    using assms by (subst mod_if) (auto simp: mod_if)
  then show "pad_zeros B len_field n = (B - (n + 1)) + (B - len_field)"
    using * assms by (simp add: pad_zeros_def)
qed

lemma copy_at_padding:
  assumes "length xs = B" "k \<le> B - len_field" "8 \<le> len_field" "len_field < B" "length c = 8"
  shows "copy_at (copy_at (copy_at xs k (zeros (B - len_field - k))) (B - len_field) (zeros (len_field - 8)))
      (B - 8) c = take k xs @ zeros (B - len_field - k) @ zeros (len_field - 8) @ c"
proof -
  let ?a = "copy_at xs k (zeros (B - len_field - k))"
  let ?b = "copy_at ?a (B - len_field) (zeros (len_field - 8))"
  have len: "length ?a = B" "length ?b = B" "length (copy_at ?b (B - 8) c) = B"
    using assms by simp_all
  have 1: "take (B - len_field) ?a = take k xs @ zeros (B - len_field - k)"
    using assms take_copy_at [of k xs "zeros (B - len_field - k)"] by simp
  have 2: "take (B - 8) ?b = take (B - len_field) ?a @ zeros (len_field - 8)"
    using assms len(1) take_copy_at [of "B - len_field" ?a "zeros (len_field - 8)"] by simp
  have 3: "take B (copy_at ?b (B - 8) c) = take (B - 8) ?b @ c"
    using assms len(2) take_copy_at [of "B - 8" ?b c] by simp
  from 1 2 3 len(3) show ?thesis by simp
qed

lemma zeros_add: "zeros (a + b) = zeros a @ zeros b"
  by (simp add: zeros_def replicate_add)

lemma hasher_finalize_absorbs:
  assumes lf: "8 \<le> lf" "lf < B" and h: "absorbs B f iv h m"
  shows "hasher_finalize_state B lf f h = md_state B lf f iv m"
proof -
  have B: "0 < B" using lf by simp
  let ?n = "buffer_len h" and ?r = "take (buffer_len h) (buffer h)"
  let ?be = "be_of_u64 (total_len h * 8)" and ?s = "hs_state h"
  have inv: "length (buffer h) = B" "?n < B" "absorb_blocks B f iv m = (?s, ?r)"
    "total_len h = of_nat (length m)"
    using h unfolding absorbs_def by blast+
  have be: "be_of_u64 (of_nat (8 * length m)) = ?be" by (simp add: inv(4) mult.commute)
  have z: "pad_zeros B lf (length m) = pad_zeros B lf ?n"
    by (simp add: absorbs_buffer_len [OF B h] pad_zeros_mod)
  have app: "absorb_blocks B f iv (md_pad B lf m) =
      absorb_blocks B f ?s (?r @ [0x80] @ zeros (pad_zeros B lf ?n) @ zeros (lf - 8) @ ?be)"
    unfolding md_pad_def be z using absorb_blocks_append [OF B, of f iv m] by (simp only: inv prod.case)
  let ?buf = "(buffer h)[?n := 0x80]"
  have buf: "length ?buf = B" "take (?n + 1) ?buf = ?r @ [0x80]"
    using inv by (simp_all add: take_Suc_conv_app_nth)
  have single: "absorb_blocks B f s b = (f s b, [])" if "length b = B" for s b
    using absorb_blocks_block [OF B that, of f s "[]"] B by (simp add: absorb_blocks_short)
  have "absorb_blocks B f iv (md_pad B lf m) = (hasher_finalize_state B lf f h, [])"
  proof (cases "?n + 1 \<le> B - lf")
    case True
    let ?b = "?r @ [0x80] @ zeros (B - lf - (?n + 1)) @ zeros (lf - 8) @ ?be"
    have "length ?b = B" using True inv lf by simp
    moreover have "hasher_finalize_state B lf f h = f ?s ?b"
      using True copy_at_padding [OF buf(1) True lf, of ?be] buf(2)
      by (simp add: hasher_finalize_state_def Let_def)
    ultimately show ?thesis using app True pad_zeros_cases(1) [OF inv(2) lf] single [of ?b] by simp
  next
    case False
    let ?b = "?r @ [0x80] @ zeros (B - (?n + 1))"
    let ?c = "zeros (B - lf) @ zeros (lf - 8) @ ?be"
    have b: "length ?b = B" and c: "length ?c = B" using inv lf by simp_all
    have "hasher_finalize_state B lf f h = f (f ?s ?b) ?c"
      using False copy_at_padding [OF b, of 0 lf ?be] lf buf(2)
      by (simp add: hasher_finalize_state_def Let_def)
    moreover have "?r @ [0x80] @ zeros (pad_zeros B lf ?n) @ zeros (lf - 8) @ ?be = ?b @ ?c"
      using pad_zeros_cases(2) [OF inv(2) lf False] by (simp add: zeros_add)
    ultimately show ?thesis
      using app absorb_blocks_block [OF B b, of f ?s ?c] single [OF c, of "f ?s ?b"] by simp
  qed
  moreover have "absorb_blocks B f iv (md_pad B lf m) = (md_state B lf f iv m, [])"
    by (rule md_state_absorb [OF B lf(1)])
  ultimately show ?thesis by simp
qed

lemma hasher_new_absorbs: "0 < B \<Longrightarrow> absorbs B f iv (hasher_new B iv) []"
  by (simp add: absorbs_def hasher_new_def absorb_blocks_short)

lemma foldl_length_invariant:
  "(\<And>s b. length s = n \<Longrightarrow> length (f s b) = n) \<Longrightarrow> length s = n \<Longrightarrow> length (foldl f s bs) = n"
  by (induction bs arbitrary: s) auto

text \<open>
  A Merkle-Damgard hash: a compression function that keeps the number of state words, and an
  encoding of the final state into \<open>L\<close> bytes.
\<close>

locale merkle_damgard =
  fixes B len_field L state_words :: nat
    and compress :: "'w list \<Rightarrow> bytes \<Rightarrow> 'w list"
    and iv :: "'w list"
    and encode :: "'w list \<Rightarrow> bytes"
  assumes sizes: "8 \<le> len_field" "len_field < B" "L \<le> B"
    and length_iv: "length iv = state_words"
    and length_compress: "length s = state_words \<Longrightarrow> length (compress s b) = state_words"
    and length_output: "length s = state_words \<Longrightarrow> length (encode s) = L"

sublocale merkle_damgard \<subseteq> stream_hash B L "hasher_new B iv" "hasher_update B compress"
  "\<lambda>h. encode (hasher_finalize_state B len_field compress h)" "absorbs B compress iv"
  "\<lambda>m. encode (md_state B len_field compress iv m)"
proof
  have B: "0 < B" using sizes by simp
  show "absorbs B compress iv (hasher_new B iv) []" by (rule hasher_new_absorbs [OF B])
  show "absorbs B compress iv (hasher_update B compress h d) (m @ d)"
    if "absorbs B compress iv h m" for h m d
    by (rule hasher_update_absorbs [OF B that])
  show "encode (hasher_finalize_state B len_field compress h) = encode (md_state B len_field compress iv m)"
    if "absorbs B compress iv h m" for h m
    by (simp add: hasher_finalize_absorbs [OF sizes(1,2) that])
  show "length (encode (md_state B len_field compress iv m)) = L" for m
    by (intro length_output)
      (simp add: md_state_def Let_def foldl_length_invariant length_compress length_iv)
  show "L \<le> B" by (rule sizes)
qed

end
