(* ===== verification/Sha256_Hash.thy ===== *)
theory Sha256_Hash
  imports Sha_Stream
begin

unbundle bit_operations_syntax

text \<open>
  SHA-256 and SHA-224 (\<^verbatim>\<open>src/crates/oxicrypt-sha/src/sha256.rs\<close> and \<^verbatim>\<open>sha224.rs\<close>) with the
  portable compression function, their gated and ungated entry points and their power-up tests
  on the vectors of \<^verbatim>\<open>oxicrypt-test-vectors\<close>.
\<close>

subsection \<open>Compression\<close>

text \<open>The constant tables are written in decimal.\<close>

definition SHA256_H0 :: "u32 list" where
  "SHA256_H0 =
    [1779033703, 3144134277, 1013904242, 2773480762, 1359893119, 2600822924, 528734635, 1541459225]"

definition SHA224_H0 :: "u32 list" where
  "SHA224_H0 =
    [3238371032, 914150663, 812702999, 4144912697, 4290775857, 1750603025, 1694076839, 3204075428]"

definition SHA256_K :: "u32 list" where
  "SHA256_K =
    [1116352408, 1899447441, 3049323471, 3921009573, 961987163, 1508970993, 2453635748, 2870763221,
     3624381080, 310598401, 607225278, 1426881987, 1925078388, 2162078206, 2614888103, 3248222580,
     3835390401, 4022224774, 264347078, 604807628, 770255983, 1249150122, 1555081692, 1996064986,
     2554220882, 2821834349, 2952996808, 3210313671, 3336571891, 3584528711, 113926993, 338241895,
     666307205, 773529912, 1294757372, 1396182291, 1695183700, 1986661051, 2177026350, 2456956037,
     2730485921, 2820302411, 3259730800, 3345764771, 3516065817, 3600352804, 4094571909, 275423344,
     430227734, 506948616, 659060556, 883997877, 958139571, 1322822218, 1537002063, 1747873779,
     1955562222, 2024104815, 2227730452, 2361852424, 2428436474, 2756734187, 3204031479, 3329325298]"

definition sha256_ch :: "u32 \<Rightarrow> u32 \<Rightarrow> u32 \<Rightarrow> u32" where
  "sha256_ch x y z = (x AND y) XOR (NOT x AND z)"

definition sha256_maj :: "u32 \<Rightarrow> u32 \<Rightarrow> u32 \<Rightarrow> u32" where
  "sha256_maj x y z = (x AND y) XOR (x AND z) XOR (y AND z)"

definition sha256_big_sigma0 :: "u32 \<Rightarrow> u32" where
  "sha256_big_sigma0 x = word_rotr 2 x XOR word_rotr 13 x XOR word_rotr 22 x"

definition sha256_big_sigma1 :: "u32 \<Rightarrow> u32" where
  "sha256_big_sigma1 x = word_rotr 6 x XOR word_rotr 11 x XOR word_rotr 25 x"

definition sha256_small_sigma0 :: "u32 \<Rightarrow> u32" where
  "sha256_small_sigma0 x = word_rotr 7 x XOR word_rotr 18 x XOR drop_bit 3 x"

definition sha256_small_sigma1 :: "u32 \<Rightarrow> u32" where
  "sha256_small_sigma1 x = word_rotr 17 x XOR word_rotr 19 x XOR drop_bit 10 x"

text \<open>The message schedule: sixteen words of the block, then the recurrence.\<close>

definition sha256_schedule_step :: "nat \<Rightarrow> u32 list \<Rightarrow> u32 list" where
  "sha256_schedule_step i w =
     w @ [sha256_small_sigma1 (w ! (i - 2)) + w ! (i - 7) + sha256_small_sigma0 (w ! (i - 15)) + w ! (i - 16)]"

definition sha256_schedule :: "bytes \<Rightarrow> u32 list" where
  "sha256_schedule block =
     fold sha256_schedule_step [16..<64]
       (map (\<lambda>i. u32_of_be (block ! (4 * i)) (block ! (4 * i + 1)) (block ! (4 * i + 2)) (block ! (4 * i + 3))) [0..<16])"

type_synonym sha256_vars = "u32 \<times> u32 \<times> u32 \<times> u32 \<times> u32 \<times> u32 \<times> u32 \<times> u32"

fun sha256_round :: "sha256_vars \<Rightarrow> u32 \<times> u32 \<Rightarrow> sha256_vars" where
  "sha256_round (a, b, c, d, e, f, g, h) (k, w) =
     (let t1 = h + sha256_big_sigma1 e + sha256_ch e f g + k + w;
          t2 = sha256_big_sigma0 a + sha256_maj a b c
      in (t1 + t2, a, b, c, d + t1, e, f, g))"

text \<open>The same with every word evaluated once, for evaluation in the kernel.\<close>

definition sha256_shift :: "sha256_vars \<Rightarrow> u32 \<Rightarrow> u32 \<Rightarrow> sha256_vars" where
  "sha256_shift v t1 t2 =
     (case v of (a, b, c, d, e, f, g, h) \<Rightarrow> (eval_word (t1 + t2), a, b, c, eval_word (d + t1), e, f, g))"

lemma sha256_step_code [code]:
  "sha256_schedule_step i w =
     w @ [eval_word (sha256_small_sigma1 (w ! (i - 2)) + w ! (i - 7) + sha256_small_sigma0 (w ! (i - 15)) + w ! (i - 16))]"
  "sha256_round (a, b, c, d, e, f, g, h) (k, v) =
     sha256_shift (a, b, c, d, e, f, g, h) (eval_word (h + sha256_big_sigma1 e + sha256_ch e f g + k + v))
       (eval_word (sha256_big_sigma0 a + sha256_maj a b c))"
  by (simp_all add: sha256_schedule_step_def sha256_shift_def Let_def)

definition compress256 :: "u32 list \<Rightarrow> bytes \<Rightarrow> u32 list" where
  "compress256 st block =
     (case foldl sha256_round (st ! 0, st ! 1, st ! 2, st ! 3, st ! 4, st ! 5, st ! 6, st ! 7)
             (zip SHA256_K (sha256_schedule block)) of
        (a, b, c, d, e, f, g, h) \<Rightarrow>
          [st ! 0 + a, st ! 1 + b, st ! 2 + c, st ! 3 + d, st ! 4 + e, st ! 5 + f, st ! 6 + g, st ! 7 + h])"

lemma length_compress256: "length (compress256 st block) = 8"
  by (simp add: compress256_def split: prod.splits)

subsection \<open>SHA-256\<close>

definition sha256_new_unguarded :: "u32 hasher" where
  "sha256_new_unguarded = hasher_new 64 SHA256_H0"

definition sha256_new :: "(error, u32 hasher) gated" where
  "sha256_new = chain (gate_service (ShaS Sha256)) (\<lambda>_. ok sha256_new_unguarded)"

definition sha256_new_internal :: "(error, u32 hasher) gated" where
  "sha256_new_internal = chain gate_self_test_started (\<lambda>_. ok sha256_new_unguarded)"

definition sha256_update :: "u32 hasher \<Rightarrow> bytes \<Rightarrow> u32 hasher" where
  "sha256_update = hasher_update 64 compress256"

definition sha256_output :: "u32 list \<Rightarrow> bytes" where
  "sha256_output st = concat (map be_of_u32 st)"

definition sha256_finalize_unchecked :: "u32 hasher \<Rightarrow> bytes" where
  "sha256_finalize_unchecked h = sha256_output (hasher_finalize_state 64 8 compress256 h)"

definition sha256_finalize :: "u32 hasher \<Rightarrow> (error, bytes) gated" where
  "sha256_finalize h = chain gate_self_test_started (\<lambda>_. ok (sha256_finalize_unchecked h))"

definition sha256 :: "bytes \<Rightarrow> (error, bytes) gated" where
  "sha256 data = chain sha256_new (\<lambda>h. ok (sha256_finalize_unchecked (sha256_update h data)))"

text \<open>FIPS 180-4, as a function of the whole message.\<close>

definition sha256_spec :: "bytes \<Rightarrow> bytes" where
  "sha256_spec m = sha256_output (md_state 64 8 compress256 SHA256_H0 m)"

definition SHA_256_MSG :: bytes where
  "SHA_256_MSG = [0xd3]"

definition SHA_256_MD :: bytes where
  "SHA_256_MD =
    [0x28, 0x96, 0x9c, 0xdf, 0xa7, 0x4a, 0x12, 0xc8, 0x2f, 0x3b, 0xad, 0x96,
     0x0b, 0x0b, 0x00, 0x0a, 0xca, 0x2a, 0xc3, 0x29, 0xde, 0xea, 0x5c, 0x23,
     0x28, 0xeb, 0xc6, 0xf2, 0xba, 0x98, 0x02, 0xc1]"

definition sha256_self_test :: "self_test_failure + unit" where
  "sha256_self_test =
     (if sha256_finalize_unchecked (sha256_update sha256_new_unguarded SHA_256_MSG) = SHA_256_MD
      then Inr () else Inl SelfTestFailure)"

subsection \<open>SHA-224\<close>

definition sha224_new_unguarded :: "u32 hasher" where
  "sha224_new_unguarded = hasher_new 64 SHA224_H0"

definition sha224_new :: "(error, u32 hasher) gated" where
  "sha224_new = chain (gate_service (ShaS Sha224)) (\<lambda>_. ok sha224_new_unguarded)"

definition sha224_new_internal :: "(error, u32 hasher) gated" where
  "sha224_new_internal = chain gate_self_test_started (\<lambda>_. ok sha224_new_unguarded)"

definition sha224_update :: "u32 hasher \<Rightarrow> bytes \<Rightarrow> u32 hasher" where
  "sha224_update = hasher_update 64 compress256"

definition sha224_output :: "u32 list \<Rightarrow> bytes" where
  "sha224_output st = concat (map be_of_u32 (take 7 st))"

definition sha224_finalize_unchecked :: "u32 hasher \<Rightarrow> bytes" where
  "sha224_finalize_unchecked h = sha224_output (hasher_finalize_state 64 8 compress256 h)"

definition sha224_finalize :: "u32 hasher \<Rightarrow> (error, bytes) gated" where
  "sha224_finalize h = chain gate_self_test_started (\<lambda>_. ok (sha224_finalize_unchecked h))"

definition sha224 :: "bytes \<Rightarrow> (error, bytes) gated" where
  "sha224 data = chain sha224_new (\<lambda>h. ok (sha224_finalize_unchecked (sha224_update h data)))"

text \<open>FIPS 180-4, as a function of the whole message.\<close>

definition sha224_spec :: "bytes \<Rightarrow> bytes" where
  "sha224_spec m = sha224_output (md_state 64 8 compress256 SHA224_H0 m)"

definition SHA_224_MSG :: bytes where
  "SHA_224_MSG = [0x84]"

definition SHA_224_MD :: bytes where
  "SHA_224_MD =
    [0x3c, 0xd3, 0x69, 0x21, 0xdf, 0x5d, 0x69, 0x63, 0xe7, 0x37, 0x39, 0xcf,
     0x4d, 0x20, 0x21, 0x1e, 0x2d, 0x88, 0x77, 0xc1, 0x9c, 0xff, 0x08, 0x7a,
     0xde, 0x9d, 0x0e, 0x3a]"

definition sha224_self_test :: "self_test_failure + unit" where
  "sha224_self_test =
     (if sha224_finalize_unchecked (sha224_update sha224_new_unguarded SHA_224_MSG) = SHA_224_MD
      then Inr () else Inl SelfTestFailure)"

subsection \<open>The streaming contract\<close>

interpretation sha256_md: merkle_damgard 64 8 32 8 compress256 SHA256_H0 sha256_output
  by unfold_locales (simp_all add: SHA256_H0_def sha256_output_def length_compress256)

interpretation sha256_h: stream_hash 64 32 sha256_new_unguarded sha256_update sha256_finalize_unchecked
  "absorbs 64 compress256 SHA256_H0" sha256_spec
  using sha256_md.stream_hash_axioms
  by (simp add: sha256_new_unguarded_def sha256_update_def sha256_finalize_unchecked_def [abs_def] sha256_spec_def [abs_def])

interpretation sha224_md: merkle_damgard 64 8 28 8 compress256 SHA224_H0 sha224_output
  by unfold_locales (simp_all add: SHA224_H0_def sha224_output_def length_compress256)

interpretation sha224_h: stream_hash 64 28 sha224_new_unguarded sha224_update sha224_finalize_unchecked
  "absorbs 64 compress256 SHA224_H0" sha224_spec
  using sha224_md.stream_hash_axioms
  by (simp add: sha224_new_unguarded_def sha224_update_def sha224_finalize_unchecked_def [abs_def] sha224_spec_def [abs_def])

subsection \<open>Power-up tests\<close>

lemma sha256_kat: "sha256_self_test = Inr ()"
proof -
  let ?p = "[0xd3, 0x80, 0, 0, 0, 0, 0, 0, 0, 0, 0, 0, 0, 0, 0, 0, 0, 0, 0, 0, 0, 0, 0, 0, 0, 0, 0, 0, 0, 0, 0, 0,
     0, 0, 0, 0, 0, 0, 0, 0, 0, 0, 0, 0, 0, 0, 0, 0, 0, 0, 0, 0, 0, 0, 0, 0, 0, 0, 0, 0, 0, 0, 0, 8] :: bytes"
  have p: "md_pad 64 8 SHA_256_MSG = ?p" by code_simp
  have "sha256_output (compress256 SHA256_H0 ?p) = SHA_256_MD" by code_simp
  then have "sha256_spec SHA_256_MSG = SHA_256_MD"
    by (simp add: sha256_spec_def md_state_single [OF p])
  then show ?thesis by (simp add: sha256_self_test_def sha256_h.one_shot)
qed

lemma sha224_kat: "sha224_self_test = Inr ()"
proof -
  let ?p = "[0x84, 0x80, 0, 0, 0, 0, 0, 0, 0, 0, 0, 0, 0, 0, 0, 0, 0, 0, 0, 0, 0, 0, 0, 0, 0, 0, 0, 0, 0, 0, 0, 0,
     0, 0, 0, 0, 0, 0, 0, 0, 0, 0, 0, 0, 0, 0, 0, 0, 0, 0, 0, 0, 0, 0, 0, 0, 0, 0, 0, 0, 0, 0, 0, 8] :: bytes"
  have p: "md_pad 64 8 SHA_224_MSG = ?p" by code_simp
  have "sha224_output (compress256 SHA224_H0 ?p) = SHA_224_MD" by code_simp
  then have "sha224_spec SHA_224_MSG = SHA_224_MD"
    by (simp add: sha224_spec_def md_state_single [OF p])
  then show ?thesis by (simp add: sha224_self_test_def sha224_h.one_shot)
qed

end
