(* ===== verification/Entropy_Pipeline.thy ===== *)
theory Entropy_Pipeline
  imports Entropy_Health Sha256_Hash
begin

text \<open>
  The noise-source interface, the vetted SHA-256 conditioner and the entropy pipeline
  (\<^verbatim>\<open>src/crates/oxicrypt-entropy/src/source.rs\<close>, \<^verbatim>\<open>conditioner.rs\<close>, \<^verbatim>\<open>error.rs\<close> and
  \<^verbatim>\<open>pipeline.rs\<close>).  A source is any implementation of the trait: its state is a type parameter
  and its calls may pass the module's guards, so they thread the environment of the gates.
\<close>

subsection \<open>Noise sources\<close>

datatype source_spec = SourceSpec (sample_width_bits: u8)

definition source_spec_new :: "u8 \<Rightarrow> source_spec option" where
  "source_spec_new w = (if w \<ge> 1 \<and> w \<le> 8 then Some (SourceSpec w) else None)"

definition is_binary :: "source_spec \<Rightarrow> bool" where
  "is_binary s \<longleftrightarrow> sample_width_bits s = 1"

datatype source_error = SourceUnavailable | SourceModule error

record 's noise_source =
  src_spec :: "'s \<Rightarrow> source_spec"
  max_claimable_h :: "'s \<Rightarrow> min_entropy"
  src_sample :: "'s \<Rightarrow> env \<Rightarrow> (source_error + raw_sample) \<times> 's \<times> env"

datatype entropy_error =
    ClaimExceedsCeiling min_entropy min_entropy
  | ClaimExceedsSampleWidth min_entropy u8
  | EntropySource source_error
  | EntropyHealth health_error
  | NotReady
  | ConditionerKat
  | EntropyIo
  | EntropyModule error

subsection \<open>Conditioner\<close>

definition CONDITIONED_BLOCK_LEN :: usize where "CONDITIONED_BLOCK_LEN = 32"

definition KAT_MESSAGE :: bytes where "KAT_MESSAGE = [97, 98, 99]"

definition KAT_EXPECTED :: bytes where
  "KAT_EXPECTED =
    [186, 120, 22, 191, 143, 1, 207, 234, 65, 65, 64, 222, 93, 174, 34, 35,
     176, 3, 97, 163, 150, 23, 122, 156, 180, 16, 255, 97, 242, 0, 21, 173]"

datatype conditioner = Conditioner (samples_per_block: u32)

definition conditioner_for_claim :: "min_entropy \<Rightarrow> conditioner option" where
  "conditioner_for_claim claimed =
     (let st = steps claimed in
      if st = 0 then None
      else
        let required_steps =
          (VETTED_SHA256_NOUT_BITS + FULL_ENTROPY_INPUT_MARGIN_BITS) * H_STEPS_PER_BIT
        in Some (Conditioner (div_ceil required_steps st)))"

definition kat_against :: "bytes \<Rightarrow> (error, bool) gated" where
  "kat_against expected =
     chain sha256_new_internal (\<lambda>hasher.
       chain (sha256_finalize (sha256_update hasher KAT_MESSAGE)) (\<lambda>digest. ok (digest = expected)))"

definition startup_kat :: "(error, bool) gated" where
  "startup_kat = kat_against KAT_EXPECTED"

definition begin_block :: "(error, u32 hasher) gated" where
  "begin_block = sha256_new_internal"

subsection \<open>Pipeline\<close>

datatype pipeline_state = AwaitingStartup | PipelineOperational | PipelinePoisoned

record 's pipeline =
  source :: 's
  claimed_h :: min_entropy
  pipeline_alpha :: alpha
  pipeline_monitor :: monitor
  conditioner_of :: conditioner
  life :: pipeline_state

definition pipeline_new ::
  "'s noise_source \<Rightarrow> 's \<Rightarrow> min_entropy \<Rightarrow> alpha \<Rightarrow> entropy_error + 's pipeline" where
  "pipeline_new S src h a =
     (let ceiling = max_claimable_h S src in
      if h > ceiling then Inl (ClaimExceedsCeiling h ceiling)
      else
        let spec = src_spec S src in
        if h > h_from_bits (sample_width_bits spec)
        then Inl (ClaimExceedsSampleWidth h (sample_width_bits spec))
        else case monitor_new h (is_binary spec) a of
          Inl e \<Rightarrow> Inl (EntropyHealth e)
        | Inr m \<Rightarrow>
          (case conditioner_for_claim h of
             None \<Rightarrow> Inl (EntropyHealth (UnsupportedAlpha (alpha_exp a)))
           | Some c \<Rightarrow> Inr \<lparr>source = src, claimed_h = h, pipeline_alpha = a, pipeline_monitor = m,
                           conditioner_of = c, life = AwaitingStartup\<rparr>))"

text \<open>The loop of \<open>run_battery\<close>; samples it tests are dropped.\<close>

function battery_loop ::
  "'s noise_source \<Rightarrow> monitor \<Rightarrow> u32 \<Rightarrow> 's pipeline \<Rightarrow> env \<Rightarrow>
     (entropy_error + unit) \<times> 's pipeline \<times> env" where
  "battery_loop S fresh fed p env =
     (if fed < STARTUP_MIN_SAMPLES then
        case src_sample S (source p) env of
          (Inl e, src, env) \<Rightarrow> (Inl (EntropySource e), p\<lparr>source := src\<rparr>, env)
        | (Inr x, src, env) \<Rightarrow>
            (case monitor_feed fresh x of
               (Inl e, _) \<Rightarrow> (Inl (EntropyHealth e), p\<lparr>source := src, life := PipelinePoisoned\<rparr>, env)
             | (Inr _, fresh) \<Rightarrow> battery_loop S fresh (sat_add fed 1) (p\<lparr>source := src\<rparr>) env)
      else (Inr (), p\<lparr>pipeline_monitor := fresh\<rparr>, env))"
  by pat_completeness auto
termination
  by (relation "measure (\<lambda>(S, fresh, fed, p, env). 1024 - unat fed)")
    (auto simp: STARTUP_MIN_SAMPLES_def word_less_nat_alt unat_sat_add)

declare battery_loop.simps [simp del]

definition run_battery ::
  "'s noise_source \<Rightarrow> 's pipeline \<Rightarrow> env \<Rightarrow> (entropy_error + unit) \<times> 's pipeline \<times> env" where
  "run_battery S p env =
     (case monitor_new (claimed_h p) (is_binary (src_spec S (source p))) (pipeline_alpha p) of
        Inl e \<Rightarrow> (Inl (EntropyHealth e), p, env)
      | Inr fresh \<Rightarrow> battery_loop S fresh 0 p env)"

definition run_startup ::
  "'s noise_source \<Rightarrow> 's pipeline \<Rightarrow> env \<Rightarrow> (entropy_error + unit) \<times> 's pipeline \<times> env" where
  "run_startup S p env =
     (case life p of
        AwaitingStartup \<Rightarrow>
          (case startup_kat env of
             (Inl e, env) \<Rightarrow> (Inl (EntropyModule e), p, env)
           | (Inr good, env) \<Rightarrow>
               if \<not> good then (Inl ConditionerKat, p\<lparr>life := PipelinePoisoned\<rparr>, env)
               else case run_battery S p env of
                 (Inl e, p, env) \<Rightarrow> (Inl e, p, env)
               | (Inr _, p, env) \<Rightarrow> (Inr (), p\<lparr>life := PipelineOperational\<rparr>, env))
      | PipelineOperational \<Rightarrow> (Inl NotReady, p, env)
      | PipelinePoisoned \<Rightarrow> (Inl NotReady, p, env))"

definition on_demand_test ::
  "'s noise_source \<Rightarrow> 's pipeline \<Rightarrow> env \<Rightarrow> (entropy_error + unit) \<times> 's pipeline \<times> env" where
  "on_demand_test S p env =
     (if life p = PipelineOperational then run_battery S p env else (Inl NotReady, p, env))"

definition pipeline_sample ::
  "'s noise_source \<Rightarrow> 's pipeline \<Rightarrow> env \<Rightarrow> (entropy_error + raw_sample) \<times> 's pipeline \<times> env" where
  "pipeline_sample S p env =
     (if life p \<noteq> PipelineOperational then (Inl NotReady, p, env)
      else case src_sample S (source p) env of
        (Inl e, src, env) \<Rightarrow> (Inl (EntropySource e), p\<lparr>source := src\<rparr>, env)
      | (Inr x, src, env) \<Rightarrow>
          (case monitor_feed (pipeline_monitor p) x of
             (Inl e, m) \<Rightarrow>
               (Inl (EntropyHealth e),
                p\<lparr>source := src, pipeline_monitor := m, life := PipelinePoisoned\<rparr>, env)
           | (Inr _, m) \<Rightarrow> (Inr x, p\<lparr>source := src, pipeline_monitor := m\<rparr>, env)))"

function block_loop ::
  "'s noise_source \<Rightarrow> u32 \<Rightarrow> u32 \<Rightarrow> u32 hasher \<Rightarrow> 's pipeline \<Rightarrow> env \<Rightarrow>
     (entropy_error + u32 hasher) \<times> 's pipeline \<times> env" where
  "block_loop S n drawn hasher p env =
     (if drawn < n then
        case pipeline_sample S p env of
          (Inl e, p, env) \<Rightarrow> (Inl e, p, env)
        | (Inr x, p, env) \<Rightarrow> block_loop S n (sat_add drawn 1) (sha256_update hasher [x]) p env
      else (Inr hasher, p, env))"
  by pat_completeness auto
termination
  by (relation "measure (\<lambda>(S, n, drawn, hasher, p, env). unat n - unat drawn)")
    (auto simp: sat_add_1_nat word_less_nat_alt)

declare block_loop.simps [simp del]

definition conditioned_block ::
  "'s noise_source \<Rightarrow> 's pipeline \<Rightarrow> env \<Rightarrow> (entropy_error + bytes) \<times> 's pipeline \<times> env" where
  "conditioned_block S p env =
     (if life p \<noteq> PipelineOperational then (Inl NotReady, p, env)
      else case begin_block env of
        (Inl e, env) \<Rightarrow> (Inl (EntropyModule e), p, env)
      | (Inr hasher, env) \<Rightarrow>
          (case block_loop S (samples_per_block (conditioner_of p)) 0 hasher p env of
             (Inl e, p, env) \<Rightarrow> (Inl e, p, env)
           | (Inr hasher, p, env) \<Rightarrow>
               (case sha256_finalize hasher env of
                  (Inl e, env) \<Rightarrow> (Inl (EntropyModule e), p, env)
                | (Inr digest, env) \<Rightarrow> (Inr digest, p, env))))"

subsection \<open>What a source supplies\<close>

text \<open>Consecutive successful samples of a source.\<close>

inductive supplies :: "'s noise_source \<Rightarrow> 's \<Rightarrow> env \<Rightarrow> raw_sample list \<Rightarrow> 's \<Rightarrow> env \<Rightarrow> bool"
  for S where
  supplies_Nil: "supplies S s env [] s env"
| supplies_Cons: "src_sample S s env = (Inr x, s1, env1) \<Longrightarrow> supplies S s1 env1 xs s2 env2 \<Longrightarrow>
    supplies S s env (x # xs) s2 env2"

inductive_simps supplies_simps: "supplies S s env [] s' env'" "supplies S s env (x # xs) s' env'"

lemma monitor_accepts:
  assumes "fresh_monitor m" "monitor_feed (monitor_after m ys) x = (r, m')"
  shows "m' = monitor_after m (ys @ [x])"
    and "r = Inr u \<Longrightarrow> monitor_passes m (ys @ [x])"
    and "monitor_passes m (ys @ [x]) \<Longrightarrow> r = Inr ()"
proof -
  show "m' = monitor_after m (ys @ [x])" using assms(2) by (simp add: monitor_after_snoc)
  have r: "r = monitor_verdict m ys x" using monitor_after_state(2) [OF assms(1), of ys x] assms(2) by simp
  then show "r = Inr u \<Longrightarrow> monitor_passes m (ys @ [x])"
    by (simp add: verdict_def passes_def split: if_splits)
  assume ok: "monitor_passes m (ys @ [x])"
  then have "poisoned (monitor_after m (ys @ [x])) = False" using monitor_after_state(1) [OF assms(1)] by blast
  then have "\<not> poisoned (monitor_after m ys)" by (auto simp: monitor_after_snoc monitor_feed_def)
  then have "monitor_passes m ys" using monitor_after_state(1) [OF assms(1)] by blast
  with ok r show "r = Inr ()" by (simp add: verdict_def passes_def)
qed

lemma monitor_passes_append:
  assumes "fresh_monitor m" "monitor_passes m (ys @ zs)"
  shows "monitor_passes m ys"
  using assms(2)
proof (induction zs rule: rev_induct)
  case (snoc z zs)
  obtain r m' where f: "monitor_feed (monitor_after m (ys @ zs)) z = (r, m')" by fastforce
  from snoc(2) have "\<not> poisoned (monitor_after m ((ys @ zs) @ [z]))"
    using monitor_after_state(1) [OF assms(1), of "(ys @ zs) @ [z]"] by simp
  then have "\<not> poisoned (monitor_after m (ys @ zs))"
    unfolding monitor_after_snoc by (auto simp: monitor_feed_def)
  then have "monitor_passes m (ys @ zs)" using monitor_after_state(1) [OF assms(1)] by blast
  with snoc show ?case by simp
qed simp

lemma monitor_passes_Nil:
  assumes "fresh_monitor m"
  shows "monitor_passes m []"
  using assms monitor_after_state(1) [OF assms, of "[]"] by (simp add: monitor_after_def fresh_monitor_def)

lemma monitor_after_append: "monitor_after (monitor_after m xs) ys = monitor_after m (xs @ ys)"
  by (simp add: monitor_after_def)

subsection \<open>The contract of a noise source\<close>

text \<open>
  What the pipeline relies on: a source's declared shape never changes, is a valid one, and its
  samples fit the declared width.
\<close>

locale noise_source_laws =
  fixes S :: "'s noise_source"
  assumes spec_kept: "src_sample S s env = (r, s', env') \<Longrightarrow>
      src_spec S s' = src_spec S s \<and> max_claimable_h S s' = max_claimable_h S s"
    and spec_valid: "source_spec_new (sample_width_bits (src_spec S s)) = Some (src_spec S s)"
    and sample_fits: "src_sample S s env = (Inr x, s', env') \<Longrightarrow>
      unat x < 2 ^ unat (sample_width_bits (src_spec S s))"

text \<open>
  The state of a pipeline: its monitor was built for its claim and has seen exactly the samples
  \<open>ys\<close>; once operational these passed and are at least the startup battery.
\<close>

definition tested :: "'s noise_source \<Rightarrow> 's pipeline \<Rightarrow> monitor \<Rightarrow> raw_sample list \<Rightarrow> bool" where
  "tested S p m ys \<longleftrightarrow>
     monitor_new (claimed_h p) (is_binary (src_spec S (source p))) (pipeline_alpha p) = Inr m \<and>
     pipeline_monitor p = monitor_after m ys \<and>
     conditioner_for_claim (claimed_h p) = Some (conditioner_of p) \<and>
     claimed_h p \<le> max_claimable_h S (source p) \<and>
     claimed_h p \<le> h_from_bits (sample_width_bits (src_spec S (source p))) \<and>
     (life p = AwaitingStartup \<longrightarrow> ys = []) \<and>
     (life p = PipelineOperational \<longrightarrow> 1024 \<le> length ys \<and> monitor_passes m ys)"

lemma tested_fresh: "tested S p m ys \<Longrightarrow> fresh_monitor m"
  by (auto simp: tested_def dest: monitor_new_Inr)

text \<open>
  How feeding at most \<open>k\<close> more samples to a fresh monitor that has passed \<open>ys\<close> can end: all pass,
  the source fails, or a sample fails its test.
\<close>

definition battery_outcome ::
  "'s noise_source \<Rightarrow> monitor \<Rightarrow> raw_sample list \<Rightarrow> nat \<Rightarrow> 's pipeline \<Rightarrow> env \<Rightarrow>
     (entropy_error + unit) \<times> 's pipeline \<times> env \<Rightarrow> bool" where
  "battery_outcome S m ys k p env res \<longleftrightarrow> (\<exists>xs s' env1.
     supplies S (source p) env xs s' env1 \<and> monitor_passes m (ys @ xs) \<and>
     (length xs = k \<and>
        res = (Inr (), p\<lparr>source := s', pipeline_monitor := monitor_after m (ys @ xs)\<rparr>, env1) \<or>
      length xs < k \<and> (\<exists>e s'' env2. src_sample S s' env1 = (Inl e, s'', env2) \<and>
        res = (Inl (EntropySource e), p\<lparr>source := s''\<rparr>, env2)) \<or>
      length xs < k \<and> (\<exists>x e s'' env2. src_sample S s' env1 = (Inr x, s'', env2) \<and>
        \<not> monitor_passes m (ys @ xs @ [x]) \<and>
        res = (Inl (EntropyHealth e), p\<lparr>source := s'', life := PipelinePoisoned\<rparr>, env2))))"

lemma battery_outcomeE:
  assumes "battery_outcome S m ys k p env (r, p', env')"
  obtains (passed) xs s' where "supplies S (source p) env xs s' env'" "monitor_passes m (ys @ xs)"
      "length xs = k" "r = Inr ()"
      "p' = p\<lparr>source := s', pipeline_monitor := monitor_after m (ys @ xs)\<rparr>"
  | (failed_source) xs s' env1 e s'' where "supplies S (source p) env xs s' env1" "length xs < k"
      "src_sample S s' env1 = (Inl e, s'', env')" "r = Inl (EntropySource e)" "p' = p\<lparr>source := s''\<rparr>"
  | (failed_test) xs s' env1 x e s'' where "supplies S (source p) env xs s' env1" "length xs < k"
      "src_sample S s' env1 = (Inr x, s'', env')" "\<not> monitor_passes m (ys @ xs @ [x])"
      "r = Inl (EntropyHealth e)" "p' = p\<lparr>source := s'', life := PipelinePoisoned\<rparr>"
  using assms unfolding battery_outcome_def by auto

lemma battery_outcome_source:
  "src_sample S (source p) env = (Inl e, s1, env1) \<Longrightarrow> monitor_passes m ys \<Longrightarrow> 0 < k \<Longrightarrow>
     battery_outcome S m ys k p env (Inl (EntropySource e), p\<lparr>source := s1\<rparr>, env1)"
  unfolding battery_outcome_def
  by (rule exI [of _ "[]"], rule exI [of _ "source p"], rule exI [of _ env]) (simp add: supplies_simps)

lemma battery_outcome_health:
  "src_sample S (source p) env = (Inr x, s1, env1) \<Longrightarrow> monitor_passes m ys \<Longrightarrow> 0 < k \<Longrightarrow>
     \<not> monitor_passes m (ys @ [x]) \<Longrightarrow>
     battery_outcome S m ys k p env
       (Inl (EntropyHealth e), p\<lparr>source := s1, life := PipelinePoisoned\<rparr>, env1)"
  unfolding battery_outcome_def
  by (rule exI [of _ "[]"], rule exI [of _ "source p"], rule exI [of _ env]) (auto simp: supplies_simps)

lemma battery_outcome_Cons:
  assumes "battery_outcome S m (ys @ [x]) k (p\<lparr>source := s1\<rparr>) env1 res"
    and "src_sample S (source p) env = (Inr x, s1, env1)"
  shows "battery_outcome S m ys (Suc k) p env res"
proof -
  from assms(1) obtain xs s' env2 where xs: "supplies S s1 env1 xs s' env2"
    "monitor_passes m (ys @ x # xs)"
    "length xs = k \<and>
        res = (Inr (), p\<lparr>source := s', pipeline_monitor := monitor_after m (ys @ x # xs)\<rparr>, env2) \<or>
      length xs < k \<and> (\<exists>e s'' env3. src_sample S s' env2 = (Inl e, s'', env3) \<and>
        res = (Inl (EntropySource e), p\<lparr>source := s''\<rparr>, env3)) \<or>
      length xs < k \<and> (\<exists>y e s'' env3. src_sample S s' env2 = (Inr y, s'', env3) \<and>
        \<not> monitor_passes m (ys @ (x # xs) @ [y]) \<and>
        res = (Inl (EntropyHealth e), p\<lparr>source := s'', life := PipelinePoisoned\<rparr>, env3))"
    unfolding battery_outcome_def by auto
  moreover have "supplies S (source p) env (x # xs) s' env2"
    using assms(2) xs(1) by (rule supplies_Cons)
  ultimately show ?thesis
    unfolding battery_outcome_def
    by (intro exI [of _ "x # xs"] exI [of _ s'] exI [of _ env2]) auto
qed

context noise_source_laws
begin

lemma supplies_kept:
  "supplies S s env xs s' env' \<Longrightarrow>
     src_spec S s' = src_spec S s \<and> max_claimable_h S s' = max_claimable_h S s \<and>
     list_all (\<lambda>x. unat x < 2 ^ unat (sample_width_bits (src_spec S s))) xs"
proof (induction rule: supplies.induct)
  case (supplies_Cons s env x s1 env1 xs s2 env2)
  with spec_kept [OF supplies_Cons(1)] sample_fits [OF supplies_Cons(1)] show ?case by simp
qed simp

lemma battery_loop_result:
  assumes "fresh_monitor m" "monitor_passes m ys"
  shows "battery_outcome S m ys (1024 - unat fed) p env (battery_loop S (monitor_after m ys) fed p env)"
  using assms(2)
proof (induction "1024 - unat fed" arbitrary: fed ys p env)
  case 0
  then have "\<not> fed < STARTUP_MIN_SAMPLES" by (simp add: word_less_nat_alt STARTUP_MIN_SAMPLES_def)
  with 0 show ?case
    by (auto simp: battery_outcome_def battery_loop.simps [of S _ fed] supplies_simps
        intro: exI [of _ "[]"])
next
  case (Suc n)
  then have fed: "fed < STARTUP_MIN_SAMPLES" by (simp add: word_less_nat_alt STARTUP_MIN_SAMPLES_def)
  then have n: "n = 1024 - unat (sat_add fed 1)" using Suc(2) by (simp add: sat_add_1_nat)
  obtain r s1 env1 where s1: "src_sample S (source p) env = (r, s1, env1)" by (metis prod_cases3)
  show ?case
  proof (cases r)
    case (Inl e)
    then have "battery_loop S (monitor_after m ys) fed p env = (Inl (EntropySource e), p\<lparr>source := s1\<rparr>, env1)"
      using s1 fed by (simp add: battery_loop.simps [of S _ fed])
    then show ?thesis
      using Inl s1 Suc(2,3) by (simp add: battery_outcome_source)
  next
    case (Inr x)
    obtain q m' where feed: "monitor_feed (monitor_after m ys) x = (q, m')" by fastforce
    note acc = monitor_accepts [OF assms(1) feed]
    show ?thesis
    proof (cases q)
      case (Inl e)
      then have "\<not> monitor_passes m (ys @ [x])" using acc(3) by auto
      moreover have "battery_loop S (monitor_after m ys) fed p env =
          (Inl (EntropyHealth e), p\<lparr>source := s1, life := PipelinePoisoned\<rparr>, env1)"
        using s1 fed feed Inl Inr by (simp add: battery_loop.simps [of S _ fed])
      ultimately show ?thesis
        using Inr s1 Suc(2,3) by (simp add: battery_outcome_health)
    next
      case q: (Inr u)
      have loop: "battery_loop S (monitor_after m ys) fed p env =
          battery_loop S (monitor_after m (ys @ [x])) (sat_add fed 1) (p\<lparr>source := s1\<rparr>) env1"
        using fed s1 Inr feed q acc(1) by (simp add: battery_loop.simps [of S _ fed])
      have "1024 - unat fed = Suc (1024 - unat (sat_add fed 1))" using n Suc(2) by simp
      then show ?thesis
        using Suc(1) [OF n acc(2) [OF q], of "p\<lparr>source := s1\<rparr>" env1] s1 Inr
        unfolding loop by (simp add: battery_outcome_Cons)
    qed
  qed
qed

lemma battery_loop_passes:
  assumes "fresh_monitor m" "supplies S (source p) env xs s' env'"
    "length xs = 1024 - unat fed" "monitor_passes m (ys @ xs)"
  shows "battery_loop S (monitor_after m ys) fed p env =
    (Inr (), p\<lparr>source := s', pipeline_monitor := monitor_after m (ys @ xs)\<rparr>, env')"
  using assms(2-)
proof (induction xs arbitrary: ys fed p env)
  case Nil
  then show ?case
    by (simp add: battery_loop.simps [of S _ fed] supplies_simps STARTUP_MIN_SAMPLES_def word_less_nat_alt)
next
  case (Cons x xs)
  then obtain s1 env1 where s1: "src_sample S (source p) env = (Inr x, s1, env1)"
    "supplies S s1 env1 xs s' env'"
    by (auto simp: supplies_simps)
  have fed: "fed < STARTUP_MIN_SAMPLES"
    using Cons(3) by (simp add: STARTUP_MIN_SAMPLES_def word_less_nat_alt)
  then have len: "length xs = 1024 - unat (sat_add fed 1)" using Cons(3) by (simp add: sat_add_1_nat)
  obtain r m' where feed: "monitor_feed (monitor_after m ys) x = (r, m')" by fastforce
  note acc = monitor_accepts [OF assms(1) feed]
  have "monitor_passes m (ys @ [x])"
    using monitor_passes_append [OF assms(1), of "ys @ [x]" xs] Cons(4) by simp
  then have "r = Inr ()" by (rule acc(3))
  then show ?case
    using fed s1 feed acc(1) Cons(1) [of "p\<lparr>source := s1\<rparr>" env1 "sat_add fed 1" "ys @ [x]"] len Cons(4)
    by (simp add: battery_loop.simps [of S _ fed])
qed

lemma run_battery_result:
  assumes "tested S p m ys"
  shows "battery_outcome S m [] 1024 p env (run_battery S p env)"
proof -
  have m: "fresh_monitor m" using assms by (rule tested_fresh)
  have "battery_loop S m 0 p env = battery_loop S (monitor_after m []) 0 p env"
    by (simp add: monitor_after_def)
  then show ?thesis
    using battery_loop_result [OF m monitor_passes_Nil [OF m], of 0 p env] assms
    by (simp add: run_battery_def tested_def)
qed

lemma run_battery_passes:
  assumes "tested S p m ys" "supplies S (source p) env xs s' env'" "length xs = 1024" "monitor_passes m xs"
  shows "run_battery S p env =
    (Inr (), p\<lparr>source := s', pipeline_monitor := monitor_after m xs\<rparr>, env')"
proof -
  have "battery_loop S m 0 p env = battery_loop S (monitor_after m []) 0 p env"
    by (simp add: monitor_after_def)
  then show ?thesis
    using battery_loop_passes [OF tested_fresh [OF assms(1)] assms(2), of 0 "[]"] assms
    by (simp add: run_battery_def tested_def)
qed

lemma tested_source:
  assumes "tested S p m ys" "src_sample S s env = (r, s', env')"
    "src_spec S s = src_spec S (source p)" "max_claimable_h S s = max_claimable_h S (source p)"
  shows "tested S (p\<lparr>source := s'\<rparr>) m ys"
  using assms(1,3,4) spec_kept [OF assms(2)] by (simp add: tested_def)

lemma tested_supplies:
  assumes "tested S p m ys" "supplies S (source p) env xs s' env'"
  shows "tested S (p\<lparr>source := s'\<rparr>) m ys"
  using assms(1) supplies_kept [OF assms(2)] by (simp add: tested_def)

lemma tested_battery:
  assumes "tested S p m ys" "battery_outcome S m [] 1024 p env (r, p', env')"
    "life p \<noteq> AwaitingStartup \<or> r \<noteq> Inr ()"
  shows "\<exists>ys'. tested S p' m ys'"
proof -
  have kept: "tested S (p\<lparr>source := s''\<rparr>) m ys"
    if "supplies S (source p) env xs s' env1" "src_sample S s' env1 = (q, s'', env2)" for xs s' s'' env1 env2 q
    using supplies_kept [OF that(1)] by (intro tested_source [OF assms(1) that(2)]) simp_all
  from assms(2) show ?thesis
  proof (cases rule: battery_outcomeE)
    case (passed xs s')
    with tested_supplies [OF assms(1) passed(1)] assms(3) show ?thesis
      by (intro exI [of _ xs]) (simp add: tested_def)
  next
    case (failed_source xs s' env1 e s'')
    with kept [OF failed_source(1,3)] show ?thesis by blast
  next
    case (failed_test xs s' env1 x e s'')
    with kept [OF failed_test(1,3)] show ?thesis by (intro exI [of _ ys]) (simp add: tested_def)
  qed
qed

lemma pipeline_sample_result:
  assumes "tested S p m ys" "pipeline_sample S p env = (r, p', env')"
  shows "case r of
      Inl e \<Rightarrow> (\<exists>ys'. tested S p' m ys') \<and>
        (life p' = PipelinePoisoned \<longleftrightarrow> life p = PipelinePoisoned \<or> (\<exists>h. e = EntropyHealth h)) \<and>
        (life p' = PipelinePoisoned \<or> life p' = life p)
    | Inr x \<Rightarrow> life p = PipelineOperational \<and> life p' = PipelineOperational \<and>
        tested S p' m (ys @ [x]) \<and> conditioner_of p' = conditioner_of p \<and>
        supplies S (source p) env [x] (source p') env'"
proof (cases "life p = PipelineOperational")
  case True
  obtain q s1 env1 where s1: "src_sample S (source p) env = (q, s1, env1)" by (metis prod_cases3)
  have t: "tested S (p\<lparr>source := s1\<rparr>) m ys" using tested_source [OF assms(1) s1] by simp
  show ?thesis
  proof (cases q)
    case (Inl e)
    with True s1 t assms(2) show ?thesis by (auto simp: pipeline_sample_def)
  next
    case (Inr x)
    obtain f m' where feed: "monitor_feed (monitor_after m ys) x = (f, m')" by fastforce
    note acc = monitor_accepts [OF tested_fresh [OF assms(1)] feed]
    have mon: "pipeline_monitor p = monitor_after m ys" using assms(1) by (simp add: tested_def)
    show ?thesis
    proof (cases f)
      case (Inl e)
      with True s1 Inr feed mon assms(2)
      have "r = Inl (EntropyHealth e)"
        "p' = p\<lparr>source := s1, pipeline_monitor := m', life := PipelinePoisoned\<rparr>"
        by (auto simp: pipeline_sample_def)
      with t acc(1) show ?thesis by (auto simp: tested_def)
    next
      case f: (Inr u)
      with True s1 Inr feed mon assms(2)
      have r: "r = Inr x" "p' = p\<lparr>source := s1, pipeline_monitor := m'\<rparr>" "env' = env1"
        by (auto simp: pipeline_sample_def)
      have "tested S p' m (ys @ [x])"
        using t acc(1) acc(2) [OF f] True r(2) by (simp add: tested_def)
      with r True s1 Inr show ?thesis by (simp add: supplies_simps)
    qed
  qed
next
  case False
  with assms show ?thesis by (auto simp: pipeline_sample_def)
qed

lemma block_loop_result:
  assumes "tested S p m ys" "life p = PipelineOperational" "block_loop S n drawn h p env = (r, p', env')"
  shows "case r of
      Inl e \<Rightarrow> (\<exists>ys'. tested S p' m ys') \<and>
        (life p' = PipelinePoisoned \<longleftrightarrow> (\<exists>f. e = EntropyHealth f)) \<and>
        (life p' = PipelinePoisoned \<or> life p' = PipelineOperational)
    | Inr h' \<Rightarrow> \<exists>zs. length zs = unat n - unat drawn \<and> tested S p' m (ys @ zs) \<and>
        life p' = PipelineOperational \<and> h' = foldl sha256_update h (map (\<lambda>z. [z]) zs) \<and>
        supplies S (source p) env zs (source p') env'"
  using assms
proof (induction "unat n - unat drawn" arbitrary: drawn h p ys env)
  case 0
  then show ?case
    by (auto simp: block_loop.simps [of S n drawn] word_less_nat_alt supplies_simps intro!: exI [of _ "[]"])
next
  case (Suc k)
  then have d: "drawn < n" by (simp add: word_less_nat_alt)
  then have k: "k = unat n - unat (sat_add drawn 1)" using Suc(2) by (simp add: sat_add_1_nat)
  obtain q p1 env1 where s1: "pipeline_sample S p env = (q, p1, env1)" by (metis prod_cases3)
  note res = pipeline_sample_result [OF Suc(3) s1]
  show ?case
  proof (cases q)
    case (Inl e)
    with Suc(4,5) d s1 res show ?thesis by (auto simp: block_loop.simps [of S n drawn])
  next
    case (Inr x)
    have loop: "block_loop S n (sat_add drawn 1) (sha256_update h [x]) p1 env1 = (r, p', env')"
      using Suc(5) d s1 Inr by (simp add: block_loop.simps [of S n drawn])
    from res Inr have x: "life p1 = PipelineOperational" "tested S p1 m (ys @ [x])"
      "supplies S (source p) env [x] (source p1) env1" by simp_all
    note IH = Suc(1) [OF k x(2,1) loop]
    show ?thesis
    proof (cases r)
      case r: (Inr h')
      with IH obtain zs where zs: "length zs = unat n - unat (sat_add drawn 1)"
        "tested S p' m (ys @ x # zs)" "life p' = PipelineOperational"
        "h' = foldl sha256_update (sha256_update h [x]) (map (\<lambda>z. [z]) zs)"
        "supplies S (source p1) env1 zs (source p') env'"
        by auto
      with r x(3) k Suc(2) show ?thesis
        by (auto simp: supplies_simps intro!: exI [of _ "x # zs"])
    qed (use IH in auto)
  qed
qed

lemma conditioned_block_result:
  assumes "tested S p m ys" "conditioned_block S p env = (r, p', env')"
  shows "case r of
      Inl e \<Rightarrow> (\<exists>ys'. tested S p' m ys') \<and>
        (life p' = PipelinePoisoned \<longleftrightarrow> life p = PipelinePoisoned \<or> (\<exists>f. e = EntropyHealth f)) \<and>
        (life p' = PipelinePoisoned \<or> life p' = life p)
    | Inr out \<Rightarrow> life p = PipelineOperational \<and> life p' = PipelineOperational \<and>
        (\<exists>zs env1 env2. length zs = unat (samples_per_block (conditioner_of p)) \<and>
           tested S p' m (ys @ zs) \<and> supplies S (source p) env1 zs (source p') env2 \<and>
           out = sha256_spec zs)"
proof (cases "life p = PipelineOperational")
  case True
  obtain b env1 where b: "begin_block env = (b, env1)" by fastforce
  show ?thesis
  proof (cases b)
    case (Inl e)
    with assms True b show ?thesis by (auto simp: conditioned_block_def)
  next
    case (Inr h)
    then have h: "h = sha256_new_unguarded"
      using b by (auto simp: begin_block_def sha256_new_internal_def chain_Inr)
    obtain q p1 env2 where loop:
      "block_loop S (samples_per_block (conditioner_of p)) 0 h p env1 = (q, p1, env2)"
      by (metis prod_cases3)
    note res = block_loop_result [OF assms(1) True loop]
    show ?thesis
    proof (cases q)
      case (Inl e)
      with assms True b Inr loop res show ?thesis by (auto simp: conditioned_block_def)
    next
      case q: (Inr h')
      obtain f env3 where f: "sha256_finalize h' env2 = (f, env3)" by fastforce
      from res q obtain zs where zs: "length zs = unat (samples_per_block (conditioner_of p))"
        "tested S p1 m (ys @ zs)" "life p1 = PipelineOperational"
        "h' = foldl sha256_update sha256_new_unguarded (map (\<lambda>z. [z]) zs)"
        "supplies S (source p) env1 zs (source p1) env2"
        unfolding h by auto
      have singles: "concat (map (\<lambda>z. [z]) zs) = zs" by (induction zs) simp_all
      have digest: "sha256_finalize_unchecked h' = sha256_spec zs"
        using sha256_h.streamed [of "map (\<lambda>z. [z]) zs"] zs(4) singles by simp
      show ?thesis
      proof (cases f)
        case (Inl e)
        then have "r = Inl (EntropyModule e)" "p' = p1"
          using assms(2) True b Inr loop q f by (auto simp: conditioned_block_def)
        with zs(2,3) True show ?thesis by auto
      next
        case f': (Inr out)
        then have "out = sha256_spec zs"
          using f digest by (auto simp: sha256_finalize_def chain_Inr)
        moreover from f' have "r = Inr out" "p' = p1"
          using assms(2) True b Inr loop q f by (auto simp: conditioned_block_def)
        ultimately show ?thesis using zs True by auto
      qed
    qed
  qed
next
  case False
  with assms show ?thesis by (auto simp: conditioned_block_def)
qed

end

subsection \<open>The conditioning known-answer test\<close>

lemma conditioner_kat: "sha256_spec KAT_MESSAGE = KAT_EXPECTED"
proof -
  let ?p = "[97, 98, 99, 128, 0, 0, 0, 0, 0, 0, 0, 0, 0, 0, 0, 0, 0, 0, 0, 0, 0, 0, 0, 0, 0, 0, 0, 0, 0, 0, 0, 0,
     0, 0, 0, 0, 0, 0, 0, 0, 0, 0, 0, 0, 0, 0, 0, 0, 0, 0, 0, 0, 0, 0, 0, 0, 0, 0, 0, 0, 0, 0, 0, 24] :: bytes"
  have p: "md_pad 64 8 KAT_MESSAGE = ?p" by code_simp
  have "sha256_output (compress256 SHA256_H0 ?p) = KAT_EXPECTED" by code_simp
  then show ?thesis by (simp add: sha256_spec_def md_state_single [OF p])
qed

lemma kat_against_result:
  "kat_against expected env =
     chain gate_self_test_started (\<lambda>_. chain gate_self_test_started
       (\<lambda>_. ok (KAT_EXPECTED = expected))) env"
proof -
  have "sha256_finalize_unchecked (sha256_update sha256_new_unguarded KAT_MESSAGE) = KAT_EXPECTED"
    using conditioner_kat by (simp add: sha256_h.one_shot)
  then show ?thesis
    by (simp add: kat_against_def sha256_new_internal_def sha256_finalize_def chain_def
        split: prod.splits sum.splits)
qed

lemma startup_kat_good: "startup_kat env = (Inr good, env') \<Longrightarrow> good"
  by (auto simp: startup_kat_def kat_against_result chain_Inr)

subsection \<open>Pipelines under any sequence of calls\<close>

inductive pipeline_reachable :: "'s noise_source \<Rightarrow> 's pipeline \<Rightarrow> bool" for S where
  reach_new: "pipeline_new S src h a = Inr p \<Longrightarrow> pipeline_reachable S p"
| reach_startup: "pipeline_reachable S p \<Longrightarrow> run_startup S p env = (r, p', env') \<Longrightarrow> pipeline_reachable S p'"
| reach_on_demand:
    "pipeline_reachable S p \<Longrightarrow> on_demand_test S p env = (r, p', env') \<Longrightarrow> pipeline_reachable S p'"
| reach_sample:
    "pipeline_reachable S p \<Longrightarrow> pipeline_sample S p env = (x, p', env') \<Longrightarrow> pipeline_reachable S p'"
| reach_block:
    "pipeline_reachable S p \<Longrightarrow> conditioned_block S p env = (b, p', env') \<Longrightarrow> pipeline_reachable S p'"

lemma conditioner_exists:
  "steps h \<noteq> 0 \<Longrightarrow> \<exists>c. conditioner_for_claim h = Some c"
  by (simp add: conditioner_for_claim_def Let_def)

lemma tested_new:
  assumes "pipeline_new S src h a = Inr p"
  shows "\<exists>m. tested S p m []"
proof -
  from assms obtain m c where "monitor_new h (is_binary (src_spec S src)) a = Inr m"
    "conditioner_for_claim h = Some c" "\<not> max_claimable_h S src < h"
    "\<not> h_from_bits (sample_width_bits (src_spec S src)) < h"
    "p = \<lparr>source = src, claimed_h = h, pipeline_alpha = a, pipeline_monitor = m,
          conditioner_of = c, life = AwaitingStartup\<rparr>"
    by (auto simp: pipeline_new_def Let_def split: if_splits sum.splits option.splits)
  then show ?thesis by (intro exI [of _ m]) (simp add: tested_def monitor_after_def not_less)
qed

context noise_source_laws
begin

lemma run_startup_result:
  assumes "tested S p m ys" "run_startup S p env = (r, p', env')"
  shows "(\<exists>ys'. tested S p' m ys') \<and>
    (case r of
       Inl e \<Rightarrow> (life p' = PipelinePoisoned \<longleftrightarrow>
           life p = PipelinePoisoned \<or> e = ConditionerKat \<or> (\<exists>f. e = EntropyHealth f)) \<and>
         (life p' = PipelinePoisoned \<or> life p' = life p)
     | Inr _ \<Rightarrow> life p = AwaitingStartup \<and> life p' = PipelineOperational \<and>
         (\<exists>env1 xs. startup_kat env = (Inr True, env1) \<and> length xs = 1024 \<and>
            supplies S (source p) env1 xs (source p') env' \<and> monitor_passes m xs \<and>
            tested S p' m xs))"
proof (cases "life p = AwaitingStartup")
  case True
  obtain k env1 where k: "startup_kat env = (k, env1)" by fastforce
  show ?thesis
  proof (cases k)
    case (Inl e)
    with True k assms show ?thesis by (auto simp: run_startup_def)
  next
    case (Inr good)
    then have good: "good" using startup_kat_good k by simp
    obtain q p1 env2 where run: "run_battery S p env1 = (q, p1, env2)" by (metis prod_cases3)
    note out = run_battery_result [OF assms(1), of env1, unfolded run]
    show ?thesis
    proof (cases q)
      case (Inl e)
      have "\<exists>ys'. tested S p1 m ys'" using tested_battery [OF assms(1) out] Inl by simp
      moreover have "r = Inl e" "p' = p1" using True k Inr good run Inl assms(2) by (auto simp: run_startup_def)
      moreover have "life p1 = PipelinePoisoned \<and> (\<exists>f. e = EntropyHealth f) \<or>
          life p1 = life p \<and> (\<exists>f. e = EntropySource f)"
        using out by (cases rule: battery_outcomeE) (use Inl in auto)
      ultimately show ?thesis using True by auto
    next
      case q: (Inr u)
      from out obtain xs s' where xs: "supplies S (source p) env1 xs s' env2" "monitor_passes m xs"
        "length xs = 1024" "p1 = p\<lparr>source := s', pipeline_monitor := monitor_after m xs\<rparr>"
        by (cases rule: battery_outcomeE) (simp_all add: q)
      have r: "r = Inr ()" "p' = p1\<lparr>life := PipelineOperational\<rparr>" "env' = env2"
        using True k Inr good run q assms(2) by (auto simp: run_startup_def)
      have "tested S p' m xs"
        using tested_supplies [OF assms(1) xs(1)] xs r by (simp add: tested_def)
      with True k Inr good r xs show ?thesis by auto
    qed
  qed
next
  case False
  with assms show ?thesis by (auto simp: run_startup_def split: pipeline_state.splits)
qed

lemma on_demand_result:
  assumes "tested S p m ys" "on_demand_test S p env = (r, p', env')"
  shows "(\<exists>ys'. tested S p' m ys') \<and>
    (case r of
       Inl e \<Rightarrow> (life p' = PipelinePoisoned \<longleftrightarrow> life p = PipelinePoisoned \<or> (\<exists>f. e = EntropyHealth f)) \<and>
         (life p' = PipelinePoisoned \<or> life p' = life p)
     | Inr _ \<Rightarrow> life p = PipelineOperational \<and> life p' = PipelineOperational)"
proof (cases "life p = PipelineOperational")
  case True
  then have run: "run_battery S p env = (r, p', env')" using assms(2) by (simp add: on_demand_test_def)
  note out = run_battery_result [OF assms(1), of env, unfolded run]
  have ex: "\<exists>ys'. tested S p' m ys'" using tested_battery [OF assms(1) out] True by simp
  from out show ?thesis using True ex by (cases rule: battery_outcomeE) auto
next
  case False
  with assms show ?thesis by (auto simp: on_demand_test_def)
qed

lemma reachable_tested: "pipeline_reachable S p \<Longrightarrow> \<exists>m ys. tested S p m ys"
proof (induction rule: pipeline_reachable.induct)
  case (reach_new src h a p)
  from tested_new [OF reach_new] show ?case by blast
next
  case (reach_sample p env x p' env')
  then obtain m ys where "tested S p m ys" by blast
  from pipeline_sample_result [OF this reach_sample(2)] show ?case by (cases x) auto
next
  case (reach_block p env b p' env')
  then obtain m ys where "tested S p m ys" by blast
  from conditioned_block_result [OF this reach_block(2)] show ?case by (cases b) auto
qed (use run_startup_result on_demand_result in blast)+

end

subsection \<open>A concrete source\<close>

text \<open>A counter on eight bits, used to instantiate the properties.\<close>

definition ramp_source :: "u8 noise_source" where
  "ramp_source = \<lparr>src_spec = (\<lambda>_. SourceSpec 8), max_claimable_h = (\<lambda>_. h_from_bits 8),
     src_sample = (\<lambda>s env. (Inr s, s + 1, env))\<rparr>"

interpretation ramp: noise_source_laws ramp_source
proof
  show "unat x < 2 ^ unat (sample_width_bits (src_spec ramp_source s))" for x :: u8 and s
    using unsigned_less [of x, where 'a = nat] by (simp add: ramp_source_def)
qed (auto simp: ramp_source_def source_spec_new_def)

lemma ramp_supplies: "supplies ramp_source s env (map (\<lambda>i. s + of_nat i) [0..<n]) (s + of_nat n) env"
proof (induction n arbitrary: s)
  case (Suc n)
  have "map (\<lambda>i. s + of_nat i) [0..<Suc n] = s # map (\<lambda>i. s + 1 + of_nat i) [0..<n]"
    by (simp add: upt_conv_Cons map_Suc_upt [symmetric] add.commute add.left_commute del: upt_Suc)
  moreover have "src_sample ramp_source s env = (Inr s, s + 1, env)" by (simp add: ramp_source_def)
  moreover have "s + of_nat (Suc n) = s + 1 + of_nat n" by simp
  ultimately show ?case using Suc [of "s + 1"] by (simp only: supplies_Cons)
qed (simp add: supplies_Nil)

lemma no_run:
  assumes "\<And>i. Suc i < length xs \<Longrightarrow> xs ! i \<noteq> xs ! Suc i" "2 \<le> c"
  shows "\<not> has_run c xs"
proof
  assume "has_run c xs"
  then obtain i v where i: "i + c \<le> length xs" "take c (drop i xs) = replicate c v"
    by (auto simp: has_run_def)
  have "take c (drop i xs) ! 0 = v" "take c (drop i xs) ! 1 = v" unfolding i(2) using assms(2) by simp_all
  with i(1) assms(2) have "xs ! i = v" "xs ! Suc i = v" by simp_all
  with assms(1) [of i] i(1) assms(2) show False by simp
qed

lemma count_list_distinct: "distinct xs \<Longrightarrow> count_list xs x \<le> 1"
  by (induction xs) (auto simp: count_notin)

lemma mod_eq_near:
  assumes "(i :: nat) mod n = j mod n" "i \<le> j" "j < i + n"
  shows "i = j"
proof -
  have "n dvd j - i" using assms(1,2) mod_eq_dvd_iff_nat [of i j n] by simp
  moreover have "j - i < n" using assms(2,3) by simp
  ultimately have "j - i = 0" using dvd_imp_le not_less by fastforce
  with assms(2) show ?thesis by simp
qed

lemma distinct_ramp: "b \<le> a + 256 \<Longrightarrow> distinct (map (\<lambda>i. of_nat i :: u8) [a..<b])"
proof -
  assume b: "b \<le> a + 256"
  have "i = j" if "i mod 256 = j mod 256" "a \<le> i" "a \<le> j" "i < b" "j < b" for i j :: nat
    using that b mod_eq_near [of i 256 j] mod_eq_near [of j 256 i] by (cases "i \<le> j") auto
  then show ?thesis
    by (auto simp: distinct_map inj_on_def word_of_nat_eq_iff take_bit_eq_mod)
qed

lemma ramp_window:
  assumes "b \<le> a + 512"
  shows "window_ok 190 (map (\<lambda>i. of_nat i :: u8) [a..<b])"
proof -
  have parts: "[a..<b] = [a..<min b (a + 256)] @ [min b (a + 256)..<b]" if "a \<le> b"
    using upt_add_eq_append [of a "min b (a + 256)" "b - min b (a + 256)"] that by simp
  have "count_list (map (\<lambda>i. of_nat i :: u8) [a..<b]) x \<le> 1 + 1" for x
  proof (cases "a \<le> b")
    case True
    show ?thesis unfolding parts [OF True] map_append count_list_append
      using assms by (intro add_mono count_list_distinct distinct_ramp) simp_all
  qed simp
  then have "count_list (map (\<lambda>i. of_nat i :: u8) [a..<b]) x < 190" for x
    by (rule le_less_trans) simp
  then show ?thesis unfolding window_ok_def by blast
qed

lemma take_upt_min: "take n [a..<b] = [a..<min b (a + n)]"
  by (cases "a + n \<le> b") (simp_all add: min_def take_upt)

lemma ramp_passes: "monitor_passes two_bits (map (\<lambda>i. 0 + of_nat i) [0..<n])"
proof -
  let ?xs = "map (\<lambda>i. of_nat i) [0..<n] :: u8 list"
  have "(of_nat i :: u8) \<noteq> of_nat (Suc i)" for i by simp
  then have "\<not> has_run 16 ?xs" by (intro no_run) simp_all
  moreover have "window_ok 190 (take 512 (drop (k * 512) ?xs))" for k
    unfolding drop_map take_map drop_upt take_upt_min by (rule ramp_window) simp
  ultimately show ?thesis by (simp add: passes_def windows_ok_def two_bits_def)
qed

lemma block_loop_passes:
  assumes "fresh_monitor m" "pipeline_monitor p = monitor_after m ys" "life p = PipelineOperational"
    "supplies S (source p) env zs s' env'" "length zs = unat n - unat drawn" "monitor_passes m (ys @ zs)"
  shows "block_loop S n drawn h p env =
    (Inr (foldl sha256_update h (map (\<lambda>z. [z]) zs)),
     p\<lparr>source := s', pipeline_monitor := monitor_after m (ys @ zs)\<rparr>, env')"
  using assms(2-)
proof (induction zs arbitrary: ys drawn h p env)
  case Nil
  then show ?case
    by (simp add: block_loop.simps [of S n drawn] supplies_simps word_less_nat_alt)
next
  case (Cons x zs)
  then obtain s1 env1 where s1: "src_sample S (source p) env = (Inr x, s1, env1)"
    "supplies S s1 env1 zs s' env'"
    by (auto simp: supplies_simps)
  have d: "drawn < n" using Cons(5) by (simp add: word_less_nat_alt)
  then have len: "length zs = unat n - unat (sat_add drawn 1)" using Cons(5) by (simp add: sat_add_1_nat)
  obtain r m' where feed: "monitor_feed (monitor_after m ys) x = (r, m')" by fastforce
  note acc = monitor_accepts [OF assms(1) feed]
  have "monitor_passes m (ys @ [x])"
    using monitor_passes_append [OF assms(1), of "ys @ [x]" zs] Cons(6) by simp
  then have "r = Inr ()" by (rule acc(3))
  then have "pipeline_sample S p env =
      (Inr x, p\<lparr>source := s1, pipeline_monitor := monitor_after m (ys @ [x])\<rparr>, env1)"
    using Cons(2,3) s1 feed acc(1) by (simp add: pipeline_sample_def)
  then show ?case
    using d s1 len Cons(3,6)
      Cons(1) [of "p\<lparr>source := s1, pipeline_monitor := monitor_after m (ys @ [x])\<rparr>" "ys @ [x]"
        env1 "sat_add drawn 1" "sha256_update h [x]"]
    by (simp add: block_loop.simps [of S n drawn])
qed

subsection \<open>Properties\<close>

text \<open>A pipeline is built only for a claim the source can carry: a claim above the source's
  ceiling, then one above the sample width, then one without tabulated cutoffs is refused with its
  own error.  A built pipeline awaits its startup, and its conditioner consumes the least number of
  samples whose claimed entropy reaches the output length plus the 64-bit margin.\<close>

theorem pipeline_construction:
  "case pipeline_new S src h a of
     Inl (ClaimExceedsCeiling c l) \<Rightarrow> c = h \<and> l = max_claimable_h S src \<and> l < h
   | Inl (ClaimExceedsSampleWidth c w) \<Rightarrow> c = h \<and> w = sample_width_bits (src_spec S src) \<and>
       h \<le> max_claimable_h S src \<and> h_from_bits w < h
   | Inl (EntropyHealth e) \<Rightarrow> h \<le> max_claimable_h S src \<and>
       h \<le> h_from_bits (sample_width_bits (src_spec S src)) \<and>
       monitor_new h (is_binary (src_spec S src)) a = Inl e
   | Inl _ \<Rightarrow> False
   | Inr p \<Rightarrow> h \<le> max_claimable_h S src \<and> h \<le> h_from_bits (sample_width_bits (src_spec S src)) \<and>
       monitor_new h (is_binary (src_spec S src)) a = Inr (pipeline_monitor p) \<and>
       source p = src \<and> claimed_h p = h \<and> life p = AwaitingStartup \<and>
       (let n = unat (samples_per_block (conditioner_of p)); s = unat (steps h) in
          (256 + 64) * 256 \<le> n * s \<and> (n - 1) * s < (256 + 64) * 256)"
proof (cases "\<exists>m. h \<le> max_claimable_h S src \<and>
    h \<le> h_from_bits (sample_width_bits (src_spec S src)) \<and>
    monitor_new h (is_binary (src_spec S src)) a = Inr m")
  case True
  then obtain m where m: "h \<le> max_claimable_h S src"
    "h \<le> h_from_bits (sample_width_bits (src_spec S src))"
    "monitor_new h (is_binary (src_spec S src)) a = Inr m" by blast
  have s: "0 < unat (steps h)" using monitor_new_Inr(2) [OF m(3)] .
  then have nz: "steps h \<noteq> 0" by auto
  have req: "(VETTED_SHA256_NOUT_BITS + FULL_ENTROPY_INPUT_MARGIN_BITS) * H_STEPS_PER_BIT = 81920"
    by (simp add: VETTED_SHA256_NOUT_BITS_def FULL_ENTROPY_INPUT_MARGIN_BITS_def H_STEPS_PER_BIT_def)
  have c: "conditioner_for_claim h = Some (Conditioner (div_ceil 81920 (steps h)))"
    using nz by (simp add: conditioner_for_claim_def Let_def req)
  have n: "unat (div_ceil 81920 (steps h)) = (81920 + unat (steps h) - 1) div unat (steps h)"
    using unat_div_ceil [OF nz, of 81920] by simp
  have "81920 \<le> unat (div_ceil 81920 (steps h)) * unat (steps h)"
    "(unat (div_ceil 81920 (steps h)) - 1) * unat (steps h) < 81920"
    unfolding n by (rule ceil_times_ge [OF s], rule ceil_minus_one_times_less [OF s]) simp
  with m c show ?thesis by (simp add: pipeline_new_def Let_def not_less [symmetric])
next
  case False
  then show ?thesis
    using monitor_new_Inr(2) conditioner_exists [of h]
    by (auto simp: pipeline_new_def Let_def not_less split: sum.splits option.splits)
qed

text \<open>C12: No output before the startup tests.  The startup of any reachable pipeline succeeds
  exactly when it was awaited, the conditioner's known-answer test ran, and the source then
  supplied 1024 consecutive samples passing both continuous tests from a fresh state; these samples
  are consumed and nothing of them is kept but the state of the tests.\<close>

theorem pipeline_startup_exact:
  assumes "noise_source_laws S" "pipeline_reachable S p"
    "monitor_new (claimed_h p) (is_binary (src_spec S (source p))) (pipeline_alpha p) = Inr m"
  shows "run_startup S p env = (Inr (), p', env') \<longleftrightarrow>
    life p = AwaitingStartup \<and>
    (\<exists>env1 xs s'. startup_kat env = (Inr True, env1) \<and> length xs = 1024 \<and>
       supplies S (source p) env1 xs s' env' \<and> monitor_passes m xs \<and>
       p' = p\<lparr>source := s', pipeline_monitor := monitor_after m xs, life := PipelineOperational\<rparr>)"
proof -
  obtain ys where t: "tested S p m ys"
    using noise_source_laws.reachable_tested [OF assms(1,2)] assms(3) by (auto simp: tested_def)
  show ?thesis
  proof
    assume run: "run_startup S p env = (Inr (), p', env')"
    then obtain env1 where l: "life p = AwaitingStartup" "startup_kat env = (Inr True, env1)"
      using noise_source_laws.run_startup_result [OF assms(1) t run] by auto
    then obtain p1 where b: "run_battery S p env1 = (Inr (), p1, env')"
      "p' = p1\<lparr>life := PipelineOperational\<rparr>"
      using run by (auto simp: run_startup_def split: prod.splits sum.splits)
    from noise_source_laws.run_battery_result [OF assms(1) t, of env1, unfolded b(1)]
    obtain xs s' where "supplies S (source p) env1 xs s' env'" "monitor_passes m xs" "length xs = 1024"
      "p1 = p\<lparr>source := s', pipeline_monitor := monitor_after m xs\<rparr>"
      by (cases rule: battery_outcomeE) simp_all
    with l b(2) show "life p = AwaitingStartup \<and>
      (\<exists>env1 xs s'. startup_kat env = (Inr True, env1) \<and> length xs = 1024 \<and>
        supplies S (source p) env1 xs s' env' \<and> monitor_passes m xs \<and>
        p' = p\<lparr>source := s', pipeline_monitor := monitor_after m xs, life := PipelineOperational\<rparr>)"
      by auto
  next
    assume "life p = AwaitingStartup \<and>
      (\<exists>env1 xs s'. startup_kat env = (Inr True, env1) \<and> length xs = 1024 \<and>
        supplies S (source p) env1 xs s' env' \<and> monitor_passes m xs \<and>
        p' = p\<lparr>source := s', pipeline_monitor := monitor_after m xs, life := PipelineOperational\<rparr>)"
    then obtain env1 xs s' where *: "life p = AwaitingStartup" "startup_kat env = (Inr True, env1)"
      "length xs = 1024" "supplies S (source p) env1 xs s' env'" "monitor_passes m xs"
      "p' = p\<lparr>source := s', pipeline_monitor := monitor_after m xs, life := PipelineOperational\<rparr>"
      by blast
    with noise_source_laws.run_battery_passes [OF assms(1) t *(4,3,5)]
    show "run_startup S p env = (Inr (), p', env')" by (simp add: run_startup_def)
  qed
qed

definition ramp_pipe :: "u8 pipeline" where
  "ramp_pipe = \<lparr>source = 0, claimed_h = h_from_bits 2, pipeline_alpha = alpha_DEFAULT,
     pipeline_monitor = two_bits, conditioner_of = Conditioner 160, life = AwaitingStartup\<rparr>"

definition ramp_started :: "u8 pipeline" where
  "ramp_started = ramp_pipe\<lparr>source := 0 + of_nat 1024,
     pipeline_monitor := monitor_after two_bits (map (\<lambda>i. 0 + of_nat i) [0..<1024]),
     life := PipelineOperational\<rparr>"

lemma ramp_pipe_new: "pipeline_new ramp_source 0 (h_from_bits 2) alpha_DEFAULT = Inr ramp_pipe"
proof -
  have "h_from_bits 2 \<le> h_from_bits 8" "steps (h_from_bits 2) = 512"
    by (simp_all add: less_eq_min_entropy_def h_from_bits_def sat_mul_def H_STEPS_PER_BIT_def)
  then show ?thesis
    using two_bits_new
    by (simp add: pipeline_new_def ramp_source_def ramp_pipe_def is_binary_def Let_def not_less
        conditioner_for_claim_def div_ceil_def VETTED_SHA256_NOUT_BITS_def
        FULL_ENTROPY_INPUT_MARGIN_BITS_def H_STEPS_PER_BIT_def)
qed

lemma ramp_monitor_new:
  "monitor_new (claimed_h ramp_pipe) (is_binary (src_spec ramp_source (source ramp_pipe)))
     (pipeline_alpha ramp_pipe) = Inr two_bits"
  using two_bits_new by (simp add: ramp_pipe_def ramp_source_def is_binary_def)

lemma operational_kat:
  "startup_kat (steady None OPERATIONAL 0) = (Inr True, steady None OPERATIONAL 0)"
  "begin_block (steady None OPERATIONAL 0) = (Inr sha256_new_unguarded, steady None OPERATIONAL 0)"
  "sha256_finalize h (steady None OPERATIONAL 0) =
     (Inr (sha256_finalize_unchecked h), steady None OPERATIONAL 0)"
  by (simp_all add: startup_kat_def kat_against_result begin_block_def sha256_new_internal_def
      sha256_finalize_def require_self_test_started_def)

lemma pipeline_startup_exact_witness:
  "run_startup ramp_source ramp_pipe (steady None OPERATIONAL 0) =
     (Inr (), ramp_started, steady None OPERATIONAL 0)"
proof (rule pipeline_startup_exact [OF ramp.noise_source_laws_axioms reach_new [OF ramp_pipe_new]
      ramp_monitor_new, THEN iffD2])
  have "source ramp_pipe = 0" by (simp add: ramp_pipe_def)
  then show "life ramp_pipe = AwaitingStartup \<and>
    (\<exists>env1 xs s'. startup_kat (steady None OPERATIONAL 0) = (Inr True, env1) \<and> length xs = 1024 \<and>
       supplies ramp_source (source ramp_pipe) env1 xs s' (steady None OPERATIONAL 0) \<and>
       monitor_passes two_bits xs \<and>
       ramp_started = ramp_pipe\<lparr>source := s', pipeline_monitor := monitor_after two_bits xs,
         life := PipelineOperational\<rparr>)"
    using operational_kat(1) ramp_supplies [of 0 _ 1024] ramp_passes [of 1024]
    unfolding ramp_started_def
    by (intro conjI exI [of _ "steady None OPERATIONAL 0"] exI [of _ "map (\<lambda>i. 0 + of_nat i) [0..<1024]"]
        exI [of _ "0 + of_nat 1024"]) (simp_all add: ramp_pipe_def)
qed

text \<open>The same run of the startup, from the result on startup inside the contract.\<close>

lemma ramp_reached: "pipeline_reachable ramp_source ramp_started"
proof -
  obtain ys where t: "tested ramp_source ramp_pipe two_bits ys"
    using tested_new [OF ramp_pipe_new] ramp_monitor_new by (auto simp: tested_def)
  have "run_battery ramp_source ramp_pipe (steady None OPERATIONAL 0) =
      (Inr (), ramp_pipe\<lparr>source := 0 + of_nat 1024,
         pipeline_monitor := monitor_after two_bits (map (\<lambda>i. 0 + of_nat i) [0..<1024])\<rparr>,
       steady None OPERATIONAL 0)"
    using ramp.run_battery_passes [OF t _ _ ramp_passes [of 1024]] ramp_supplies [of 0 _ 1024]
    by (simp add: ramp_pipe_def)
  then have "run_startup ramp_source ramp_pipe (steady None OPERATIONAL 0) =
      (Inr (), ramp_started, steady None OPERATIONAL 0)"
    using operational_kat(1) by (simp add: run_startup_def ramp_started_def) (simp add: ramp_pipe_def)
  from reach_startup [OF reach_new [OF ramp_pipe_new] this] show ?thesis .
qed

text \<open>C14: Every sample a pipeline releases was tested.  A reachable pipeline releases a sample only
  while operational, the sample is the source's next one, it fits the source's declared width, and
  all samples since the last full battery of at least 1024, this one included, pass both tests of
  the pipeline's claim.\<close>

theorem released_samples_tested:
  assumes "noise_source_laws S" "pipeline_reachable S p" "pipeline_sample S p env = (Inr x, p', env')"
  shows "life p = PipelineOperational \<and> life p' = PipelineOperational \<and>
    src_sample S (source p) env = (Inr x, source p', env') \<and>
    unat x < 2 ^ unat (sample_width_bits (src_spec S (source p))) \<and>
    (\<exists>m ys. monitor_new (claimed_h p) (is_binary (src_spec S (source p))) (pipeline_alpha p) = Inr m \<and>
       1024 \<le> length ys \<and> pipeline_monitor p' = monitor_after m (ys @ [x]) \<and>
       monitor_passes m (ys @ [x]))"
proof -
  obtain m ys where t: "tested S p m ys"
    using noise_source_laws.reachable_tested [OF assms(1,2)] by blast
  note res = noise_source_laws.pipeline_sample_result [OF assms(1) t assms(3), simplified]
  then have next_sample: "src_sample S (source p) env = (Inr x, source p', env')" by (simp add: supplies_simps)
  moreover have "unat x < 2 ^ unat (sample_width_bits (src_spec S (source p)))"
    using noise_source_laws.sample_fits [OF assms(1) next_sample] .
  ultimately show ?thesis using t res
    by (intro conjI exI [of _ m] exI [of _ ys]) (simp_all add: tested_def)
qed

lemma released_samples_tested_witness:
  "src_sample ramp_source (source ramp_started) (steady None OPERATIONAL 0) =
     (Inr 0, 1, steady None OPERATIONAL 0)"
proof -
  let ?e = "steady None OPERATIONAL 0"
  have src: "source ramp_started = 0" by (simp add: ramp_started_def)
  have m: "fresh_monitor two_bits" using monitor_new_Inr(6) [OF ramp_monitor_new] .
  obtain r m' where feed: "monitor_feed (pipeline_monitor ramp_started) 0 = (r, m')" by fastforce
  have "map (\<lambda>i. 0 + of_nat i) [0..<1024] @ [0] = (map (\<lambda>i. 0 + of_nat i) [0..<Suc 1024] :: u8 list)"
    by (subst upt_Suc) (simp del: upt_Suc)
  then have "monitor_passes two_bits (map (\<lambda>i. 0 + of_nat i) [0..<1024] @ [0])"
    using ramp_passes [of "Suc 1024"] by (simp only:)
  then have "r = Inr ()"
    using monitor_accepts(3) [OF m] feed by (auto simp: ramp_started_def)
  then have "pipeline_sample ramp_source ramp_started ?e =
      (Inr 0, ramp_started\<lparr>source := 1, pipeline_monitor := m'\<rparr>, ?e)"
    using feed src by (simp add: pipeline_sample_def ramp_source_def) (simp add: ramp_started_def)
  from released_samples_tested [OF ramp.noise_source_laws_axioms ramp_reached this] show ?thesis by simp
qed

text \<open>C11: A conditioned block is SHA-256 of exactly the health-tested samples drawn for it.  A
  reachable pipeline emits a block only while operational; the block is the digest of
  \<open>samples_per_block\<close> consecutive samples of its source, nothing else, all of which pass both tests
  together with all samples since the last full battery, and whose claimed entropy is at least the
  256 output bits plus 64.\<close>

theorem conditioned_block_correct:
  assumes "noise_source_laws S" "pipeline_reachable S p" "conditioned_block S p env = (Inr out, p', env')"
  shows "life p = PipelineOperational \<and>
    (\<exists>m ys zs env1 env2.
       monitor_new (claimed_h p) (is_binary (src_spec S (source p))) (pipeline_alpha p) = Inr m \<and>
       1024 \<le> length ys \<and> supplies S (source p) env1 zs (source p') env2 \<and>
       monitor_passes m (ys @ zs) \<and> pipeline_monitor p' = monitor_after m (ys @ zs) \<and>
       length zs = unat (samples_per_block (conditioner_of p)) \<and>
       (256 + 64) * 256 \<le> length zs * unat (steps (claimed_h p)) \<and>
       out = sha256_spec zs)"
proof -
  obtain m ys where t: "tested S p m ys"
    using noise_source_laws.reachable_tested [OF assms(1,2)] by blast
  from noise_source_laws.conditioned_block_result [OF assms(1) t assms(3), simplified]
  obtain zs env1 env2 where zs: "life p = PipelineOperational" "life p' = PipelineOperational"
    "length zs = unat (samples_per_block (conditioner_of p))" "tested S p' m (ys @ zs)"
    "supplies S (source p) env1 zs (source p') env2" "out = sha256_spec zs" by blast
  have c: "conditioner_for_claim (claimed_h p) = Some (conditioner_of p)" using t by (simp add: tested_def)
  have nz: "steps (claimed_h p) \<noteq> 0"
    using c by (auto simp: conditioner_for_claim_def Let_def split: if_splits)
  then have s: "0 < unat (steps (claimed_h p))" by (simp add: unat_gt_0)
  have "conditioner_for_claim (claimed_h p) = Some (Conditioner (div_ceil 81920 (steps (claimed_h p))))"
    using nz by (simp add: conditioner_for_claim_def Let_def VETTED_SHA256_NOUT_BITS_def
        FULL_ENTROPY_INPUT_MARGIN_BITS_def H_STEPS_PER_BIT_def)
  with c have "samples_per_block (conditioner_of p) = div_ceil 81920 (steps (claimed_h p))"
    by (metis conditioner.sel option.sel)
  then have "length zs = (81920 + unat (steps (claimed_h p)) - 1) div unat (steps (claimed_h p))"
    using zs(3) unat_div_ceil [OF nz, of 81920] by simp
  then have "(256 + 64) * 256 \<le> length zs * unat (steps (claimed_h p))"
    using ceil_times_ge [OF s, of 81920] by simp
  with t zs show ?thesis
    by (intro conjI exI [of _ m] exI [of _ ys] exI [of _ zs] exI [of _ env1] exI [of _ env2])
      (simp_all add: tested_def)
qed

lemma conditioned_block_correct_witness:
  "\<exists>m ys zs env1 env2.
     monitor_new (claimed_h ramp_started) (is_binary (src_spec ramp_source (source ramp_started)))
       (pipeline_alpha ramp_started) = Inr m \<and>
     1024 \<le> length ys \<and> monitor_passes m (ys @ zs) \<and> length zs = 160 \<and>
     supplies ramp_source (source ramp_started) env1 zs 160 env2 \<and>
     sha256_spec (map (\<lambda>i. 0 + of_nat i) [0..<160]) = sha256_spec zs"
proof -
  let ?e = "steady None OPERATIONAL 0" and ?zs = "map (\<lambda>i. 0 + of_nat i) [0..<160] :: u8 list"
    and ?ys = "map (\<lambda>i. 0 + of_nat i) [0..<1024] :: u8 list"
  have src: "source ramp_started = 0" by (simp add: ramp_started_def)
  have spb: "unat (samples_per_block (conditioner_of ramp_started)) = 160"
    by (simp add: ramp_started_def ramp_pipe_def)
  have m: "fresh_monitor two_bits" using monitor_new_Inr(6) [OF ramp_monitor_new] .
  have "map (\<lambda>i. 0 + of_nat i) [1024..<1024 + 160] = ?zs"
  proof -
    have "[1024..<1024 + 160] = map (\<lambda>i. i + 1024) [0..<160]" by (simp add: map_add_upt)
    then show ?thesis by (simp only: map_map) (simp add: comp_def)
  qed
  then have "?ys @ ?zs = map (\<lambda>i. 0 + of_nat i) [0..<1024 + 160]"
    unfolding upt_add_eq_append [OF le0] map_append by simp
  then have ok: "monitor_passes two_bits (?ys @ ?zs)" using ramp_passes [of "1024 + 160"] by (simp only:)
  have sup: "supplies ramp_source (source ramp_started) ?e ?zs (0 + of_nat 160) ?e"
    unfolding src by (rule ramp_supplies)
  obtain p' where loop: "block_loop ramp_source (samples_per_block (conditioner_of ramp_started)) 0
      sha256_new_unguarded ramp_started ?e =
      (Inr (foldl sha256_update sha256_new_unguarded (map (\<lambda>z. [z]) ?zs)), p', ?e)"
      "source p' = 0 + of_nat 160"
    using block_loop_passes [OF m _ _ sup _ ok, where n = "samples_per_block (conditioner_of ramp_started)"
        and drawn = 0 and h = sha256_new_unguarded] spb
    by (auto simp: ramp_started_def)
  have "concat (map (\<lambda>z. [z]) xs) = xs" for xs :: "u8 list" by (induction xs) simp_all
  then have "sha256_finalize_unchecked (foldl sha256_update sha256_new_unguarded (map (\<lambda>z. [z]) ?zs)) =
      sha256_spec ?zs"
    using sha256_h.streamed [of "map (\<lambda>z. [z]) ?zs"] by (simp only:)
  moreover have "life ramp_started = PipelineOperational" by (simp add: ramp_started_def)
  ultimately have "conditioned_block ramp_source ramp_started ?e = (Inr (sha256_spec ?zs), p', ?e)"
    using loop(1) by (simp add: conditioned_block_def operational_kat)
  from conditioned_block_correct [OF ramp.noise_source_laws_axioms ramp_reached this]
  obtain m ys zs env1 env2 where "1024 \<le> length ys" "monitor_passes m (ys @ zs)"
    "monitor_new (claimed_h ramp_started) (is_binary (src_spec ramp_source (source ramp_started)))
       (pipeline_alpha ramp_started) = Inr m"
    "supplies ramp_source (source ramp_started) env1 zs (source p') env2"
    "length zs = unat (samples_per_block (conditioner_of ramp_started))"
    "sha256_spec ?zs = sha256_spec zs" by blast
  then show ?thesis
    using loop(2) spb
    by (intro exI [of _ m] exI [of _ ys] exI [of _ zs] exI [of _ env1] exI [of _ env2]) simp
qed

inductive pipeline_call :: "'s noise_source \<Rightarrow> 's pipeline \<Rightarrow> entropy_error option \<Rightarrow> 's pipeline \<Rightarrow> bool"
  for S p where
  call_startup: "run_startup S p env = (r, p', env') \<Longrightarrow>
    pipeline_call S p (case r of Inl e \<Rightarrow> Some e | Inr _ \<Rightarrow> None) p'"
| call_on_demand: "on_demand_test S p env = (r, p', env') \<Longrightarrow>
    pipeline_call S p (case r of Inl e \<Rightarrow> Some e | Inr _ \<Rightarrow> None) p'"
| call_sample: "pipeline_sample S p env = (x, p', env') \<Longrightarrow>
    pipeline_call S p (case x of Inl e \<Rightarrow> Some e | Inr _ \<Rightarrow> None) p'"
| call_block: "conditioned_block S p env = (b, p', env') \<Longrightarrow>
    pipeline_call S p (case b of Inl e \<Rightarrow> Some e | Inr _ \<Rightarrow> None) p'"

lemma sample_error: "pipeline_sample S p env = (Inl e, p', env') \<Longrightarrow> e \<noteq> ConditionerKat"
  by (auto simp: pipeline_sample_def split: if_splits prod.splits sum.splits)

lemma block_loop_error: "block_loop S n drawn h p env = (Inl e, p', env') \<Longrightarrow> e \<noteq> ConditionerKat"
proof (induction S n drawn h p env rule: block_loop.induct)
  case (1 S n drawn h p env)
  obtain q p1 env1 where s1: "pipeline_sample S p env = (q, p1, env1)" by (metis prod_cases3)
  from 1(2) have d: "drawn < n" by (auto simp: block_loop.simps [of S n drawn] split: if_splits)
  show ?case
  proof (cases q)
    case (Inl f)
    with 1(2) d s1 sample_error [of S p env f p1 env1] show ?thesis
      by (simp add: block_loop.simps [of S n drawn])
  next
    case (Inr x)
    with 1(2) d s1 have "block_loop S n (sat_add drawn 1) (sha256_update h [x]) p1 env1 = (Inl e, p', env')"
      by (simp add: block_loop.simps [of S n drawn])
    from 1(1) [OF d s1 [symmetric] Inr refl this] show ?thesis by simp
  qed
qed

lemma block_error: "conditioned_block S p env = (Inl e, p', env') \<Longrightarrow> e \<noteq> ConditionerKat"
  by (auto simp: conditioned_block_def dest: block_loop_error split: if_splits prod.splits sum.splits)

lemma battery_error:
  assumes "battery_outcome S m ys k p env (Inl e, p', env')"
  shows "e \<noteq> ConditionerKat"
  using assms by (cases rule: battery_outcomeE) auto

lemma startup_error:
  assumes "noise_source_laws S" "tested S p m ys" "run_startup S p env = (Inl e, p', env')"
  shows "e \<noteq> ConditionerKat"
proof -
  consider (kat) f where "e = EntropyModule f" | (late) "e = NotReady"
    | (battery) env1 p1 env2 where "run_battery S p env1 = (Inl e, p1, env2)"
    using assms(3) startup_kat_good [of env]
    by (auto simp: run_startup_def split: pipeline_state.splits prod.splits sum.splits if_splits)
  then show ?thesis
  proof cases
    case battery
    from noise_source_laws.run_battery_result [OF assms(1,2), of env1] show ?thesis
      unfolding battery by (rule battery_error)
  qed auto
qed

text \<open>C13: The life of a pipeline.  Whatever call is made on a reachable pipeline, it poisons the
  pipeline exactly when a health test fails; a refusal by the module or an error of the source
  never does, and the conditioner's known-answer test cannot fail.  A poisoned pipeline answers
  every call with \<open>NotReady\<close> and stays as it is; the only other change of state is from awaiting
  startup to operational by a startup that returned success.\<close>

theorem pipeline_lifecycle:
  assumes "noise_source_laws S" "pipeline_reachable S p" "pipeline_call S p err p'"
  shows "(life p' = PipelinePoisoned \<longleftrightarrow>
      life p = PipelinePoisoned \<or> (\<exists>h. err = Some (EntropyHealth h))) \<and>
    err \<noteq> Some ConditionerKat \<and>
    (life p = PipelinePoisoned \<longrightarrow> err = Some NotReady \<and> p' = p) \<and>
    (life p' = PipelinePoisoned \<or> life p' = life p \<or>
       life p = AwaitingStartup \<and> life p' = PipelineOperational \<and> err = None)"
proof -
  obtain m ys where t: "tested S p m ys"
    using noise_source_laws.reachable_tested [OF assms(1,2)] by blast
  show ?thesis
    using assms(3)
  proof cases
    case (call_startup env r env')
    with noise_source_laws.run_startup_result [OF assms(1) t call_startup(2)]
      startup_error [OF assms(1) t, of env] show ?thesis
      by (cases r) (auto simp: run_startup_def)
  next
    case (call_on_demand env r env')
    have "r \<noteq> Inl ConditionerKat"
      using call_on_demand(2) noise_source_laws.run_battery_result [OF assms(1) t, of env]
      by (auto simp: on_demand_test_def split: if_splits dest: battery_error)
    with noise_source_laws.on_demand_result [OF assms(1) t call_on_demand(2)] call_on_demand
    show ?thesis by (cases r) (auto simp: on_demand_test_def)
  next
    case (call_sample env x env')
    with noise_source_laws.pipeline_sample_result [OF assms(1) t call_sample(2)] sample_error [of S p env]
    show ?thesis by (cases x) (auto simp: pipeline_sample_def)
  next
    case (call_block env b env')
    with noise_source_laws.conditioned_block_result [OF assms(1) t call_block(2)] block_error [of S p env]
    show ?thesis by (cases b) (auto simp: conditioned_block_def)
  qed
qed

lemma pipeline_lifecycle_witness:
  "(life ramp_pipe = PipelinePoisoned \<longleftrightarrow>
      life ramp_pipe = PipelinePoisoned \<or> (\<exists>h. Some NotReady = Some (EntropyHealth h))) \<and>
   Some NotReady \<noteq> Some ConditionerKat"
proof -
  have "pipeline_sample ramp_source ramp_pipe env = (Inl NotReady, ramp_pipe, env)" for env
    by (simp add: pipeline_sample_def ramp_pipe_def)
  from call_sample [OF this] have "pipeline_call ramp_source ramp_pipe (Some NotReady) ramp_pipe" by simp
  from pipeline_lifecycle [OF ramp.noise_source_laws_axioms reach_new [OF ramp_pipe_new] this]
  show ?thesis by blast
qed

end
