(* ===== verification/Entropy_Jitter.thy ===== *)
theory Entropy_Jitter
  imports Entropy_Timer Entropy_Pipeline
begin

unbundle bit_operations_syntax

text \<open>
  The CPU jitter noise source (\<^verbatim>\<open>src/crates/oxicrypt-entropy/src/jitter.rs\<close>): the
  delta-steered workload, one measurement, the two-stage construction and the sampling loop, and
  the proof that it meets the contract of a noise source.  The configuration's metadata strings
  only describe datasets and are left out; \<open>black_box\<close> is the identity.
\<close>

definition WALK_BUF_LEN :: usize where "WALK_BUF_LEN = 8192"
definition WALK_TOUCHES_BASE :: usize where "WALK_TOUCHES_BASE = 32"
definition WALK_TOUCHES_STEER_MASK :: u64 where "WALK_TOUCHES_STEER_MASK = 0x3F"
definition HASH_LOOPS_STEER_MASK :: u64 where "HASH_LOOPS_STEER_MASK = 0x07"
definition MAX_CONSECUTIVE_BACKWARDS :: u32 where "MAX_CONSECUTIVE_BACKWARDS = 64"

record jitter_source =
  jitter_timer :: timer
  jitter_state :: bytes
  walk :: bytes
  steer :: u64
  jitter_adequacy :: adequacy_report
  bare_adequacy :: adequacy_report
  jitter_config :: adequacy_config

datatype measure_error = MeasureBackwards | Refused error

subsection \<open>The workload\<close>

text \<open>The exclusive-or fold of the last delta, and the work it asks for.\<close>

definition fold_steer :: "u64 \<Rightarrow> u64" where
  "fold_steer s =
     (let s = s XOR drop_bit 32 s;
          s = s XOR drop_bit 16 s
      in s XOR drop_bit 8 s)"

definition hash_loops :: "u64 \<Rightarrow> u64" where
  "hash_loops s = sat_add (fold_steer s AND HASH_LOOPS_STEER_MASK) 1"

definition extra_touches :: "u64 \<Rightarrow> usize" where
  "extra_touches s = unat (drop_bit 3 (fold_steer s) AND WALK_TOUCHES_STEER_MASK)"

definition hash_round :: "bytes \<Rightarrow> bytes \<Rightarrow> bytes" where
  "hash_round buf st =
     sha256_finalize_unchecked
       (sha256_update (sha256_update sha256_new_unguarded st) (take 64 buf))"

text \<open>
  The data-dependent walk; \<open>usize\<close> arithmetic wraps, and an index below the buffer's length stays so.
\<close>

definition walk_index :: "usize \<Rightarrow> usize \<Rightarrow> usize \<Rightarrow> usize" where
  "walk_index factor idx b = ((idx * factor) mod 2 ^ 64 + b) mod 2 ^ 64 mod WALK_BUF_LEN"

definition touch :: "(u8 \<Rightarrow> u8) \<Rightarrow> usize \<Rightarrow> bytes \<Rightarrow> bytes" where
  "touch f idx buf = (if idx < length buf then buf[idx := f (buf ! idx)] else buf)"

fun digest_walk :: "bytes \<Rightarrow> usize \<times> bytes \<Rightarrow> usize \<times> bytes" where
  "digest_walk [] acc = acc"
| "digest_walk (b # bs) (idx, buf) =
     (let idx = walk_index 257 idx (unat b)
      in digest_walk bs (idx, touch (\<lambda>c. word_rotl 1 (c + b)) idx buf))"

fun counter_walk :: "usize list \<Rightarrow> usize \<times> bytes \<Rightarrow> usize \<times> bytes" where
  "counter_walk [] acc = acc"
| "counter_walk (t # ts) (idx, buf) =
     (let idx = walk_index 193 idx t
      in counter_walk ts (idx, touch (\<lambda>c. c + 1) idx buf))"

definition workload :: "jitter_source \<Rightarrow> jitter_source" where
  "workload j =
     (let digest = ((hash_round (walk j)) ^^ unat (hash_loops (steer j))) (jitter_state j);
          touches = WALK_TOUCHES_BASE + extra_touches (steer j);
          (idx, buf) = digest_walk digest (0, walk j);
          (_, buf) = counter_walk [0..<touches] (idx, buf)
      in j\<lparr>jitter_state := digest, walk := buf\<rparr>)"

subsection \<open>Measuring\<close>

definition measure_once ::
  "jitter_source \<Rightarrow> env \<Rightarrow> (measure_error + u64) \<times> jitter_source \<times> env" where
  "measure_once j env =
     (case gate_self_test_started env of
        (Inl e, env) \<Rightarrow> (Inl (Refused e), j, env)
      | (Inr _, env) \<Rightarrow>
          let w = width_bits (jitter_timer j);
              (t0, t) = timer_read (jitter_timer j);
              j = workload (j\<lparr>jitter_timer := t\<rparr>);
              (t1, t) = timer_read (jitter_timer j);
              j = j\<lparr>jitter_timer := t\<rparr>
          in (case wrapping_delta t0 t1 w of
                Inl _ \<Rightarrow> (Inl MeasureBackwards, j, env)
              | Inr delta \<Rightarrow> (Inr delta, j\<lparr>steer := delta\<rparr>, env)))"

function workload_adequacy_loop ::
  "u32 \<Rightarrow> u32 \<Rightarrow> adequacy_acc \<Rightarrow> jitter_source \<Rightarrow> env \<Rightarrow>
     (timer_error + adequacy_acc) \<times> jitter_source \<times> env" where
  "workload_adequacy_loop rounds finished acc j env =
     (if finished < rounds then
        case measure_once j env of
          (Inr delta, j, env) \<Rightarrow>
            workload_adequacy_loop rounds (sat_add finished 1) (acc_record (Inr delta) acc) j env
        | (Inl MeasureBackwards, j, env) \<Rightarrow>
            workload_adequacy_loop rounds (sat_add finished 1) (acc_record (Inl Backwards) acc) j env
        | (Inl (Refused e), j, env) \<Rightarrow> (Inl (TimerModule e), j, env)
      else (Inr acc, j, env))"
  by pat_completeness auto
termination
  by (relation "measure (\<lambda>(rounds, finished, acc, j, env). unat rounds - unat finished)")
    (auto simp: sat_add_1_nat word_less_nat_alt)

declare workload_adequacy_loop.simps [simp del]

definition measure_workload_adequacy ::
  "jitter_source \<Rightarrow> env \<Rightarrow> (timer_error + adequacy_report) \<times> jitter_source \<times> env" where
  "measure_workload_adequacy j env =
     (case workload_adequacy_loop (workload_samples (jitter_config j)) 0 acc_new j env of
        (Inl e, j, env) \<Rightarrow> (Inl e, j, env)
      | (Inr acc, j, env) \<Rightarrow> (Inr (acc_finish acc), j, env))"

definition jitter_new ::
  "timer \<Rightarrow> adequacy_config \<Rightarrow> env \<Rightarrow> (timer_error + jitter_source) \<times> env" where
  "jitter_new t config env =
     (case gate_self_test_started env of
        (Inl e, env) \<Rightarrow> (Inl (TimerModule e), env)
      | (Inr _, env) \<Rightarrow>
          let (bare, t) = measure_adequacy t config
          in case ensure_sound bare config of
               Inl e \<Rightarrow> (Inl e, env)
             | Inr _ \<Rightarrow>
                 let j = \<lparr>jitter_timer = t, jitter_state = replicate 32 0x5C,
                          walk = replicate WALK_BUF_LEN 0xA5, steer = 0,
                          jitter_adequacy = bare, bare_adequacy = bare, jitter_config = config\<rparr>
                 in case measure_workload_adequacy j env of
                      (Inl e, _, env) \<Rightarrow> (Inl e, env)
                    | (Inr rep, j, env) \<Rightarrow>
                        (case ensure_varied rep config of
                           Inl e \<Rightarrow> (Inl e, env)
                         | Inr _ \<Rightarrow> (Inr (j\<lparr>jitter_adequacy := rep\<rparr>), env)))"

subsection \<open>The noise source\<close>

function sample_loop ::
  "u32 \<Rightarrow> jitter_source \<Rightarrow> env \<Rightarrow> (source_error + raw_sample) \<times> jitter_source \<times> env" where
  "sample_loop backwards j env =
     (case measure_once j env of
        (Inr delta, j, env) \<Rightarrow> (Inr (ucast (delta AND 0x0F)), j, env)
      | (Inl (Refused e), j, env) \<Rightarrow> (Inl (SourceModule e), j, env)
      | (Inl MeasureBackwards, j, env) \<Rightarrow>
          let backwards = sat_add backwards 1
          in if backwards \<ge> MAX_CONSECUTIVE_BACKWARDS then (Inl SourceUnavailable, j, env)
             else sample_loop backwards j env)"
  by pat_completeness auto
termination
proof (relation "measure (\<lambda>(backwards, j, env). 64 - unat backwards)", goal_cases)
  case (2 backwards j env)
  then show ?case
    by (auto simp: MAX_CONSECUTIVE_BACKWARDS_def word_le_nat_alt unat_sat_add)
qed simp

declare sample_loop.simps [simp del]

definition jitter_sample ::
  "jitter_source \<Rightarrow> env \<Rightarrow> (source_error + raw_sample) \<times> jitter_source \<times> env" where
  "jitter_sample j env = sample_loop 0 j env"

definition jitter_noise :: "jitter_source noise_source" where
  "jitter_noise =
     \<lparr>src_spec = (\<lambda>_. SourceSpec 4), max_claimable_h = (\<lambda>_. h_from_bits 1), src_sample = jitter_sample\<rparr>"

subsection \<open>One measurement\<close>

lemma workload_fields [simp]:
  "jitter_timer (workload j) = jitter_timer j" "steer (workload j) = steer j"
  "jitter_config (workload j) = jitter_config j" "bare_adequacy (workload j) = bare_adequacy j"
  by (simp_all add: workload_def Let_def split: prod.splits)

text \<open>The two reads of the \<open>i\<close>-th measurement from now.\<close>

definition delta_at :: "timer \<Rightarrow> nat \<Rightarrow> timer_error + u64" where
  "delta_at t i = wrapping_delta (timer_reads t !! (2 * i)) (timer_reads t !! (2 * i + 1)) (width_bits t)"

definition later :: "timer \<Rightarrow> nat \<Rightarrow> timer" where
  "later t k = t\<lparr>timer_reads := sdrop (2 * k) (timer_reads t)\<rparr>"

lemma later_simps [simp]:
  "delta_at (later t k) i = delta_at t (k + i)" "later (later t a) b = later t (a + b)"
  "later t 0 = t" "width_bits (later t k) = width_bits t"
  by (simp_all add: delta_at_def later_def sdrop_snth sdrop_plus add.commute add.left_commute distrib_left)

lemma measure_once_result:
  "case gate_at env 0 of
     Inl e \<Rightarrow> measure_once j env = (Inl (Refused e), j, env_later env 1)
   | Inr _ \<Rightarrow>
      (case delta_at (jitter_timer j) 0 of
         Inl _ \<Rightarrow> \<exists>j'. measure_once j env = (Inl MeasureBackwards, j', env_later env 1) \<and>
           jitter_timer j' = later (jitter_timer j) 1 \<and> steer j' = steer j \<and>
           jitter_config j' = jitter_config j \<and> bare_adequacy j' = bare_adequacy j
       | Inr d \<Rightarrow> \<exists>j'. measure_once j env = (Inr d, j', env_later env 1) \<and>
           jitter_timer j' = later (jitter_timer j) 1 \<and> steer j' = d \<and>
           jitter_config j' = jitter_config j \<and> bare_adequacy j' = bare_adequacy j)"
proof -
  have t: "t\<lparr>timer_reads := stl (stl (timer_reads t))\<rparr> = later t (Suc 0)" for t
    by (simp add: later_def numeral_2_eq_2)
  show ?thesis
    by (auto simp: measure_once_def gate_self_test_started_def gate_at_def env_later_def delta_at_def
        timer_read_def Let_def t [symmetric] split: sum.splits)
qed

lemma wrapping_delta_error: "wrapping_delta prev now w = Inl e \<Longrightarrow> e = Backwards"
  by (auto simp: wrapping_delta_def Let_def split: if_splits)

subsection \<open>Sampling\<close>

text \<open>Nothing was accepted or refused in the first \<open>i\<close> measurements.\<close>

definition stalled :: "env \<Rightarrow> timer \<Rightarrow> nat \<Rightarrow> bool" where
  "stalled env t i \<longleftrightarrow> (\<forall>k < i. gate_at env k = Inr () \<and> delta_at t k = Inl Backwards)"

lemma stalled_later: "stalled env t (Suc i) \<longleftrightarrow>
    gate_at env 0 = Inr () \<and> delta_at t 0 = Inl Backwards \<and> stalled (env_later env 1) (later t 1) i"
  by (auto simp: stalled_def All_less_Suc2)

lemma delta_at_cases: "(\<exists>d. delta_at t i = Inr d) \<or> delta_at t i = Inl Backwards"
  by (cases "delta_at t i") (auto simp: delta_at_def dest: wrapping_delta_error)

lemma sample_loop_stalled:
  assumes "stalled env (jitter_timer j) i" "unat b + i < 64"
  shows "\<exists>j'. sample_loop b j env = sample_loop (b + of_nat i) j' (env_later env i) \<and>
    jitter_timer j' = later (jitter_timer j) i \<and> steer j' = steer j"
  using assms
proof (induction i arbitrary: b j env)
  case 0
  then show ?case by (intro exI [of _ j]) simp
next
  case (Suc i)
  then have here: "gate_at env 0 = Inr ()" "delta_at (jitter_timer j) 0 = Inl Backwards"
    and rest: "stalled (env_later env 1) (later (jitter_timer j) 1) i"
    using stalled_later [of env "jitter_timer j" i] by blast+
  obtain j1 where j1: "measure_once j env = (Inl MeasureBackwards, j1, env_later env 1)"
    "jitter_timer j1 = later (jitter_timer j) 1" "steer j1 = steer j"
    using measure_once_result [where j = j and env = env] here by auto
  have b: "unat (sat_add b 1) = Suc (unat b)" "unat (b + 1) = Suc (unat b)"
    using Suc(3) by (simp_all add: unat_sat_add unat_word_ariths)
  then have b': "sat_add b 1 = b + 1" by (simp add: word_unat_eq_iff)
  have "\<not> sat_add b 1 \<ge> MAX_CONSECUTIVE_BACKWARDS"
    using b Suc(3) by (simp add: MAX_CONSECUTIVE_BACKWARDS_def word_le_nat_alt)
  then have "sample_loop b j env = sample_loop (b + 1) j1 (env_later env 1)"
    using j1(1) b' by (simp add: sample_loop.simps [of b j env] Let_def)
  moreover obtain j' where "sample_loop (b + 1) j1 (env_later env 1) =
      sample_loop (b + 1 + of_nat i) j' (env_later env (Suc i))"
    "jitter_timer j' = later (jitter_timer j) (Suc i)" "steer j' = steer j"
    using Suc(1) [of "env_later env 1" j1 "b + 1"] rest j1 b(2) Suc(3) by auto
  ultimately show ?case by (intro exI [of _ j']) (simp add: add.commute add.left_commute)
qed

lemma jitter_sample_at:
  assumes "stalled env (jitter_timer j) i" "i < 64"
  shows "gate_at env i = Inl e \<Longrightarrow>
      \<exists>j'. jitter_sample j env = (Inl (SourceModule e), j', env_later env (Suc i)) \<and> steer j' = steer j"
    and "gate_at env i = Inr () \<Longrightarrow> delta_at (jitter_timer j) i = Inr d \<Longrightarrow>
      \<exists>j'. jitter_sample j env = (Inr (ucast (d AND 0x0F)), j', env_later env (Suc i)) \<and>
        steer j' = d \<and> jitter_timer j' = later (jitter_timer j) (Suc i)"
    and "i = 63 \<Longrightarrow> gate_at env i = Inr () \<Longrightarrow> delta_at (jitter_timer j) i = Inl Backwards \<Longrightarrow>
      \<exists>j'. jitter_sample j env = (Inl SourceUnavailable, j', env_later env 64) \<and>
        steer j' = steer j \<and> jitter_timer j' = later (jitter_timer j) 64"
proof -
  obtain j' where j': "jitter_sample j env = sample_loop (of_nat i) j' (env_later env i)"
    "jitter_timer j' = later (jitter_timer j) i" "steer j' = steer j"
    using sample_loop_stalled [of env j i 0] assms by (auto simp: jitter_sample_def)
  note m = measure_once_result [where j = j' and env = "env_later env i"]
  note loop = sample_loop.simps [of "of_nat i" j' "env_later env i"]
  show "gate_at env i = Inl e \<Longrightarrow>
      \<exists>j'. jitter_sample j env = (Inl (SourceModule e), j', env_later env (Suc i)) \<and> steer j' = steer j"
    using m j' by (auto simp: loop)
  show "gate_at env i = Inr () \<Longrightarrow> delta_at (jitter_timer j) i = Inr d \<Longrightarrow>
      \<exists>j'. jitter_sample j env = (Inr (ucast (d AND 0x0F)), j', env_later env (Suc i)) \<and>
        steer j' = d \<and> jitter_timer j' = later (jitter_timer j) (Suc i)"
    using m j' by (auto simp: loop)
  have "sat_add (of_nat 63) 1 \<ge> MAX_CONSECUTIVE_BACKWARDS"
    by (simp add: MAX_CONSECUTIVE_BACKWARDS_def word_le_nat_alt unat_sat_add)
  then show "i = 63 \<Longrightarrow> gate_at env i = Inr () \<Longrightarrow> delta_at (jitter_timer j) i = Inl Backwards \<Longrightarrow>
      \<exists>j'. jitter_sample j env = (Inl SourceUnavailable, j', env_later env 64) \<and>
        steer j' = steer j \<and> jitter_timer j' = later (jitter_timer j) 64"
    using m j' by (auto simp: sample_loop.simps [of 63 j' "env_later env 63"] Let_def)
qed

text \<open>Every call ends in one of the three ways.\<close>

lemma stalled_cases:
  obtains (refused) i e where "i < 64" "stalled env t i" "gate_at env i = Inl e"
  | (delta) i d where "i < 64" "stalled env t i" "gate_at env i = Inr ()" "delta_at t i = Inr d"
  | (backwards) "stalled env t 64"
proof (cases "stalled env t 64")
  case False
  define P where "P k \<longleftrightarrow> \<not> (gate_at env k = Inr () \<and> delta_at t k = Inl Backwards)" for k
  define k where "k = (LEAST k. P k)"
  from False obtain k' where k': "k' < 64" "P k'" by (auto simp: stalled_def P_def)
  have "P k" unfolding k_def by (rule LeastI) (rule k'(2))
  have "k \<le> k'" unfolding k_def by (rule Least_le) (rule k'(2))
  have "\<not> P i" if "i < k" for i using that unfolding k_def by (rule not_less_Least)
  then have s: "stalled env t k" by (auto simp: stalled_def P_def)
  have k: "k < 64" "\<not> (gate_at env k = Inr () \<and> delta_at t k = Inl Backwards)"
    using \<open>P k\<close> \<open>k \<le> k'\<close> k'(1) by (simp_all add: P_def)
  show thesis
  proof (cases "gate_at env k")
    case (Inl e)
    with k(1) s show ?thesis by (rule refused)
  next
    case (Inr u)
    with k(2) delta_at_cases [of t k] obtain d where "delta_at t k = Inr d" by auto
    with k(1) s Inr show ?thesis by (intro delta) simp_all
  qed
qed

subsection \<open>The contract of a noise source\<close>

lemma jitter_sample_width: "jitter_sample j env = (Inr x, j', env') \<Longrightarrow> unat x < 16"
proof (cases rule: stalled_cases [of env "jitter_timer j"])
  case (delta i d)
  assume "jitter_sample j env = (Inr x, j', env')"
  then have x: "x = ucast (d AND 0x0F)" using jitter_sample_at(2) [OF delta(2,1,3,4)] by auto
  have "unat x \<le> unat (d AND 0x0F)" by (simp add: x unsigned_ucast_eq)
  also have "\<dots> \<le> 15" using word_and_le1 [of d 15] by (simp add: word_le_nat_alt)
  finally show "unat x < 16" by simp
next
  case (refused i e)
  assume "jitter_sample j env = (Inr x, j', env')"
  then show ?thesis using jitter_sample_at(1) [OF refused(2,1,3)] by auto
next
  case backwards
  assume "jitter_sample j env = (Inr x, j', env')"
  moreover have "stalled env (jitter_timer j) 63" "gate_at env 63 = Inr ()"
    "delta_at (jitter_timer j) 63 = Inl Backwards"
    using backwards by (simp_all add: stalled_def)
  ultimately show ?thesis using jitter_sample_at(3) [of env j 63] by auto
qed

interpretation jitter: noise_source_laws jitter_noise
proof
  show "unat x < 2 ^ unat (sample_width_bits (src_spec jitter_noise s))"
    if "src_sample jitter_noise s env = (Inr x, s', env')" for s env x s' env'
    using that jitter_sample_width [of s env x s' env'] by (simp add: jitter_noise_def)
qed (simp_all add: jitter_noise_def source_spec_new_def)

subsection \<open>Construction\<close>

lemma measured:
  assumes "gate_at env 0 = Inr ()"
  shows "\<exists>r j'. measure_once j env = (r, j', env_later env 1) \<and>
    r = (case delta_at (jitter_timer j) 0 of Inl _ \<Rightarrow> Inl MeasureBackwards | Inr d \<Rightarrow> Inr d) \<and>
    jitter_timer j' = later (jitter_timer j) 1 \<and> jitter_config j' = jitter_config j \<and>
    bare_adequacy j' = bare_adequacy j"
  using measure_once_result [where j = j and env = env] assms
  by (auto split: sum.splits)

lemma workload_adequacy_loop_result:
  assumes "\<forall>i < unat rounds - unat fin. gate_at env i = Inr ()"
  shows "\<exists>j'. workload_adequacy_loop rounds fin acc j env =
      (Inr (fold acc_record (map (delta_at (jitter_timer j)) [0..<unat rounds - unat fin]) acc), j',
       env_later env (unat rounds - unat fin)) \<and>
    jitter_timer j' = later (jitter_timer j) (unat rounds - unat fin) \<and>
    jitter_config j' = jitter_config j \<and> bare_adequacy j' = bare_adequacy j"
  using assms
proof (induction "unat rounds - unat fin" arbitrary: fin acc j env)
  case 0
  then show ?case
    by (simp add: workload_adequacy_loop.simps [of rounds fin] word_less_nat_alt)
next
  case (Suc n)
  then have lt: "fin < rounds" by (simp add: word_less_nat_alt)
  then have n: "n = unat rounds - unat (sat_add fin 1)" using Suc(2) by (simp add: sat_add_1_nat)
  have g0: "gate_at env 0 = Inr ()" and gs: "\<forall>i < unat rounds - unat (sat_add fin 1). gate_at (env_later env 1) i = Inr ()"
    using Suc(3) Suc(2) [symmetric] n by simp_all
  from measured [OF g0, of j] obtain r j1 where j1: "measure_once j env = (r, j1, env_later env 1)"
    "r = (case delta_at (jitter_timer j) 0 of Inl _ \<Rightarrow> Inl MeasureBackwards | Inr d \<Rightarrow> Inr d)"
    "jitter_timer j1 = later (jitter_timer j) 1" "jitter_config j1 = jitter_config j"
    "bare_adequacy j1 = bare_adequacy j" by blast
  have step: "workload_adequacy_loop rounds fin acc j env =
      workload_adequacy_loop rounds (sat_add fin 1) (acc_record (delta_at (jitter_timer j) 0) acc) j1 (env_later env 1)"
    using lt j1(1,2) delta_at_cases [of "jitter_timer j" 0]
    by (auto simp: workload_adequacy_loop.simps [of rounds fin])
  have list: "map (delta_at (jitter_timer j)) [0..<unat rounds - unat fin] =
      delta_at (jitter_timer j) 0 # map (delta_at (jitter_timer j1)) [0..<n]"
    unfolding Suc(2) [symmetric] j1(3)
    by (simp add: upt_conv_Cons map_Suc_upt [symmetric] del: upt_Suc)
  show ?case
    using Suc(1) [OF n gs, of "acc_record (delta_at (jitter_timer j) 0) acc" j1] n j1(3-5) Suc(2) [symmetric]
    unfolding step list by auto
qed

text \<open>The timer after the bare reads, and the workload deltas measured from it.\<close>

definition after_bare :: "timer \<Rightarrow> adequacy_config \<Rightarrow> timer" where
  "after_bare t config = t\<lparr>timer_reads := sdrop (unat (samples config) - 1) (stl (timer_reads t))\<rparr>"

definition workload_deltas :: "timer \<Rightarrow> adequacy_config \<Rightarrow> (timer_error + u64) list" where
  "workload_deltas t config = map (delta_at (after_bare t config)) [0..<unat (workload_samples config)]"

definition bare_reads :: "timer \<Rightarrow> adequacy_config \<Rightarrow> (timer_error + u64) list" where
  "bare_reads t config = bare_deltas (width_bits t) (timer_reads t) (unat (samples config) - 1)"

lemma jitter_new_result:
  assumes "\<And>i. gate_at env i = Inr ()"
  shows "case ensure_sound (report_of (bare_reads t config)) config of
      Inl e \<Rightarrow> fst (jitter_new t config env) = Inl e
    | Inr _ \<Rightarrow>
       (case ensure_varied (report_of (workload_deltas t config)) config of
          Inl e \<Rightarrow> fst (jitter_new t config env) = Inl e
        | Inr _ \<Rightarrow> \<exists>j. fst (jitter_new t config env) = Inr j \<and>
            bare_adequacy j = report_of (bare_reads t config) \<and>
            jitter_adequacy j = report_of (workload_deltas t config) \<and> jitter_config j = config)"
proof -
  have g: "gate_self_test_started env = (Inr (), env_later env 1)"
    using assms [of 0] by (simp add: gate_self_test_started_def gate_at_def env_later_def)
  have later_ok: "\<forall>i < n. gate_at (env_later env 1) i = Inr ()" for n
    using assms by simp
  let ?rep = "report_of (bare_reads t config)"
  let ?j = "\<lparr>jitter_timer = after_bare t config, jitter_state = replicate 32 0x5C,
      walk = replicate WALK_BUF_LEN 0xA5, steer = 0, jitter_adequacy = ?rep, bare_adequacy = ?rep,
      jitter_config = config\<rparr>"
  obtain j' where loop: "workload_adequacy_loop (workload_samples config) 0 acc_new ?j (env_later env 1) =
      (Inr (fold acc_record (workload_deltas t config) acc_new), j',
       env_later env (Suc (unat (workload_samples config))))"
    "jitter_config j' = config" "bare_adequacy j' = ?rep"
    using workload_adequacy_loop_result [where fin = 0 and acc = acc_new and j = ?j and
        rounds = "workload_samples config" and env = "env_later env 1", OF later_ok]
    by (auto simp: workload_deltas_def)
  have bare: "measure_adequacy t config = (?rep, after_bare t config)"
    by (simp add: measure_adequacy_report bare_reads_def after_bare_def)
  have workload: "measure_workload_adequacy ?j (env_later env 1) =
      (Inr (report_of (workload_deltas t config)), j', env_later env (Suc (unat (workload_samples config))))"
    using loop(1) by (simp add: measure_workload_adequacy_def report_of_def)
  show ?thesis
  proof (cases "ensure_sound ?rep config")
    case (Inl e)
    then show ?thesis by (simp add: jitter_new_def g bare)
  next
    case (Inr u)
    then show ?thesis
      using workload loop(2,3)
      by (cases "ensure_varied (report_of (workload_deltas t config)) config")
        (simp_all add: jitter_new_def g bare)
  qed
qed

subsection \<open>Properties\<close>

text \<open>C17: The jitter source always answers, after at most 64 measurements.  While the module admits
  the measurements, the sample is the low four bits of the first delta that did not go backwards,
  and that delta, and no other value, steers the next workload; 64 backwards deltas in a row make
  the source unavailable; the first refusal of the module is returned at once.  These are all the
  cases.\<close>

theorem jitter_sample_exact:
  "(\<exists>i e j'. i < 64 \<and> stalled env (jitter_timer j) i \<and> gate_at env i = Inl e \<and>
      jitter_sample j env = (Inl (SourceModule e), j', env_later env (Suc i)) \<and> steer j' = steer j) \<or>
    (\<exists>i d j'. i < 64 \<and> stalled env (jitter_timer j) i \<and> gate_at env i = Inr () \<and> delta_at (jitter_timer j) i = Inr d \<and>
      jitter_sample j env = (Inr (ucast (d AND 0x0F)), j', env_later env (Suc i)) \<and>
      steer j' = d \<and> jitter_timer j' = later (jitter_timer j) (Suc i)) \<or>
    (\<exists>j'. stalled env (jitter_timer j) 64 \<and> jitter_sample j env = (Inl SourceUnavailable, j', env_later env 64) \<and>
      steer j' = steer j \<and> jitter_timer j' = later (jitter_timer j) 64)"
proof (cases rule: stalled_cases [of env "jitter_timer j"])
  case (refused i e)
  from jitter_sample_at(1) [OF refused(2,1,3)] refused show ?thesis by auto
next
  case (delta i d)
  from jitter_sample_at(2) [OF delta(2,1,3,4)] delta show ?thesis by auto
next
  case backwards
  then have "stalled env (jitter_timer j) 63" "gate_at env 63 = Inr ()"
    "delta_at (jitter_timer j) 63 = Inl Backwards"
    by (simp_all add: stalled_def)
  with jitter_sample_at(3) [of env j 63] backwards show ?thesis by auto
qed

text \<open>C18: A jitter source is constructed only on a timer that proves itself, and no configuration
  accepts a dead one.  With the module admitting the calls, construction succeeds exactly when the
  bare reads never go backwards and stay within the configured share of zero deltas, and the deltas
  across the workload have enough distinct positive values; the latter must be at least two
  whatever is configured, so a timer whose workload deltas are all equal is refused.\<close>

theorem jitter_construction:
  assumes "\<And>i. gate_at env i = Inr ()" "samples config \<noteq> 0"
  shows "((\<exists>j. fst (jitter_new t config env) = Inr j) \<longleftrightarrow>
      Inl Backwards \<notin> set (bare_reads t config) \<and>
      length (filter is_zero (bare_reads t config)) * 1000 \<le>
        length (bare_reads t config) * unat (max_zero_delta_permille config) \<and>
      max 2 (unat (min_distinct_deltas config)) \<le>
        min 16 (card (set (positives (workload_deltas t config))))) \<and>
    (list_all (\<lambda>d. d = hd (workload_deltas t config)) (workload_deltas t config) \<longrightarrow>
      (\<exists>reason r. fst (jitter_new t config env) = Inl (Inadequate reason r)))"
proof -
  let ?ds = "bare_reads t config" and ?ws = "workload_deltas t config"
  have len: "length ?ds < 2 ^ 32 - 1"
    using unsigned_less [of "samples config", where 'a = nat] assms(2)
    by (simp add: bare_reads_def bare_deltas_def unat_gt_0 [symmetric])
  have le: "length (filter is_zero ?ds) \<le> length ?ds" "count_list ?ds (Inl Backwards) \<le> length ?ds"
    by (rule length_filter_le, rule count_le_length)
  have fields: "unat (deltas (report_of ?ds)) = length ?ds"
    "unat (zero_deltas (report_of ?ds)) = length (filter is_zero ?ds)"
    "unat (backwards_violations (report_of ?ds)) = count_list ?ds (Inl Backwards)"
    using le_less_trans [OF le(1) len] le_less_trans [OF le(2) len] len
    by (simp_all add: report_of_fields capped_def min_absorb1 less_imp_le)
  have distinct_w: "unat (distinct_deltas (report_of ?ws)) = min 16 (card (set (positives ?ws)))"
    by (rule report_of_fields(5))
  have cnt: "0 < count_list ?ds (Inl Backwards) \<longleftrightarrow> Inl Backwards \<in> set ?ds"
    using count_list_0_iff [of ?ds "Inl Backwards"] by auto
  note new = jitter_new_result [OF assms(1), of t config, unfolded ensure_adequate_cases fields distinct_w cnt]
  have dead: "card (set (positives ?ws)) \<le> 1" if "list_all (\<lambda>d. d = hd ?ws) ?ws"
  proof -
    from that have "set (positives ?ws) \<subseteq> {case hd ?ws of Inr x \<Rightarrow> x | Inl _ \<Rightarrow> 0}"
      by (auto simp: positives_def list_all_iff split: sum.splits if_splits)
    from card_mono [OF _ this] show ?thesis by simp
  qed
  show ?thesis
    using new dead by (auto simp: not_less max.commute split: if_splits)
qed

lemma jitter_construction_witness:
  "\<exists>reason r. fst (jitter_new \<lparr>timer_reads = sconst 100, width_bits = 64\<rparr>
     (default_adequacy_config\<lparr>samples := 1, workload_samples := 2, min_distinct_deltas := 0\<rparr>)
     (steady None OPERATIONAL 0)) = Inl (Inadequate reason r)"
proof -
  let ?t = "\<lparr>timer_reads = sconst 100, width_bits = 64\<rparr> :: timer"
  let ?c = "default_adequacy_config\<lparr>samples := 1, workload_samples := 2, min_distinct_deltas := 0\<rparr>"
  have ok: "gate_at (steady None OPERATIONAL 0) i = Inr ()" for i
    by (simp add: gate_at_def steady_def require_self_test_started_def)
  have "delta_at (after_bare ?t ?c) i = Inr 0" for i
    by (simp add: delta_at_def after_bare_def wrapping_delta_def sdrop_snth [symmetric])
  then have "list_all (\<lambda>d. d = hd (workload_deltas ?t ?c)) (workload_deltas ?t ?c)"
    by (simp add: workload_deltas_def list_all_iff hd_map)
  then show ?thesis using jitter_construction [OF ok, of ?c ?t] by simp
qed

text \<open>A pipeline over the jitter source never claims more than one bit per sample, whatever was
  called on it, so each of its conditioned blocks absorbs at least 320 samples; its samples fit in
  four bits.\<close>

theorem jitter_pipeline:
  assumes "pipeline_reachable jitter_noise p"
  shows "claimed_h p \<le> h_from_bits 1 \<and> 320 \<le> unat (samples_per_block (conditioner_of p)) \<and>
    (pipeline_sample jitter_noise p env = (Inr x, p', env') \<longrightarrow> unat x < 16) \<and>
    (conditioned_block jitter_noise p env = (Inr out, q', env'') \<longrightarrow>
      (\<exists>zs. 320 \<le> length zs \<and> list_all (\<lambda>z. unat z < 16) zs \<and> out = sha256_spec zs))"
proof -
  obtain m ys where t: "tested jitter_noise p m ys" using jitter.reachable_tested [OF assms] by blast
  have claim: "claimed_h p \<le> h_from_bits 1" using t by (simp add: tested_def jitter_noise_def)
  then have s: "unat (steps (claimed_h p)) \<le> 256"
    by (simp add: less_eq_min_entropy_def h_from_bits_def sat_mul_def H_STEPS_PER_BIT_def word_le_nat_alt)
  have c: "conditioner_for_claim (claimed_h p) = Some (conditioner_of p)" using t by (simp add: tested_def)
  then have nz: "steps (claimed_h p) \<noteq> 0"
    by (auto simp: conditioner_for_claim_def Let_def split: if_splits)
  then have pos: "0 < unat (steps (claimed_h p))" by (simp add: unat_gt_0)
  have "conditioner_for_claim (claimed_h p) = Some (Conditioner (div_ceil 81920 (steps (claimed_h p))))"
    using nz by (simp add: conditioner_for_claim_def Let_def VETTED_SHA256_NOUT_BITS_def
        FULL_ENTROPY_INPUT_MARGIN_BITS_def H_STEPS_PER_BIT_def)
  with c have "samples_per_block (conditioner_of p) = div_ceil 81920 (steps (claimed_h p))"
    by (metis conditioner.sel option.sel)
  then have n: "81920 \<le> unat (samples_per_block (conditioner_of p)) * unat (steps (claimed_h p))"
    using unat_div_ceil [OF nz, of 81920] ceil_times_ge [OF pos, of 81920] by simp
  also have "\<dots> \<le> unat (samples_per_block (conditioner_of p)) * 256" using s by simp
  finally have spb: "320 \<le> unat (samples_per_block (conditioner_of p))" by simp
  have "unat x < 16" if "pipeline_sample jitter_noise p env = (Inr x, p', env')"
    using jitter.pipeline_sample_result [OF t that] jitter.supplies_kept
    by (fastforce simp: supplies_simps jitter_noise_def intro: jitter_sample_width)
  moreover have "\<exists>zs. 320 \<le> length zs \<and> list_all (\<lambda>z. unat z < 16) zs \<and> out = sha256_spec zs"
    if "conditioned_block jitter_noise p env = (Inr out, q', env'')"
  proof -
    from jitter.conditioned_block_result [OF t that, simplified]
    obtain zs env1 env2 where zs: "length zs = unat (samples_per_block (conditioner_of p))"
      "supplies jitter_noise (source p) env1 zs (source q') env2" "out = sha256_spec zs" by blast
    from jitter.supplies_kept [OF zs(2)] have "list_all (\<lambda>z. unat z < 16) zs"
      by (simp add: jitter_noise_def)
    with zs spb show ?thesis by (intro exI [of _ zs]) simp
  qed
  ultimately show ?thesis using claim spb by blast
qed

definition cold_jitter :: jitter_source where
  "cold_jitter = \<lparr>jitter_timer = \<lparr>timer_reads = sconst 0, width_bits = 64\<rparr>,
     jitter_state = replicate 32 0x5C, walk = replicate WALK_BUF_LEN 0xA5, steer = 0,
     jitter_adequacy = report_of [], bare_adequacy = report_of [], jitter_config = default_adequacy_config\<rparr>"

lemma jitter_pipeline_witness:
  "\<exists>p. pipeline_new jitter_noise cold_jitter (h_from_bits 1) alpha_DEFAULT = Inr p \<and> claimed_h p \<le> h_from_bits 1 \<and>
     320 \<le> unat (samples_per_block (conditioner_of p))"
proof -
  have st: "steps (h_from_bits 1) = 256"
    by (simp add: h_from_bits_def sat_mul_def H_STEPS_PER_BIT_def)
  have "apt_cutoff_for (h_from_bits 1) False alpha_DEFAULT = Inr 325"
    by (simp add: apt_cutoff_for_30_wide st alpha_DEFAULT_def)
  then obtain m where "monitor_new (h_from_bits 1) False alpha_DEFAULT = Inr m"
    by (simp add: monitor_new_def rct_new_def apt_new_def st)
  moreover have "h_from_bits 1 \<le> h_from_bits 4"
    by (simp add: less_eq_min_entropy_def h_from_bits_def sat_mul_def H_STEPS_PER_BIT_def)
  ultimately obtain p where p: "pipeline_new jitter_noise cold_jitter (h_from_bits 1) alpha_DEFAULT = Inr p"
    using conditioner_exists [of "h_from_bits 1"] st
    by (auto simp: pipeline_new_def jitter_noise_def is_binary_def not_less Let_def)
  with jitter_pipeline [OF reach_new [OF p]] show ?thesis by blast
qed

end
