(* ===== verification/Actions.thy ===== *)
theory Actions
  imports Gates
begin

text \<open>
  Methods on a mutable instance or buffer: operations on a state that the module can refuse half way,
  the output loop they share, and the runs that pass the internal guard a fixed number of times.
\<close>

subsection \<open>Operations on a state\<close>

text \<open>
  A method taking \<open>&mut self\<close>: it returns a result and leaves a state, also when it fails, since an
  early return keeps what was written before it.
\<close>

type_synonym ('s, 'e, 'a) action = "'s \<Rightarrow> env \<Rightarrow> ('e + 'a) \<times> 's \<times> env"

definition act_ok :: "'a \<Rightarrow> ('s, 'e, 'a) action" where
  "act_ok x s env = (Inr x, s, env)"

definition act_fail :: "'e \<Rightarrow> ('s, 'e, 'a) action" where
  "act_fail e s env = (Inl e, s, env)"

definition act_bind :: "('s, 'e, 'a) action \<Rightarrow> ('a \<Rightarrow> ('s, 'e, 'b) action) \<Rightarrow> ('s, 'e, 'b) action" where
  "act_bind m f s env =
     (case m s env of (Inl e, s', env') \<Rightarrow> (Inl e, s', env') | (Inr x, s', env') \<Rightarrow> f x s' env')"

definition act_gate :: "('e, 'a) gated \<Rightarrow> ('s, 'e, 'a) action" where
  "act_gate m s env = (case m env of (r, env') \<Rightarrow> (r, s, env'))"

definition act_update :: "('s \<Rightarrow> 's) \<Rightarrow> ('s, 'e, unit) action" where
  "act_update f s env = (Inr (), f s, env)"

definition act_get :: "('s \<Rightarrow> ('s, 'e, 'a) action) \<Rightarrow> ('s, 'e, 'a) action" where
  "act_get f s env = f s s env"

definition act_map_err :: "('e \<Rightarrow> 'f) \<Rightarrow> ('s, 'e, 'a) action \<Rightarrow> ('s, 'f, 'a) action" where
  "act_map_err g m s env =
     (case m s env of (Inl e, s', env') \<Rightarrow> (Inl (g e), s', env') | (Inr x, s', env') \<Rightarrow> (Inr x, s', env'))"

lemmas act_simps = act_ok_def act_fail_def act_gate_def act_update_def act_get_def

lemma act_bind_Inr:
  "act_bind m f s env = (Inr y, s'', env'') \<longleftrightarrow>
     (\<exists>x s' env'. m s env = (Inr x, s', env') \<and> f x s' env' = (Inr y, s'', env''))"
  by (auto simp: act_bind_def split: prod.splits sum.splits)

lemma act_bind_Inl:
  "act_bind m f s env = (Inl e, s'', env'') \<longleftrightarrow>
     m s env = (Inl e, s'', env'') \<or>
     (\<exists>x s' env'. m s env = (Inr x, s', env') \<and> f x s' env' = (Inl e, s'', env''))"
  by (auto simp: act_bind_def split: prod.splits sum.splits)

lemma act_bind_simps [simp]:
  "m s env = (Inr x, s', env') \<Longrightarrow> act_bind m f s env = f x s' env'"
  "m s env = (Inl e, s', env') \<Longrightarrow> act_bind m f s env = (Inl e, s', env')"
  by (simp_all add: act_bind_def)

text \<open>An operation on a part of the state: a field, or a slice of one.\<close>

definition act_zoom :: "('s \<Rightarrow> 't) \<Rightarrow> ('t \<Rightarrow> 's \<Rightarrow> 's) \<Rightarrow> ('t, 'e, 'a) action \<Rightarrow> ('s, 'e, 'a) action" where
  "act_zoom get put m s env = (case m (get s) env of (r, t, env') \<Rightarrow> (r, put t s, env'))"

definition act_fst :: "('s, 'e, 'a) action \<Rightarrow> ('s \<times> 't, 'e, 'a) action" where
  "act_fst = act_zoom fst (\<lambda>s st. (s, snd st))"

text \<open>
  The output loop of the generators and of their derivation functions, for blocks of \<open>n\<close> bytes:
  \<open>while produced < out.len()\<close>, the block of one more step is copied as far as it fits.  Every
  mechanism has \<open>0 < n\<close>.
\<close>

function fill_blocks :: "usize \<Rightarrow> ('s, 'e, bytes) action \<Rightarrow> usize \<Rightarrow> ('s \<times> bytes, 'e, unit) action" where
  "fill_blocks n step produced st env =
     (case st of (s, out) \<Rightarrow>
        if n = 0 \<or> length out \<le> produced then (Inr (), (s, out), env)
        else case step s env of
            (Inl e, s', env') \<Rightarrow> (Inl e, (s', out), env')
          | (Inr block, s', env') \<Rightarrow>
              let taken = min n (length out - produced)
              in fill_blocks n step (produced + taken) (s', copy_at out produced (take taken block)) env')"
  by pat_completeness auto
termination
  by (relation "measure (\<lambda>(n, step, produced, st, env). length (snd st) - produced)")
    (auto simp: copy_at_def)

declare fill_blocks.simps [simp del]

subsection \<open>Runs that load the state a fixed number of times\<close>

text \<open>The first of the next \<open>k\<close> loads that the internal guard refuses.\<close>

fun first_refusal :: "env \<Rightarrow> nat \<Rightarrow> (nat \<times> error) option" where
  "first_refusal env 0 = None"
| "first_refusal env (Suc k) =
     (case gate_at env 0 of
        Inl e \<Rightarrow> Some (0, e)
      | Inr _ \<Rightarrow> map_option (\<lambda>(i, e). (Suc i, e)) (first_refusal (env_later env 1) k))"

text \<open>
  \<open>guarded_run g P m s k x s'\<close>: started in \<open>s\<close>, the operation passes the internal guard \<open>k\<close> times,
  returns \<open>x\<close> and leaves \<open>s'\<close>; the first refusal ends it with that error, converted by \<open>g\<close>, in a
  state satisfying \<open>P\<close>.
\<close>

definition guarded_run ::
  "(error \<Rightarrow> 'e) \<Rightarrow> ('s \<Rightarrow> bool) \<Rightarrow> ('s, 'e, 'a) action \<Rightarrow> 's \<Rightarrow> nat \<Rightarrow> 'a \<Rightarrow> 's \<Rightarrow> bool" where
  "guarded_run g P m s k x s' \<longleftrightarrow>
     (\<forall>env. case first_refusal env k of
        None \<Rightarrow> m s env = (Inr x, s', env_later env k)
      | Some (i, e) \<Rightarrow> \<exists>s''. P s'' \<and> m s env = (Inl (g e), s'', env_later env (Suc i)))"

lemma first_refusal_Some:
  "first_refusal env k = Some (i, e) \<longleftrightarrow>
     i < k \<and> gate_at env i = Inl e \<and> (\<forall>j < i. gate_at env j = Inr ())"
proof (induction k arbitrary: env i)
  case (Suc k)
  show ?case
  proof (cases "gate_at env 0")
    case (Inl f)
    then show ?thesis by (cases i) (auto intro: exI [of _ 0])
  next
    case (Inr u)
    then show ?thesis using Suc [of "env_later env 1" "i - 1"]
      by (cases i) (auto simp: All_less_Suc2)
  qed
qed simp

lemma first_refusal_None: "first_refusal env k = None \<longleftrightarrow> (\<forall>i < k. gate_at env i = Inr ())"
proof (induction k arbitrary: env)
  case (Suc k)
  then show ?case by (auto simp: All_less_Suc2 split: sum.splits)
qed simp

lemma first_refusal_add:
  "first_refusal env (k + l) =
     (case first_refusal env k of
        Some r \<Rightarrow> Some r
      | None \<Rightarrow> map_option (\<lambda>(i, e). (k + i, e)) (first_refusal (env_later env k) l))"
proof (induction k arbitrary: env)
  case (Suc k)
  then show ?case
    by (simp add: option.map_comp comp_def split: sum.splits option.splits prod.splits)
      (auto simp: option.map_comp comp_def case_prod_unfold)
qed (simp add: case_prod_unfold option.map_ident)

lemma first_refusal_steady [simp]:
  "require_self_test_started tid w = Inr () \<Longrightarrow> first_refusal (steady tid w p) k = None"
  by (simp add: first_refusal_None)

lemma guarded_run_bind:
  assumes "guarded_run g P m s k x s'" "guarded_run g P (f x) s' l y t"
  shows "guarded_run g P (act_bind m f) s (k + l) y t"
  unfolding guarded_run_def
proof
  fix env
  show "case first_refusal env (k + l) of
      None \<Rightarrow> act_bind m f s env = (Inr y, t, env_later env (k + l))
    | Some (i, e) \<Rightarrow> \<exists>s''. P s'' \<and> act_bind m f s env = (Inl (g e), s'', env_later env (Suc i))"
  proof (cases "first_refusal env k")
    case None
    then have "m s env = (Inr x, s', env_later env k)"
      using assms(1) [unfolded guarded_run_def, rule_format, of env] by simp
    then show ?thesis
      using assms(2) [unfolded guarded_run_def, rule_format, of "env_later env k"] None
      by (auto simp: first_refusal_add split: option.splits)
  next
    case (Some r)
    then obtain i e s'' where "r = (i, e)" "P s''" "m s env = (Inl (g e), s'', env_later env (Suc i))"
      using assms(1) [unfolded guarded_run_def, rule_format, of env] by (cases r) auto
    with Some show ?thesis by (auto simp: first_refusal_add)
  qed
qed

lemma guarded_run_then:
  "guarded_run g P m s k x s' \<Longrightarrow> guarded_run g P n s' l y t \<Longrightarrow>
     guarded_run g P (act_bind m (\<lambda>_. n)) s (k + l) y t"
  by (rule guarded_run_bind)

lemma guarded_run_ok: "guarded_run g P (act_ok x) s 0 x s"
  by (simp add: guarded_run_def act_ok_def)

lemma guarded_run_update: "guarded_run g P (act_update f) s 0 () (f s)"
  by (simp add: guarded_run_def act_update_def)

lemma guarded_runI:
  assumes "\<And>env. first_refusal env k = None \<Longrightarrow> m s env = (Inr x, s', env_later env k)"
    and "\<And>env i e. first_refusal env k = Some (i, e) \<Longrightarrow>
      \<exists>s''. P s'' \<and> m s env = (Inl (g e), s'', env_later env (Suc i))"
  shows "guarded_run g P m s k x s'"
  unfolding guarded_run_def
proof
  fix env
  show "case first_refusal env k of
      None \<Rightarrow> m s env = (Inr x, s', env_later env k)
    | Some (i, e) \<Rightarrow> \<exists>s''. P s'' \<and> m s env = (Inl (g e), s'', env_later env (Suc i))"
    using assms(1) [of env] assms(2) [of env] by (cases "first_refusal env k") auto
qed

lemma guarded_runD:
  assumes "guarded_run g P m s k x s'"
  shows "first_refusal env k = None \<Longrightarrow> m s env = (Inr x, s', env_later env k)"
    and "first_refusal env k = Some (i, e) \<Longrightarrow>
      \<exists>s''. P s'' \<and> m s env = (Inl (g e), s'', env_later env (Suc i))"
  using assms [unfolded guarded_run_def, rule_format, of env] by simp_all

lemma guarded_run_get:
  assumes "guarded_run g P (f s) s k x s'"
  shows "guarded_run g P (act_get f) s k x s'"
  by (rule guarded_runI) (auto simp: act_get_def guarded_runD(1) [OF assms] dest: guarded_runD(2) [OF assms])

lemma guarded_run_map_err:
  assumes "guarded_run g P m s k x s'"
  shows "guarded_run (\<lambda>e. h (g e)) P (act_map_err h m) s k x s'"
  by (rule guarded_runI)
    (auto simp: act_map_err_def guarded_runD(1) [OF assms] dest: guarded_runD(2) [OF assms])

lemma guarded_run_zoom:
  assumes "guarded_run g P m (get s) k x t" "\<And>t. P t \<Longrightarrow> Q (put t s)"
  shows "guarded_run g Q (act_zoom get put m) s k x (put t s)"
  by (rule guarded_runI)
    (auto simp: act_zoom_def guarded_runD(1) [OF assms(1)] assms(2) dest!: guarded_runD(2) [OF assms(1)])

lemma guarded_run_fst:
  assumes "guarded_run g P m s k x s'" "\<And>s''. P s'' \<Longrightarrow> Q (s'', t)"
  shows "guarded_run g Q (act_fst m) (s, t) k x (s', t)"
  using guarded_run_zoom [of g P m fst "(s, t)" k x s' Q "\<lambda>s st. (s, snd st)"] assms
  by (simp add: act_fst_def)

lemma guarded_run_weaken:
  assumes "guarded_run g P m s k x s'" "\<And>s''. P s'' \<Longrightarrow> Q s''"
  shows "guarded_run g Q m s k x s'"
  by (rule guarded_runI)
    (auto simp: guarded_runD(1) [OF assms(1)] assms(2) dest!: guarded_runD(2) [OF assms(1)])

lemma guarded_run_guards:
  "P s \<Longrightarrow> guarded_run id P (act_gate (guards k x)) s k x s"
  unfolding guarded_run_def
proof
  fix env assume P: "P s"
  show "case first_refusal env k of
      None \<Rightarrow> act_gate (guards k x) s env = (Inr x, s, env_later env k)
    | Some (i, e) \<Rightarrow> \<exists>s''. P s'' \<and> act_gate (guards k x) s env = (Inl (id e), s'', env_later env (Suc i))"
  proof (induction k arbitrary: env)
    case (Suc k)
    show ?case
    proof (cases "gate_at env 0")
      case (Inl e)
      with P show ?thesis by (simp add: act_gate_def chain_def gate_self_test_started_at)
    next
      case (Inr u)
      with Suc [of "env_later env 1"] show ?thesis
        by (auto simp: act_gate_def chain_def gate_self_test_started_at split: option.splits prod.splits)
    qed
  qed (simp add: act_gate_def)
qed

lemma guarded_run_guards_update:
  "P s \<Longrightarrow> guarded_run id P (act_bind (act_gate (guards k x)) (\<lambda>y. act_update (f y))) s k () (f x s)"
  using guarded_run_bind [of id P "act_gate (guards k x)" s k x s "\<lambda>y. act_update (f y)" 0 "()" "f x s"]
  by (simp add: guarded_run_guards guarded_run_update)

text \<open>A block function that advances its state after the guarded read.\<close>

lemma guarded_run_guards_block:
  assumes "P s"
  shows "guarded_run id P
    (act_bind (act_gate (guards k x)) (\<lambda>block. act_bind (act_update f) (\<lambda>_. act_ok block))) s k x (f s)"
proof -
  have "guarded_run id P (act_bind (act_update f) (\<lambda>_. act_ok x)) s (0 + 0) x (f s)"
    by (rule guarded_run_then [OF guarded_run_update guarded_run_ok])
  from guarded_run_bind [OF guarded_run_guards [of P s k x, OF assms],
      of "\<lambda>block. act_bind (act_update f) (\<lambda>_. act_ok block)", OF this]
  show ?thesis by simp
qed

text \<open>What a run gives in a module that stays operational, and after a failure.\<close>

lemma guarded_run_steady:
  "guarded_run g P m s k x s' \<Longrightarrow> require_self_test_started tid w = Inr () \<Longrightarrow>
     m s (steady tid w p) = (Inr x, s', steady tid w p)"
  using guarded_runD(1) [of g P m s k x s' "steady tid w p"] by simp

lemma gates_pass:
  assumes "\<forall>i. gate_at env i = Inr ()" "guarded_run g P m s k x s'"
  shows "m s env = (Inr x, s', env_later env k)"
  using guarded_runD(1) [OF assms(2), of env] assms(1) by (simp add: first_refusal_None)

lemma guarded_run_refused:
  assumes "guarded_run g P m s k x s'" "m s env = (Inl e, s'', env')"
  shows "\<exists>i e'. i < k \<and> gate_at env i = Inl e' \<and> e = g e' \<and> P s'' \<and> env' = env_later env (Suc i)"
proof (cases "first_refusal env k")
  case None
  with guarded_runD(1) [OF assms(1) None] assms(2) show ?thesis by simp
next
  case (Some r)
  then obtain i e' where r: "first_refusal env k = Some (i, e')" by (cases r) auto
  then have "i < k \<and> gate_at env i = Inl e'" using first_refusal_Some by blast
  with guarded_runD(2) [OF assms(1) r] assms(2) show ?thesis
    by (intro exI [of _ i] exI [of _ e']) auto
qed

lemma guarded_run_dead:
  assumes "guarded_run g P m s k x s'" "dead env" "0 < k"
  shows "\<exists>e s''. m s env = (Inl (g e), s'', env_later env 1) \<and> P s''"
proof -
  obtain e where "gate_at env 0 = Inl e" using dead_gate_at [OF assms(2)] by blast
  then have "first_refusal env k = Some (0, e)" using assms(3) by (simp add: first_refusal_Some)
  from guarded_runD(2) [OF assms(1) this] show ?thesis by auto
qed

text \<open>The output loop, when its step passes \<open>k\<close> guards.\<close>

definition blocks_for :: "usize \<Rightarrow> usize \<Rightarrow> nat" where
  "blocks_for n len = (len + n - 1) div n"

text \<open>The first \<open>len\<close> bytes of a sequence of \<open>n\<close>-byte blocks.\<close>

definition block_bytes :: "usize \<Rightarrow> (nat \<Rightarrow> bytes) \<Rightarrow> usize \<Rightarrow> bytes" where
  "block_bytes n block len = take len (concat (map block [0..<blocks_for n len]))"

lemma blocks_for_0 [simp]: "0 < n \<Longrightarrow> blocks_for n 0 = 0"
  by (simp add: blocks_for_def)

lemma blocks_for_step:
  assumes "0 < n" "0 < len"
  shows "blocks_for n len = Suc (blocks_for n (len - min n len))"
proof (cases "n < len")
  case True
  then have *: "len + n - 1 = (len - n + n - 1) + n" using assms by simp
  have "(len + n - 1) div n = Suc ((len - n + n - 1) div n)"
    unfolding * using assms by (subst div_add_self2) simp_all
  then show ?thesis using True by (simp add: blocks_for_def)
next
  case False
  then have "(len + n - 1) div n = 1" using assms by (intro div_nat_eqI) simp_all
  then show ?thesis using False assms by (simp add: blocks_for_def)
qed

lemma length_concat_blocks:
  "(\<And>j. length (block j) = n) \<Longrightarrow> length (concat (map block [i..<m])) = n * (m - i)"
proof -
  assume "\<And>j. length (block j) = n"
  then have "length (concat (map block js)) = length js * n" for js by (induction js) simp_all
  then show ?thesis by (simp add: mult.commute)
qed

lemma length_block_bytes:
  assumes "0 < n" "\<And>j. length (block j) = n"
  shows "length (block_bytes n block len) = len"
proof -
  have "len + n - 1 < blocks_for n len * n + n"
    using mod_less_divisor [OF assms(1), of "len + n - 1"] div_mult_mod_eq [of "len + n - 1" n]
    unfolding blocks_for_def by linarith
  then have "len \<le> blocks_for n len * n" using assms(1) by linarith
  then show ?thesis
    using assms(2) by (simp add: block_bytes_def length_concat_blocks mult.commute)
qed

lemma guarded_run_fill_from:
  assumes "0 < n" "\<And>j. guarded_run g P step (st j) k (block j) (st (Suc j))" "\<And>j. length (block j) = n"
    and "\<And>s'' out''. P s'' \<Longrightarrow> length out'' = len \<Longrightarrow> Q (s'', out'')" "length out = len" "produced \<le> len"
  shows "guarded_run g Q (fill_blocks n step produced) (st i, out) (k * blocks_for n (len - produced)) ()
    (st (i + blocks_for n (len - produced)), take produced out @
      take (len - produced) (concat (map block [i..<i + blocks_for n (len - produced)])))"
  using assms(5,6)
proof (induction "len - produced" arbitrary: i out produced rule: less_induct)
  case less
  show ?case
  proof (cases "produced < len")
    case False
    then have "fill_blocks n step produced (st i, out) env = (Inr (), (st i, out), env)" for env
      using less by (subst fill_blocks.simps) simp
    then show ?thesis using False less assms(1) by (simp add: guarded_run_def)
  next
    case True
    define rest where "rest = len - produced"
    define taken where "taken = min n rest"
    define out' where "out' = copy_at out produced (take taken (block i))"
    have rest: "0 < rest" "taken \<le> rest" "0 < taken" "taken \<le> n"
      using True assms(1) by (simp_all add: rest_def taken_def)
    have tb: "length (take taken (block i)) = taken" using assms(3) rest by simp
    then have out': "length out' = len" "take (produced + taken) out' = take produced out @ take taken (block i)"
      using less(2) rest take_copy_at [of produced out "take taken (block i)"] True
      by (simp_all add: out'_def rest_def)
    have left: "len - (produced + taken) = rest - taken" by (simp add: rest_def)
    have bl: "blocks_for n rest = Suc (blocks_for n (rest - taken))"
      using blocks_for_step [OF assms(1) rest(1)] by (simp add: taken_def)
    have fill: "fill_blocks n step produced (st i, out) env =
        (case step (st i) env of
            (Inl e, s', env') \<Rightarrow> (Inl e, (s', out), env')
          | (Inr b, s', env') \<Rightarrow>
              fill_blocks n step (produced + taken) (s', copy_at out produced (take taken b)) env')" for env
      using True less(2) assms(1)
      by (subst fill_blocks.simps) (simp add: Let_def taken_def rest_def split: prod.splits sum.splits)
    have "take rest (concat (map block [i..<Suc (i + blocks_for n (rest - taken))])) =
        take taken (block i) @ take (rest - taken) (concat (map block [Suc i..<Suc (i + blocks_for n (rest - taken))]))"
      using assms(3) [of i] by (simp add: upt_conv_Cons taken_def min_def del: upt_Suc)
    moreover have "len - (produced + taken) < len - produced" using True rest(3) by simp
    note IH = less(1) [OF this out'(1), of "Suc i", unfolded left]
    moreover have "produced + taken \<le> len" using rest by (simp add: rest_def)
    ultimately have run: "guarded_run g Q (fill_blocks n step (produced + taken)) (st (Suc i), out')
        (k * blocks_for n (rest - taken)) ()
        (st (i + blocks_for n rest), take produced out @
          take rest (concat (map block [i..<i + blocks_for n rest])))"
      using out'(2) bl by simp
    have "k * blocks_for n rest = k + k * blocks_for n (rest - taken)" by (simp add: bl)
    moreover have "guarded_run g Q (fill_blocks n step produced) (st i, out)
        (k + k * blocks_for n (rest - taken)) ()
        (st (i + blocks_for n rest), take produced out @
          take rest (concat (map block [i..<i + blocks_for n rest])))"
    proof (rule guarded_runI)
      fix env
      assume "first_refusal env (k + k * blocks_for n (rest - taken)) = None"
      then have "first_refusal env k = None" "first_refusal (env_later env k) (k * blocks_for n (rest - taken)) = None"
        by (auto simp: first_refusal_add split: option.splits)
      from guarded_runD(1) [OF assms(2) this(1)] guarded_runD(1) [OF run this(2)]
      show "fill_blocks n step produced (st i, out) env = (Inr (), (st (i + blocks_for n rest),
          take produced out @ take rest (concat (map block [i..<i + blocks_for n rest]))),
          env_later env (k + k * blocks_for n (rest - taken)))"
        by (simp add: fill out'_def)
    next
      fix env j e
      assume *: "first_refusal env (k + k * blocks_for n (rest - taken)) = Some (j, e)"
      show "\<exists>s''. Q s'' \<and> fill_blocks n step produced (st i, out) env =
          (Inl (g e), s'', env_later env (Suc j))"
      proof (cases "first_refusal env k")
        case None
        then obtain j' where j': "first_refusal (env_later env k) (k * blocks_for n (rest - taken)) = Some (j', e)"
          "j = k + j'" using * by (auto simp: first_refusal_add)
        from guarded_runD(1) [OF assms(2) None] guarded_runD(2) [OF run j'(1)] j'(2)
        show ?thesis by (auto simp: fill out'_def)
      next
        case (Some r)
        then have "first_refusal env k = Some (j, e)" using * by (simp add: first_refusal_add)
        from guarded_runD(2) [OF assms(2) this, of i] obtain s''
          where "P s''" "step (st i) env = (Inl (g e), s'', env_later env (Suc j))" by blast
        then show ?thesis using less(2) assms(4) [of s'' out] by (auto simp: fill)
      qed
    qed
    ultimately show ?thesis by (simp add: rest_def)
  qed
qed

lemma guarded_run_fill:
  assumes "0 < n" "\<And>j. guarded_run g P step (st j) k (block j) (st (Suc j))" "\<And>j. length (block j) = n"
    and "\<And>s'' out''. P s'' \<Longrightarrow> length out'' = length out \<Longrightarrow> Q (s'', out'')"
  shows "guarded_run g Q (fill_blocks n step 0) (st 0, out) (k * blocks_for n (length out)) ()
    (st (blocks_for n (length out)), block_bytes n block (length out))"
  using guarded_run_fill_from [of n g P step st k block "length out" Q out 0 0] assms
  by (simp add: block_bytes_def)

end
