(* ===== verification/Big_Endian.thy ===== *)
theory Big_Endian
  imports Prelude
begin

unbundle bit_operations_syntax

text \<open>
  Big-endian byte strings as numbers, and the byte-wise additions and increments of
  \<^verbatim>\<open>src/crates/oxicrypt-drbg/src/hash.rs\<close> and \<^verbatim>\<open>ctr.rs\<close> on them.
\<close>

subsection \<open>Big-endian integers\<close>

fun be_val :: "bytes \<Rightarrow> nat" where
  "be_val [] = 0"
| "be_val (b # bs) = unat b * 256 ^ length bs + be_val bs"

text \<open>The \<open>n\<close>-byte representation of a number, reduced modulo \<open>2^(8n)\<close>.\<close>

fun be_bytes :: "nat \<Rightarrow> nat \<Rightarrow> bytes" where
  "be_bytes 0 v = []"
| "be_bytes (Suc n) v = be_bytes n (v div 256) @ [word_of_nat v]"

text \<open>\<open>add_into_be\<close>: the bytes the two numbers share, then the carry into the rest.\<close>

definition add_byte :: "bytes \<Rightarrow> bytes \<times> u16 \<Rightarrow> nat \<Rightarrow> bytes \<times> u16" where
  "add_byte src acc i =
     (let (dst, carry) = acc;
          di = length dst - 1 - i;
          si = length src - 1 - i;
          sum = ucast (dst ! di) + ucast (src ! si) + carry
      in (dst[di := ucast (sum AND 0xff)], drop_bit 8 sum))"

fun propagate_carry :: "bytes \<Rightarrow> u16 \<Rightarrow> nat \<Rightarrow> bytes" where
  "propagate_carry dst carry 0 = dst"
| "propagate_carry dst carry (Suc i) =
     (if carry \<noteq> 0 then
        let sum = ucast (dst ! i) + carry
        in propagate_carry (dst[i := ucast (sum AND 0xff)]) (drop_bit 8 sum) i
      else dst)"

definition add_into_be :: "bytes \<Rightarrow> bytes \<Rightarrow> bytes" where
  "add_into_be dst src =
     (let common = min (length dst) (length src);
          (dst', carry) = foldl (add_byte src) (dst, 0) [0..<common]
      in if length dst > length src then propagate_carry dst' carry (length dst - common) else dst')"

text \<open>\<open>increment_be\<close>, and \<open>increment_counter\<close> on 16 bytes, from the last byte up.\<close>

fun increment_from :: "bytes \<Rightarrow> nat \<Rightarrow> bytes" where
  "increment_from buf 0 = buf"
| "increment_from buf (Suc i) =
     (let carry = (buf ! i = 0xff);
          buf = buf[i := buf ! i + 1]
      in if \<not> carry then buf else increment_from buf i)"

definition increment_be :: "bytes \<Rightarrow> bytes" where
  "increment_be buf = increment_from buf (length buf)"

subsection \<open>Their values\<close>

lemma be_val_append: "be_val (xs @ ys) = be_val xs * 256 ^ length ys + be_val ys"
  by (induction xs) (simp_all add: power_add algebra_simps)

lemma be_val_less: "be_val xs < 256 ^ length xs"
proof (induction xs)
  case (Cons x xs)
  have "unat x \<le> 255" using unsigned_less [of x, where 'a = nat] by simp
  then have "unat x * 256 ^ length xs \<le> 255 * 256 ^ length xs" by (rule mult_right_mono) simp
  from add_le_less_mono [OF this Cons] show ?case by simp
qed simp

lemma length_be_bytes [simp]: "length (be_bytes n v) = n"
  by (induction n arbitrary: v) simp_all

lemma be_bytes_val: "be_bytes (length xs) (be_val xs) = xs"
proof (induction xs rule: rev_induct)
  case (snoc x xs)
  have "unat x < 256" using unsigned_less [of x, where 'a = nat] by simp
  moreover have "word_of_nat (be_val xs * 256 + unat x) = x"
  proof -
    have "(256 :: u8) = 0" by simp
    then show ?thesis
      by (simp only: of_nat_add of_nat_mult of_nat_numeral mult_zero_right add_0) simp
  qed
  ultimately show ?case using snoc by (simp add: be_val_append)
qed simp

lemma be_val_bytes: "be_val (be_bytes n v) = v mod 256 ^ n"
proof (induction n arbitrary: v)
  case (Suc n)
  have "unat (word_of_nat v :: u8) = v mod 256" by (simp add: unsigned_of_nat take_bit_eq_mod)
  moreover have "v mod 256 ^ Suc n = 256 * (v div 256 mod 256 ^ n) + v mod 256"
    by (simp add: mod_mult2_eq)
  ultimately show ?case using Suc by (simp add: be_val_append)
qed simp

lemma be_bytes_mod: "be_bytes n (v mod 256 ^ n) = be_bytes n v"
  by (metis be_bytes_val be_val_bytes length_be_bytes)

lemma be_eq_bytes:
  assumes "length xs = n" "be_val xs = v mod 256 ^ n"
  shows "xs = be_bytes n v"
  using assms be_bytes_val [of xs] be_bytes_mod [of n v] by simp

lemma be_val_update:
  assumes "i < length xs"
  shows "be_val (xs[i := x]) + unat (xs ! i) * 256 ^ (length xs - 1 - i) =
    be_val xs + unat x * 256 ^ (length xs - 1 - i)"
  using assms
proof (induction xs arbitrary: i)
  case (Cons y ys)
  show ?case
  proof (cases i)
    case (Suc j)
    with Cons have "j < length ys" by simp
    from Cons(1) [OF this] Suc this show ?thesis by simp
  qed simp
qed simp

text \<open>Splitting a sum of at most two bytes and a carry.\<close>

lemma split_sum:
  fixes s :: u16
  assumes "unat s < 512"
  shows "unat (ucast (s AND 0xff) :: u8) + 256 * unat (drop_bit 8 s) = unat s" "unat (drop_bit 8 s) \<le> 1"
proof -
  have "(s AND 0xff) = take_bit 8 s" by (simp add: take_bit_eq_mask mask_eq_exp_minus_1)
  then have "unat (ucast (s AND 0xff) :: u8) = unat s mod 256"
    by (simp only: unsigned_ucast_eq unsigned_take_bit_eq) (simp add: take_bit_eq_mod)
  moreover have d: "unat (drop_bit 8 s) = unat s div 256"
    by (simp only: unat_drop_bit_eq) (simp add: drop_bit_eq_div)
  ultimately show "unat (ucast (s AND 0xff) :: u8) + 256 * unat (drop_bit 8 s) = unat s" by simp
  show "unat (drop_bit 8 s) \<le> 1" unfolding d using assms by simp
qed

lemma unat_sum3:
  fixes a b :: u8 and c :: u16
  assumes "unat c \<le> 1"
  shows "unat (ucast a + ucast b + c :: u16) = unat a + unat b + unat c"
    "unat (ucast a + c :: u16) = unat a + unat c"
proof -
  have "unat a < 256" "unat b < 256"
    using unsigned_less [of a, where 'a = nat] unsigned_less [of b, where 'a = nat] by simp_all
  moreover have "unat (ucast a :: u16) = unat a" "unat (ucast b :: u16) = unat b"
    using calculation by (simp_all add: unsigned_ucast_eq take_bit_nat_eq_self)
  ultimately show "unat (ucast a + ucast b + c :: u16) = unat a + unat b + unat c"
    "unat (ucast a + c :: u16) = unat a + unat c"
    using assms by (simp_all add: unat_word_ariths)
qed

lemma propagate_carry_val:
  assumes "unat carry \<le> 1" "i \<le> length dst"
  shows "length (propagate_carry dst carry i) = length dst \<and>
    be_val (propagate_carry dst carry i) mod 256 ^ length dst =
      (be_val dst + unat carry * 256 ^ (length dst - i)) mod 256 ^ length dst"
  using assms
proof (induction i arbitrary: dst carry)
  case (Suc i)
  show ?case
  proof (cases "carry = 0")
    case False
    let ?s = "ucast (dst ! i) + carry :: u16"
    have s: "unat ?s = unat (dst ! i) + unat carry" by (rule unat_sum3(2) [OF Suc(2)])
    moreover have "unat (dst ! i) < 256" using unsigned_less [of "dst ! i", where 'a = nat] by simp
    ultimately have "unat ?s < 512" using Suc(2) by simp
    note sp = split_sum [OF this]
    let ?d = "dst[i := ucast (?s AND 0xff)]"
    have i: "i < length dst" using Suc(3) by simp
    then have p: "(256 :: nat) ^ (length dst - i) = 256 * 256 ^ (length dst - 1 - i)"
      by (simp flip: power_Suc)
    have "be_val ?d + unat (dst ! i) * 256 ^ (length dst - 1 - i) =
        be_val dst + unat (ucast (?s AND 0xff) :: u8) * 256 ^ (length dst - 1 - i)"
      by (rule be_val_update [OF i])
    moreover have "unat (ucast (?s AND 0xff) :: u8) * 256 ^ (length dst - 1 - i) +
        unat (drop_bit 8 ?s) * 256 ^ (length dst - i) =
        (unat (dst ! i) + unat carry) * 256 ^ (length dst - 1 - i)"
      unfolding p s [symmetric] sp(1) [symmetric] by (simp add: algebra_simps)
    ultimately have "be_val ?d + unat (drop_bit 8 ?s) * 256 ^ (length dst - i) =
        be_val dst + unat carry * 256 ^ (length dst - Suc i)"
      by (simp add: algebra_simps)
    then have "length (propagate_carry ?d (drop_bit 8 ?s) i) = length dst \<and>
        be_val (propagate_carry ?d (drop_bit 8 ?s) i) mod 256 ^ length dst =
          (be_val dst + unat carry * 256 ^ (length dst - Suc i)) mod 256 ^ length dst"
      using Suc(1) [OF sp(2), of ?d] i by (simp only: length_list_update less_imp_le)
    then show ?thesis using False by (simp only: propagate_carry.simps Let_def if_True not_False_eq_True)
  qed simp
qed simp

lemma add_byte_val:
  assumes "i \<le> min (length dst) (length src)"
  shows "case foldl (add_byte src) (dst, 0) [0..<i] of (dst', carry) \<Rightarrow>
    length dst' = length dst \<and> take (length dst - i) dst' = take (length dst - i) dst \<and>
    unat carry \<le> 1 \<and>
    be_val (drop (length dst - i) dst') + unat carry * 256 ^ i =
      be_val (drop (length dst - i) dst) + be_val (drop (length src - i) src)"
  using assms
proof (induction i)
  case (Suc i)
  obtain d c where d: "foldl (add_byte src) (dst, 0) [0..<i] = (d, c)" by fastforce
  with Suc have IH: "length d = length dst" "take (length dst - i) d = take (length dst - i) dst"
    "unat c \<le> 1" "be_val (drop (length dst - i) d) + unat c * 256 ^ i =
      be_val (drop (length dst - i) dst) + be_val (drop (length src - i) src)" by simp_all
  let ?di = "length dst - 1 - i" and ?si = "length src - 1 - i"
  have lt: "?di < length dst" "?si < length src" "length dst - i = Suc ?di" "length src - i = Suc ?si"
    using Suc(2) by auto
  let ?s = "ucast (d ! ?di) + ucast (src ! ?si) + c :: u16"
  have same: "d ! ?di = dst ! ?di"
    using IH(2) lt(1,3) nth_take [of ?di "Suc ?di" d] nth_take [of ?di "Suc ?di" dst] by simp
  have s: "unat ?s = unat (dst ! ?di) + unat (src ! ?si) + unat c"
    using unat_sum3(1) [OF IH(3)] same by simp
  moreover have "unat (dst ! ?di) < 256" "unat (src ! ?si) < 256"
    using unsigned_less [of "dst ! ?di", where 'a = nat] unsigned_less [of "src ! ?si", where 'a = nat] by simp_all
  ultimately have "unat ?s < 512" using IH(3) by simp
  note sp = split_sum [OF this]
  let ?b = "ucast (?s AND 0xff) :: u8"
  have res: "foldl (add_byte src) (dst, 0) [0..<Suc i] = (d[?di := ?b], drop_bit 8 ?s)"
    using d IH(1) by (simp add: add_byte_def Let_def)
  have "drop ?di (d[?di := ?b]) = ?b # drop (Suc ?di) d"
    using Cons_nth_drop_Suc [of ?di "d[?di := ?b]"] lt(1) IH(1) by simp
  moreover have "drop ?di dst = dst ! ?di # drop (Suc ?di) dst" "drop ?si src = src ! ?si # drop (Suc ?si) src"
    by (rule Cons_nth_drop_Suc [OF lt(1), symmetric], rule Cons_nth_drop_Suc [OF lt(2), symmetric])
  moreover have "length (drop (Suc ?di) d) = i" "length (drop (Suc ?di) dst) = i" "length (drop (Suc ?si) src) = i"
    using Suc(2) IH(1) by simp_all
  ultimately have vals: "be_val (drop ?di (d[?di := ?b])) = unat ?b * 256 ^ i + be_val (drop (Suc ?di) d)"
    "be_val (drop ?di dst) = unat (dst ! ?di) * 256 ^ i + be_val (drop (Suc ?di) dst)"
    "be_val (drop ?si src) = unat (src ! ?si) * 256 ^ i + be_val (drop (Suc ?si) src)"
    by simp_all
  have "unat ?b * 256 ^ i + unat (drop_bit 8 ?s) * 256 ^ Suc i =
      (unat (dst ! ?di) + unat (src ! ?si) + unat c) * 256 ^ i"
    unfolding s [symmetric] sp(1) [symmetric] by (simp add: algebra_simps)
  then have "be_val (drop ?di (d[?di := ?b])) + unat (drop_bit 8 ?s) * 256 ^ Suc i =
      be_val (drop ?di dst) + be_val (drop ?si src)"
    using IH(4) unfolding vals lt(3,4) by (simp add: algebra_simps)
  moreover have "take ?di (d[?di := ?b]) = take ?di dst"
    using arg_cong [OF IH(2) [unfolded lt(3)], of "take ?di"] by simp
  ultimately show ?case
    unfolding res using IH(1) sp(2) by simp
qed simp

text \<open>\<open>add_into_be\<close> adds modulo \<open>2^(8 n)\<close>, whichever of the two numbers is longer.\<close>

lemma add_into_be_eq: "add_into_be dst src = be_bytes (length dst) (be_val dst + be_val src)"
proof -
  let ?c = "min (length dst) (length src)"
  obtain d c where d: "foldl (add_byte src) (dst, 0) [0..<?c] = (d, c)" by fastforce
  from add_byte_val [of ?c dst src, unfolded d]
  have a: "length d = length dst" "take (length dst - ?c) d = take (length dst - ?c) dst" "unat c \<le> 1"
    "be_val (drop (length dst - ?c) d) + unat c * 256 ^ ?c =
      be_val (drop (length dst - ?c) dst) + be_val (drop (length src - ?c) src)" by simp_all
  show ?thesis
  proof (cases "length src < length dst")
    case True
    then have c: "?c = length src" by simp
    have "be_val d = be_val (take (length dst - ?c) dst) * 256 ^ ?c + be_val (drop (length dst - ?c) d)"
    proof -
      have "be_val (take (length dst - ?c) d @ drop (length dst - ?c) d) =
          be_val (take (length dst - ?c) dst) * 256 ^ ?c + be_val (drop (length dst - ?c) d)"
        unfolding a(2) be_val_append using a(1) by simp
      then show ?thesis by (simp only: append_take_drop_id)
    qed
    moreover have "be_val dst = be_val (take (length dst - ?c) dst) * 256 ^ ?c + be_val (drop (length dst - ?c) dst)"
      using be_val_append [of "take (length dst - ?c) dst" "drop (length dst - ?c) dst"] by simp
    ultimately have "be_val d + unat c * 256 ^ ?c = be_val dst + be_val src"
      using a(4) c by simp
    then have "be_val (propagate_carry d c (length dst - ?c)) mod 256 ^ length dst =
        (be_val dst + be_val src) mod 256 ^ length dst"
      "length (propagate_carry d c (length dst - ?c)) = length dst"
      using propagate_carry_val [OF a(3), of "length dst - ?c" d] a(1) True by (simp_all add: c)
    then have "propagate_carry d c (length dst - ?c) = be_bytes (length dst) (be_val dst + be_val src)"
      using be_val_less [of "propagate_carry d c (length dst - ?c)"] by (intro be_eq_bytes) simp_all
    then show ?thesis using d True by (simp add: add_into_be_def)
  next
    case False
    then have c: "?c = length dst" by simp
    have src: "be_val src = be_val (take (length src - ?c) src) * 256 ^ ?c + be_val (drop (length src - ?c) src)"
      using be_val_append [of "take (length src - ?c) src" "drop (length src - ?c) src"] by simp
    have "be_val d + unat c * 256 ^ length dst = be_val dst + be_val (drop (length src - ?c) src)"
      using a(4) unfolding c by simp
    then have "(be_val d + unat c * 256 ^ length dst) mod 256 ^ length dst =
        (be_val dst + be_val src) mod 256 ^ length dst"
      unfolding src unfolding c by (simp add: add.left_commute [of "be_val dst"])
    then have "be_val d mod 256 ^ length dst = (be_val dst + be_val src) mod 256 ^ length dst" by simp
    then have "d = be_bytes (length dst) (be_val dst + be_val src)"
      using be_val_less [of d] a(1) by (intro be_eq_bytes) simp_all
    then show ?thesis using d False by (simp add: add_into_be_def)
  qed
qed

lemma increment_from_val:
  assumes "i \<le> length buf"
  shows "length (increment_from buf i) = length buf \<and>
    be_val (increment_from buf i) mod 256 ^ length buf =
      (be_val buf + 256 ^ (length buf - i)) mod 256 ^ length buf"
  using assms
proof (induction i arbitrary: buf)
  case (Suc i)
  then have i: "i < length buf" by simp
  then have p: "(256 :: nat) ^ (length buf - i) = 256 * 256 ^ (length buf - 1 - i)"
    by (simp flip: power_Suc)
  note upd = be_val_update [OF i, of "buf ! i + 1"]
  show ?case
  proof (cases "buf ! i = 0xff")
    case True
    then have "be_val (buf[i := buf ! i + 1]) + 255 * 256 ^ (length buf - 1 - i) = be_val buf"
      using upd by simp
    then have "be_val (buf[i := buf ! i + 1]) + 256 ^ (length buf - i) =
        be_val buf + 256 ^ (length buf - Suc i)"
      unfolding p by simp
    then show ?thesis using Suc(1) [of "buf[i := buf ! i + 1]"] i True by (simp add: Let_def)
  next
    case False
    then have "unat (buf ! i + 1) = Suc (unat (buf ! i))"
      using unsigned_less [of "buf ! i", where 'a = nat]
      by (simp add: unat_word_ariths word_unat_eq_iff)
    then have "be_val (buf[i := buf ! i + 1]) = be_val buf + 256 ^ (length buf - Suc i)"
      using upd by simp
    then show ?thesis using False by (simp add: Let_def)
  qed
qed simp

lemma increment_be_eq: "increment_be buf = be_bytes (length buf) (be_val buf + 1)"
  using increment_from_val [of "length buf" buf] be_val_less [of "increment_be buf"]
  by (intro be_eq_bytes) (simp_all add: increment_be_def)

lemma length_increment_be [simp]: "length (increment_be buf) = length buf"
  by (simp add: increment_be_eq)

lemma length_add_into_be [simp]: "length (add_into_be dst src) = length dst"
  by (simp add: add_into_be_eq)


text \<open>The byte orders of the prelude are the big-endian representations.\<close>

lemma ucast_drop_of_nat:
  "m + 8 \<le> LENGTH('a) \<Longrightarrow> (ucast (drop_bit m (word_of_nat v :: 'a::len word)) :: u8) = word_of_nat (drop_bit m v)"
  by (rule bit_word_eqI) (auto simp: bit_simps)

lemma be_bytes_Suc: "be_bytes (Suc n) v = be_bytes n (drop_bit 8 v) @ [word_of_nat v]"
  by (simp add: drop_bit_eq_div)

lemma be_bytes_4:
  "be_bytes 4 v = map word_of_nat [drop_bit 24 v, drop_bit 16 v, drop_bit 8 v, v]"
proof -
  have "be_bytes (Suc (Suc (Suc (Suc 0)))) v = map word_of_nat [drop_bit 24 v, drop_bit 16 v, drop_bit 8 v, v]"
    by (simp only: be_bytes_Suc be_bytes.simps(1) drop_bit_drop_bit append.simps list.map) simp
  moreover have "(4 :: nat) = Suc (Suc (Suc (Suc 0)))" by simp
  ultimately show ?thesis by (simp only:)
qed

lemma be_bytes_8:
  "be_bytes 8 v = map word_of_nat [drop_bit 56 v, drop_bit 48 v, drop_bit 40 v, drop_bit 32 v,
     drop_bit 24 v, drop_bit 16 v, drop_bit 8 v, v]"
proof -
  have "be_bytes (Suc (Suc (Suc (Suc (Suc (Suc (Suc (Suc 0)))))))) v =
      map word_of_nat [drop_bit 56 v, drop_bit 48 v, drop_bit 40 v, drop_bit 32 v,
        drop_bit 24 v, drop_bit 16 v, drop_bit 8 v, v]"
    by (simp only: be_bytes_Suc be_bytes.simps(1) drop_bit_drop_bit append.simps list.map) simp
  moreover have "(8 :: nat) = Suc (Suc (Suc (Suc (Suc (Suc (Suc (Suc 0)))))))" by simp
  ultimately show ?thesis by (simp only:)
qed

lemma be_of_u32_eq: "be_of_u32 (word_of_nat v) = be_bytes 4 v"
  using ucast_drop_of_nat [where 'a = 32, of 0 v]
  by (simp add: be_of_u32_def be_bytes_4 ucast_drop_of_nat)

lemma be_of_u64_eq: "be_of_u64 (word_of_nat v) = be_bytes 8 v"
  using ucast_drop_of_nat [where 'a = 64, of 0 v]
  by (simp add: be_of_u64_def be_bytes_8 ucast_drop_of_nat)

lemma be_val_u64: "be_val (be_of_u64 w) = unat w"
proof -
  have "be_of_u64 w = be_bytes 8 (unat w)" using be_of_u64_eq [of "unat w"] by simp
  then show ?thesis using unsigned_less [of w, where 'a = nat] by (simp add: be_val_bytes)
qed

end
