(* ===== verification/Drbg_Core.thy ===== *)
theory Drbg_Core
  imports Actions Big_Endian
begin

text \<open>
  What the generators of \<^verbatim>\<open>src/crates/oxicrypt-drbg\<close> share: the error type (\<^verbatim>\<open>ctr.rs\<close>), the slot
  fields, the limits and the length checks.
\<close>

subsection \<open>Errors\<close>

datatype drbg_error =
    Uninstantiated
  | ReseedRequired
  | InputTooLong
  | InvalidSeedLength
  | DrbgEntropyInputTooShort
  | RequestTooLong
  | DrbgModule error

text \<open>\<open>Display\<close>, with the limit of the block-cipher derivation function written in for \<open>MAX_DF_INPUT\<close>.\<close>

fun drbg_error_display :: "u8 \<Rightarrow> drbg_error \<Rightarrow> string" where
  "drbg_error_display p Uninstantiated =
     ''DRBG has not been instantiated; call new() or instantiate() first''"
| "drbg_error_display p ReseedRequired =
     ''DRBG reseed counter has reached the 2^48 limit (SP 800-90A Table 3); call reseed() with fresh entropy before generating more output''"
| "drbg_error_display p InputTooLong =
     ''input exceeds the maximum derivation-function buffer (192 bytes); reduce the combined length of entropy + nonce + personalization''"
| "drbg_error_display p InvalidSeedLength =
     ''seed material length does not match the required seedlen for this DRBG instantiation; check CipherFactory::SEED_LEN for the expected size''"
| "drbg_error_display p DrbgEntropyInputTooShort =
     ''entropy input is shorter than the minimum for the instantiated security strength (SP 800-90A Rev. 1 Tables 2 and 3)''"
| "drbg_error_display p RequestTooLong =
     ''requested output exceeds 2^19 bits (65536 bytes) per call (SP 800-90A Table 3); split into multiple generate() calls''"
| "drbg_error_display p (DrbgModule e) = error_display p e"

text \<open>The security strength in bytes, the lengths it asks for, and the limits of SP 800-90A.\<close>

definition SECURITY_STRENGTH :: usize where "SECURITY_STRENGTH = 32"
definition MIN_ENTROPY_LEN :: usize where "MIN_ENTROPY_LEN = SECURITY_STRENGTH"
definition MIN_NONCE_LEN :: usize where "MIN_NONCE_LEN = SECURITY_STRENGTH div 2"
definition MAX_OUTLEN :: usize where "MAX_OUTLEN = 64"
definition MAX_BITS_PER_REQ :: usize where "MAX_BITS_PER_REQ = 2 ^ 16"
definition RESEED_INTERVAL :: u64 where "RESEED_INTERVAL = push_bit 48 1"

lemma RESEED_INTERVAL_simp: "RESEED_INTERVAL = 2 ^ 48"
  by (simp add: RESEED_INTERVAL_def)

text \<open>\<open>checked_add\<close> of several lengths.\<close>

fun checked_sum :: "usize list \<Rightarrow> usize option" where
  "checked_sum [] = Some 0"
| "checked_sum [n] = Some n"
| "checked_sum (n # m # ns) =
     (case checked_add_usize n m of None \<Rightarrow> None | Some s \<Rightarrow> checked_sum (s # ns))"

lemma checked_sum_eq:
  "checked_sum (n # m # ns) =
     (if n + m + sum_list ns < 2 ^ 64 then Some (n + m + sum_list ns) else None)"
proof (induction ns arbitrary: n m)
  case (Cons k ns)
  show ?case
  proof (cases "n + m < 2 ^ 64")
    case True
    then have "checked_sum (n # m # k # ns) = checked_sum ((n + m) # k # ns)"
      by (subst checked_sum.simps(3)) (simp only: checked_add_usize_def if_True option.case)
    then show ?thesis using Cons [of "n + m" k] by (simp only: sum_list.Cons add.assoc)
  qed (simp add: checked_add_usize_def)
qed (simp add: checked_add_usize_def)

declare checked_sum.simps(3) [simp del]

text \<open>
  The fields every generator has.  The \<open>generate\<close> wrappers overwrite the caller's buffer with zeros
  when the body fails.
\<close>

record drbg_slot =
  reseed_counter :: u64
  instantiated :: bool

definition wiping :: "('s \<times> bytes, 'e, unit) action \<Rightarrow> ('s \<times> bytes, 'e, unit) action" where
  "wiping m st env =
     (case m st env of
        (Inl e, (s, out), env') \<Rightarrow> (Inl e, (s, zeros (length out)), env')
      | (Inr u, st', env') \<Rightarrow> (Inr u, st', env'))"

text \<open>
  The length checks of the generators over a hash: those of instantiate, on entropy, nonce and
  personalization, and those of reseed, on entropy and additional input after \<open>fixed\<close> bytes of the
  working state.
\<close>

definition seed_refusal :: "usize \<Rightarrow> usize \<Rightarrow> usize \<Rightarrow> usize \<Rightarrow> error option" where
  "seed_refusal limit e n p =
     (if e + n + p > limit then Some InvalidInput
      else if e < MIN_ENTROPY_LEN then Some EntropyInputTooShort
      else if n < MIN_NONCE_LEN then Some NonceTooShort
      else None)"

definition reseed_refusal :: "usize \<Rightarrow> usize \<Rightarrow> drbg_slot \<Rightarrow> usize \<Rightarrow> usize \<Rightarrow> drbg_error option" where
  "reseed_refusal limit fixed d e ai =
     (if \<not> instantiated d then Some Uninstantiated
      else if fixed + e + ai > limit then Some InputTooLong
      else if e < MIN_ENTROPY_LEN then Some DrbgEntropyInputTooShort
      else None)"

definition generate_refusal :: "usize \<Rightarrow> usize \<Rightarrow> drbg_slot \<Rightarrow> bytes option \<Rightarrow> usize \<Rightarrow> drbg_error option" where
  "generate_refusal limit fixed d ai n =
     (if \<not> instantiated d then Some Uninstantiated
      else if n > MAX_BITS_PER_REQ then Some RequestTooLong
      else if reseed_counter d > RESEED_INTERVAL then Some ReseedRequired
      else case ai of None \<Rightarrow> None
        | Some input \<Rightarrow> if fixed + length input > limit then Some InputTooLong else None)"

lemma take_copy_at_2:
  assumes "length x + length y \<le> length z"
  shows "take (length x + length y) (copy_at (copy_at z 0 x) (length x) y) = x @ y"
proof -
  have "take (length x) (copy_at z 0 x) = x" using take_copy_at [of 0 z x] by simp
  then show ?thesis using take_copy_at [of "length x" "copy_at z 0 x" y] assms by simp
qed

lemma take_copy_at_3:
  assumes "length x + length y + length w \<le> length z"
  shows "take (length x + length y + length w)
    (copy_at (copy_at (copy_at z 0 x) (length x) y) (length x + length y) w) = x @ y @ w"
proof -
  have "take (length x + length y) (copy_at (copy_at z 0 x) (length x) y) = x @ y"
    using assms by (intro take_copy_at_2) simp
  then show ?thesis
    using take_copy_at [of "length x + length y" "copy_at (copy_at z 0 x) (length x) y" w] assms by simp
qed

lemma guarded_run_wiping:
  assumes "guarded_run g P m st k () (s, out)"
  shows "guarded_run g (\<lambda>(s, out). out = zeros (length out) \<and> (\<exists>out'. length out' = length out \<and> P (s, out')))
    (wiping m) st k () (s, out)"
  by (rule guarded_runI)
    (auto simp: wiping_def guarded_runD(1) [OF assms] split: prod.splits
      dest!: guarded_runD(2) [OF assms])

end
