(* ===== verification/Drbg_Mechanism.thy ===== *)
theory Drbg_Mechanism
  imports Drbg_Core
begin

text \<open>
  What the generators of \<^verbatim>\<open>src/crates/oxicrypt-drbg\<close> have in common for their callers: a run of
  reseed and generate requests on one instance, and the locale \<open>drbg_mechanism\<close>, the contract under
  which the reseed interval is enforced and a refusal by the module is final.
\<close>

subsection \<open>Runs of requests\<close>

datatype drbg_request =
    ReseedRequest bytes bytes
  | GenerateRequest "bytes option" bytes

datatype drbg_reply =
    Failed drbg_error
  | Reseeded
  | Output bytes

fun reply_to :: "(bytes \<Rightarrow> bytes \<Rightarrow> ('s, drbg_error, unit) action) \<Rightarrow>
    (bytes option \<Rightarrow> ('s \<times> bytes, drbg_error, unit) action) \<Rightarrow>
    drbg_request \<Rightarrow> 's \<Rightarrow> env \<Rightarrow> drbg_reply \<times> 's \<times> env" where
  "reply_to res gen (ReseedRequest entropy input) d env =
     (case res entropy input d env of
        (Inl e, d', env') \<Rightarrow> (Failed e, d', env')
      | (Inr _, d', env') \<Rightarrow> (Reseeded, d', env'))"
| "reply_to res gen (GenerateRequest input buf) d env =
     (case gen input (d, buf) env of
        (Inl e, (d', _), env') \<Rightarrow> (Failed e, d', env')
      | (Inr _, (d', out), env') \<Rightarrow> (Output out, d', env'))"

fun serve :: "(bytes \<Rightarrow> bytes \<Rightarrow> ('s, drbg_error, unit) action) \<Rightarrow>
    (bytes option \<Rightarrow> ('s \<times> bytes, drbg_error, unit) action) \<Rightarrow>
    drbg_request list \<Rightarrow> 's \<Rightarrow> env \<Rightarrow> drbg_reply list \<times> 's \<times> env" where
  "serve res gen [] d env = ([], d, env)"
| "serve res gen (r # rs) d env =
     (case reply_to res gen r d env of (x, d', env') \<Rightarrow>
        (case serve res gen rs d' env' of (xs, d'', env'') \<Rightarrow> (x # xs, d'', env'')))"

text \<open>The outputs since the last reseed, given those before the run.\<close>

fun count_output :: "nat \<Rightarrow> drbg_reply \<Rightarrow> nat" where
  "count_output n (Failed e) = n"
| "count_output n Reseeded = 0"
| "count_output n (Output out) = Suc n"

definition outputs_since_seed :: "drbg_reply list \<Rightarrow> nat" where
  "outputs_since_seed replies = foldl count_output 0 replies"

fun is_failed :: "drbg_reply \<Rightarrow> bool" where
  "is_failed (Failed e) = True"
| "is_failed _ = False"

text \<open>A refusal by the module, as opposed to one by the generator's own checks.\<close>

fun module_refused :: "drbg_reply \<Rightarrow> bool" where
  "module_refused (Failed (DrbgModule e)) = True"
| "module_refused _ = False"

text \<open>Every reply after the first refusal by the module is a failure.\<close>

fun refusal_final :: "drbg_reply list \<Rightarrow> bool" where
  "refusal_final [] = True"
| "refusal_final (x # xs) = ((if module_refused x then list_all is_failed xs else True) \<and> refusal_final xs)"

lemma refusal_final_failed: "list_all is_failed xs \<Longrightarrow> refusal_final xs"
  by (induction xs) simp_all

subsection \<open>The contract\<close>

text \<open>
  \<open>check_reseed\<close> and \<open>check_generate\<close> are the refusals a mechanism makes before it computes; past them
  a call passes at least one guard of the module, and is either complete or leaves the slot as it was.
\<close>

locale drbg_mechanism =
  fixes wf :: "'s \<Rightarrow> bool"
    and slot :: "'s \<Rightarrow> drbg_slot"
    and check_reseed :: "drbg_slot \<Rightarrow> bytes \<Rightarrow> bytes \<Rightarrow> drbg_error option"
    and check_generate :: "drbg_slot \<Rightarrow> bytes option \<Rightarrow> usize \<Rightarrow> drbg_error option"
    and reseed :: "bytes \<Rightarrow> bytes \<Rightarrow> ('s, drbg_error, unit) action"
    and generate :: "bytes option \<Rightarrow> ('s \<times> bytes, drbg_error, unit) action"
  assumes check_generate_passed:
      "check_generate s addl n = None \<Longrightarrow> instantiated s \<and> reseed_counter s \<le> RESEED_INTERVAL"
    and check_reseed_passed: "check_reseed s e ai = None \<Longrightarrow> instantiated s"
    and own_refusals: "check_reseed s e ai \<noteq> Some (DrbgModule merr)" "check_generate s addl n \<noteq> Some (DrbgModule merr)"
    and reseed_refused: "check_reseed (slot d) e ai = Some err \<Longrightarrow> reseed e ai d env = (Inl err, d, env)"
    and reseed_run: "check_reseed (slot d) e ai = None \<Longrightarrow> wf d \<Longrightarrow>
      \<exists>k d'. 0 < k \<and> wf d' \<and> slot d' = (slot d)\<lparr>reseed_counter := 1\<rparr> \<and>
        guarded_run DrbgModule (\<lambda>d''. wf d'' \<and> slot d'' = slot d) (reseed e ai) d k () d'"
    and generate_refused: "check_generate (slot d) addl (length out) = Some err \<Longrightarrow>
      generate addl (d, out) env = (Inl err, (d, zeros (length out)), env)"
    and generate_run: "check_generate (slot d) addl (length out) = None \<Longrightarrow> wf d \<Longrightarrow>
      \<exists>k d' out'. 0 < k \<and> wf d' \<and> slot d' = (slot d)\<lparr>reseed_counter := reseed_counter (slot d) + 1\<rparr> \<and>
        length out' = length out \<and>
        guarded_run DrbgModule (\<lambda>(d'', o'). wf d'' \<and> slot d'' = slot d \<and> o' = zeros (length out))
          (generate addl) (d, out) k () (d', out')"
begin

text \<open>One request, in any environment: refused by a check, complete, or refused on the way.\<close>

lemma generate_cases:
  assumes "wf d" "generate addl (d, out) env = (r, (d', out'), env')"
  shows "wf d' \<and> length out' = length out \<and>
    (case r of
       Inl e \<Rightarrow> slot d' = slot d \<and> out' = zeros (length out)
     | Inr _ \<Rightarrow> instantiated (slot d) \<and> reseed_counter (slot d) \<le> RESEED_INTERVAL \<and>
         slot d' = (slot d)\<lparr>reseed_counter := reseed_counter (slot d) + 1\<rparr>)"
proof (cases "check_generate (slot d) addl (length out)")
  case (Some err)
  from generate_refused [OF this, of env] assms show ?thesis by auto
next
  case None
  obtain k d1 out1 where run: "0 < k" "wf d1"
      "slot d1 = (slot d)\<lparr>reseed_counter := reseed_counter (slot d) + 1\<rparr>" "length out1 = length out"
      "guarded_run DrbgModule (\<lambda>(d'', o'). wf d'' \<and> slot d'' = slot d \<and> o' = zeros (length out))
          (generate addl) (d, out) k () (d1, out1)"
    using generate_run [OF None assms(1)] by auto
  show ?thesis
  proof (cases r)
    case (Inl e)
    with guarded_run_refused [OF run(5), of env e "(d', out')" env'] assms(2) show ?thesis by auto
  next
    case (Inr u)
    then have "first_refusal env k = None"
      using guarded_runD(2) [OF run(5), of env] assms(2) by (cases "first_refusal env k") auto
    from guarded_runD(1) [OF run(5) this] assms(2) Inr run check_generate_passed [OF None]
    show ?thesis by auto
  qed
qed

lemma reseed_cases:
  assumes "wf d" "reseed e ai d env = (r, d', env')"
  shows "wf d' \<and> (case r of
       Inl e \<Rightarrow> slot d' = slot d
     | Inr _ \<Rightarrow> instantiated (slot d) \<and> slot d' = (slot d)\<lparr>reseed_counter := 1\<rparr>)"
proof (cases "check_reseed (slot d) e ai")
  case (Some err)
  from reseed_refused [OF this, of env] assms show ?thesis by auto
next
  case None
  obtain k d1 where run: "0 < k" "wf d1" "slot d1 = (slot d)\<lparr>reseed_counter := 1\<rparr>"
      "guarded_run DrbgModule (\<lambda>d''. wf d'' \<and> slot d'' = slot d) (reseed e ai) d k () d1"
    using reseed_run [OF None assms(1)] by auto
  show ?thesis
  proof (cases r)
    case (Inl e)
    with guarded_run_refused [OF run(4), of env e d' env'] assms(2) show ?thesis by auto
  next
    case (Inr u)
    then have "first_refusal env k = None"
      using guarded_runD(2) [OF run(4), of env] assms(2) by (cases "first_refusal env k") auto
    from guarded_runD(1) [OF run(4) this] assms(2) Inr run check_reseed_passed [OF None]
    show ?thesis by auto
  qed
qed

text \<open>The counter is one more than the outputs since the last seeding, and stops at the interval.\<close>

definition counted :: "'s \<Rightarrow> nat \<Rightarrow> bool" where
  "counted d n \<longleftrightarrow> wf d \<and> instantiated (slot d) \<and> unat (reseed_counter (slot d)) = Suc n \<and> n \<le> 2 ^ 48"

lemma counted_reply:
  assumes "counted d n" "reply_to reseed generate r d env = (x, d', env')"
  shows "counted d' (count_output n x)"
proof (cases r)
  case (ReseedRequest e ai)
  obtain q d1 env1 where q: "reseed e ai d env = (q, d1, env1)" by (cases "reseed e ai d env")
  with reseed_cases [of d e ai env q d1 env1] assms ReseedRequest show ?thesis
    by (cases q) (auto simp: counted_def)
next
  case (GenerateRequest addl buf)
  obtain q d1 out1 env1 where q: "generate addl (d, buf) env = (q, (d1, out1), env1)"
    by (cases "generate addl (d, buf) env") auto
  note cases = generate_cases [OF _ q]
  show ?thesis
  proof (cases q)
    case (Inl e)
    with cases assms GenerateRequest q show ?thesis by (auto simp: counted_def)
  next
    case (Inr u)
    then have le: "reseed_counter (slot d) \<le> 2 ^ 48" and d1: "wf d1"
        "slot d1 = (slot d)\<lparr>reseed_counter := reseed_counter (slot d) + 1\<rparr>" "instantiated (slot d)"
      using cases assms(1) by (auto simp: counted_def RESEED_INTERVAL_simp)
    from le have "unat (reseed_counter (slot d)) \<le> unat ((2 :: u64) ^ 48)" by (simp only: word_le_nat_alt)
    then have "Suc n \<le> 2 ^ 48" using assms(1) by (simp add: counted_def)
    moreover have "unat (reseed_counter (slot d) + 1) = Suc (Suc n)"
      using assms(1) calculation by (simp add: counted_def unat_word_ariths)
    ultimately show ?thesis using Inr q d1 assms GenerateRequest by (auto simp: counted_def)
  qed
qed

lemma counted_serve:
  "counted d n \<Longrightarrow> serve reseed generate rs d env = (xs, d', env') \<Longrightarrow> counted d' (foldl count_output n xs)"
proof (induction rs arbitrary: d n env xs)
  case (Cons r rs)
  obtain x d1 env1 where x: "reply_to reseed generate r d env = (x, d1, env1)"
    by (cases "reply_to reseed generate r d env")
  obtain ys d2 env2 where "serve reseed generate rs d1 env1 = (ys, d2, env2)"
    by (cases "serve reseed generate rs d1 env1")
  with Cons x counted_reply [OF Cons(2) x] show ?case by auto
qed simp

lemma interval_enforced:
  assumes "wf d" "instantiated (slot d)" "reseed_counter (slot d) = 1"
  shows "case serve reseed generate rs d env of (replies, d', env') \<Rightarrow>
    unat (reseed_counter (slot d')) = 1 + outputs_since_seed replies \<and> outputs_since_seed replies \<le> 2 ^ 48"
proof -
  obtain xs d' env' where s: "serve reseed generate rs d env = (xs, d', env')"
    by (cases "serve reseed generate rs d env")
  have "counted d 0" using assms by (simp add: counted_def)
  from counted_serve [OF this s] show ?thesis by (simp add: s counted_def outputs_since_seed_def)
qed

text \<open>In a failed module every request fails; in one that was operational the first refusal is final.\<close>

lemma dead_reply:
  assumes "wf d" "dead env" "reply_to reseed generate r d env = (x, d', env')"
  shows "is_failed x \<and> wf d' \<and> dead env'"
proof (cases r)
  case (ReseedRequest e ai)
  obtain q d1 env1 where q: "reseed e ai d env = (q, d1, env1)" by (cases "reseed e ai d env")
  show ?thesis
  proof (cases "check_reseed (slot d) e ai")
    case (Some err)
    from reseed_refused [OF this] assms ReseedRequest show ?thesis by auto
  next
    case None
    from reseed_run [OF this assms(1)] obtain k d1 where k: "0 < k"
      "guarded_run DrbgModule (\<lambda>d''. wf d'' \<and> slot d'' = slot d) (reseed e ai) d k () d1" by auto
    from guarded_run_dead [OF k(2) assms(2) k(1)] obtain e' d2 where
      "reseed e ai d env = (Inl (DrbgModule e'), d2, env_later env 1)" "wf d2" by auto
    with assms(3) ReseedRequest dead_later [OF assms(2), of 1] show ?thesis by auto
  qed
next
  case (GenerateRequest addl buf)
  show ?thesis
  proof (cases "check_generate (slot d) addl (length buf)")
    case (Some err)
    from generate_refused [OF this] assms GenerateRequest show ?thesis by auto
  next
    case None
    from generate_run [OF this assms(1)] obtain k d1 out1 where k: "0 < k"
      "guarded_run DrbgModule (\<lambda>(d'', o'). wf d'' \<and> slot d'' = slot d \<and> o' = zeros (length buf))
          (generate addl) (d, buf) k () (d1, out1)" by auto
    from guarded_run_dead [OF k(2) assms(2) k(1)] obtain e' d2 out2 where
      "generate addl (d, buf) env = (Inl (DrbgModule e'), (d2, out2), env_later env 1)" "wf d2" by auto
    with assms(3) GenerateRequest dead_later [OF assms(2), of 1] show ?thesis by auto
  qed
qed

lemma dead_serve:
  "wf d \<Longrightarrow> dead env \<Longrightarrow> serve reseed generate rs d env = (xs, d', env') \<Longrightarrow> list_all is_failed xs"
proof (induction rs arbitrary: d env xs)
  case (Cons r rs)
  obtain x d1 env1 where x: "reply_to reseed generate r d env = (x, d1, env1)"
    by (cases "reply_to reseed generate r d env")
  obtain ys d2 env2 where "serve reseed generate rs d1 env1 = (ys, d2, env2)"
    by (cases "serve reseed generate rs d1 env1")
  with Cons x dead_reply [OF Cons(2,3) x] show ?case by auto
qed simp


lemma run_live:
  assumes "guarded_run DrbgModule P m s k x t" "live env" "m s env = (r, s', env')"
  shows "(case r of Inl e \<Rightarrow> (\<exists>e'. e = DrbgModule e') \<and> dead env' | Inr _ \<Rightarrow> live env')"
proof (cases r)
  case (Inl e)
  with guarded_run_refused [OF assms(1), of env e s' env'] assms(3) obtain i e' where
    "gate_at env i = Inl e'" "e = DrbgModule e'" "env' = env_later env (Suc i)" by auto
  moreover have "dead (env_later (env_later env i) 1)"
    by (rule dead_later [OF live_refused [OF assms(2) calculation(1)]])
  ultimately show ?thesis using Inl by simp
next
  case (Inr u)
  then have "first_refusal env k = None"
    using guarded_runD(2) [OF assms(1), of env] assms(3) by (cases "first_refusal env k") auto
  from guarded_runD(1) [OF assms(1) this] assms(3) Inr live_later [OF assms(2), of k] show ?thesis by auto
qed

lemma live_reply:
  assumes "wf d" "live env" "reply_to reseed generate r d env = (x, d', env')"
  shows "wf d' \<and> (if module_refused x then dead env' else live env')"
proof (cases r)
  case (ReseedRequest e ai)
  obtain q d1 env1 where q: "reseed e ai d env = (q, d1, env1)" by (cases "reseed e ai d env")
  have wf: "wf d1" using reseed_cases [OF assms(1) q] by simp
  show ?thesis
  proof (cases "check_reseed (slot d) e ai")
    case (Some err)
    then have "module_refused (Failed err) = False" using own_refusals(1) by (cases err) auto
    with reseed_refused [OF Some] assms ReseedRequest show ?thesis by auto
  next
    case None
    from reseed_run [OF this assms(1)] obtain k d2 where
      run: "guarded_run DrbgModule (\<lambda>d''. wf d'' \<and> slot d'' = slot d) (reseed e ai) d k () d2" by auto
    from run_live [OF run assms(2) q] q wf assms(3) ReseedRequest show ?thesis by (cases q) auto
  qed
next
  case (GenerateRequest addl buf)
  obtain q d1 out1 env1 where q: "generate addl (d, buf) env = (q, (d1, out1), env1)"
    by (cases "generate addl (d, buf) env") auto
  have wf: "wf d1" using generate_cases [OF assms(1) q] by simp
  show ?thesis
  proof (cases "check_generate (slot d) addl (length buf)")
    case (Some err)
    then have "module_refused (Failed err) = False" using own_refusals(2) by (cases err) auto
    with generate_refused [OF Some] assms GenerateRequest show ?thesis by auto
  next
    case None
    from generate_run [OF this assms(1)] obtain k d2 out2 where
      run: "guarded_run DrbgModule (\<lambda>(d'', o'). wf d'' \<and> slot d'' = slot d \<and> o' = zeros (length buf))
          (generate addl) (d, buf) k () (d2, out2)" by auto
    from run_live [OF run assms(2) q] q wf assms(3) GenerateRequest show ?thesis by (cases q) auto
  qed
qed

lemma failure_final:
  "wf d \<Longrightarrow> live env \<Longrightarrow> case serve reseed generate rs d env of (replies, d', env') \<Rightarrow> refusal_final replies"
proof (induction rs arbitrary: d env)
  case (Cons r rs)
  obtain x d1 env1 where x: "reply_to reseed generate r d env = (x, d1, env1)"
    by (cases "reply_to reseed generate r d env")
  obtain ys d2 env2 where ys: "serve reseed generate rs d1 env1 = (ys, d2, env2)"
    by (cases "serve reseed generate rs d1 env1")
  have d1: "wf d1 \<and> (if module_refused x then dead env1 else live env1)"
    by (rule live_reply [OF Cons(2,3) x])
  show ?case
  proof (cases "module_refused x")
    case True
    with d1 dead_serve [of d1 env1 rs ys d2 env2] ys have "list_all is_failed ys" by simp
    with True x ys show ?thesis by (simp add: refusal_final_failed)
  next
    case False
    with d1 Cons(1) [of d1 env1] x ys show ?thesis by simp
  qed
qed simp

end

end
