(* ===== verification/Sha1_Hash.thy ===== *)
theory Sha1_Hash
  imports Sha_Stream
begin

unbundle bit_operations_syntax

text \<open>
  SHA-1 (\<^verbatim>\<open>src/crates/oxicrypt-sha/src/sha1.rs\<close>): compression, entry points and power-up test.
\<close>

subsection \<open>Compression\<close>

definition SHA1_H0 :: "u32 list" where
  "SHA1_H0 = [1732584193, 4023233417, 2562383102, 271733878, 3285377520]"

definition sha1_f0 :: "u32 \<Rightarrow> u32 \<Rightarrow> u32 \<Rightarrow> u32" where
  "sha1_f0 b c d = (b AND c) XOR (NOT b AND d)"

definition sha1_f1 :: "u32 \<Rightarrow> u32 \<Rightarrow> u32 \<Rightarrow> u32" where
  "sha1_f1 b c d = b XOR c XOR d"

definition sha1_f2 :: "u32 \<Rightarrow> u32 \<Rightarrow> u32 \<Rightarrow> u32" where
  "sha1_f2 b c d = (b AND c) XOR (b AND d) XOR (c AND d)"

definition sha1_schedule_step :: "nat \<Rightarrow> u32 list \<Rightarrow> u32 list" where
  "sha1_schedule_step i w =
     w @ [word_rotl 1 (w ! (i - 3) XOR w ! (i - 8) XOR w ! (i - 14) XOR w ! (i - 16))]"

definition sha1_schedule :: "bytes \<Rightarrow> u32 list" where
  "sha1_schedule block =
     fold sha1_schedule_step [16..<80]
       (map (\<lambda>i. u32_of_be (block ! (4 * i)) (block ! (4 * i + 1)) (block ! (4 * i + 2)) (block ! (4 * i + 3))) [0..<16])"

type_synonym sha1_vars = "u32 \<times> u32 \<times> u32 \<times> u32 \<times> u32"

text \<open>One round of a twenty-round block with its function and constant.\<close>

fun sha1_round :: "(u32 \<Rightarrow> u32 \<Rightarrow> u32 \<Rightarrow> u32) \<Rightarrow> u32 \<Rightarrow> sha1_vars \<Rightarrow> u32 \<Rightarrow> sha1_vars" where
  "sha1_round fn k (a, b, c, d, e) w =
     (let t = word_rotl 5 a + fn b c d + e + k + w in (t, a, word_rotl 30 b, c, d))"

text \<open>The same with every word evaluated at once, for evaluation in the kernel.\<close>

lemma sha1_step_code [code]:
  "sha1_schedule_step i w =
     w @ [eval_word (word_rotl 1 (w ! (i - 3) XOR w ! (i - 8) XOR w ! (i - 14) XOR w ! (i - 16)))]"
  "sha1_round fn k (a, b, c, d, e) v =
     (eval_word (word_rotl 5 a + fn b c d + e + k + v), a, eval_word (word_rotl 30 b), c, d)"
  by (simp_all add: sha1_schedule_step_def)

fun sha1_rounds :: "sha1_vars \<Rightarrow> u32 list \<Rightarrow> sha1_vars" where
  "sha1_rounds v w =
     foldl (sha1_round sha1_f1 0xca62c1d6)
       (foldl (sha1_round sha1_f2 0x8f1bbcdc)
         (foldl (sha1_round sha1_f1 0x6ed9eba1)
           (foldl (sha1_round sha1_f0 0x5a827999) v (take 20 w))
           (take 20 (drop 20 w)))
         (take 20 (drop 40 w)))
       (take 20 (drop 60 w))"

definition sha1_compress :: "u32 list \<Rightarrow> bytes \<Rightarrow> u32 list" where
  "sha1_compress st block =
     (case sha1_rounds (st ! 0, st ! 1, st ! 2, st ! 3, st ! 4) (sha1_schedule block) of
        (a, b, c, d, e) \<Rightarrow> [st ! 0 + a, st ! 1 + b, st ! 2 + c, st ! 3 + d, st ! 4 + e])"

lemma length_sha1_compress: "length (sha1_compress st block) = 5"
  by (simp add: sha1_compress_def split: prod.splits)

subsection \<open>SHA-1\<close>

definition sha1_new_unguarded :: "u32 hasher" where
  "sha1_new_unguarded = hasher_new 64 SHA1_H0"

definition sha1_new :: "(error, u32 hasher) gated" where
  "sha1_new = chain (gate_service (ShaS Sha1)) (\<lambda>_. ok sha1_new_unguarded)"

definition sha1_new_internal :: "(error, u32 hasher) gated" where
  "sha1_new_internal = chain gate_self_test_started (\<lambda>_. ok sha1_new_unguarded)"

definition sha1_update :: "u32 hasher \<Rightarrow> bytes \<Rightarrow> u32 hasher" where
  "sha1_update = hasher_update 64 sha1_compress"

definition sha1_output :: "u32 list \<Rightarrow> bytes" where
  "sha1_output st = concat (map be_of_u32 st)"

definition sha1_finalize_unchecked :: "u32 hasher \<Rightarrow> bytes" where
  "sha1_finalize_unchecked h = sha1_output (hasher_finalize_state 64 8 sha1_compress h)"

definition sha1_finalize :: "u32 hasher \<Rightarrow> (error, bytes) gated" where
  "sha1_finalize h = chain gate_self_test_started (\<lambda>_. ok (sha1_finalize_unchecked h))"

definition sha1 :: "bytes \<Rightarrow> (error, bytes) gated" where
  "sha1 data = chain sha1_new (\<lambda>h. ok (sha1_finalize_unchecked (sha1_update h data)))"

text \<open>FIPS 180-4, as a function of the whole message.\<close>

definition sha1_spec :: "bytes \<Rightarrow> bytes" where
  "sha1_spec m = sha1_output (md_state 64 8 sha1_compress SHA1_H0 m)"

definition SHA_1_MSG :: bytes where
  "SHA_1_MSG = [0x36]"

definition SHA_1_MD :: bytes where
  "SHA_1_MD =
    [0xc1, 0xdf, 0xd9, 0x6e, 0xea, 0x8c, 0xc2, 0xb6, 0x27, 0x85, 0x27, 0x5b,
     0xca, 0x38, 0xac, 0x26, 0x12, 0x56, 0xe2, 0x78]"

definition sha1_self_test :: "self_test_failure + unit" where
  "sha1_self_test =
     (if sha1_finalize_unchecked (sha1_update sha1_new_unguarded SHA_1_MSG) = SHA_1_MD
      then Inr () else Inl SelfTestFailure)"

subsection \<open>The streaming contract\<close>

interpretation sha1_md: merkle_damgard 64 8 20 5 sha1_compress SHA1_H0 sha1_output
  by unfold_locales (simp_all add: SHA1_H0_def sha1_output_def length_sha1_compress)

interpretation sha1_h: stream_hash 64 20 sha1_new_unguarded sha1_update sha1_finalize_unchecked
  "absorbs 64 sha1_compress SHA1_H0" sha1_spec
  using sha1_md.stream_hash_axioms
  by (simp add: sha1_new_unguarded_def sha1_update_def sha1_finalize_unchecked_def [abs_def] sha1_spec_def [abs_def])

subsection \<open>Power-up test\<close>

lemma sha1_kat: "sha1_self_test = Inr ()"
proof -
  let ?p = "[0x36, 0x80, 0, 0, 0, 0, 0, 0, 0, 0, 0, 0, 0, 0, 0, 0, 0, 0, 0, 0, 0, 0, 0, 0, 0, 0, 0, 0, 0, 0, 0, 0,
     0, 0, 0, 0, 0, 0, 0, 0, 0, 0, 0, 0, 0, 0, 0, 0, 0, 0, 0, 0, 0, 0, 0, 0, 0, 0, 0, 0, 0, 0, 0, 8] :: bytes"
  have p: "md_pad 64 8 SHA_1_MSG = ?p" by code_simp
  have "sha1_output (sha1_compress SHA1_H0 ?p) = SHA_1_MD" by code_simp
  then have "sha1_spec SHA_1_MSG = SHA_1_MD"
    by (simp add: sha1_spec_def md_state_single [OF p])
  then show ?thesis by (simp add: sha1_self_test_def sha1_h.one_shot)
qed

end
