(* ===== verification/Sha512_Hash.thy ===== *)
theory Sha512_Hash
  imports Sha_Stream
begin

unbundle bit_operations_syntax

text \<open>
  SHA-512, SHA-384, SHA-512/224 and SHA-512/256 (\<^verbatim>\<open>src/crates/oxicrypt-sha/src/sha512.rs\<close>,
  \<^verbatim>\<open>sha384.rs\<close> and \<^verbatim>\<open>sha512_t.rs\<close>) over the shared \<open>Sha512State\<close>, with their entry points and
  power-up tests.
\<close>

subsection \<open>Compression\<close>

text \<open>The constant tables are written in decimal.\<close>

definition SHA512_H0 :: "u64 list" where
  "SHA512_H0 =
    [7640891576956012808, 13503953896175478587, 4354685564936845355, 11912009170470909681,
     5840696475078001361, 11170449401992604703, 2270897969802886507, 6620516959819538809]"

definition SHA384_H0 :: "u64 list" where
  "SHA384_H0 =
    [14680500436340154072, 7105036623409894663, 10473403895298186519, 1526699215303891257,
     7436329637833083697, 10282925794625328401, 15784041429090275239, 5167115440072839076]"

definition SHA512_224_H0 :: "u64 list" where
  "SHA512_224_H0 =
    [10105294471447203234, 8350123849800275158, 2160240930085379202, 7466358040605728719,
     1111592415079452072, 8638871050018654530, 4583966954114332360, 1230299281376055969]"

definition SHA512_256_H0 :: "u64 list" where
  "SHA512_256_H0 =
    [2463787394917988140, 11481187982095705282, 2563595384472711505, 10824532655140301501,
     10819967247969091555, 13717434660681038226, 3098927326965381290, 1060366662362279074]"

definition SHA512_K :: "u64 list" where
  "SHA512_K =
    [4794697086780616226, 8158064640168781261, 13096744586834688815, 16840607885511220156,
     4131703408338449720, 6480981068601479193, 10538285296894168987, 12329834152419229976,
     15566598209576043074, 1334009975649890238, 2608012711638119052, 6128411473006802146,
     8268148722764581231, 9286055187155687089, 11230858885718282805, 13951009754708518548,
     16472876342353939154, 17275323862435702243, 1135362057144423861, 2597628984639134821,
     3308224258029322869, 5365058923640841347, 6679025012923562964, 8573033837759648693,
     10970295158949994411, 12119686244451234320, 12683024718118986047, 13788192230050041572,
     14330467153632333762, 15395433587784984357, 489312712824947311, 1452737877330783856,
     2861767655752347644, 3322285676063803686, 5560940570517711597, 5996557281743188959,
     7280758554555802590, 8532644243296465576, 9350256976987008742, 10552545826968843579,
     11727347734174303076, 12113106623233404929, 14000437183269869457, 14369950271660146224,
     15101387698204529176, 15463397548674623760, 17586052441742319658, 1182934255886127544,
     1847814050463011016, 2177327727835720531, 2830643537854262169, 3796741975233480872,
     4115178125766777443, 5681478168544905931, 6601373596472566643, 7507060721942968483,
     8399075790359081724, 8693463985226723168, 9568029438360202098, 10144078919501101548,
     10430055236837252648, 11840083180663258601, 13761210420658862357, 14299343276471374635,
     14566680578165727644, 15097957966210449927, 16922976911328602910, 17689382322260857208,
     500013540394364858, 748580250866718886, 1242879168328830382, 1977374033974150939,
     2944078676154940804, 3659926193048069267, 4368137639120453308, 4836135668995329356,
     5532061633213252278, 6448918945643986474, 6902733635092675308, 7801388544844847127]"

definition sha512_ch :: "u64 \<Rightarrow> u64 \<Rightarrow> u64 \<Rightarrow> u64" where
  "sha512_ch x y z = (x AND y) XOR (NOT x AND z)"

definition sha512_maj :: "u64 \<Rightarrow> u64 \<Rightarrow> u64 \<Rightarrow> u64" where
  "sha512_maj x y z = (x AND y) XOR (x AND z) XOR (y AND z)"

definition sha512_big_sigma0 :: "u64 \<Rightarrow> u64" where
  "sha512_big_sigma0 x = word_rotr 28 x XOR word_rotr 34 x XOR word_rotr 39 x"

definition sha512_big_sigma1 :: "u64 \<Rightarrow> u64" where
  "sha512_big_sigma1 x = word_rotr 14 x XOR word_rotr 18 x XOR word_rotr 41 x"

definition sha512_small_sigma0 :: "u64 \<Rightarrow> u64" where
  "sha512_small_sigma0 x = word_rotr 1 x XOR word_rotr 8 x XOR drop_bit 7 x"

definition sha512_small_sigma1 :: "u64 \<Rightarrow> u64" where
  "sha512_small_sigma1 x = word_rotr 19 x XOR word_rotr 61 x XOR drop_bit 6 x"

text \<open>The message schedule: sixteen words of the block, then the recurrence.\<close>

definition sha512_schedule_step :: "nat \<Rightarrow> u64 list \<Rightarrow> u64 list" where
  "sha512_schedule_step i w =
     w @ [sha512_small_sigma1 (w ! (i - 2)) + w ! (i - 7) + sha512_small_sigma0 (w ! (i - 15)) + w ! (i - 16)]"

definition sha512_schedule :: "bytes \<Rightarrow> u64 list" where
  "sha512_schedule block =
     fold sha512_schedule_step [16..<80]
       (map (\<lambda>i. u64_of_be (block ! (8 * i)) (block ! (8 * i + 1)) (block ! (8 * i + 2)) (block ! (8 * i + 3))
               (block ! (8 * i + 4)) (block ! (8 * i + 5)) (block ! (8 * i + 6)) (block ! (8 * i + 7))) [0..<16])"

type_synonym sha512_vars = "u64 \<times> u64 \<times> u64 \<times> u64 \<times> u64 \<times> u64 \<times> u64 \<times> u64"

fun sha512_round :: "sha512_vars \<Rightarrow> u64 \<times> u64 \<Rightarrow> sha512_vars" where
  "sha512_round (a, b, c, d, e, f, g, h) (k, w) =
     (let t1 = h + sha512_big_sigma1 e + sha512_ch e f g + k + w;
          t2 = sha512_big_sigma0 a + sha512_maj a b c
      in (t1 + t2, a, b, c, d + t1, e, f, g))"

text \<open>The same with every word evaluated once, for evaluation in the kernel.\<close>

definition sha512_shift :: "sha512_vars \<Rightarrow> u64 \<Rightarrow> u64 \<Rightarrow> sha512_vars" where
  "sha512_shift v t1 t2 =
     (case v of (a, b, c, d, e, f, g, h) \<Rightarrow> (eval_word (t1 + t2), a, b, c, eval_word (d + t1), e, f, g))"

lemma sha512_step_code [code]:
  "sha512_schedule_step i w =
     w @ [eval_word (sha512_small_sigma1 (w ! (i - 2)) + w ! (i - 7) + sha512_small_sigma0 (w ! (i - 15)) + w ! (i - 16))]"
  "sha512_round (a, b, c, d, e, f, g, h) (k, v) =
     sha512_shift (a, b, c, d, e, f, g, h) (eval_word (h + sha512_big_sigma1 e + sha512_ch e f g + k + v))
       (eval_word (sha512_big_sigma0 a + sha512_maj a b c))"
  by (simp_all add: sha512_schedule_step_def sha512_shift_def Let_def)

definition compress512 :: "u64 list \<Rightarrow> bytes \<Rightarrow> u64 list" where
  "compress512 st block =
     (case foldl sha512_round (st ! 0, st ! 1, st ! 2, st ! 3, st ! 4, st ! 5, st ! 6, st ! 7)
             (zip SHA512_K (sha512_schedule block)) of
        (a, b, c, d, e, f, g, h) \<Rightarrow>
          [st ! 0 + a, st ! 1 + b, st ! 2 + c, st ! 3 + d, st ! 4 + e, st ! 5 + f, st ! 6 + g, st ! 7 + h])"

lemma length_compress512: "length (compress512 st block) = 8"
  by (simp add: compress512_def split: prod.splits)

subsection \<open>SHA-512\<close>

definition sha512_new_unguarded :: "u64 hasher" where
  "sha512_new_unguarded = hasher_new 128 SHA512_H0"

definition sha512_new :: "(error, u64 hasher) gated" where
  "sha512_new = chain (gate_service (ShaS Sha512)) (\<lambda>_. ok sha512_new_unguarded)"

definition sha512_new_internal :: "(error, u64 hasher) gated" where
  "sha512_new_internal = chain gate_self_test_started (\<lambda>_. ok sha512_new_unguarded)"

definition sha512_update :: "u64 hasher \<Rightarrow> bytes \<Rightarrow> u64 hasher" where
  "sha512_update = hasher_update 128 compress512"

definition sha512_output :: "u64 list \<Rightarrow> bytes" where
  "sha512_output st = concat (map be_of_u64 st)"

definition sha512_finalize_unchecked :: "u64 hasher \<Rightarrow> bytes" where
  "sha512_finalize_unchecked h = sha512_output (hasher_finalize_state 128 16 compress512 h)"

definition sha512_finalize :: "u64 hasher \<Rightarrow> (error, bytes) gated" where
  "sha512_finalize h = chain gate_self_test_started (\<lambda>_. ok (sha512_finalize_unchecked h))"

definition sha512 :: "bytes \<Rightarrow> (error, bytes) gated" where
  "sha512 data = chain sha512_new (\<lambda>h. ok (sha512_finalize_unchecked (sha512_update h data)))"

text \<open>FIPS 180-4, as a function of the whole message.\<close>

definition sha512_spec :: "bytes \<Rightarrow> bytes" where
  "sha512_spec m = sha512_output (md_state 128 16 compress512 SHA512_H0 m)"

definition SHA_512_MSG :: bytes where
  "SHA_512_MSG = [0x21]"

definition SHA_512_MD :: bytes where
  "SHA_512_MD =
    [0x38, 0x31, 0xa6, 0xa6, 0x15, 0x5e, 0x50, 0x9d, 0xee, 0x59, 0xa7, 0xf4,
     0x51, 0xeb, 0x35, 0x32, 0x4d, 0x8f, 0x8f, 0x2d, 0xf6, 0xe3, 0x70, 0x88,
     0x94, 0x74, 0x0f, 0x98, 0xfd, 0xee, 0x23, 0x88, 0x9f, 0x4d, 0xe5, 0xad,
     0xb0, 0xc5, 0x01, 0x0d, 0xfb, 0x55, 0x5c, 0xda, 0x77, 0xc8, 0xab, 0x5d,
     0xc9, 0x02, 0x09, 0x4c, 0x52, 0xde, 0x32, 0x78, 0xf3, 0x5a, 0x75, 0xeb,
     0xc2, 0x5f, 0x09, 0x3a]"

definition sha512_self_test :: "self_test_failure + unit" where
  "sha512_self_test =
     (if sha512_finalize_unchecked (sha512_update sha512_new_unguarded SHA_512_MSG) = SHA_512_MD
      then Inr () else Inl SelfTestFailure)"

subsection \<open>SHA-384\<close>

definition sha384_new_unguarded :: "u64 hasher" where
  "sha384_new_unguarded = hasher_new 128 SHA384_H0"

definition sha384_new :: "(error, u64 hasher) gated" where
  "sha384_new = chain (gate_service (ShaS Sha384)) (\<lambda>_. ok sha384_new_unguarded)"

definition sha384_new_internal :: "(error, u64 hasher) gated" where
  "sha384_new_internal = chain gate_self_test_started (\<lambda>_. ok sha384_new_unguarded)"

definition sha384_update :: "u64 hasher \<Rightarrow> bytes \<Rightarrow> u64 hasher" where
  "sha384_update = hasher_update 128 compress512"

definition sha384_output :: "u64 list \<Rightarrow> bytes" where
  "sha384_output st = concat (map be_of_u64 (take 6 st))"

definition sha384_finalize_unchecked :: "u64 hasher \<Rightarrow> bytes" where
  "sha384_finalize_unchecked h = sha384_output (hasher_finalize_state 128 16 compress512 h)"

definition sha384_finalize :: "u64 hasher \<Rightarrow> (error, bytes) gated" where
  "sha384_finalize h = chain gate_self_test_started (\<lambda>_. ok (sha384_finalize_unchecked h))"

definition sha384 :: "bytes \<Rightarrow> (error, bytes) gated" where
  "sha384 data = chain sha384_new (\<lambda>h. ok (sha384_finalize_unchecked (sha384_update h data)))"

text \<open>FIPS 180-4, as a function of the whole message.\<close>

definition sha384_spec :: "bytes \<Rightarrow> bytes" where
  "sha384_spec m = sha384_output (md_state 128 16 compress512 SHA384_H0 m)"

definition SHA_384_MSG :: bytes where
  "SHA_384_MSG = [0xc5]"

definition SHA_384_MD :: bytes where
  "SHA_384_MD =
    [0xb5, 0x2b, 0x72, 0xda, 0x75, 0xd0, 0x66, 0x63, 0x79, 0xe2, 0x0f, 0x9b,
     0x4a, 0x79, 0xc3, 0x3a, 0x32, 0x9a, 0x01, 0xf0, 0x6a, 0x2f, 0xb7, 0x86,
     0x5c, 0x90, 0x62, 0xa2, 0x8c, 0x1d, 0xe8, 0x60, 0xba, 0x43, 0x2e, 0xdf,
     0xd8, 0x6b, 0x4c, 0xb1, 0xcb, 0x8a, 0x75, 0xb4, 0x60, 0x76, 0xe3, 0xb1]"

definition sha384_self_test :: "self_test_failure + unit" where
  "sha384_self_test =
     (if sha384_finalize_unchecked (sha384_update sha384_new_unguarded SHA_384_MSG) = SHA_384_MD
      then Inr () else Inl SelfTestFailure)"

subsection \<open>SHA-512/224\<close>

definition sha512_224_new_unguarded :: "u64 hasher" where
  "sha512_224_new_unguarded = hasher_new 128 SHA512_224_H0"

definition sha512_224_new :: "(error, u64 hasher) gated" where
  "sha512_224_new = chain (gate_service (ShaS Sha512_224)) (\<lambda>_. ok sha512_224_new_unguarded)"

definition sha512_224_new_internal :: "(error, u64 hasher) gated" where
  "sha512_224_new_internal = chain gate_self_test_started (\<lambda>_. ok sha512_224_new_unguarded)"

definition sha512_224_update :: "u64 hasher \<Rightarrow> bytes \<Rightarrow> u64 hasher" where
  "sha512_224_update = hasher_update 128 compress512"

definition sha512_224_output :: "u64 list \<Rightarrow> bytes" where
  "sha512_224_output st = concat (map be_of_u64 (take 3 st)) @ take 4 (be_of_u64 (st ! 3))"

definition sha512_224_finalize_unchecked :: "u64 hasher \<Rightarrow> bytes" where
  "sha512_224_finalize_unchecked h = sha512_224_output (hasher_finalize_state 128 16 compress512 h)"

definition sha512_224_finalize :: "u64 hasher \<Rightarrow> (error, bytes) gated" where
  "sha512_224_finalize h = chain gate_self_test_started (\<lambda>_. ok (sha512_224_finalize_unchecked h))"

definition sha512_224 :: "bytes \<Rightarrow> (error, bytes) gated" where
  "sha512_224 data = chain sha512_224_new (\<lambda>h. ok (sha512_224_finalize_unchecked (sha512_224_update h data)))"

text \<open>FIPS 180-4, as a function of the whole message.\<close>

definition sha512_224_spec :: "bytes \<Rightarrow> bytes" where
  "sha512_224_spec m = sha512_224_output (md_state 128 16 compress512 SHA512_224_H0 m)"

definition SHA_512_224_MSG :: bytes where
  "SHA_512_224_MSG = [0xcf]"

definition SHA_512_224_MD :: bytes where
  "SHA_512_224_MD =
    [0x41, 0x99, 0x23, 0x9e, 0x87, 0xd4, 0x7b, 0x6f, 0xed, 0xa0, 0x16, 0x80,
     0x2b, 0xf3, 0x67, 0xfb, 0x6e, 0x8b, 0x56, 0x55, 0xef, 0xf6, 0x22, 0x5c,
     0xb2, 0x66, 0x8f, 0x4a]"

definition sha512_224_self_test :: "self_test_failure + unit" where
  "sha512_224_self_test =
     (if sha512_224_finalize_unchecked (sha512_224_update sha512_224_new_unguarded SHA_512_224_MSG) = SHA_512_224_MD
      then Inr () else Inl SelfTestFailure)"

subsection \<open>SHA-512/256\<close>

definition sha512_256_new_unguarded :: "u64 hasher" where
  "sha512_256_new_unguarded = hasher_new 128 SHA512_256_H0"

definition sha512_256_new :: "(error, u64 hasher) gated" where
  "sha512_256_new = chain (gate_service (ShaS Sha512_256)) (\<lambda>_. ok sha512_256_new_unguarded)"

definition sha512_256_new_internal :: "(error, u64 hasher) gated" where
  "sha512_256_new_internal = chain gate_self_test_started (\<lambda>_. ok sha512_256_new_unguarded)"

definition sha512_256_update :: "u64 hasher \<Rightarrow> bytes \<Rightarrow> u64 hasher" where
  "sha512_256_update = hasher_update 128 compress512"

definition sha512_256_output :: "u64 list \<Rightarrow> bytes" where
  "sha512_256_output st = concat (map be_of_u64 (take 4 st))"

definition sha512_256_finalize_unchecked :: "u64 hasher \<Rightarrow> bytes" where
  "sha512_256_finalize_unchecked h = sha512_256_output (hasher_finalize_state 128 16 compress512 h)"

definition sha512_256_finalize :: "u64 hasher \<Rightarrow> (error, bytes) gated" where
  "sha512_256_finalize h = chain gate_self_test_started (\<lambda>_. ok (sha512_256_finalize_unchecked h))"

definition sha512_256 :: "bytes \<Rightarrow> (error, bytes) gated" where
  "sha512_256 data = chain sha512_256_new (\<lambda>h. ok (sha512_256_finalize_unchecked (sha512_256_update h data)))"

text \<open>FIPS 180-4, as a function of the whole message.\<close>

definition sha512_256_spec :: "bytes \<Rightarrow> bytes" where
  "sha512_256_spec m = sha512_256_output (md_state 128 16 compress512 SHA512_256_H0 m)"

definition SHA_512_256_MSG :: bytes where
  "SHA_512_256_MSG = [0xfa]"

definition SHA_512_256_MD :: bytes where
  "SHA_512_256_MD =
    [0xc4, 0xef, 0x36, 0x92, 0x3c, 0x64, 0xe5, 0x1e, 0x87, 0x57, 0x20, 0xe5,
     0x50, 0x29, 0x8a, 0x5a, 0xb8, 0xa3, 0xf2, 0xf8, 0x75, 0xb1, 0xe1, 0xa4,
     0xc9, 0xb9, 0x5b, 0xab, 0xf7, 0x34, 0x4f, 0xef]"

definition sha512_256_self_test :: "self_test_failure + unit" where
  "sha512_256_self_test =
     (if sha512_256_finalize_unchecked (sha512_256_update sha512_256_new_unguarded SHA_512_256_MSG) = SHA_512_256_MD
      then Inr () else Inl SelfTestFailure)"

subsection \<open>The streaming contract\<close>

interpretation sha512_md: merkle_damgard 128 16 64 8 compress512 SHA512_H0 sha512_output
  by unfold_locales (simp_all add: SHA512_H0_def sha512_output_def length_compress512)

interpretation sha512_h: stream_hash 128 64 sha512_new_unguarded sha512_update sha512_finalize_unchecked
  "absorbs 128 compress512 SHA512_H0" sha512_spec
  using sha512_md.stream_hash_axioms
  by (simp add: sha512_new_unguarded_def sha512_update_def sha512_finalize_unchecked_def [abs_def] sha512_spec_def [abs_def])

interpretation sha384_md: merkle_damgard 128 16 48 8 compress512 SHA384_H0 sha384_output
  by unfold_locales (simp_all add: SHA384_H0_def sha384_output_def length_compress512)

interpretation sha384_h: stream_hash 128 48 sha384_new_unguarded sha384_update sha384_finalize_unchecked
  "absorbs 128 compress512 SHA384_H0" sha384_spec
  using sha384_md.stream_hash_axioms
  by (simp add: sha384_new_unguarded_def sha384_update_def sha384_finalize_unchecked_def [abs_def] sha384_spec_def [abs_def])

interpretation sha512_224_md: merkle_damgard 128 16 28 8 compress512 SHA512_224_H0 sha512_224_output
  by unfold_locales (simp_all add: SHA512_224_H0_def sha512_224_output_def length_compress512)

interpretation sha512_224_h: stream_hash 128 28 sha512_224_new_unguarded sha512_224_update sha512_224_finalize_unchecked
  "absorbs 128 compress512 SHA512_224_H0" sha512_224_spec
  using sha512_224_md.stream_hash_axioms
  by (simp add: sha512_224_new_unguarded_def sha512_224_update_def sha512_224_finalize_unchecked_def [abs_def] sha512_224_spec_def [abs_def])

interpretation sha512_256_md: merkle_damgard 128 16 32 8 compress512 SHA512_256_H0 sha512_256_output
  by unfold_locales (simp_all add: SHA512_256_H0_def sha512_256_output_def length_compress512)

interpretation sha512_256_h: stream_hash 128 32 sha512_256_new_unguarded sha512_256_update sha512_256_finalize_unchecked
  "absorbs 128 compress512 SHA512_256_H0" sha512_256_spec
  using sha512_256_md.stream_hash_axioms
  by (simp add: sha512_256_new_unguarded_def sha512_256_update_def sha512_256_finalize_unchecked_def [abs_def] sha512_256_spec_def [abs_def])

subsection \<open>Power-up tests\<close>

lemma sha512_kat: "sha512_self_test = Inr ()"
proof -
  let ?p = "[0x21, 0x80, 0, 0, 0, 0, 0, 0, 0, 0, 0, 0, 0, 0, 0, 0, 0, 0, 0, 0, 0, 0, 0, 0, 0, 0, 0, 0, 0, 0, 0, 0,
     0, 0, 0, 0, 0, 0, 0, 0, 0, 0, 0, 0, 0, 0, 0, 0, 0, 0, 0, 0, 0, 0, 0, 0, 0, 0, 0, 0, 0, 0, 0, 0,
     0, 0, 0, 0, 0, 0, 0, 0, 0, 0, 0, 0, 0, 0, 0, 0, 0, 0, 0, 0, 0, 0, 0, 0, 0, 0, 0, 0, 0, 0, 0, 0,
     0, 0, 0, 0, 0, 0, 0, 0, 0, 0, 0, 0, 0, 0, 0, 0, 0, 0, 0, 0, 0, 0, 0, 0, 0, 0, 0, 0, 0, 0, 0, 8] :: bytes"
  have p: "md_pad 128 16 SHA_512_MSG = ?p" by code_simp
  have "sha512_output (compress512 SHA512_H0 ?p) = SHA_512_MD" by code_simp
  then have "sha512_spec SHA_512_MSG = SHA_512_MD"
    by (simp add: sha512_spec_def md_state_single [OF p])
  then show ?thesis by (simp add: sha512_self_test_def sha512_h.one_shot)
qed

lemma sha384_kat: "sha384_self_test = Inr ()"
proof -
  let ?p = "[0xc5, 0x80, 0, 0, 0, 0, 0, 0, 0, 0, 0, 0, 0, 0, 0, 0, 0, 0, 0, 0, 0, 0, 0, 0, 0, 0, 0, 0, 0, 0, 0, 0,
     0, 0, 0, 0, 0, 0, 0, 0, 0, 0, 0, 0, 0, 0, 0, 0, 0, 0, 0, 0, 0, 0, 0, 0, 0, 0, 0, 0, 0, 0, 0, 0,
     0, 0, 0, 0, 0, 0, 0, 0, 0, 0, 0, 0, 0, 0, 0, 0, 0, 0, 0, 0, 0, 0, 0, 0, 0, 0, 0, 0, 0, 0, 0, 0,
     0, 0, 0, 0, 0, 0, 0, 0, 0, 0, 0, 0, 0, 0, 0, 0, 0, 0, 0, 0, 0, 0, 0, 0, 0, 0, 0, 0, 0, 0, 0, 8] :: bytes"
  have p: "md_pad 128 16 SHA_384_MSG = ?p" by code_simp
  have "sha384_output (compress512 SHA384_H0 ?p) = SHA_384_MD" by code_simp
  then have "sha384_spec SHA_384_MSG = SHA_384_MD"
    by (simp add: sha384_spec_def md_state_single [OF p])
  then show ?thesis by (simp add: sha384_self_test_def sha384_h.one_shot)
qed

lemma sha512_224_kat: "sha512_224_self_test = Inr ()"
proof -
  let ?p = "[0xcf, 0x80, 0, 0, 0, 0, 0, 0, 0, 0, 0, 0, 0, 0, 0, 0, 0, 0, 0, 0, 0, 0, 0, 0, 0, 0, 0, 0, 0, 0, 0, 0,
     0, 0, 0, 0, 0, 0, 0, 0, 0, 0, 0, 0, 0, 0, 0, 0, 0, 0, 0, 0, 0, 0, 0, 0, 0, 0, 0, 0, 0, 0, 0, 0,
     0, 0, 0, 0, 0, 0, 0, 0, 0, 0, 0, 0, 0, 0, 0, 0, 0, 0, 0, 0, 0, 0, 0, 0, 0, 0, 0, 0, 0, 0, 0, 0,
     0, 0, 0, 0, 0, 0, 0, 0, 0, 0, 0, 0, 0, 0, 0, 0, 0, 0, 0, 0, 0, 0, 0, 0, 0, 0, 0, 0, 0, 0, 0, 8] :: bytes"
  have p: "md_pad 128 16 SHA_512_224_MSG = ?p" by code_simp
  have "sha512_224_output (compress512 SHA512_224_H0 ?p) = SHA_512_224_MD" by code_simp
  then have "sha512_224_spec SHA_512_224_MSG = SHA_512_224_MD"
    by (simp add: sha512_224_spec_def md_state_single [OF p])
  then show ?thesis by (simp add: sha512_224_self_test_def sha512_224_h.one_shot)
qed

lemma sha512_256_kat: "sha512_256_self_test = Inr ()"
proof -
  let ?p = "[0xfa, 0x80, 0, 0, 0, 0, 0, 0, 0, 0, 0, 0, 0, 0, 0, 0, 0, 0, 0, 0, 0, 0, 0, 0, 0, 0, 0, 0, 0, 0, 0, 0,
     0, 0, 0, 0, 0, 0, 0, 0, 0, 0, 0, 0, 0, 0, 0, 0, 0, 0, 0, 0, 0, 0, 0, 0, 0, 0, 0, 0, 0, 0, 0, 0,
     0, 0, 0, 0, 0, 0, 0, 0, 0, 0, 0, 0, 0, 0, 0, 0, 0, 0, 0, 0, 0, 0, 0, 0, 0, 0, 0, 0, 0, 0, 0, 0,
     0, 0, 0, 0, 0, 0, 0, 0, 0, 0, 0, 0, 0, 0, 0, 0, 0, 0, 0, 0, 0, 0, 0, 0, 0, 0, 0, 0, 0, 0, 0, 8] :: bytes"
  have p: "md_pad 128 16 SHA_512_256_MSG = ?p" by code_simp
  have "sha512_256_output (compress512 SHA512_256_H0 ?p) = SHA_512_256_MD" by code_simp
  then have "sha512_256_spec SHA_512_256_MSG = SHA_512_256_MD"
    by (simp add: sha512_256_spec_def md_state_single [OF p])
  then show ?thesis by (simp add: sha512_256_self_test_def sha512_256_h.one_shot)
qed

end
