(* ===== verification/Sha_Family.thy ===== *)
theory Sha_Family
  imports Sha1_Hash Sha256_Hash Sha512_Hash
begin

text \<open>
  Properties of the seven SHA-1 and SHA-2 hashes of \<open>oxicrypt-sha\<close> together: streaming, bounds,
  gating and the power-up tests.
\<close>

lemmas sha_kats = sha1_kat sha224_kat sha256_kat sha384_kat sha512_kat sha512_224_kat sha512_256_kat

lemmas sha_streamed = sha1_h.streamed sha224_h.streamed sha256_h.streamed sha384_h.streamed
  sha512_h.streamed sha512_224_h.streamed sha512_256_h.streamed

text \<open>C9: However a message is cut into \<open>update\<close> calls, every SHA-1 and SHA-2 hasher finalizes to
  the FIPS 180-4 digest of the whole message: padding and block iteration of the concatenation.\<close>

theorem sha_streaming_correct:
  "sha1_finalize_unchecked (foldl sha1_update sha1_new_unguarded ds) = sha1_spec (concat ds) \<and>
   sha224_finalize_unchecked (foldl sha224_update sha224_new_unguarded ds) = sha224_spec (concat ds) \<and>
   sha256_finalize_unchecked (foldl sha256_update sha256_new_unguarded ds) = sha256_spec (concat ds) \<and>
   sha384_finalize_unchecked (foldl sha384_update sha384_new_unguarded ds) = sha384_spec (concat ds) \<and>
   sha512_finalize_unchecked (foldl sha512_update sha512_new_unguarded ds) = sha512_spec (concat ds) \<and>
   sha512_224_finalize_unchecked (foldl sha512_224_update sha512_224_new_unguarded ds) =
     sha512_224_spec (concat ds) \<and>
   sha512_256_finalize_unchecked (foldl sha512_256_update sha512_256_new_unguarded ds) =
     sha512_256_spec (concat ds)"
  by (intro conjI sha_streamed)

text \<open>The power-up known-answer tests pass: the modelled code, evaluated on the NIST message of
  each hash, returns the NIST digest.\<close>

theorem sha_power_up_tests_pass:
  "sha1_self_test = Inr () \<and> sha224_self_test = Inr () \<and> sha256_self_test = Inr () \<and>
   sha384_self_test = Inr () \<and> sha512_self_test = Inr () \<and> sha512_224_self_test = Inr () \<and>
   sha512_256_self_test = Inr ()"
  by (intro conjI sha_kats)

text \<open>The buffer of a hasher never overruns: after any updates the buffer has the block size,
  the fill count is the message length modulo the block size and so leaves room for the padding
  byte, and the 64-bit counter holds the message length modulo \<open>2^64\<close>.\<close>

theorem hasher_buffer_bounds:
  "(let h = foldl sha256_update sha256_new_unguarded ds; n = length (concat ds) in
      length (buffer h) = 64 \<and> buffer_len h = n mod 64 \<and> buffer_len h < 64 \<and>
      unat (total_len h) = n mod 2 ^ 64) \<and>
   (let h = foldl sha512_update sha512_new_unguarded ds; n = length (concat ds) in
      length (buffer h) = 128 \<and> buffer_len h = n mod 128 \<and> buffer_len h < 128 \<and>
      unat (total_len h) = n mod 2 ^ 64)"
proof -
  have *: "length (buffer h) = B \<and> buffer_len h = length m mod B \<and> buffer_len h < B \<and>
      unat (total_len h) = length m mod 2 ^ 64"
    if "0 < B" "absorbs B f iv h m" for B f iv m and h :: "'w hasher"
    using absorbs_buffer_len [OF that] that(2) by (simp add: absorbs_def unat_of_nat)
  have "absorbs 64 compress256 SHA256_H0 (foldl sha256_update sha256_new_unguarded ds) (concat ds)"
    using sha256_h.absorbed_updates [OF sha256_h.absorbed_new] by simp
  note a = * [OF _ this]
  have "absorbs 128 compress512 SHA512_H0 (foldl sha512_update sha512_new_unguarded ds) (concat ds)"
    using sha512_h.absorbed_updates [OF sha512_h.absorbed_new] by simp
  note b = * [OF _ this]
  show ?thesis unfolding Let_def using a b by simp
qed

lemma gate_service_result:
  "fst (gate_service s env) =
     (case require_operational (shd (state_loads env)) of
        Inl e \<Rightarrow> Inl e
      | Inr _ \<Rightarrow> require_allowed (shd (profile_loads env)) s)"
  by (simp add: gate_service_def chain_def gate_operational_def gate_allowed_def split: sum.splits)

text \<open>The one-shot services are gated first by the state and then by the profile, and answer
  with the digest only past both: the state error names the state observed, the profile error the
  service; in particular both CNSA profiles refuse SHA-256 and serve SHA-384.\<close>

theorem sha_one_shot_gated:
  "fst (sha256 data env) =
     (case require_operational (shd (state_loads env)) of
        Inl e \<Rightarrow> Inl e
      | Inr _ \<Rightarrow> (case require_allowed (shd (profile_loads env)) (ShaS Sha256) of
                   Inl e \<Rightarrow> Inl e | Inr _ \<Rightarrow> Inr (sha256_spec data))) \<and>
   fst (sha384 data env) =
     (case require_operational (shd (state_loads env)) of
        Inl e \<Rightarrow> Inl e
      | Inr _ \<Rightarrow> (case require_allowed (shd (profile_loads env)) (ShaS Sha384) of
                   Inl e \<Rightarrow> Inl e | Inr _ \<Rightarrow> Inr (sha384_spec data))) \<and>
   fst (sha256 data (steady tid OPERATIONAL 1)) = Inl (AlgorithmRestricted (ShaS Sha256)) \<and>
   fst (sha256 data (steady tid OPERATIONAL 2)) = Inl (AlgorithmRestricted (ShaS Sha256)) \<and>
   fst (sha384 data (steady tid OPERATIONAL 1)) = Inr (sha384_spec data) \<and>
   fst (sha384 data (steady tid OPERATIONAL 2)) = Inr (sha384_spec data)"
proof -
  have 256: "fst (sha256 data env) =
      (case fst (gate_service (ShaS Sha256) env) of Inl e \<Rightarrow> Inl e | Inr _ \<Rightarrow> Inr (sha256_spec data))" for env
    by (simp add: sha256_def sha256_new_def chain_def sha256_h.one_shot split: prod.splits sum.splits)
  have 384: "fst (sha384 data env) =
      (case fst (gate_service (ShaS Sha384) env) of Inl e \<Rightarrow> Inl e | Inr _ \<Rightarrow> Inr (sha384_spec data))" for env
    by (simp add: sha384_def sha384_new_def chain_def sha384_h.one_shot split: prod.splits sum.splits)
  have allowed: "require_allowed 1 (ShaS Sha256) = Inl (AlgorithmRestricted (ShaS Sha256))"
    "require_allowed 2 (ShaS Sha256) = Inl (AlgorithmRestricted (ShaS Sha256))"
    "require_allowed 1 (ShaS Sha384) = Inr ()" "require_allowed 2 (ShaS Sha384) = Inr ()"
    by (simp_all add: require_allowed_def profile_from_u8_def is_cnsa2_allowed_def is_cnsa1_allowed_def
        cnsa1_services_def cnsa2_services_def is_lms_service_def lms_block_contains_def lms_u16_def)
  show ?thesis
    by (simp add: 256 384 gate_service_result allowed split: sum.splits)
qed

text \<open>A hasher built before a failure produces no digest after it: once the module is in a
  failed state, every checked \<open>finalize\<close>, and every constructor, refuses whatever the hasher holds.\<close>

theorem no_digest_after_failure:
  assumes "legal_loads env" "shd (state_loads env) \<in> {ERROR, INTEGRITY_UNVERIFIED}"
  shows
   "fst (sha1_finalize h1 env) = Inl (NotOperational (decode (shd (state_loads env)))) \<and>
    fst (sha256_finalize h2 env) = Inl (NotOperational (decode (shd (state_loads env)))) \<and>
    fst (sha512_finalize h3 env) = Inl (NotOperational (decode (shd (state_loads env)))) \<and>
    fst (sha256_new env) = Inl (NotOperational (decode (shd (state_loads env)))) \<and>
    fst (sha256_new_internal env) = Inl (NotOperational (decode (shd (state_loads env)))) \<and>
    dead (snd (sha256_finalize h2 env))"
proof -
  note gates = dead_gates [OF legal_loads_dead [OF assms]]
  show ?thesis
    by (simp add: sha1_finalize_def sha256_finalize_def sha512_finalize_def sha256_new_def
        sha256_new_internal_def gate_service_def gates)
qed

theorem no_digest_after_failure_witness:
  "fst (sha1_finalize sha1_new_unguarded (steady (Some 7) ERROR 0)) = Inl (NotOperational Error) \<and>
   fst (sha256_finalize sha256_new_unguarded (steady (Some 7) ERROR 0)) = Inl (NotOperational Error) \<and>
   fst (sha512_finalize sha512_new_unguarded (steady (Some 7) ERROR 0)) = Inl (NotOperational Error) \<and>
   fst (sha256_new (steady (Some 7) ERROR 0)) = Inl (NotOperational Error) \<and>
   fst (sha256_new_internal (steady (Some 7) ERROR 0)) = Inl (NotOperational Error) \<and>
   dead (snd (sha256_finalize sha256_new_unguarded (steady (Some 7) ERROR 0)))"
  using no_digest_after_failure [of "steady (Some 7) ERROR 0" sha1_new_unguarded sha256_new_unguarded
      sha512_new_unguarded]
  by simp

end
