(* ===== verification/Hmac.thy ===== *)
theory Hmac
  imports Sha_Family
begin

unbundle bit_operations_syntax

text \<open>
  The generic HMAC of \<^verbatim>\<open>src/crates/oxicrypt-hmac/src/lib.rs\<close>.  The trait \<open>BlockHash\<close> is a record of
  a hash's operations, \<open>Hmac\<close> the record of three hashers the code keeps; the locale
  \<open>block_hash_ops\<close> says that the operations keep the \<open>stream_hash\<close> contract and proves HMAC equal to
  FIPS 198-1 once for all of them.
\<close>

record 'h block_hash =
  bh_block :: usize
  bh_out :: usize
  bh_service :: service
  bh_new :: 'h
  bh_update :: "'h \<Rightarrow> bytes \<Rightarrow> 'h"
  bh_finalize :: "'h \<Rightarrow> bytes"

text \<open>\<open>block_new\<close> is the hash's \<open>new_internal\<close>.\<close>

definition block_new :: "'h block_hash \<Rightarrow> (error, 'h) gated" where
  "block_new H = chain gate_self_test_started (\<lambda>_. ok (bh_new H))"

record 'h hmac =
  inner :: 'h
  outer :: 'h
  blank :: 'h

definition IPAD_BYTE :: u8 where "IPAD_BYTE = 0x36"
definition OPAD_BYTE :: u8 where "OPAD_BYTE = 0x5c"

text \<open>Steps 1 to 3 of \<open>new_internal\<close>, once the guard and \<open>block_new\<close> have passed.\<close>

definition hmac_k0 :: "'h block_hash \<Rightarrow> 'h \<Rightarrow> bytes \<Rightarrow> bytes" where
  "hmac_k0 H blk key =
     (let k0 = zeros (bh_block H) in
      if length key > bh_block H then
        let digest = bh_finalize H (bh_update H blk key) in copy_at k0 0 digest
      else copy_at k0 0 key)"

definition hmac_seed :: "'h block_hash \<Rightarrow> 'h \<Rightarrow> bytes \<Rightarrow> 'h hmac" where
  "hmac_seed H blk key =
     (let k0 = hmac_k0 H blk key;
          ipad_key = map (\<lambda>b. b XOR IPAD_BYTE) k0;
          outer_key = map (\<lambda>b. b XOR OPAD_BYTE) k0
      in \<lparr>inner = bh_update H blk ipad_key, outer = bh_update H blk outer_key, blank = blk\<rparr>)"

definition hmac_new_internal :: "'h block_hash \<Rightarrow> bytes \<Rightarrow> (error, 'h hmac) gated" where
  "hmac_new_internal H key =
     chain gate_self_test_started (\<lambda>_. chain (block_new H) (\<lambda>blk. ok (hmac_seed H blk key)))"

definition hmac_new :: "'h block_hash \<Rightarrow> bytes \<Rightarrow> (error, 'h hmac) gated" where
  "hmac_new H key =
     chain gate_operational (\<lambda>_. chain (gate_allowed (bh_service H)) (\<lambda>_. hmac_new_internal H key))"

definition hmac_update :: "'h block_hash \<Rightarrow> 'h hmac \<Rightarrow> bytes \<Rightarrow> 'h hmac" where
  "hmac_update H m data = m\<lparr>inner := bh_update H (inner m) data\<rparr>"

definition hmac_finalize_with :: "'h block_hash \<Rightarrow> 'h hmac \<Rightarrow> bytes \<times> 'h hmac" where
  "hmac_finalize_with H m =
     (let inner_digest = bh_finalize H (inner m);
          m' = m\<lparr>inner := blank m\<rparr>;
          out = bh_update H (outer m') inner_digest
      in (bh_finalize H out, m'))"

definition hmac_finalize :: "'h block_hash \<Rightarrow> 'h hmac \<Rightarrow> (error, bytes \<times> 'h hmac) gated" where
  "hmac_finalize H m = chain gate_self_test_started (\<lambda>_. ok (hmac_finalize_with H m))"

text \<open>The body of the power-up tests: the MAC's leading bytes against a NIST prefix.\<close>

definition hmac_kat :: "'h block_hash \<Rightarrow> bytes \<Rightarrow> bytes \<Rightarrow> bytes \<Rightarrow> (self_test_failure, unit) gated" where
  "hmac_kat H key msg prefix =
     chain (gated_map_err (\<lambda>_. SelfTestFailure) (hmac_new_internal H key)) (\<lambda>m.
     chain (gated_map_err (\<lambda>_. SelfTestFailure) (hmac_finalize H (hmac_update H m msg))) (\<lambda>(out, _).
       if length prefix \<le> length out \<and> take (length prefix) out = prefix
       then ok () else fail SelfTestFailure))"

subsection \<open>FIPS 198-1\<close>

definition hmac_key :: "usize \<Rightarrow> (bytes \<Rightarrow> bytes) \<Rightarrow> bytes \<Rightarrow> bytes" where
  "hmac_key B hash key =
     (let k = (if length key > B then hash key else key) in k @ zeros (B - length k))"

definition hmac_spec :: "usize \<Rightarrow> (bytes \<Rightarrow> bytes) \<Rightarrow> bytes \<Rightarrow> bytes \<Rightarrow> bytes" where
  "hmac_spec B hash key text =
     (let k0 = hmac_key B hash key in
      hash (map (\<lambda>b. b XOR 0x5c) k0 @ hash (map (\<lambda>b. b XOR 0x36) k0 @ text)))"

subsection \<open>HMAC over any hash that keeps the contract\<close>

locale block_hash_ops =
  fixes H :: "'h block_hash"
    and absorbed :: "'h \<Rightarrow> bytes \<Rightarrow> bool"
    and hash :: "bytes \<Rightarrow> bytes"
  assumes contract:
    "stream_hash (bh_block H) (bh_out H) (bh_new H) (bh_update H) (bh_finalize H) absorbed hash"

sublocale block_hash_ops \<subseteq>
  stream_hash "bh_block H" "bh_out H" "bh_new H" "bh_update H" "bh_finalize H" absorbed hash
  by (rule contract)

context block_hash_ops
begin

lemma k0_eq: "hmac_k0 H (bh_new H) key = hmac_key (bh_block H) hash key"
proof (cases "length key > bh_block H")
  case True
  then have "hmac_k0 H (bh_new H) key = copy_at (zeros (bh_block H)) 0 (hash key)"
    by (simp add: hmac_k0_def one_shot)
  with True show ?thesis
    using output_fits by (simp add: hmac_key_def copy_at_def length_hash zeros_def)
next
  case False
  then show ?thesis by (simp add: hmac_k0_def hmac_key_def copy_at_def zeros_def)
qed

text \<open>A MAC object that has been keyed and has absorbed \<open>text\<close>.\<close>

definition keyed :: "'h hmac \<Rightarrow> bytes \<Rightarrow> bytes \<Rightarrow> bool" where
  "keyed m key text \<longleftrightarrow>
     absorbed (inner m) (map (\<lambda>b. b XOR IPAD_BYTE) (hmac_key (bh_block H) hash key) @ text) \<and>
     absorbed (outer m) (map (\<lambda>b. b XOR OPAD_BYTE) (hmac_key (bh_block H) hash key)) \<and>
     blank m = bh_new H"

lemma keyed_seed: "keyed (hmac_seed H (bh_new H) key) key []"
  using absorbed_update [OF absorbed_new] by (simp add: keyed_def hmac_seed_def Let_def k0_eq)

lemma keyed_update: "keyed m key text \<Longrightarrow> keyed (hmac_update H m d) key (text @ d)"
  using absorbed_update by (fastforce simp: keyed_def hmac_update_def)

lemma keyed_updates: "keyed m key msg \<Longrightarrow> keyed (foldl (hmac_update H) m ds) key (msg @ concat ds)"
  by (induction ds arbitrary: m msg) (use keyed_update in \<open>fastforce+\<close>)

lemma keyed_finalize:
  assumes "keyed m key text"
  shows "hmac_finalize_with H m = (hmac_spec (bh_block H) hash key text, m\<lparr>inner := bh_new H\<rparr>)"
proof -
  let ?inner = "bh_finalize H (inner m)"
  have inner: "?inner = hash (map (\<lambda>b. b XOR IPAD_BYTE) (hmac_key (bh_block H) hash key) @ text)"
    using assms by (simp add: keyed_def finalize_absorbed)
  have "absorbed (bh_update H (outer m) ?inner)
      (map (\<lambda>b. b XOR OPAD_BYTE) (hmac_key (bh_block H) hash key) @ ?inner)"
    using assms by (simp add: keyed_def absorbed_update)
  from finalize_absorbed [OF this] show ?thesis
    using assms inner
    by (simp add: hmac_finalize_with_def hmac_spec_def Let_def keyed_def IPAD_BYTE_def OPAD_BYTE_def)
qed

lemma hmac_streamed:
  "fst (hmac_finalize_with H (foldl (hmac_update H) (hmac_seed H (bh_new H) key) ds)) =
     hmac_spec (bh_block H) hash key (concat ds)"
  using keyed_finalize [OF keyed_updates [OF keyed_seed]] by simp

lemma length_hmac: "length (hmac_spec (bh_block H) hash key text) = bh_out H"
  by (simp add: hmac_spec_def Let_def length_hash)

end

subsection \<open>The variants over SHA-1 and SHA-2\<close>

definition hmac_sha1 :: "u32 hasher block_hash" where
  "hmac_sha1 = \<lparr>bh_block = 64, bh_out = 20, bh_service = HmacS HmacSha1, bh_new = sha1_new_unguarded,
     bh_update = sha1_update, bh_finalize = sha1_finalize_unchecked\<rparr>"

definition hmac_sha224 :: "u32 hasher block_hash" where
  "hmac_sha224 = \<lparr>bh_block = 64, bh_out = 28, bh_service = HmacS HmacSha224, bh_new = sha224_new_unguarded,
     bh_update = sha224_update, bh_finalize = sha224_finalize_unchecked\<rparr>"

definition hmac_sha256 :: "u32 hasher block_hash" where
  "hmac_sha256 = \<lparr>bh_block = 64, bh_out = 32, bh_service = HmacS HmacSha256, bh_new = sha256_new_unguarded,
     bh_update = sha256_update, bh_finalize = sha256_finalize_unchecked\<rparr>"

definition hmac_sha384 :: "u64 hasher block_hash" where
  "hmac_sha384 = \<lparr>bh_block = 128, bh_out = 48, bh_service = HmacS HmacSha384, bh_new = sha384_new_unguarded,
     bh_update = sha384_update, bh_finalize = sha384_finalize_unchecked\<rparr>"

definition hmac_sha512 :: "u64 hasher block_hash" where
  "hmac_sha512 = \<lparr>bh_block = 128, bh_out = 64, bh_service = HmacS HmacSha512, bh_new = sha512_new_unguarded,
     bh_update = sha512_update, bh_finalize = sha512_finalize_unchecked\<rparr>"

definition hmac_sha512_224 :: "u64 hasher block_hash" where
  "hmac_sha512_224 = \<lparr>bh_block = 128, bh_out = 28, bh_service = HmacS HmacSha512_224, bh_new = sha512_224_new_unguarded,
     bh_update = sha512_224_update, bh_finalize = sha512_224_finalize_unchecked\<rparr>"

definition hmac_sha512_256 :: "u64 hasher block_hash" where
  "hmac_sha512_256 = \<lparr>bh_block = 128, bh_out = 32, bh_service = HmacS HmacSha512_256, bh_new = sha512_256_new_unguarded,
     bh_update = sha512_256_update, bh_finalize = sha512_256_finalize_unchecked\<rparr>"

interpretation hmac_sha1: block_hash_ops hmac_sha1 "absorbs 64 sha1_compress SHA1_H0" sha1_spec
  by unfold_locales (simp_all add: hmac_sha1_def sha1_h.absorbed_new sha1_h.absorbed_update
      sha1_h.finalize_absorbed sha1_h.length_hash)

interpretation hmac_sha224: block_hash_ops hmac_sha224 "absorbs 64 compress256 SHA224_H0" sha224_spec
  by unfold_locales (simp_all add: hmac_sha224_def sha224_h.absorbed_new sha224_h.absorbed_update
      sha224_h.finalize_absorbed sha224_h.length_hash)

interpretation hmac_sha256: block_hash_ops hmac_sha256 "absorbs 64 compress256 SHA256_H0" sha256_spec
  by unfold_locales (simp_all add: hmac_sha256_def sha256_h.absorbed_new sha256_h.absorbed_update
      sha256_h.finalize_absorbed sha256_h.length_hash)

interpretation hmac_sha384: block_hash_ops hmac_sha384 "absorbs 128 compress512 SHA384_H0" sha384_spec
  by unfold_locales (simp_all add: hmac_sha384_def sha384_h.absorbed_new sha384_h.absorbed_update
      sha384_h.finalize_absorbed sha384_h.length_hash)

interpretation hmac_sha512: block_hash_ops hmac_sha512 "absorbs 128 compress512 SHA512_H0" sha512_spec
  by unfold_locales (simp_all add: hmac_sha512_def sha512_h.absorbed_new sha512_h.absorbed_update
      sha512_h.finalize_absorbed sha512_h.length_hash)

interpretation hmac_sha512_224: block_hash_ops hmac_sha512_224 "absorbs 128 compress512 SHA512_224_H0" sha512_224_spec
  by unfold_locales (simp_all add: hmac_sha512_224_def sha512_224_h.absorbed_new sha512_224_h.absorbed_update
      sha512_224_h.finalize_absorbed sha512_224_h.length_hash)

interpretation hmac_sha512_256: block_hash_ops hmac_sha512_256 "absorbs 128 compress512 SHA512_256_H0" sha512_256_spec
  by unfold_locales (simp_all add: hmac_sha512_256_def sha512_256_h.absorbed_new sha512_256_h.absorbed_update
      sha512_256_h.finalize_absorbed sha512_256_h.length_hash)

definition HMAC_SHA_1_KEY :: bytes where "HMAC_SHA_1_KEY = [0x8c]"

definition HMAC_SHA_1_MSG :: bytes where
  "HMAC_SHA_1_MSG =
    [0xbf, 0x9a, 0xb8, 0x19, 0x1f, 0x50, 0xba, 0x04, 0xa1, 0x9f, 0x09, 0xd3, 0xd3, 0x4e, 0x2b, 0x8a]"

definition HMAC_SHA_1_MAC_PREFIX :: bytes where
  "HMAC_SHA_1_MAC_PREFIX = [0x1f, 0xe5, 0x37, 0x41, 0xae, 0xad, 0x8c, 0xa7, 0xa3, 0x49]"

definition hmac_self_test_sha1 :: "(self_test_failure, unit) gated" where
  "hmac_self_test_sha1 = hmac_kat hmac_sha1 HMAC_SHA_1_KEY HMAC_SHA_1_MSG HMAC_SHA_1_MAC_PREFIX"

subsection \<open>Properties\<close>

text \<open>C10: Every HMAC variant over SHA-1 and SHA-2 computes FIPS 198-1: for any key, short or longer
  than a block, and any cutting of the text into \<open>update\<close> calls, the MAC is the nested hash of the
  padded key and the whole text.\<close>

theorem hmac_correct:
  "fst (hmac_finalize_with hmac_sha1 (foldl (hmac_update hmac_sha1)
     (hmac_seed hmac_sha1 sha1_new_unguarded key) ds)) = hmac_spec 64 sha1_spec key (concat ds) \<and>
   fst (hmac_finalize_with hmac_sha224 (foldl (hmac_update hmac_sha224)
     (hmac_seed hmac_sha224 sha224_new_unguarded key) ds)) = hmac_spec 64 sha224_spec key (concat ds) \<and>
   fst (hmac_finalize_with hmac_sha256 (foldl (hmac_update hmac_sha256)
     (hmac_seed hmac_sha256 sha256_new_unguarded key) ds)) = hmac_spec 64 sha256_spec key (concat ds) \<and>
   fst (hmac_finalize_with hmac_sha384 (foldl (hmac_update hmac_sha384)
     (hmac_seed hmac_sha384 sha384_new_unguarded key) ds)) = hmac_spec 128 sha384_spec key (concat ds) \<and>
   fst (hmac_finalize_with hmac_sha512 (foldl (hmac_update hmac_sha512)
     (hmac_seed hmac_sha512 sha512_new_unguarded key) ds)) = hmac_spec 128 sha512_spec key (concat ds) \<and>
   fst (hmac_finalize_with hmac_sha512_224 (foldl (hmac_update hmac_sha512_224)
     (hmac_seed hmac_sha512_224 sha512_224_new_unguarded key) ds)) =
       hmac_spec 128 sha512_224_spec key (concat ds) \<and>
   fst (hmac_finalize_with hmac_sha512_256 (foldl (hmac_update hmac_sha512_256)
     (hmac_seed hmac_sha512_256 sha512_256_new_unguarded key) ds)) =
       hmac_spec 128 sha512_256_spec key (concat ds)"
  using hmac_sha1.hmac_streamed [of key ds] hmac_sha224.hmac_streamed [of key ds]
    hmac_sha256.hmac_streamed [of key ds] hmac_sha384.hmac_streamed [of key ds]
    hmac_sha512.hmac_streamed [of key ds] hmac_sha512_224.hmac_streamed [of key ds]
    hmac_sha512_256.hmac_streamed [of key ds]
  by (simp add: hmac_sha1_def hmac_sha224_def hmac_sha256_def hmac_sha384_def hmac_sha512_def
      hmac_sha512_224_def hmac_sha512_256_def)

text \<open>\<open>finalize\<close> is one-shot for the text: it returns the MAC and leaves the object keyed by an
  empty hasher, not by the inner pad, so a second \<open>finalize\<close> returns the outer hash of the empty
  message's digest, whatever text went in; and past a failure it returns no MAC at all.\<close>

theorem hmac_second_finalize:
  "let m = foldl (hmac_update hmac_sha256) (hmac_seed hmac_sha256 sha256_new_unguarded key) ds
   in fst (hmac_finalize_with hmac_sha256 (snd (hmac_finalize_with hmac_sha256 m))) =
        sha256_spec (map (\<lambda>b. b XOR OPAD_BYTE) (hmac_key 64 sha256_spec key) @ sha256_spec []) \<and>
      (dead env \<longrightarrow> fst (hmac_finalize hmac_sha256 m env) =
        Inl (NotOperational (decode (shd (state_loads env)))))"
proof -
  define m where "m = foldl (hmac_update hmac_sha256) (hmac_seed hmac_sha256 sha256_new_unguarded key) ds"
  have "hmac_sha256.keyed m key (concat ds)"
    using hmac_sha256.keyed_updates [OF hmac_sha256.keyed_seed, of key ds]
    by (simp add: m_def hmac_sha256_def)
  note k = this hmac_sha256.keyed_finalize [OF this]
  let ?m = "m\<lparr>inner := sha256_new_unguarded\<rparr>"
  have snd: "snd (hmac_finalize_with hmac_sha256 m) = ?m"
    using k(2) by (simp add: hmac_sha256_def)
  have outer: "absorbs 64 compress256 SHA256_H0 (outer m)
      (map (\<lambda>b. b XOR OPAD_BYTE) (hmac_key 64 sha256_spec key))"
    using k(1) by (simp add: hmac_sha256.keyed_def) (simp add: hmac_sha256_def)
  have "sha256_finalize_unchecked sha256_new_unguarded = sha256_spec []"
    by (rule sha256_h.finalize_absorbed [OF sha256_h.absorbed_new])
  then have "fst (hmac_finalize_with hmac_sha256 ?m) =
      sha256_finalize_unchecked (sha256_update (outer m) (sha256_spec []))"
    by (simp add: hmac_finalize_with_def hmac_sha256_def Let_def)
  also have "\<dots> = sha256_spec (map (\<lambda>b. b XOR OPAD_BYTE) (hmac_key 64 sha256_spec key) @ sha256_spec [])"
    by (rule sha256_h.finalize_absorbed [OF sha256_h.absorbed_update [OF outer]])
  finally show ?thesis
    using snd by (auto simp: hmac_finalize_def dead_gates simp flip: m_def)
qed

theorem hmac_second_finalize_witness:
  "let m = foldl (hmac_update hmac_sha256) (hmac_seed hmac_sha256 sha256_new_unguarded [1, 2]) [[3], [4]]
   in fst (hmac_finalize_with hmac_sha256 (snd (hmac_finalize_with hmac_sha256 m))) =
        sha256_spec (map (\<lambda>b. b XOR OPAD_BYTE) (hmac_key 64 sha256_spec [1, 2]) @ sha256_spec []) \<and>
      fst (hmac_finalize hmac_sha256 m (steady None ERROR 0)) = Inl (NotOperational Error)"
  using hmac_second_finalize [of "[1, 2]" "[[3], [4]]" "steady None ERROR 0"] by (simp add: Let_def)

text \<open>A MAC object is built only past four checks in the code's order: two loads of the state
  by the approved guard and the internal one, the profile, and the hash's own state check; then the
  result is the keyed object.  A state latched between any two of them is refused with the state
  then observed.\<close>

theorem hmac_new_gates:
  "fst (hmac_new H key env) =
     (let w = state_loads env in
      case require_operational (w !! 0) of Inl e \<Rightarrow> Inl e | Inr _ \<Rightarrow>
      (case require_allowed (shd (profile_loads env)) (bh_service H) of Inl e \<Rightarrow> Inl e | Inr _ \<Rightarrow>
      (case require_self_test_started (os_tid env) (w !! 1) of Inl e \<Rightarrow> Inl e | Inr _ \<Rightarrow>
      (case require_self_test_started (os_tid env) (w !! 2) of Inl e \<Rightarrow> Inl e | Inr _ \<Rightarrow>
       Inr (hmac_seed H (bh_new H) key)))))"
  by (simp add: hmac_new_def hmac_new_internal_def block_new_def chain_def gate_operational_def
      gate_allowed_def gate_self_test_started_def Let_def numeral_2_eq_2 split: sum.splits)

end
