(* ===== verification/Hmac_Drbg.thy ===== *)
theory Hmac_Drbg
  imports Drbg_Mechanism Hmac
begin

unbundle bit_operations_syntax

text \<open>
  HMAC_DRBG of \<^verbatim>\<open>src/crates/oxicrypt-drbg/src/hmac.rs\<close> over HMAC-SHA-256, -384 and -512: the working
  state in 64-byte arrays, every operation on its refusal and success branches, and the mechanism of
  SP 800-90A section 10.1.2 it implements on pairs of a key and a value.
\<close>

subsection \<open>The MAC\<close>

definition HMAC_DRBG_MAX_PROVIDED :: usize where "HMAC_DRBG_MAX_PROVIDED = 768"

text \<open>The implementors of \<open>HmacAlg\<close>.\<close>

datatype hmac_alg = HmacSha256Alg | HmacSha384Alg | HmacSha512Alg

fun hmac_outlen :: "hmac_alg \<Rightarrow> usize" where
  "hmac_outlen HmacSha256Alg = 32"
| "hmac_outlen HmacSha384Alg = 48"
| "hmac_outlen HmacSha512Alg = 64"

fun hmac_drbg_service :: "hmac_alg \<Rightarrow> service" where
  "hmac_drbg_service HmacSha256Alg = DrbgS HmacDrbgSha256"
| "hmac_drbg_service HmacSha384Alg = DrbgS HmacDrbgSha384"
| "hmac_drbg_service HmacSha512Alg = DrbgS HmacDrbgSha512"

text \<open>\<open>mac\<close> of each implementor: the same body over its hash.\<close>

definition mac_with :: "'h block_hash \<Rightarrow> bytes \<Rightarrow> bytes list \<Rightarrow> (error, bytes) gated" where
  "mac_with H key parts =
     chain (hmac_new_internal H key) (\<lambda>h.
     chain (hmac_finalize H (foldl (hmac_update H) h parts)) (\<lambda>(tag, _). ok tag))"

fun hmac_mac :: "hmac_alg \<Rightarrow> bytes \<Rightarrow> bytes list \<Rightarrow> (error, bytes) gated" where
  "hmac_mac HmacSha256Alg key parts = mac_with hmac_sha256 key parts"
| "hmac_mac HmacSha384Alg key parts = mac_with hmac_sha384 key parts"
| "hmac_mac HmacSha512Alg key parts = mac_with hmac_sha512 key parts"

fun mac_spec :: "hmac_alg \<Rightarrow> bytes \<Rightarrow> bytes \<Rightarrow> bytes" where
  "mac_spec HmacSha256Alg = hmac_spec 64 sha256_spec"
| "mac_spec HmacSha384Alg = hmac_spec 128 sha384_spec"
| "mac_spec HmacSha512Alg = hmac_spec 128 sha512_spec"

lemma mac_with_guards:
  assumes "fst (hmac_finalize_with H (foldl (hmac_update H) (hmac_seed H (bh_new H) key) parts)) = t"
  shows "mac_with H key parts = guards 3 t"
proof
  fix env
  show "mac_with H key parts env = guards 3 t env"
    using assms
    by (auto simp: mac_with_def hmac_new_internal_def block_new_def hmac_finalize_def chain_def
        numeral_3_eq_3 split: prod.splits sum.splits)
qed

text \<open>A MAC loads the state three times: the MAC's guard, its hash's, and the one of \<open>finalize\<close>.\<close>

lemma hmac_mac_guards: "hmac_mac a key parts = guards 3 (mac_spec a key (concat parts))"
proof (cases a)
  case HmacSha256Alg
  have "hmac_mac HmacSha256Alg key parts = guards 3 (mac_spec HmacSha256Alg key (concat parts))"
    using hmac_sha256.hmac_streamed [of key parts]
    by (simp only: hmac_mac.simps mac_spec.simps) (rule mac_with_guards, simp add: hmac_sha256_def)
  with HmacSha256Alg show ?thesis by simp
next
  case HmacSha384Alg
  have "hmac_mac HmacSha384Alg key parts = guards 3 (mac_spec HmacSha384Alg key (concat parts))"
    using hmac_sha384.hmac_streamed [of key parts]
    by (simp only: hmac_mac.simps mac_spec.simps) (rule mac_with_guards, simp add: hmac_sha384_def)
  with HmacSha384Alg show ?thesis by simp
next
  case HmacSha512Alg
  have "hmac_mac HmacSha512Alg key parts = guards 3 (mac_spec HmacSha512Alg key (concat parts))"
    using hmac_sha512.hmac_streamed [of key parts]
    by (simp only: hmac_mac.simps mac_spec.simps) (rule mac_with_guards, simp add: hmac_sha512_def)
  with HmacSha512Alg show ?thesis by simp
qed

lemma length_mac_spec [simp]: "length (mac_spec a key text) = hmac_outlen a"
  using hmac_sha256.length_hmac hmac_sha384.length_hmac hmac_sha512.length_hmac
  by (cases a) (simp_all add: hmac_sha256_def hmac_sha384_def hmac_sha512_def)

lemma hmac_outlen_bounds [simp]: "0 < hmac_outlen a" "hmac_outlen a \<le> 64" "hmac_outlen a \<noteq> 0"
  by (cases a; simp)+

subsection \<open>The instance\<close>

record hmac_drbg = drbg_slot +
  hd_key :: bytes
  hd_v :: bytes

definition hmac_drbg_new :: hmac_drbg where
  "hmac_drbg_new = \<lparr>reseed_counter = 0, instantiated = False,
     hd_key = zeros MAX_OUTLEN, hd_v = zeros MAX_OUTLEN\<rparr>"

text \<open>One application of the MAC to the current key, replacing the key or the value.\<close>

definition rekey :: "hmac_alg \<Rightarrow> bytes list \<Rightarrow> (hmac_drbg, error, unit) action" where
  "rekey a parts = act_get (\<lambda>d.
     act_bind (act_gate (hmac_mac a (take (hmac_outlen a) (hd_key d)) parts)) (\<lambda>new_key.
     act_update (\<lambda>d. d\<lparr>hd_key := copy_at (hd_key d) 0 new_key\<rparr>)))"

definition revalue :: "hmac_alg \<Rightarrow> bytes \<Rightarrow> (hmac_drbg, error, unit) action" where
  "revalue a v = act_get (\<lambda>d.
     act_bind (act_gate (hmac_mac a (take (hmac_outlen a) (hd_key d)) [v])) (\<lambda>new_v.
     act_update (\<lambda>d. d\<lparr>hd_v := copy_at (hd_v d) 0 new_v\<rparr>)))"

text \<open>\<open>update\<close>: the second pair of MACs runs only on provided data.\<close>

definition hmac_drbg_update :: "hmac_alg \<Rightarrow> bytes option \<Rightarrow> (hmac_drbg, error, unit) action" where
  "hmac_drbg_update a provided_data =
     (let outlen = hmac_outlen a;
          pd = (case provided_data of None \<Rightarrow> [] | Some pd \<Rightarrow> pd)
      in act_get (\<lambda>d. let v_slice = take outlen (hd_v d) in
         act_bind (rekey a [v_slice, [0x00], pd]) (\<lambda>_.
         act_bind (revalue a v_slice) (\<lambda>_.
           if provided_data = None then act_ok ()
           else act_get (\<lambda>d. let v_slice2 = take outlen (hd_v d) in
             act_bind (rekey a [v_slice2, [0x01], pd]) (\<lambda>_. revalue a v_slice2))))))"

definition hmac_uninstantiate :: "hmac_drbg \<Rightarrow> hmac_drbg" where
  "hmac_uninstantiate d =
     d\<lparr>hd_key := zeros (length (hd_key d)), hd_v := zeros (length (hd_v d)),
       reseed_counter := 0, instantiated := False\<rparr>"

text \<open>\<open>Key = 0x00^outlen\<close>, \<open>V = 0x01^outlen\<close>.\<close>

definition hmac_initial :: "hmac_alg \<Rightarrow> hmac_drbg \<Rightarrow> hmac_drbg" where
  "hmac_initial a d =
     d\<lparr>hd_key := zeros MAX_OUTLEN,
       hd_v := foldl (\<lambda>v i. v[i := 0x01]) (zeros MAX_OUTLEN) [0..<hmac_outlen a]\<rparr>"

definition hmac_instantiate_internal ::
  "hmac_alg \<Rightarrow> bytes \<Rightarrow> bytes \<Rightarrow> bytes \<Rightarrow> (hmac_drbg, error, unit) action" where
  "hmac_instantiate_internal a entropy nonce personalization =
     act_bind (act_update hmac_uninstantiate) (\<lambda>_.
     case checked_sum [length entropy, length nonce, length personalization] of
       None \<Rightarrow> act_fail InvalidInput
     | Some len \<Rightarrow>
         if len > HMAC_DRBG_MAX_PROVIDED then act_fail InvalidInput
         else if length entropy < MIN_ENTROPY_LEN then act_fail EntropyInputTooShort
         else if length nonce < MIN_NONCE_LEN then act_fail NonceTooShort
         else
           act_bind (act_update (hmac_initial a)) (\<lambda>_.
           let seed_material = copy_at (copy_at (copy_at (zeros HMAC_DRBG_MAX_PROVIDED) 0 entropy)
                 (length entropy) nonce) (length entropy + length nonce) personalization
           in act_bind (hmac_drbg_update a (Some (take len seed_material))) (\<lambda>_.
              act_update (\<lambda>d. d\<lparr>reseed_counter := 1, instantiated := True\<rparr>))))"

definition hmac_instantiate ::
  "hmac_alg \<Rightarrow> bytes \<Rightarrow> bytes \<Rightarrow> bytes \<Rightarrow> (hmac_drbg, error, unit) action" where
  "hmac_instantiate a entropy nonce personalization =
     act_bind (act_gate gate_operational) (\<lambda>_.
     act_bind (act_gate (gate_allowed (hmac_drbg_service a))) (\<lambda>_.
     hmac_instantiate_internal a entropy nonce personalization))"

definition hmac_reseed :: "hmac_alg \<Rightarrow> bytes \<Rightarrow> bytes \<Rightarrow> (hmac_drbg, drbg_error, unit) action" where
  "hmac_reseed a entropy additional_input = act_get (\<lambda>d.
     if \<not> instantiated d then act_fail Uninstantiated
     else case checked_sum [length entropy, length additional_input] of
       None \<Rightarrow> act_fail InputTooLong
     | Some len \<Rightarrow>
         if len > HMAC_DRBG_MAX_PROVIDED then act_fail InputTooLong
         else if length entropy < MIN_ENTROPY_LEN then act_fail DrbgEntropyInputTooShort
         else
           let seed_material = copy_at (copy_at (zeros HMAC_DRBG_MAX_PROVIDED) 0 entropy)
                 (length entropy) additional_input
           in act_bind (act_map_err DrbgModule (hmac_drbg_update a (Some (take len seed_material)))) (\<lambda>_.
              act_update (\<lambda>d. d\<lparr>reseed_counter := 1\<rparr>)))"

text \<open>One iteration of step 4, \<open>V = HMAC(K, V)\<close>, and the block it contributes.\<close>

definition hmac_next_block :: "hmac_alg \<Rightarrow> (hmac_drbg, error, bytes) action" where
  "hmac_next_block a = act_get (\<lambda>d.
     act_bind (revalue a (take (hmac_outlen a) (hd_v d))) (\<lambda>_.
     act_get (\<lambda>d. act_ok (take (hmac_outlen a) (hd_v d)))))"

definition hmac_generate_unwiped ::
  "hmac_alg \<Rightarrow> bytes option \<Rightarrow> (hmac_drbg \<times> bytes, drbg_error, unit) action" where
  "hmac_generate_unwiped a additional_input = act_get (\<lambda>(d, out).
     if \<not> instantiated d then act_fail Uninstantiated
     else if length out > MAX_BITS_PER_REQ then act_fail RequestTooLong
     else if reseed_counter d > RESEED_INTERVAL then act_fail ReseedRequired
     else
       act_bind (case additional_input of
           None \<Rightarrow> act_ok ()
         | Some ai \<Rightarrow>
             if length ai > HMAC_DRBG_MAX_PROVIDED then act_fail InputTooLong
             else act_fst (act_map_err DrbgModule (hmac_drbg_update a (Some ai)))) (\<lambda>_.
       act_bind (act_map_err DrbgModule (fill_blocks (hmac_outlen a) (hmac_next_block a) 0)) (\<lambda>_.
       act_fst (act_bind (act_map_err DrbgModule (hmac_drbg_update a additional_input)) (\<lambda>_.
         act_update (\<lambda>d. d\<lparr>reseed_counter := reseed_counter d + 1\<rparr>))))))"

definition hmac_generate ::
  "hmac_alg \<Rightarrow> bytes option \<Rightarrow> (hmac_drbg \<times> bytes, drbg_error, unit) action" where
  "hmac_generate a additional_input = wiping (hmac_generate_unwiped a additional_input)"

definition hmac_generate_pr ::
  "hmac_alg \<Rightarrow> bytes \<Rightarrow> bytes \<Rightarrow> (hmac_drbg \<times> bytes, drbg_error, unit) action" where
  "hmac_generate_pr a entropy additional_input =
     act_bind (act_fst (hmac_reseed a entropy additional_input)) (\<lambda>_. hmac_generate a None)"

definition hmac_force_reseed_ceiling :: "hmac_drbg \<Rightarrow> hmac_drbg" where
  "hmac_force_reseed_ceiling d = d\<lparr>reseed_counter := RESEED_INTERVAL + 1\<rparr>"


subsection \<open>SP 800-90A section 10.1.2\<close>

text \<open>The update function, and the instantiate, reseed and generate functions on the key and value.\<close>

fun hmac_update_spec :: "(bytes \<Rightarrow> bytes \<Rightarrow> bytes) \<Rightarrow> bytes option \<Rightarrow> bytes \<times> bytes \<Rightarrow> bytes \<times> bytes" where
  "hmac_update_spec mac None (k, v) = (let k = mac k (v @ [0x00]); v = mac k v in (k, v))"
| "hmac_update_spec mac (Some pd) (k, v) =
     (let k = mac k (v @ [0x00] @ pd); v = mac k v;
          k = mac k (v @ [0x01] @ pd); v = mac k v in (k, v))"

definition hmac_instantiate_spec :: "(bytes \<Rightarrow> bytes \<Rightarrow> bytes) \<Rightarrow> nat \<Rightarrow> bytes \<Rightarrow> bytes \<times> bytes" where
  "hmac_instantiate_spec mac n seed = hmac_update_spec mac (Some seed) (replicate n 0x00, replicate n 0x01)"

definition hmac_generate_spec ::
  "(bytes \<Rightarrow> bytes \<Rightarrow> bytes) \<Rightarrow> nat \<Rightarrow> bytes option \<Rightarrow> nat \<Rightarrow> bytes \<times> bytes \<Rightarrow> bytes \<times> bytes \<times> bytes" where
  "hmac_generate_spec mac n ai len kv =
     (let (k, v) = (if ai = None then kv else hmac_update_spec mac ai kv);
          m = blocks_for n len;
          out = block_bytes n (\<lambda>j. (mac k ^^ Suc j) v) len
      in (out, hmac_update_spec mac ai (k, (mac k ^^ m) v)))"

subsection \<open>The operations under the guards\<close>

definition hmac_wf :: "hmac_drbg \<Rightarrow> bool" where
  "hmac_wf d \<longleftrightarrow> length (hd_key d) = MAX_OUTLEN \<and> length (hd_v d) = MAX_OUTLEN"

definition hmac_kv :: "hmac_alg \<Rightarrow> hmac_drbg \<Rightarrow> bytes \<times> bytes" where
  "hmac_kv a d = (take (hmac_outlen a) (hd_key d), take (hmac_outlen a) (hd_v d))"

definition hmac_put :: "bytes \<times> bytes \<Rightarrow> hmac_drbg \<Rightarrow> hmac_drbg" where
  "hmac_put kv d = d\<lparr>hd_key := copy_at (hd_key d) 0 (fst kv), hd_v := copy_at (hd_v d) 0 (snd kv)\<rparr>"

text \<open>What an interrupted operation keeps of the instance: its arrays' sizes, counter and flag.\<close>

definition hmac_kept :: "hmac_drbg \<Rightarrow> hmac_drbg \<Rightarrow> bool" where
  "hmac_kept d d' \<longleftrightarrow> hmac_wf d' \<and> drbg_slot.truncate d' = drbg_slot.truncate d"

lemma MAX_OUTLEN_simp: "MAX_OUTLEN = 64"
  by (simp add: MAX_OUTLEN_def)

lemma hmac_put_simps [simp]:
  assumes "hmac_wf d" "length (fst kv) = hmac_outlen a" "length (snd kv) = hmac_outlen a"
  shows "hmac_wf (hmac_put kv d)" "hmac_kv a (hmac_put kv d) = kv"
    "length (fst kv') = hmac_outlen a \<Longrightarrow> length (snd kv') = hmac_outlen a \<Longrightarrow>
      hmac_put kv' (hmac_put kv d) = hmac_put kv' d"
  using assms hmac_outlen_bounds [of a]
  by (simp_all add: hmac_wf_def hmac_kv_def hmac_put_def MAX_OUTLEN_simp copy_at_def prod_eq_iff)

lemma hmac_put_slot [simp]:
  "reseed_counter (hmac_put kv d) = reseed_counter d" "instantiated (hmac_put kv d) = instantiated d"
  "drbg_slot.truncate (hmac_put kv d) = drbg_slot.truncate d"
  by (simp_all add: hmac_put_def drbg_slot.truncate_def)

lemma hmac_put_self: "hmac_wf d \<Longrightarrow> hmac_put (hmac_kv a d) d = d"
  using hmac_outlen_bounds [of a]
  by (simp add: hmac_wf_def hmac_kv_def hmac_put_def MAX_OUTLEN_simp copy_at_def min_def)

lemma hmac_kv_lengths:
  "hmac_wf d \<Longrightarrow> length (fst (hmac_kv a d)) = hmac_outlen a \<and> length (snd (hmac_kv a d)) = hmac_outlen a"
  using hmac_outlen_bounds [of a] by (simp add: hmac_wf_def hmac_kv_def MAX_OUTLEN_simp)

lemma hmac_kept_put:
  "hmac_wf d \<Longrightarrow> length (fst kv) = hmac_outlen a \<Longrightarrow> length (snd kv) = hmac_outlen a \<Longrightarrow>
     hmac_kept d (hmac_put kv d)"
  by (simp add: hmac_kept_def)

lemma rekey_run:
  assumes "hmac_wf d" "hmac_kept d0 d"
  shows "guarded_run id (hmac_kept d0) (rekey a parts) d 3 ()
    (hmac_put (mac_spec a (fst (hmac_kv a d)) (concat parts), snd (hmac_kv a d)) d)"
proof -
  have "guarded_run id (hmac_kept d0) (rekey a parts) d 3 ()
      (d\<lparr>hd_key := copy_at (hd_key d) 0 (mac_spec a (fst (hmac_kv a d)) (concat parts))\<rparr>)"
    unfolding rekey_def hmac_kv_def fst_conv hmac_mac_guards
    by (rule guarded_run_get, rule guarded_run_guards_update, rule assms(2))
  moreover have "copy_at (hd_v d) 0 (snd (hmac_kv a d)) = hd_v d"
    using assms(1) hmac_outlen_bounds [of a]
    by (simp add: copy_at_def hmac_kv_def hmac_wf_def MAX_OUTLEN_simp min_def)
  ultimately show ?thesis by (simp add: hmac_put_def)
qed

lemma revalue_run:
  assumes "hmac_wf d" "hmac_kept d0 d"
  shows "guarded_run id (hmac_kept d0) (revalue a v) d 3 ()
    (hmac_put (fst (hmac_kv a d), mac_spec a (fst (hmac_kv a d)) v) d)"
proof -
  have "guarded_run id (hmac_kept d0) (revalue a v) d 3 ()
      (d\<lparr>hd_v := copy_at (hd_v d) 0 (mac_spec a (fst (hmac_kv a d)) (concat [v]))\<rparr>)"
    unfolding revalue_def hmac_kv_def fst_conv hmac_mac_guards
    by (rule guarded_run_get, rule guarded_run_guards_update, rule assms(2))
  moreover have "copy_at (hd_key d) 0 (fst (hmac_kv a d)) = hd_key d"
    using assms(1) hmac_outlen_bounds [of a]
    by (simp add: copy_at_def hmac_kv_def hmac_wf_def MAX_OUTLEN_simp min_def)
  ultimately show ?thesis by (simp add: hmac_put_def)
qed


lemma hmac_put_runs:
  assumes "hmac_wf d" "length k = hmac_outlen a" "length v = hmac_outlen a"
  shows "guarded_run id (hmac_kept d) (rekey a parts) (hmac_put (k, v) d) 3 ()
      (hmac_put (mac_spec a k (concat parts), v) d)"
    and "guarded_run id (hmac_kept d) (revalue a x) (hmac_put (k, v) d) 3 ()
      (hmac_put (k, mac_spec a k x) d)"
proof -
  have kept: "hmac_wf (hmac_put (k, v) d)" "hmac_kept d (hmac_put (k, v) d)" "hmac_kv a (hmac_put (k, v) d) = (k, v)"
    using assms by (simp_all add: hmac_kept_put)
  show "guarded_run id (hmac_kept d) (rekey a parts) (hmac_put (k, v) d) 3 ()
      (hmac_put (mac_spec a k (concat parts), v) d)"
    using rekey_run [OF kept(1,2), of a parts] assms unfolding kept(3) by simp
  show "guarded_run id (hmac_kept d) (revalue a x) (hmac_put (k, v) d) 3 ()
      (hmac_put (k, mac_spec a k x) d)"
    using revalue_run [OF kept(1,2), of a x] assms unfolding kept(3) by simp
qed

definition update_loads :: "bytes option \<Rightarrow> nat" where
  "update_loads pd = (case pd of None \<Rightarrow> 6 | Some _ \<Rightarrow> 12)"

lemma hmac_update_run_put:
  assumes wf: "hmac_wf d" and lens: "length (fst kv) = hmac_outlen a" "length (snd kv) = hmac_outlen a"
  shows "guarded_run id (hmac_kept d) (hmac_drbg_update a pd) (hmac_put kv d) (update_loads pd) ()
    (hmac_put (hmac_update_spec (mac_spec a) pd kv) d)"
proof -
  obtain k v where kv: "kv = (k, v)" by (cases kv)
  let ?data = "case pd of None \<Rightarrow> [] | Some pd \<Rightarrow> pd"
  define k1 v1 where "k1 = mac_spec a k (v @ [0x00] @ ?data)" and "v1 = mac_spec a k1 v"
  define k2 v2 where "k2 = mac_spec a k1 (v1 @ [0x01] @ ?data)" and "v2 = mac_spec a k2 v1"
  note runs = hmac_put_runs [OF wf]
  have l: "length k = hmac_outlen a" "length v = hmac_outlen a" "length k1 = hmac_outlen a"
    "length v1 = hmac_outlen a" "length k2 = hmac_outlen a"
    using lens kv by (simp_all add: k1_def v1_def k2_def)
  have slices: "take (hmac_outlen a) (hd_v (hmac_put (x, y) d)) = y"
    if "length x = hmac_outlen a" "length y = hmac_outlen a" for x y
    using hmac_put_simps(2) [OF wf, of "(x, y)" a] that by (simp add: hmac_kv_def)
  have run1: "guarded_run id (hmac_kept d) (rekey a [v, [0x00], ?data]) (hmac_put (k, v) d) 3 ()
      (hmac_put (k1, v) d)"
    using runs(1) [OF l(1,2), of "[v, [0x00], ?data]"] by (simp add: k1_def)
  note run2 = runs(2) [OF l(3,2), of v, folded v1_def]
  have run3: "guarded_run id (hmac_kept d) (rekey a [v1, [0x01], ?data]) (hmac_put (k1, v1) d) 3 ()
      (hmac_put (k2, v1) d)"
    using runs(1) [OF l(3,4), of "[v1, [0x01], ?data]"] by (simp add: k2_def)
  note run4 = runs(2) [OF l(5,4), of v1, folded v2_def]
  show ?thesis
  proof (cases pd)
    case None
    have "guarded_run id (hmac_kept d) (hmac_drbg_update a None) (hmac_put (k, v) d) (3 + (3 + 0)) ()
        (hmac_put (k1, v1) d)"
      unfolding hmac_drbg_update_def Let_def
      by (rule guarded_run_get, simp only: slices l option.case simp_thms if_True)
        (rule guarded_run_then [OF run1 [unfolded None option.case]
          guarded_run_then [OF run2 guarded_run_ok]])
    then show ?thesis using None by (simp add: kv update_loads_def k1_def v1_def Let_def)
  next
    case (Some data)
    have "guarded_run id (hmac_kept d) (hmac_drbg_update a (Some data)) (hmac_put (k, v) d)
        (3 + (3 + (3 + 3))) () (hmac_put (k2, v2) d)"
      unfolding hmac_drbg_update_def Let_def
    proof (rule guarded_run_get, simp only: slices l option.case option.simps if_False,
        intro guarded_run_then [OF run1 [unfolded Some option.case] guarded_run_then [OF run2]])
      show "guarded_run id (hmac_kept d) (act_get (\<lambda>d.
          act_bind (rekey a [take (hmac_outlen a) (hd_v d), [0x01], data])
            (\<lambda>_. revalue a (take (hmac_outlen a) (hd_v d))))) (hmac_put (k1, v1) d) (3 + 3) ()
          (hmac_put (k2, v2) d)"
        by (rule guarded_run_get, simp only: slices l)
          (rule guarded_run_then [OF run3 [unfolded Some option.case] run4])
    qed
    then show ?thesis using Some by (simp add: kv update_loads_def k1_def v1_def k2_def v2_def Let_def)
  qed
qed


lemma hmac_next_block_run:
  assumes "hmac_wf d" "length k = hmac_outlen a" "length v = hmac_outlen a"
  shows "guarded_run id (hmac_kept d) (hmac_next_block a) (hmac_put (k, v) d) 3 (mac_spec a k v)
    (hmac_put (k, mac_spec a k v) d)"
proof -
  have slice: "take (hmac_outlen a) (hd_v (hmac_put (k, y) d)) = y" if "length y = hmac_outlen a" for y
    using hmac_put_simps(2) [OF assms(1), of "(k, y)" a] that assms by (simp add: hmac_kv_def)
  have "guarded_run id (hmac_kept d) (act_get (\<lambda>d. act_ok (take (hmac_outlen a) (hd_v d))))
      (hmac_put (k, mac_spec a k v) d) 0 (mac_spec a k v) (hmac_put (k, mac_spec a k v) d)"
    by (rule guarded_run_get, simp only: slice length_mac_spec) (rule guarded_run_ok)
  from guarded_run_then [OF hmac_put_runs(2) [OF assms] this]
  show ?thesis
    unfolding hmac_next_block_def by (intro guarded_run_get) (simp only: slice assms add_0_right)
qed

lemma hmac_blocks_run:
  assumes "hmac_wf d" "length k = hmac_outlen a" "length v = hmac_outlen a"
  shows "guarded_run id (\<lambda>(d', out'). hmac_kept d d' \<and> length out' = length out)
    (fill_blocks (hmac_outlen a) (hmac_next_block a) 0) (hmac_put (k, v) d, out)
    (3 * blocks_for (hmac_outlen a) (length out)) ()
    (hmac_put (k, (mac_spec a k ^^ blocks_for (hmac_outlen a) (length out)) v) d,
     block_bytes (hmac_outlen a) (\<lambda>j. (mac_spec a k ^^ Suc j) v) (length out))"
proof -
  have l: "length ((mac_spec a k ^^ j) v) = hmac_outlen a" for j
    using assms(3) by (cases j) simp_all
  have "guarded_run id (hmac_kept d) (hmac_next_block a) (hmac_put (k, (mac_spec a k ^^ j) v) d) 3
      ((mac_spec a k ^^ Suc j) v) (hmac_put (k, (mac_spec a k ^^ Suc j) v) d)" for j
    using hmac_next_block_run [OF assms(1,2) l] by simp
  from guarded_run_fill [of "hmac_outlen a" id "hmac_kept d" "hmac_next_block a"
      "\<lambda>j. hmac_put (k, (mac_spec a k ^^ j) v) d", OF _ this]
  show ?thesis using l by simp
qed

lemma ones_prefix: "n \<le> length xs \<Longrightarrow> foldl (\<lambda>v i. v[i := x]) xs [0..<n] = replicate n x @ drop n xs"
proof (induction n)
  case (Suc n)
  then have "drop n xs = xs ! n # drop (Suc n) xs" by (simp add: Cons_nth_drop_Suc)
  with Suc show ?case by (simp add: replicate_append_same [symmetric] list_update_append)
qed simp

lemma hmac_initial_kv:
  assumes "hmac_wf d"
  shows "hmac_wf (hmac_initial a d)"
    "hmac_kv a (hmac_initial a d) = (replicate (hmac_outlen a) 0, replicate (hmac_outlen a) 1)"
  using hmac_outlen_bounds [of a]
  by (simp_all add: hmac_wf_def hmac_initial_def hmac_kv_def MAX_OUTLEN_simp ones_prefix zeros_def)

text \<open>Instantiate: a refused length leaves the instance wiped, anything else runs one update.\<close>

definition hmac_seeded :: "hmac_alg \<Rightarrow> bytes \<Rightarrow> hmac_drbg \<Rightarrow> hmac_drbg" where
  "hmac_seeded a seed d =
     (hmac_put (hmac_instantiate_spec (mac_spec a) (hmac_outlen a) seed) (hmac_initial a d))
       \<lparr>reseed_counter := 1, instantiated := True\<rparr>"

lemma hmac_instantiate_refused:
  assumes "seed_refusal HMAC_DRBG_MAX_PROVIDED (length e) (length n) (length p) = Some err"
  shows "hmac_instantiate_internal a e n p d env = (Inl err, hmac_uninstantiate d, env)"
  using assms
  by (simp add: hmac_instantiate_internal_def seed_refusal_def checked_sum_eq act_bind_def act_simps
      HMAC_DRBG_MAX_PROVIDED_def add.assoc split: if_splits)

lemma hmac_instantiate_run:
  assumes "seed_refusal HMAC_DRBG_MAX_PROVIDED (length e) (length n) (length p) = None" "hmac_wf d"
  shows "guarded_run id (\<lambda>d'. hmac_wf d' \<and> \<not> instantiated d' \<and> reseed_counter d' = 0)
    (hmac_instantiate_internal a e n p) d 12 () (hmac_seeded a (e @ n @ p) (hmac_uninstantiate d))"
proof -
  let ?d = "hmac_initial a (hmac_uninstantiate d)"
  let ?P = "\<lambda>d'. hmac_wf d' \<and> \<not> instantiated d' \<and> reseed_counter d' = 0"
  have fits: "\<not> length e + length n + length p > HMAC_DRBG_MAX_PROVIDED" "\<not> length e < MIN_ENTROPY_LEN"
    "\<not> length n < MIN_NONCE_LEN"
    using assms(1) by (auto simp: seed_refusal_def split: if_splits)
  have wf: "hmac_wf (hmac_uninstantiate d)"
    using assms(2) by (simp add: hmac_wf_def hmac_uninstantiate_def)
  note init = hmac_initial_kv [OF wf, of a]
  have "guarded_run id (hmac_kept ?d) (hmac_drbg_update a (Some (e @ n @ p)))
      (hmac_put (hmac_kv a ?d) ?d) 12 ()
      (hmac_put (hmac_instantiate_spec (mac_spec a) (hmac_outlen a) (e @ n @ p)) ?d)"
    using hmac_update_run_put [OF init(1), of "hmac_kv a ?d" a "Some (e @ n @ p)"]
    by (simp add: init(2) hmac_instantiate_spec_def update_loads_def)
  then have "guarded_run id (hmac_kept ?d) (hmac_drbg_update a (Some (e @ n @ p))) ?d 12 ()
      (hmac_put (hmac_instantiate_spec (mac_spec a) (hmac_outlen a) (e @ n @ p)) ?d)"
    by (simp only: hmac_put_self [OF init(1)])
  then have run: "guarded_run id ?P (hmac_drbg_update a (Some (e @ n @ p))) ?d 12 ()
      (hmac_put (hmac_instantiate_spec (mac_spec a) (hmac_outlen a) (e @ n @ p)) ?d)"
    by (rule guarded_run_weaken)
      (auto simp: hmac_kept_def drbg_slot.truncate_def hmac_initial_def hmac_uninstantiate_def)
  have seed: "take (length e + length n + length p)
      (copy_at (copy_at (copy_at (zeros HMAC_DRBG_MAX_PROVIDED) 0 e) (length e) n) (length e + length n) p) =
      e @ n @ p"
    using fits(1) by (intro take_copy_at_3) simp
  have len: "checked_sum [length e, length n, length p] = Some (length e + length n + length p)"
    using fits(1) by (simp add: checked_sum_eq HMAC_DRBG_MAX_PROVIDED_def)
  have "guarded_run id ?P (hmac_instantiate_internal a e n p) d (0 + (0 + (12 + 0))) ()
      (hmac_seeded a (e @ n @ p) (hmac_uninstantiate d))"
    unfolding hmac_instantiate_internal_def len option.case Let_def seed hmac_seeded_def
    by (simp only: fits if_False)
      (intro guarded_run_then [OF guarded_run_update] guarded_run_then [OF run] guarded_run_update)
  then show ?thesis by simp
qed


text \<open>Reseed.\<close>

lemma hmac_reseed_refused:
  assumes "reseed_refusal HMAC_DRBG_MAX_PROVIDED 0 (drbg_slot.truncate d) (length e) (length ai) = Some err"
  shows "hmac_reseed a e ai d env = (Inl err, d, env)"
  using assms
  by (simp add: hmac_reseed_def reseed_refusal_def checked_sum_eq act_bind_def act_simps
      HMAC_DRBG_MAX_PROVIDED_def drbg_slot.truncate_def split: if_splits)

lemma hmac_update_run:
  assumes "hmac_wf d"
  shows "guarded_run DrbgModule (hmac_kept d) (act_map_err DrbgModule (hmac_drbg_update a pd)) d
    (update_loads pd) () (hmac_put (hmac_update_spec (mac_spec a) pd (hmac_kv a d)) d)"
proof -
  have "guarded_run id (hmac_kept d) (hmac_drbg_update a pd) (hmac_put (hmac_kv a d) d) (update_loads pd) ()
      (hmac_put (hmac_update_spec (mac_spec a) pd (hmac_kv a d)) d)"
    using assms hmac_kv_lengths [OF assms, of a] by (intro hmac_update_run_put) simp_all
  from guarded_run_map_err [OF this, of DrbgModule] show ?thesis by (simp add: hmac_put_self [OF assms])
qed

lemma hmac_reseed_run:
  assumes "reseed_refusal HMAC_DRBG_MAX_PROVIDED 0 (drbg_slot.truncate d) (length e) (length ai) = None"
    and wf: "hmac_wf d"
  shows "guarded_run DrbgModule (hmac_kept d) (hmac_reseed a e ai) d 12 ()
    ((hmac_put (hmac_update_spec (mac_spec a) (Some (e @ ai)) (hmac_kv a d)) d)\<lparr>reseed_counter := 1\<rparr>)"
proof -
  have fits: "\<not> length e + length ai > HMAC_DRBG_MAX_PROVIDED" "\<not> length e < MIN_ENTROPY_LEN" "instantiated d"
    using assms(1) by (auto simp: reseed_refusal_def drbg_slot.truncate_def split: if_splits)
  have seed: "take (length e + length ai)
      (copy_at (copy_at (zeros HMAC_DRBG_MAX_PROVIDED) 0 e) (length e) ai) = e @ ai"
    using fits(1) by (intro take_copy_at_2) simp
  have len: "checked_sum [length e, length ai] = Some (length e + length ai)"
    using fits(1) by (simp add: checked_sum_eq HMAC_DRBG_MAX_PROVIDED_def)
  have "guarded_run DrbgModule (hmac_kept d) (hmac_reseed a e ai) d (12 + 0) ()
    ((hmac_put (hmac_update_spec (mac_spec a) (Some (e @ ai)) (hmac_kv a d)) d)\<lparr>reseed_counter := 1\<rparr>)"
    unfolding hmac_reseed_def
    by (rule guarded_run_get, simp only: len option.case Let_def seed fits if_False simp_thms)
      (rule guarded_run_then [OF hmac_update_run [OF wf, of a "Some (e @ ai)", unfolded update_loads_def option.case]
        guarded_run_update])
  then show ?thesis by simp
qed

text \<open>Generate: the buffer is written by the loop and wiped by every error.\<close>

lemma hmac_generate_refused:
  assumes "generate_refusal HMAC_DRBG_MAX_PROVIDED 0 (drbg_slot.truncate d) ai (length out) = Some err"
  shows "hmac_generate a ai (d, out) env = (Inl err, (d, zeros (length out)), env)"
  using assms
  by (cases ai)
    (auto simp: hmac_generate_def wiping_def hmac_generate_unwiped_def generate_refusal_def act_bind_def
      act_simps drbg_slot.truncate_def split: if_splits)

definition generate_loads :: "hmac_alg \<Rightarrow> bytes option \<Rightarrow> nat \<Rightarrow> nat" where
  "generate_loads a ai len =
     (if ai = None then 0 else 12) + (3 * blocks_for (hmac_outlen a) len + update_loads ai)"

lemma hmac_generate_run:
  assumes "generate_refusal HMAC_DRBG_MAX_PROVIDED 0 (drbg_slot.truncate d) ai (length out) = None"
    and wf: "hmac_wf d"
    and res_def: "res = hmac_generate_spec (mac_spec a) (hmac_outlen a) ai (length out) (hmac_kv a d)"
  shows "guarded_run DrbgModule (\<lambda>(d', out'). hmac_kept d d' \<and> out' = zeros (length out))
    (hmac_generate a ai) (d, out) (generate_loads a ai (length out)) ()
    ((hmac_put (snd res) d)\<lparr>reseed_counter := reseed_counter d + 1\<rparr>, fst res)"
proof -
  let ?P = "\<lambda>(d', out'). hmac_kept d d' \<and> length out' = length out"
  have fits: "instantiated d" "\<not> length out > MAX_BITS_PER_REQ" "\<not> reseed_counter d > RESEED_INTERVAL"
    using assms(1) by (auto simp: generate_refusal_def drbg_slot.truncate_def split: if_splits)
  have ai: "\<not> length input > HMAC_DRBG_MAX_PROVIDED" if "ai = Some input" for input
    using assms(1) that by (auto simp: generate_refusal_def split: if_splits)
  define kv where "kv = (if ai = None then hmac_kv a d else hmac_update_spec (mac_spec a) ai (hmac_kv a d))"
  obtain k v where k: "kv = (k, v)" by (cases kv)
  note kvl = hmac_kv_lengths [OF wf, of a]
  have l: "length k = hmac_outlen a" "length v = hmac_outlen a"
  proof -
    have "length (fst kv) = hmac_outlen a \<and> length (snd kv) = hmac_outlen a"
      using kvl by (cases ai; cases "hmac_kv a d") (simp_all add: kv_def Let_def)
    then show "length k = hmac_outlen a" "length v = hmac_outlen a" by (simp_all add: k)
  qed
  let ?m = "blocks_for (hmac_outlen a) (length out)"
  let ?out = "block_bytes (hmac_outlen a) (\<lambda>j. (mac_spec a k ^^ Suc j) v) (length out)"
  let ?v = "(mac_spec a k ^^ ?m) v"
  have lv: "length ?v = hmac_outlen a" using l by (cases ?m) simp_all
  have lo: "length ?out = length out" by (intro length_block_bytes) simp_all
  have res: "res = (?out, hmac_update_spec (mac_spec a) ai (k, ?v))"
    using k by (simp add: res_def hmac_generate_spec_def kv_def)
  have part1: "guarded_run DrbgModule ?P (case ai of
           None \<Rightarrow> act_ok ()
         | Some ai \<Rightarrow>
             if length ai > HMAC_DRBG_MAX_PROVIDED then act_fail InputTooLong
             else act_fst (act_map_err DrbgModule (hmac_drbg_update a (Some ai)))) (d, out)
      (if ai = None then 0 else 12) () (hmac_put (k, v) d, out)"
  proof (cases ai)
    case None
    then have "hmac_put (k, v) d = d" using k hmac_put_self [OF wf, of a] by (simp add: kv_def)
    with None show ?thesis by (simp add: guarded_run_ok)
  next
    case (Some input)
    have "guarded_run DrbgModule ?P (act_fst (act_map_err DrbgModule (hmac_drbg_update a (Some input)))) (d, out)
        12 () (hmac_put (hmac_update_spec (mac_spec a) ai (hmac_kv a d)) d, out)"
      using hmac_update_run [OF wf, of a ai] Some
      by (intro guarded_run_fst [of _ "hmac_kept d"]) (simp_all add: update_loads_def)
    with Some k ai show ?thesis by (simp add: kv_def)
  qed
  have part2: "guarded_run DrbgModule ?P (act_map_err DrbgModule (fill_blocks (hmac_outlen a) (hmac_next_block a) 0))
      (hmac_put (k, v) d, out) (3 * ?m) () (hmac_put (k, ?v) d, ?out)"
    using guarded_run_map_err [OF hmac_blocks_run [OF wf l, of out], of DrbgModule] by simp
  have wf': "hmac_wf (hmac_put (k, ?v) d)" "hmac_kv a (hmac_put (k, ?v) d) = (k, ?v)"
    using hmac_put_simps(1,2) [OF wf, of "(k, ?v)" a] l lv by simp_all
  have upd: "hmac_put (hmac_update_spec (mac_spec a) ai (k, ?v)) (hmac_put (k, ?v) d) =
      hmac_put (hmac_update_spec (mac_spec a) ai (k, ?v)) d"
    using l lv by (intro hmac_put_simps(3) [OF wf, of _ a]) (cases ai; simp add: Let_def)+
  have kept: "hmac_kept (hmac_put (k, ?v) d) = hmac_kept d" by (simp add: hmac_kept_def fun_eq_iff)
  have "guarded_run DrbgModule (hmac_kept d) (act_bind (act_map_err DrbgModule (hmac_drbg_update a ai)) (\<lambda>_.
         act_update (\<lambda>d. d\<lparr>reseed_counter := reseed_counter d + 1\<rparr>))) (hmac_put (k, ?v) d) (update_loads ai + 0) ()
      ((hmac_put (snd res) d)\<lparr>reseed_counter := reseed_counter d + 1\<rparr>)"
    using guarded_run_then [OF hmac_update_run [OF wf'(1), of a ai, unfolded wf'(2) upd kept]
        guarded_run_update [of DrbgModule "hmac_kept d" "\<lambda>d. d\<lparr>reseed_counter := reseed_counter d + 1\<rparr>"]]
    by (simp add: res)
  then have part3: "guarded_run DrbgModule ?P (act_fst (act_bind (act_map_err DrbgModule (hmac_drbg_update a ai)) (\<lambda>_.
         act_update (\<lambda>d. d\<lparr>reseed_counter := reseed_counter d + 1\<rparr>)))) (hmac_put (k, ?v) d, ?out) (update_loads ai) ()
      ((hmac_put (snd res) d)\<lparr>reseed_counter := reseed_counter d + 1\<rparr>, ?out)"
    using lo by (intro guarded_run_fst [of _ "hmac_kept d"]) simp_all
  have "guarded_run DrbgModule ?P (hmac_generate_unwiped a ai) (d, out) (generate_loads a ai (length out)) ()
      ((hmac_put (snd res) d)\<lparr>reseed_counter := reseed_counter d + 1\<rparr>, fst res)"
    unfolding hmac_generate_unwiped_def generate_loads_def
    by (rule guarded_run_get, simp only: prod.case fits if_False simp_thms)
      (use guarded_run_then [OF part1 guarded_run_then [OF part2 part3]] res in simp)
  then show ?thesis
    unfolding hmac_generate_def by (rule guarded_run_weaken [OF guarded_run_wiping]) auto
qed


lemma hmac_seeded_simps:
  assumes "hmac_wf d"
  shows "hmac_wf (hmac_seeded a seed d)"
    "hmac_kv a (hmac_seeded a seed d) = hmac_instantiate_spec (mac_spec a) (hmac_outlen a) seed"
    "drbg_slot.truncate (hmac_seeded a seed d) = \<lparr>reseed_counter = 1, instantiated = True\<rparr>"
proof -
  let ?kv = "hmac_instantiate_spec (mac_spec a) (hmac_outlen a) seed"
  have "length (fst ?kv) = hmac_outlen a" "length (snd ?kv) = hmac_outlen a"
    by (simp_all add: hmac_instantiate_spec_def Let_def)
  note put = hmac_put_simps(1,2) [OF hmac_initial_kv(1) [OF assms] this]
  show "hmac_wf (hmac_seeded a seed d)" "hmac_kv a (hmac_seeded a seed d) = ?kv"
    "drbg_slot.truncate (hmac_seeded a seed d) = \<lparr>reseed_counter = 1, instantiated = True\<rparr>"
    using put by (simp_all add: hmac_seeded_def hmac_wf_def hmac_kv_def drbg_slot.truncate_def)
qed

lemma hmac_wf_uninstantiate [simp]: "hmac_wf (hmac_uninstantiate d) = hmac_wf d"
  by (simp add: hmac_wf_def hmac_uninstantiate_def)

subsection \<open>The contract of the mechanism\<close>

lemma hmac_kept_eq: "hmac_kept d = (\<lambda>d'. hmac_wf d' \<and> drbg_slot.truncate d' = drbg_slot.truncate d)"
  by (simp add: hmac_kept_def fun_eq_iff)

lemma length_hmac_update_spec:
  assumes "length (fst kv) = hmac_outlen a" "length (snd kv) = hmac_outlen a"
  shows "length (fst (hmac_update_spec (mac_spec a) pd kv)) = hmac_outlen a"
    "length (snd (hmac_update_spec (mac_spec a) pd kv)) = hmac_outlen a"
  using assms by (cases kv; cases pd; simp add: Let_def)+

lemma length_hmac_generate_spec:
  assumes "length (fst kv) = hmac_outlen a" "length (snd kv) = hmac_outlen a"
  shows "length (fst (hmac_generate_spec (mac_spec a) (hmac_outlen a) ai n kv)) = n"
    "length (fst (snd (hmac_generate_spec (mac_spec a) (hmac_outlen a) ai n kv))) = hmac_outlen a"
    "length (snd (snd (hmac_generate_spec (mac_spec a) (hmac_outlen a) ai n kv))) = hmac_outlen a"
proof -
  obtain k v where k: "(if ai = None then kv else hmac_update_spec (mac_spec a) ai kv) = (k, v)" by fastforce
  then have l: "length k = hmac_outlen a" "length v = hmac_outlen a"
    using assms length_hmac_update_spec [OF assms, of ai] by (auto split: if_splits)
  have "length ((mac_spec a k ^^ j) v) = hmac_outlen a" for j
    using l by (cases j) simp_all
  with l show "length (fst (hmac_generate_spec (mac_spec a) (hmac_outlen a) ai n kv)) = n"
    "length (fst (snd (hmac_generate_spec (mac_spec a) (hmac_outlen a) ai n kv))) = hmac_outlen a"
    "length (snd (snd (hmac_generate_spec (mac_spec a) (hmac_outlen a) ai n kv))) = hmac_outlen a"
    by (simp_all add: hmac_generate_spec_def k length_hmac_update_spec length_block_bytes del: funpow.simps)
qed

lemma hmac_counter_wf [simp]:
  "hmac_wf (d\<lparr>reseed_counter := n\<rparr>) = hmac_wf d" "hmac_kv a (d\<lparr>reseed_counter := n\<rparr>) = hmac_kv a d"
  "drbg_slot.truncate (d\<lparr>reseed_counter := n\<rparr>) = (drbg_slot.truncate d)\<lparr>reseed_counter := n\<rparr>"
  by (simp_all add: hmac_wf_def hmac_kv_def drbg_slot.truncate_def)

interpretation hmac_mech: drbg_mechanism hmac_wf drbg_slot.truncate
  "\<lambda>s e ai. reseed_refusal HMAC_DRBG_MAX_PROVIDED 0 s (length e) (length ai)" "generate_refusal HMAC_DRBG_MAX_PROVIDED 0"
  "hmac_reseed a" "hmac_generate a" for a
proof
  fix s addl n merr e ai
  show "generate_refusal HMAC_DRBG_MAX_PROVIDED 0 s addl n = None \<Longrightarrow>
      instantiated s \<and> reseed_counter s \<le> RESEED_INTERVAL"
    "reseed_refusal HMAC_DRBG_MAX_PROVIDED 0 s (length e) (length ai) = None \<Longrightarrow> instantiated s"
    "reseed_refusal HMAC_DRBG_MAX_PROVIDED 0 s (length e) (length ai) \<noteq> Some (DrbgModule merr)"
    "generate_refusal HMAC_DRBG_MAX_PROVIDED 0 s addl n \<noteq> Some (DrbgModule merr)"
    by (auto simp: generate_refusal_def reseed_refusal_def split: if_splits option.splits)
next
  fix d :: hmac_drbg and e ai :: bytes and addl :: "bytes option" and out :: bytes and err env
  assume "reseed_refusal HMAC_DRBG_MAX_PROVIDED 0 (drbg_slot.truncate d) (length e) (length ai) = Some err"
  then show "hmac_reseed a e ai d env = (Inl err, d, env)" by (rule hmac_reseed_refused)
next
  fix d :: hmac_drbg and addl :: "bytes option" and out :: bytes and err env
  assume "generate_refusal HMAC_DRBG_MAX_PROVIDED 0 (drbg_slot.truncate d) addl (length out) = Some err"
  then show "hmac_generate a addl (d, out) env = (Inl err, (d, zeros (length out)), env)"
    by (rule hmac_generate_refused)
next
  fix d :: hmac_drbg and e ai :: bytes
  assume a: "reseed_refusal HMAC_DRBG_MAX_PROVIDED 0 (drbg_slot.truncate d) (length e) (length ai) = None"
    and wf: "hmac_wf d"
  note kv = hmac_kv_lengths [OF wf, of a]
  have "hmac_wf (hmac_put (hmac_update_spec (mac_spec a) (Some (e @ ai)) (hmac_kv a d)) d)"
    using kv by (intro hmac_put_simps(1) [OF wf, of _ a] length_hmac_update_spec) simp_all
  with hmac_reseed_run [OF a wf, of a]
  show "\<exists>k d'. 0 < k \<and> hmac_wf d' \<and> drbg_slot.truncate d' = (drbg_slot.truncate d)\<lparr>reseed_counter := 1\<rparr> \<and>
      guarded_run DrbgModule (\<lambda>d''. hmac_wf d'' \<and> drbg_slot.truncate d'' = drbg_slot.truncate d)
        (hmac_reseed a e ai) d k () d'"
    unfolding hmac_kept_eq
    by (intro exI [of _ "12"] exI [of _ "(hmac_put (hmac_update_spec (mac_spec a) (Some (e @ ai)) (hmac_kv a d)) d)\<lparr>reseed_counter := 1\<rparr>"]) simp
next
  fix d :: hmac_drbg and addl :: "bytes option" and out :: bytes
  assume a: "generate_refusal HMAC_DRBG_MAX_PROVIDED 0 (drbg_slot.truncate d) addl (length out) = None"
    and wf: "hmac_wf d"
  note kv = hmac_kv_lengths [OF wf, of a]
  let ?res = "hmac_generate_spec (mac_spec a) (hmac_outlen a) addl (length out) (hmac_kv a d)"
  have "hmac_wf (hmac_put (snd ?res) d)" "length (fst ?res) = length out"
    using kv by (simp_all add: hmac_put_simps(1) [OF wf, of _ a] length_hmac_generate_spec)
  with hmac_generate_run [OF a wf refl, of a]
  show "\<exists>k d' out'. 0 < k \<and> hmac_wf d' \<and>
      drbg_slot.truncate d' = (drbg_slot.truncate d)\<lparr>reseed_counter := reseed_counter (drbg_slot.truncate d) + 1\<rparr> \<and>
      length out' = length out \<and>
      guarded_run DrbgModule (\<lambda>(d'', o'). hmac_wf d'' \<and> drbg_slot.truncate d'' = drbg_slot.truncate d \<and>
          o' = zeros (length out)) (hmac_generate a addl) (d, out) k () (d', out')"
    unfolding hmac_kept_def
    by (intro exI [of _ "generate_loads a addl (length out)"]
        exI [of _ "(hmac_put (snd ?res) d)\<lparr>reseed_counter := reseed_counter d + 1\<rparr>"] exI [of _ "fst ?res"] conjI)
      (auto simp: generate_loads_def update_loads_def drbg_slot.truncate_def conj_assoc split: option.splits)
qed


subsection \<open>Property\<close>

text \<open>The abstract state of an instance: none, or the key, the value and the counter.\<close>

definition hmac_view :: "hmac_alg \<Rightarrow> hmac_drbg \<Rightarrow> ((bytes \<times> bytes) \<times> nat) option" where
  "hmac_view a d = (if instantiated d then Some (hmac_kv a d, unat (reseed_counter d)) else None)"

text \<open>C19: HMAC_DRBG implements SP 800-90A section 10.1.2 for each of its three hashes: whenever the
  module admits every internal check, accepted instantiate, reseed and generate calls succeed, return
  the bytes of the standard's mechanism and leave its key, value and counter, whatever the arrays held
  beyond the output length and whatever the requested length leaves of the last block.\<close>

theorem hmac_drbg_correct:
  assumes "\<forall>i. gate_at env i = Inr ()" "hmac_wf d"
  shows
   "(32 \<le> length e \<and> 16 \<le> length n \<and> length e + length n + length p \<le> 768 \<longrightarrow>
      (\<exists>d'. hmac_instantiate_internal a e n p d env = (Inr (), d', env_later env 12) \<and> hmac_wf d' \<and>
        hmac_view a d' = Some (hmac_instantiate_spec (mac_spec a) (hmac_outlen a) (e @ n @ p), 1))) \<and>
    (instantiated d \<and> 32 \<le> length e \<and> length e + length ai \<le> 768 \<longrightarrow>
      (\<exists>d'. hmac_reseed a e ai d env = (Inr (), d', env_later env 12) \<and> hmac_wf d' \<and>
        hmac_view a d' = Some (hmac_update_spec (mac_spec a) (Some (e @ ai)) (hmac_kv a d), 1))) \<and>
    (instantiated d \<and> reseed_counter d \<le> 2 ^ 48 \<and> length out \<le> 2 ^ 16 \<and>
       (case addl of None \<Rightarrow> True | Some x \<Rightarrow> length x \<le> 768) \<longrightarrow>
      (let res = hmac_generate_spec (mac_spec a) (hmac_outlen a) addl (length out) (hmac_kv a d) in
       \<exists>d'. hmac_generate a addl (d, out) env = (Inr (), (d', fst res), env_later env (generate_loads a addl (length out))) \<and>
         hmac_wf d' \<and> hmac_view a d' = Some (snd res, unat (reseed_counter d) + 1)))"
proof (intro conjI impI)
  note kv = hmac_kv_lengths [OF assms(2), of a]
  note limits = MIN_ENTROPY_LEN_def MIN_NONCE_LEN_def SECURITY_STRENGTH_def HMAC_DRBG_MAX_PROVIDED_def
    MAX_BITS_PER_REQ_def RESEED_INTERVAL_simp drbg_slot.truncate_def
  {
    assume "32 \<le> length e \<and> 16 \<le> length n \<and> length e + length n + length p \<le> 768"
    then have "seed_refusal HMAC_DRBG_MAX_PROVIDED (length e) (length n) (length p) = None"
      by (simp add: seed_refusal_def limits)
    note run = hmac_instantiate_run [OF this assms(2), of a]
    have "hmac_wf (hmac_uninstantiate d)" using assms(2) by simp
    from hmac_seeded_simps [OF this, of a "e @ n @ p"]
    have "hmac_wf (hmac_seeded a (e @ n @ p) (hmac_uninstantiate d)) \<and>
        hmac_view a (hmac_seeded a (e @ n @ p) (hmac_uninstantiate d)) =
          Some (hmac_instantiate_spec (mac_spec a) (hmac_outlen a) (e @ n @ p), 1)"
      by (simp add: hmac_view_def drbg_slot.truncate_def)
    then show "\<exists>d'. hmac_instantiate_internal a e n p d env = (Inr (), d', env_later env 12) \<and> hmac_wf d' \<and>
        hmac_view a d' = Some (hmac_instantiate_spec (mac_spec a) (hmac_outlen a) (e @ n @ p), 1)"
      using gates_pass [OF assms(1) run] by blast
  next
    assume *: "instantiated d \<and> 32 \<le> length e \<and> length e + length ai \<le> 768"
    then have "reseed_refusal HMAC_DRBG_MAX_PROVIDED 0 (drbg_slot.truncate d) (length e) (length ai) = None"
      by (simp add: reseed_refusal_def limits)
    note run = gates_pass [OF assms(1) hmac_reseed_run [OF this assms(2), of a]]
    have "length (fst (hmac_update_spec (mac_spec a) (Some (e @ ai)) (hmac_kv a d))) = hmac_outlen a"
      "length (snd (hmac_update_spec (mac_spec a) (Some (e @ ai)) (hmac_kv a d))) = hmac_outlen a"
      using kv by (simp_all add: length_hmac_update_spec)
    note put = hmac_put_simps(1,2) [OF assms(2) this]
    show "\<exists>d'. hmac_reseed a e ai d env = (Inr (), d', env_later env 12) \<and> hmac_wf d' \<and>
        hmac_view a d' = Some (hmac_update_spec (mac_spec a) (Some (e @ ai)) (hmac_kv a d), 1)"
      unfolding run using put *
      by (intro exI [of _ "(hmac_put (hmac_update_spec (mac_spec a) (Some (e @ ai)) (hmac_kv a d)) d)
        \<lparr>reseed_counter := 1\<rparr>"]) (simp add: hmac_view_def)
  next
    assume *: "instantiated d \<and> reseed_counter d \<le> 2 ^ 48 \<and> length out \<le> 2 ^ 16 \<and>
       (case addl of None \<Rightarrow> True | Some x \<Rightarrow> length x \<le> 768)"
    define res where "res = hmac_generate_spec (mac_spec a) (hmac_outlen a) addl (length out) (hmac_kv a d)"
    have "generate_refusal HMAC_DRBG_MAX_PROVIDED 0 (drbg_slot.truncate d) addl (length out) = None"
      using * by (auto simp: generate_refusal_def limits split: option.splits)
    note run = gates_pass [OF assms(1) hmac_generate_run [OF this assms(2) res_def]]
    have "length (fst (snd res)) = hmac_outlen a" "length (snd (snd res)) = hmac_outlen a"
      using kv by (simp_all add: res_def length_hmac_generate_spec)
    note put = hmac_put_simps(1,2) [OF assms(2) this]
    from * have "unat (reseed_counter d) \<le> unat ((2 :: u64) ^ 48)" by (simp only: word_le_nat_alt)
    then have "unat (reseed_counter d + 1) = unat (reseed_counter d) + 1" by (simp add: unat_word_ariths)
    then show "let res = hmac_generate_spec (mac_spec a) (hmac_outlen a) addl (length out) (hmac_kv a d) in
       \<exists>d'. hmac_generate a addl (d, out) env = (Inr (), (d', fst res), env_later env (generate_loads a addl (length out))) \<and>
         hmac_wf d' \<and> hmac_view a d' = Some (snd res, unat (reseed_counter d) + 1)"
      unfolding res_def [symmetric] Let_def run using put *
      by (intro exI [of _ "(hmac_put (snd res) d)\<lparr>reseed_counter := reseed_counter d + 1\<rparr>"]) (simp add: hmac_view_def)
  }
qed

theorem hmac_drbg_correct_witness:
  "let d = \<lparr>reseed_counter = 3, instantiated = True, hd_key = zeros 64, hd_v = zeros 64\<rparr>;
       env = steady None OPERATIONAL 0;
       spec = mac_spec HmacSha384Alg;
       kv = hmac_instantiate_spec spec 48 (zeros 32 @ zeros 16 @ []);
       res = hmac_generate_spec spec 48 (Some [7]) 100 (zeros 48, zeros 48)
   in (\<exists>d'. hmac_instantiate_internal HmacSha384Alg (zeros 32) (zeros 16) [] d env = (Inr (), d', env) \<and>
        hmac_view HmacSha384Alg d' = Some (kv, 1)) \<and>
      (\<exists>d'. hmac_generate HmacSha384Alg (Some [7]) (d, zeros 100) env = (Inr (), (d', fst res), env) \<and>
        hmac_view HmacSha384Alg d' = Some (snd res, 4))"
proof -
  let ?d = "\<lparr>reseed_counter = 3, instantiated = True, hd_key = zeros 64, hd_v = zeros 64\<rparr>"
  let ?env = "steady None OPERATIONAL 0"
  have "\<forall>i. gate_at ?env i = Inr ()" by (simp add: require_self_test_started_def)
  moreover have "hmac_wf ?d" by (simp add: hmac_wf_def MAX_OUTLEN_simp)
  ultimately show ?thesis
    using hmac_drbg_correct [of ?env ?d "zeros 32" "zeros 16" "[]" HmacSha384Alg "[]" "zeros 100" "Some [7]"]
    by (auto simp: Let_def hmac_kv_def zeros_def min_def word_le_nat_alt)
qed

end
