(* ===== verification/Hash_Drbg.thy ===== *)
theory Hash_Drbg
  imports Drbg_Mechanism Sha_Family
begin

unbundle bit_operations_syntax

text \<open>
  Hash_DRBG of \<^verbatim>\<open>src/crates/oxicrypt-drbg/src/hash.rs\<close> over SHA-256, -384 and -512: \<open>hash_df\<close>,
  \<open>hashgen\<close> and every operation of the instance, and the mechanism of SP 800-90A section 10.1.1 they
  implement.  A \<open>Wiped\<close> buffer is an ordinary array that is overwritten when it goes out of scope.
\<close>

subsection \<open>The hash\<close>

definition MAX_SEEDLEN :: usize where "MAX_SEEDLEN = 111"
definition HASH_DRBG_MAX_DF_INPUT :: usize where "HASH_DRBG_MAX_DF_INPUT = 768"

text \<open>The implementors of \<open>HashAlg\<close>.\<close>

datatype hash_alg = Sha256Alg | Sha384Alg | Sha512Alg

fun hash_outlen :: "hash_alg \<Rightarrow> usize" where
  "hash_outlen Sha256Alg = 32"
| "hash_outlen Sha384Alg = 48"
| "hash_outlen Sha512Alg = 64"

fun hash_seedlen :: "hash_alg \<Rightarrow> usize" where
  "hash_seedlen Sha256Alg = 55"
| "hash_seedlen Sha384Alg = 111"
| "hash_seedlen Sha512Alg = 111"

fun hash_drbg_service :: "hash_alg \<Rightarrow> service" where
  "hash_drbg_service Sha256Alg = DrbgS HashDrbgSha256"
| "hash_drbg_service Sha384Alg = DrbgS HashDrbgSha384"
| "hash_drbg_service Sha512Alg = DrbgS HashDrbgSha512"

fun digest_parts :: "hash_alg \<Rightarrow> bytes list \<Rightarrow> (error, bytes) gated" where
  "digest_parts Sha256Alg parts = chain sha256_new_internal (\<lambda>ctx. sha256_finalize (foldl sha256_update ctx parts))"
| "digest_parts Sha384Alg parts = chain sha384_new_internal (\<lambda>ctx. sha384_finalize (foldl sha384_update ctx parts))"
| "digest_parts Sha512Alg parts = chain sha512_new_internal (\<lambda>ctx. sha512_finalize (foldl sha512_update ctx parts))"

fun digest_spec :: "hash_alg \<Rightarrow> bytes \<Rightarrow> bytes" where
  "digest_spec Sha256Alg = sha256_spec"
| "digest_spec Sha384Alg = sha384_spec"
| "digest_spec Sha512Alg = sha512_spec"

text \<open>A digest loads the state twice.\<close>

lemma digest_parts_guards: "digest_parts a parts = guards 2 (digest_spec a (concat parts))"
proof
  fix env
  show "digest_parts a parts env = guards 2 (digest_spec a (concat parts)) env"
    by (cases a)
      (simp_all add: sha256_new_internal_def sha256_finalize_def sha384_new_internal_def sha384_finalize_def
        sha512_new_internal_def sha512_finalize_def sha_streamed chain_def numeral_2_eq_2
        split: prod.splits sum.splits)
qed

lemma length_digest_spec [simp]: "length (digest_spec a text) = hash_outlen a"
  by (cases a) (simp_all add: sha256_h.length_hash sha384_h.length_hash sha512_h.length_hash)

lemma hash_outlen_bounds [simp]: "0 < hash_outlen a" "hash_outlen a \<noteq> 0"
  by (cases a; simp)+

lemma hash_seedlen_bounds [simp]: "hash_seedlen a \<le> 111" "hash_seedlen a \<le> 255 * hash_outlen a"
  by (cases a; simp)+

subsection \<open>The derivation function\<close>

definition df_block :: "hash_alg \<Rightarrow> bytes \<Rightarrow> bytes \<Rightarrow> (u8, error, bytes) action" where
  "df_block a no_bits_be input = act_get (\<lambda>counter.
     act_bind (act_gate (digest_parts a [[counter], no_bits_be, input])) (\<lambda>block.
     act_bind (act_update (\<lambda>counter. counter + 1)) (\<lambda>_. act_ok block)))"

definition hash_df :: "hash_alg \<Rightarrow> bytes \<Rightarrow> (bytes, error, unit) action" where
  "hash_df a input = act_get (\<lambda>out.
     let no_bytes = length out in
     if no_bytes > 255 * hash_outlen a then act_fail InvalidInput
     else
       let no_bits_be = be_of_u32 (word_of_nat no_bytes * 8)
       in act_zoom (\<lambda>out. (1, out)) (\<lambda>(_, out) _. out) (fill_blocks (hash_outlen a) (df_block a no_bits_be input) 0))"

subsection \<open>The instance\<close>

record hash_drbg = drbg_slot +
  hash_v :: bytes
  hash_c :: bytes

definition hash_drbg_new :: hash_drbg where
  "hash_drbg_new = \<lparr>reseed_counter = 0, instantiated = False,
     hash_v = zeros MAX_SEEDLEN, hash_c = zeros MAX_SEEDLEN\<rparr>"

definition hash_uninstantiate :: "hash_drbg \<Rightarrow> hash_drbg" where
  "hash_uninstantiate d =
     d\<lparr>hash_v := zeros (length (hash_v d)), hash_c := zeros (length (hash_c d)),
       reseed_counter := 0, instantiated := False\<rparr>"

text \<open>\<open>V = Hash_df(seed_material)\<close>, then \<open>C = Hash_df(0x00 || V)\<close>, each into its slice.\<close>

definition derive_v :: "hash_alg \<Rightarrow> bytes \<Rightarrow> (hash_drbg, error, unit) action" where
  "derive_v a input =
     act_zoom (\<lambda>d. take (hash_seedlen a) (hash_v d)) (\<lambda>v d. d\<lparr>hash_v := copy_at (hash_v d) 0 v\<rparr>) (hash_df a input)"

definition derive_c :: "hash_alg \<Rightarrow> bytes \<Rightarrow> (hash_drbg, error, unit) action" where
  "derive_c a input =
     act_zoom (\<lambda>d. take (hash_seedlen a) (hash_c d)) (\<lambda>c d. d\<lparr>hash_c := copy_at (hash_c d) 0 c\<rparr>) (hash_df a input)"

definition derive_state :: "hash_alg \<Rightarrow> bytes \<Rightarrow> (hash_drbg, error, unit) action" where
  "derive_state a seed =
     act_bind (derive_v a seed) (\<lambda>_. act_get (\<lambda>d.
       let prefixed = copy_at ((zeros (1 + MAX_SEEDLEN))[0 := 0x00]) 1 (take (hash_seedlen a) (hash_v d))
       in derive_c a (take (1 + hash_seedlen a) prefixed)))"

definition hash_instantiate_internal ::
  "hash_alg \<Rightarrow> bytes \<Rightarrow> bytes \<Rightarrow> bytes \<Rightarrow> (hash_drbg, error, unit) action" where
  "hash_instantiate_internal a entropy nonce personalization =
     act_bind (act_update hash_uninstantiate) (\<lambda>_.
     case checked_sum [length entropy, length nonce, length personalization] of
       None \<Rightarrow> act_fail InvalidInput
     | Some len \<Rightarrow>
         if len > HASH_DRBG_MAX_DF_INPUT then act_fail InvalidInput
         else if length entropy < MIN_ENTROPY_LEN then act_fail EntropyInputTooShort
         else if length nonce < MIN_NONCE_LEN then act_fail NonceTooShort
         else
           let seed_material = copy_at (copy_at (copy_at (zeros HASH_DRBG_MAX_DF_INPUT) 0 entropy)
                 (length entropy) nonce) (length entropy + length nonce) personalization
           in act_bind (derive_state a (take len seed_material)) (\<lambda>_.
              act_update (\<lambda>d. d\<lparr>reseed_counter := 1, instantiated := True\<rparr>)))"

definition hash_instantiate ::
  "hash_alg \<Rightarrow> bytes \<Rightarrow> bytes \<Rightarrow> bytes \<Rightarrow> (hash_drbg, error, unit) action" where
  "hash_instantiate a entropy nonce personalization =
     act_bind (act_gate gate_operational) (\<lambda>_.
     act_bind (act_gate (gate_allowed (hash_drbg_service a))) (\<lambda>_.
     hash_instantiate_internal a entropy nonce personalization))"

definition hash_reseed :: "hash_alg \<Rightarrow> bytes \<Rightarrow> bytes \<Rightarrow> (hash_drbg, drbg_error, unit) action" where
  "hash_reseed a entropy additional_input = act_get (\<lambda>d.
     if \<not> instantiated d then act_fail Uninstantiated
     else case checked_sum [1, hash_seedlen a, length entropy, length additional_input] of
       None \<Rightarrow> act_fail InputTooLong
     | Some len \<Rightarrow>
         if len > HASH_DRBG_MAX_DF_INPUT then act_fail InputTooLong
         else if length entropy < MIN_ENTROPY_LEN then act_fail DrbgEntropyInputTooShort
         else
           let seed_material = copy_at ((zeros HASH_DRBG_MAX_DF_INPUT)[0 := 0x01]) 1 (take (hash_seedlen a) (hash_v d));
               off = 1 + hash_seedlen a;
               seed_material = copy_at seed_material off entropy;
               off = off + length entropy;
               seed_material = copy_at seed_material off additional_input
           in act_bind (act_map_err DrbgModule (derive_state a (take len seed_material))) (\<lambda>_.
              act_update (\<lambda>d. d\<lparr>reseed_counter := 1\<rparr>)))"

text \<open>\<open>hashgen\<close> counts a copy of \<open>V\<close> up.\<close>

definition hashgen_block :: "hash_alg \<Rightarrow> (bytes, error, bytes) action" where
  "hashgen_block a = act_get (\<lambda>data.
     act_bind (act_gate (digest_parts a [data])) (\<lambda>block.
     act_bind (act_update increment_be) (\<lambda>_. act_ok block)))"

definition hashgen :: "hash_alg \<Rightarrow> (hash_drbg \<times> bytes, error, unit) action" where
  "hashgen a = act_zoom (\<lambda>(d, out). (take (hash_seedlen a) (hash_v d), out)) (\<lambda>(_, out) (d, _). (d, out))
     (fill_blocks (hash_outlen a) (hashgen_block a) 0)"

text \<open>\<open>V = (V + src) mod 2^(8 seedlen)\<close>.\<close>

definition add_to_v :: "hash_alg \<Rightarrow> bytes \<Rightarrow> hash_drbg \<Rightarrow> hash_drbg" where
  "add_to_v a src d = d\<lparr>hash_v := copy_at (hash_v d) 0 (add_into_be (take (hash_seedlen a) (hash_v d)) src)\<rparr>"

definition hash_generate_unwiped ::
  "hash_alg \<Rightarrow> bytes option \<Rightarrow> (hash_drbg \<times> bytes, drbg_error, unit) action" where
  "hash_generate_unwiped a additional_input = act_get (\<lambda>(d, out).
     if \<not> instantiated d then act_fail Uninstantiated
     else if length out > MAX_BITS_PER_REQ then act_fail RequestTooLong
     else if reseed_counter d > RESEED_INTERVAL then act_fail ReseedRequired
     else
       act_bind (case additional_input of
           None \<Rightarrow> act_ok ()
         | Some ai \<Rightarrow>
             (case checked_add_usize (length ai) (1 + hash_seedlen a) of
                None \<Rightarrow> act_fail InputTooLong
              | Some t \<Rightarrow>
                  if t > HASH_DRBG_MAX_DF_INPUT then act_fail InputTooLong
                  else act_fst (act_map_err DrbgModule (act_get (\<lambda>d.
                    act_bind (act_gate (digest_parts a [[0x02], take (hash_seedlen a) (hash_v d), ai])) (\<lambda>w.
                    act_update (add_to_v a w))))))) (\<lambda>_.
       act_bind (act_map_err DrbgModule (hashgen a)) (\<lambda>_.
       act_fst (act_map_err DrbgModule (act_get (\<lambda>d.
         act_bind (act_gate (digest_parts a [[0x03], take (hash_seedlen a) (hash_v d)])) (\<lambda>h.
         act_update (\<lambda>d.
           let d = add_to_v a h d;
               d = add_to_v a (take (hash_seedlen a) (hash_c d)) d;
               d = add_to_v a (be_of_u64 (reseed_counter d)) d
           in d\<lparr>reseed_counter := reseed_counter d + 1\<rparr>))))))))"

definition hash_generate ::
  "hash_alg \<Rightarrow> bytes option \<Rightarrow> (hash_drbg \<times> bytes, drbg_error, unit) action" where
  "hash_generate a additional_input = wiping (hash_generate_unwiped a additional_input)"

definition hash_generate_pr ::
  "hash_alg \<Rightarrow> bytes \<Rightarrow> bytes \<Rightarrow> (hash_drbg \<times> bytes, drbg_error, unit) action" where
  "hash_generate_pr a entropy additional_input =
     act_bind (act_fst (hash_reseed a entropy additional_input)) (\<lambda>_. hash_generate a None)"

definition hash_force_reseed_ceiling :: "hash_drbg \<Rightarrow> hash_drbg" where
  "hash_force_reseed_ceiling d = d\<lparr>reseed_counter := RESEED_INTERVAL + 1\<rparr>"

subsection \<open>SP 800-90A sections 10.1.1 and 10.3.1\<close>

definition hash_df_spec :: "(bytes \<Rightarrow> bytes) \<Rightarrow> nat \<Rightarrow> bytes \<Rightarrow> nat \<Rightarrow> bytes" where
  "hash_df_spec hash n input len =
     block_bytes n (\<lambda>j. hash ([word_of_nat (Suc j)] @ be_bytes 4 (8 * len) @ input)) len"

text \<open>The working state after seeding: \<open>V\<close> and \<open>C\<close>.\<close>

definition hash_seed_spec :: "(bytes \<Rightarrow> bytes) \<Rightarrow> nat \<Rightarrow> nat \<Rightarrow> bytes \<Rightarrow> bytes \<times> bytes" where
  "hash_seed_spec hash n s seed =
     (let v = hash_df_spec hash n seed s in (v, hash_df_spec hash n ([0x00] @ v) s))"

text \<open>Generate, with integers modulo \<open>2^(8 s)\<close>.\<close>

definition hash_generate_spec ::
  "(bytes \<Rightarrow> bytes) \<Rightarrow> nat \<Rightarrow> nat \<Rightarrow> bytes option \<Rightarrow> nat \<Rightarrow> bytes \<times> bytes \<Rightarrow> nat \<Rightarrow> bytes \<times> bytes \<times> bytes" where
  "hash_generate_spec hash n s ai len vc counter =
     (let (v, c) = vc;
          v = (case ai of None \<Rightarrow> v | Some x \<Rightarrow> be_bytes s (be_val v + be_val (hash ([0x02] @ v @ x))));
          out = block_bytes n (\<lambda>j. hash (be_bytes s (be_val v + j))) len;
          h = hash ([0x03] @ v)
      in (out, be_bytes s (be_val v + be_val h + be_val c + counter), c))"


subsection \<open>The operations under the guards\<close>

definition hash_wf :: "hash_drbg \<Rightarrow> bool" where
  "hash_wf d \<longleftrightarrow> length (hash_v d) = MAX_SEEDLEN \<and> length (hash_c d) = MAX_SEEDLEN"

definition hash_vc :: "hash_alg \<Rightarrow> hash_drbg \<Rightarrow> bytes \<times> bytes" where
  "hash_vc a d = (take (hash_seedlen a) (hash_v d), take (hash_seedlen a) (hash_c d))"

definition hash_put :: "bytes \<times> bytes \<Rightarrow> hash_drbg \<Rightarrow> hash_drbg" where
  "hash_put vc d = d\<lparr>hash_v := copy_at (hash_v d) 0 (fst vc), hash_c := copy_at (hash_c d) 0 (snd vc)\<rparr>"

definition hash_kept :: "hash_drbg \<Rightarrow> hash_drbg \<Rightarrow> bool" where
  "hash_kept d d' \<longleftrightarrow> hash_wf d' \<and> drbg_slot.truncate d' = drbg_slot.truncate d"

lemma MAX_SEEDLEN_simp: "MAX_SEEDLEN = 111"
  by (simp add: MAX_SEEDLEN_def)

lemma hash_put_simps [simp]:
  assumes "hash_wf d" "length (fst vc) = hash_seedlen a" "length (snd vc) = hash_seedlen a"
  shows "hash_wf (hash_put vc d)" "hash_vc a (hash_put vc d) = vc"
    "length (fst vc') = hash_seedlen a \<Longrightarrow> length (snd vc') = hash_seedlen a \<Longrightarrow>
      hash_put vc' (hash_put vc d) = hash_put vc' d"
  using assms hash_seedlen_bounds [of a]
  by (simp_all add: hash_wf_def hash_vc_def hash_put_def MAX_SEEDLEN_simp copy_at_def prod_eq_iff)

lemma hash_put_slot [simp]:
  "reseed_counter (hash_put vc d) = reseed_counter d" "instantiated (hash_put vc d) = instantiated d"
  "drbg_slot.truncate (hash_put vc d) = drbg_slot.truncate d"
  by (simp_all add: hash_put_def drbg_slot.truncate_def)

lemma hash_put_self: "hash_wf d \<Longrightarrow> hash_put (hash_vc a d) d = d"
  using hash_seedlen_bounds [of a]
  by (simp add: hash_wf_def hash_vc_def hash_put_def MAX_SEEDLEN_simp copy_at_def min_def)

lemma hash_vc_lengths:
  "hash_wf d \<Longrightarrow> length (fst (hash_vc a d)) = hash_seedlen a \<and> length (snd (hash_vc a d)) = hash_seedlen a"
  using hash_seedlen_bounds [of a] by (simp add: hash_wf_def hash_vc_def MAX_SEEDLEN_simp)

lemma hash_put_slices:
  assumes "hash_wf d" "length v = hash_seedlen a" "length c = hash_seedlen a"
  shows "take (hash_seedlen a) (hash_v (hash_put (v, c) d)) = v"
    "take (hash_seedlen a) (hash_c (hash_put (v, c) d)) = c"
  using hash_put_simps(2) [OF assms(1), of "(v, c)" a] assms by (simp_all add: hash_vc_def)

text \<open>\<open>Hash_df\<close>: two loads per block.\<close>

definition df_blocks :: "hash_alg \<Rightarrow> usize \<Rightarrow> nat" where
  "df_blocks a len = blocks_for (hash_outlen a) len"

lemma hash_df_run:
  assumes "length out = len" "len \<le> 255 * hash_outlen a"
  shows "guarded_run id (\<lambda>out'. length out' = len) (hash_df a input) out (2 * df_blocks a len) ()
    (hash_df_spec (digest_spec a) (hash_outlen a) input len)"
proof -
  define bits where "bits = be_bytes 4 (8 * len)"
  have bits: "be_of_u32 (word_of_nat len * 8) = bits"
    using be_of_u32_eq [of "8 * len"] by (simp add: bits_def mult.commute)
  have step: "guarded_run id (\<lambda>_. True) (df_block a bits input) (word_of_nat (Suc j)) 2
      (digest_spec a ([word_of_nat (Suc j)] @ bits @ input)) (word_of_nat (Suc (Suc j)))" for j
    using guarded_run_guards_block [of "\<lambda>_. True" "word_of_nat (Suc j)" 2
        "digest_spec a ([word_of_nat (Suc j)] @ bits @ input)" "\<lambda>counter. counter + 1"]
    unfolding df_block_def digest_parts_guards by (intro guarded_run_get) (simp add: add.commute)
  have "guarded_run id (\<lambda>(_, out'). length out' = len) (fill_blocks (hash_outlen a) (df_block a bits input) 0)
      (1, out) (2 * df_blocks a len) ()
      (word_of_nat (Suc (df_blocks a len)), hash_df_spec (digest_spec a) (hash_outlen a) input len)"
    using guarded_run_fill [of "hash_outlen a" id "\<lambda>_. True" "df_block a bits input"
        "\<lambda>j. word_of_nat (Suc j)" 2 "\<lambda>j. digest_spec a ([word_of_nat (Suc j)] @ bits @ input)" out
        "\<lambda>(_, out'). length out' = len", OF _ step] assms(1)
    by (simp add: df_blocks_def hash_df_spec_def bits_def)
  then have "guarded_run id (\<lambda>out'. length out' = len)
      (act_zoom (\<lambda>out. (1, out)) (\<lambda>(_, out) _. out) (fill_blocks (hash_outlen a) (df_block a bits input) 0))
      out (2 * df_blocks a len) () (hash_df_spec (digest_spec a) (hash_outlen a) input len)"
    using guarded_run_zoom [of id "\<lambda>(_, out'). length out' = len"
        "fill_blocks (hash_outlen a) (df_block a bits input) 0" "\<lambda>out. (1, out)" out "2 * df_blocks a len" "()"
        "(word_of_nat (Suc (df_blocks a len)), hash_df_spec (digest_spec a) (hash_outlen a) input len)"
        "\<lambda>out'. length out' = len" "\<lambda>(_, out) _. out"]
    by auto
  then show ?thesis
    using assms unfolding hash_df_def
    by (intro guarded_run_get) (simp add: Let_def bits)
qed


lemma length_hash_df_spec [simp]: "length (hash_df_spec (digest_spec a) (hash_outlen a) input len) = len"
  unfolding hash_df_spec_def by (intro length_block_bytes) simp_all

lemma hash_put_set:
  assumes "hash_wf d" "length v = hash_seedlen a" "length c = hash_seedlen a" "length x = hash_seedlen a"
  shows "(hash_put (v, c) d)\<lparr>hash_v := copy_at (hash_v (hash_put (v, c) d)) 0 x\<rparr> = hash_put (x, c) d"
    "(hash_put (v, c) d)\<lparr>hash_c := copy_at (hash_c (hash_put (v, c) d)) 0 x\<rparr> = hash_put (v, x) d"
  using assms by (simp_all add: hash_put_def copy_at_def)

lemma hash_kept_put:
  "hash_wf d \<Longrightarrow> length v = hash_seedlen a \<Longrightarrow> length c = hash_seedlen a \<Longrightarrow> hash_kept d (hash_put (v, c) d)"
  using hash_put_simps(1) [of d "(v, c)" a] by (simp add: hash_kept_def)

lemma derive_runs:
  assumes "hash_wf d" "length v = hash_seedlen a" "length c = hash_seedlen a"
  shows "guarded_run id (hash_kept d) (derive_v a input) (hash_put (v, c) d) (2 * df_blocks a (hash_seedlen a)) ()
      (hash_put (hash_df_spec (digest_spec a) (hash_outlen a) input (hash_seedlen a), c) d)"
    and "guarded_run id (hash_kept d) (derive_c a input) (hash_put (v, c) d) (2 * df_blocks a (hash_seedlen a)) ()
      (hash_put (v, hash_df_spec (digest_spec a) (hash_outlen a) input (hash_seedlen a)) d)"
proof -
  let ?t = "hash_df_spec (digest_spec a) (hash_outlen a) input (hash_seedlen a)"
  note slices = hash_put_slices [OF assms] and sets = hash_put_set [OF assms]
  have v: "guarded_run id (\<lambda>out'. length out' = hash_seedlen a) (hash_df a input)
      (take (hash_seedlen a) (hash_v (hash_put (v, c) d))) (2 * df_blocks a (hash_seedlen a)) () ?t"
    unfolding slices by (intro hash_df_run assms(2)) simp
  have c: "guarded_run id (\<lambda>out'. length out' = hash_seedlen a) (hash_df a input)
      (take (hash_seedlen a) (hash_c (hash_put (v, c) d))) (2 * df_blocks a (hash_seedlen a)) () ?t"
    unfolding slices by (intro hash_df_run assms(3)) simp
  have "guarded_run id (hash_kept d) (derive_v a input) (hash_put (v, c) d) (2 * df_blocks a (hash_seedlen a)) ()
      ((hash_put (v, c) d)\<lparr>hash_v := copy_at (hash_v (hash_put (v, c) d)) 0 ?t\<rparr>)"
    unfolding derive_v_def by (rule guarded_run_zoom, rule v) (simp only: sets hash_kept_put assms)
  then show "guarded_run id (hash_kept d) (derive_v a input) (hash_put (v, c) d) (2 * df_blocks a (hash_seedlen a)) ()
      (hash_put (?t, c) d)"
    by (simp only: sets length_hash_df_spec)
  have "guarded_run id (hash_kept d) (derive_c a input) (hash_put (v, c) d) (2 * df_blocks a (hash_seedlen a)) ()
      ((hash_put (v, c) d)\<lparr>hash_c := copy_at (hash_c (hash_put (v, c) d)) 0 ?t\<rparr>)"
    unfolding derive_c_def by (rule guarded_run_zoom, rule c) (simp only: sets hash_kept_put assms)
  then show "guarded_run id (hash_kept d) (derive_c a input) (hash_put (v, c) d) (2 * df_blocks a (hash_seedlen a)) ()
      (hash_put (v, ?t) d)"
    by (simp only: sets length_hash_df_spec)
qed

definition seed_loads :: "hash_alg \<Rightarrow> nat" where
  "seed_loads a = 4 * df_blocks a (hash_seedlen a)"

lemma take_prefix_byte: "0 < n \<Longrightarrow> take (Suc 0) ((zeros n)[0 := x]) = [x]"
  by (cases n) (simp_all add: zeros_def)

lemma derive_state_run:
  assumes "hash_wf d"
  shows "guarded_run id (hash_kept d) (derive_state a seed) d (seed_loads a) ()
    (hash_put (hash_seed_spec (digest_spec a) (hash_outlen a) (hash_seedlen a) seed) d)"
proof -
  obtain v c where vc: "hash_vc a d = (v, c)" by (cases "hash_vc a d")
  then have l: "length v = hash_seedlen a" "length c = hash_seedlen a"
    using hash_vc_lengths [OF assms, of a] by simp_all
  have d: "hash_put (v, c) d = d" using hash_put_self [OF assms, of a] vc by simp
  let ?v = "hash_df_spec (digest_spec a) (hash_outlen a) seed (hash_seedlen a)"
  have "take (1 + hash_seedlen a) (copy_at ((zeros (1 + MAX_SEEDLEN))[0 := 0]) 1 ?v) = [0] @ ?v"
    using take_copy_at [of 1 "(zeros (1 + MAX_SEEDLEN))[0 := 0]" ?v]
    by (simp add: take_prefix_byte MAX_SEEDLEN_simp)
  then have "guarded_run id (hash_kept d) (act_get (\<lambda>d.
       let prefixed = copy_at ((zeros (1 + MAX_SEEDLEN))[0 := 0x00]) 1 (take (hash_seedlen a) (hash_v d))
       in derive_c a (take (1 + hash_seedlen a) prefixed))) (hash_put (?v, c) d) (2 * df_blocks a (hash_seedlen a)) ()
      (hash_put (?v, hash_df_spec (digest_spec a) (hash_outlen a) ([0] @ ?v) (hash_seedlen a)) d)"
    using derive_runs(2) [OF assms _ l(2), of ?v "[0] @ ?v"]
    by (intro guarded_run_get) (simp only: Let_def hash_put_slices assms l length_hash_df_spec)
  from guarded_run_then [OF derive_runs(1) [OF assms l, of seed] this] show ?thesis
    by (simp add: derive_state_def d hash_seed_spec_def seed_loads_def Let_def)
qed

text \<open>Instantiate and reseed.\<close>

definition hash_seeded :: "hash_alg \<Rightarrow> bytes \<Rightarrow> hash_drbg \<Rightarrow> hash_drbg" where
  "hash_seeded a seed d =
     (hash_put (hash_seed_spec (digest_spec a) (hash_outlen a) (hash_seedlen a) seed) d)
       \<lparr>reseed_counter := 1, instantiated := True\<rparr>"

lemma hash_instantiate_refused:
  assumes "seed_refusal HASH_DRBG_MAX_DF_INPUT (length e) (length n) (length p) = Some err"
  shows "hash_instantiate_internal a e n p d env = (Inl err, hash_uninstantiate d, env)"
  using assms
  by (simp add: hash_instantiate_internal_def seed_refusal_def checked_sum_eq act_bind_def act_simps
      HASH_DRBG_MAX_DF_INPUT_def add.assoc split: if_splits)

lemma hash_instantiate_run:
  assumes "seed_refusal HASH_DRBG_MAX_DF_INPUT (length e) (length n) (length p) = None" "hash_wf d"
  shows "guarded_run id (\<lambda>d'. hash_wf d' \<and> \<not> instantiated d' \<and> reseed_counter d' = 0)
    (hash_instantiate_internal a e n p) d (seed_loads a) () (hash_seeded a (e @ n @ p) (hash_uninstantiate d))"
proof -
  let ?d = "hash_uninstantiate d"
  let ?P = "\<lambda>d'. hash_wf d' \<and> \<not> instantiated d' \<and> reseed_counter d' = 0"
  have fits: "\<not> length e + length n + length p > HASH_DRBG_MAX_DF_INPUT" "\<not> length e < MIN_ENTROPY_LEN"
    "\<not> length n < MIN_NONCE_LEN"
    using assms(1) by (auto simp: seed_refusal_def split: if_splits)
  have wf: "hash_wf ?d" using assms(2) by (simp add: hash_wf_def hash_uninstantiate_def)
  have run: "guarded_run id ?P (derive_state a (e @ n @ p)) ?d (seed_loads a) ()
      (hash_put (hash_seed_spec (digest_spec a) (hash_outlen a) (hash_seedlen a) (e @ n @ p)) ?d)"
    by (rule guarded_run_weaken [OF derive_state_run [OF wf]])
      (auto simp: hash_kept_def drbg_slot.truncate_def hash_uninstantiate_def)
  have seed: "take (length e + length n + length p)
      (copy_at (copy_at (copy_at (zeros HASH_DRBG_MAX_DF_INPUT) 0 e) (length e) n) (length e + length n) p) =
      e @ n @ p"
    using fits(1) by (intro take_copy_at_3) simp
  have len: "checked_sum [length e, length n, length p] = Some (length e + length n + length p)"
    using fits(1) by (simp add: checked_sum_eq HASH_DRBG_MAX_DF_INPUT_def)
  have "guarded_run id ?P (hash_instantiate_internal a e n p) d (0 + (seed_loads a + 0)) ()
      (hash_seeded a (e @ n @ p) ?d)"
    unfolding hash_instantiate_internal_def len option.case Let_def seed hash_seeded_def
    by (simp only: fits if_False)
      (intro guarded_run_then [OF guarded_run_update] guarded_run_then [OF run] guarded_run_update)
  then show ?thesis by simp
qed

lemma hash_reseed_refused:
  assumes "reseed_refusal HASH_DRBG_MAX_DF_INPUT (1 + hash_seedlen a) (drbg_slot.truncate d)
    (length e) (length ai) = Some err"
  shows "hash_reseed a e ai d env = (Inl err, d, env)"
  using assms hash_seedlen_bounds [of a]
  by (simp add: hash_reseed_def reseed_refusal_def checked_sum_eq act_bind_def act_simps
      HASH_DRBG_MAX_DF_INPUT_def drbg_slot.truncate_def add.assoc split: if_splits)

lemma hash_reseed_run:
  assumes "reseed_refusal HASH_DRBG_MAX_DF_INPUT (1 + hash_seedlen a) (drbg_slot.truncate d)
      (length e) (length ai) = None"
    and wf: "hash_wf d"
  shows "guarded_run DrbgModule (hash_kept d) (hash_reseed a e ai) d (seed_loads a) ()
    ((hash_put (hash_seed_spec (digest_spec a) (hash_outlen a) (hash_seedlen a)
        ([0x01] @ fst (hash_vc a d) @ e @ ai)) d)\<lparr>reseed_counter := 1\<rparr>)"
proof -
  let ?v = "take (hash_seedlen a) (hash_v d)"
  have fits: "\<not> 1 + hash_seedlen a + length e + length ai > HASH_DRBG_MAX_DF_INPUT"
    "\<not> length e < MIN_ENTROPY_LEN" "instantiated d"
    using assms(1) by (auto simp: reseed_refusal_def drbg_slot.truncate_def split: if_splits)
  have lv: "length ?v = hash_seedlen a" using hash_vc_lengths [OF wf, of a] by (simp add: hash_vc_def)
  let ?z = "copy_at ((zeros HASH_DRBG_MAX_DF_INPUT)[0 := 0x01]) 1 ?v"
  have z: "length ?z = HASH_DRBG_MAX_DF_INPUT" "take (1 + hash_seedlen a) ?z = [0x01] @ ?v"
    using fits(1) lv take_copy_at [of 1 "(zeros HASH_DRBG_MAX_DF_INPUT)[0 := 0x01]" ?v]
    by (simp_all add: take_prefix_byte HASH_DRBG_MAX_DF_INPUT_def)
  have z1: "length (copy_at ?z (1 + hash_seedlen a) e) = HASH_DRBG_MAX_DF_INPUT"
    "take (1 + hash_seedlen a + length e) (copy_at ?z (1 + hash_seedlen a) e) = [0x01] @ ?v @ e"
    using fits(1) z take_copy_at [of "1 + hash_seedlen a" ?z e] by simp_all
  have seed: "take (1 + hash_seedlen a + length e + length ai)
      (copy_at (copy_at ?z (1 + hash_seedlen a) e) (1 + hash_seedlen a + length e) ai) = [0x01] @ ?v @ e @ ai"
    using fits(1) z1 take_copy_at [of "1 + hash_seedlen a + length e" "copy_at ?z (1 + hash_seedlen a) e" ai]
    by simp
  have len: "checked_sum [1, hash_seedlen a, length e, length ai] =
      Some (1 + hash_seedlen a + length e + length ai)"
    using fits(1) by (simp add: checked_sum_eq HASH_DRBG_MAX_DF_INPUT_def)
  have "guarded_run DrbgModule (hash_kept d) (hash_reseed a e ai) d (seed_loads a + 0) ()
    ((hash_put (hash_seed_spec (digest_spec a) (hash_outlen a) (hash_seedlen a)
        ([0x01] @ fst (hash_vc a d) @ e @ ai)) d)\<lparr>reseed_counter := 1\<rparr>)"
    unfolding hash_reseed_def
    by (rule guarded_run_get, simp only: len option.case Let_def seed fits if_False simp_thms hash_vc_def fst_conv)
      (rule guarded_run_then [OF guarded_run_map_err [OF derive_state_run [OF wf], of DrbgModule, simplified]
        guarded_run_update])
  then show ?thesis by simp
qed


text \<open>Generate.\<close>

lemma be_bytes_cong: "x mod 256 ^ n = y mod 256 ^ n \<Longrightarrow> be_bytes n x = be_bytes n y"
  using be_bytes_mod [of n x] be_bytes_mod [of n y] by simp

lemma be_bytes_add: "be_bytes n (be_val (be_bytes n x) + y) = be_bytes n (x + y)"
  by (rule be_bytes_cong) (simp add: be_val_bytes mod_add_left_eq)

lemma hashgen_run:
  assumes "length v = hash_seedlen a" "take (hash_seedlen a) (hash_v d) = v"
  shows "guarded_run id (\<lambda>(d', out'). d' = d \<and> length out' = length out) (hashgen a) (d, out)
    (2 * blocks_for (hash_outlen a) (length out)) ()
    (d, block_bytes (hash_outlen a) (\<lambda>j. digest_spec a (be_bytes (hash_seedlen a) (be_val v + j))) (length out))"
proof -
  let ?s = "hash_seedlen a"
  let ?st = "\<lambda>j. be_bytes ?s (be_val v + j)"
  let ?out = "block_bytes (hash_outlen a) (\<lambda>j. digest_spec a (?st j)) (length out)"
  have st0: "?st 0 = v" using be_bytes_val [of v] assms(1) by simp
  have inc: "increment_be (?st j) = ?st (Suc j)" for j
    using be_bytes_add [of ?s "be_val v + j" 1] by (simp add: increment_be_eq)
  have step: "guarded_run id (\<lambda>_. True) (hashgen_block a) (?st j) 2 (digest_spec a (?st j)) (?st (Suc j))" for j
    using guarded_run_guards_block [of "\<lambda>_. True" "?st j" 2 "digest_spec a (?st j)" increment_be]
    unfolding hashgen_block_def digest_parts_guards by (intro guarded_run_get) (simp add: inc)
  have "guarded_run id (\<lambda>(_, out'). length out' = length out) (fill_blocks (hash_outlen a) (hashgen_block a) 0)
      (v, out) (2 * blocks_for (hash_outlen a) (length out)) ()
      (?st (blocks_for (hash_outlen a) (length out)), ?out)"
    using guarded_run_fill [of "hash_outlen a" id "\<lambda>_. True" "hashgen_block a" ?st 2
        "\<lambda>j. digest_spec a (?st j)" out "\<lambda>(_, out'). length out' = length out", OF _ step] st0
    by simp
  then show ?thesis
    unfolding hashgen_def
    using guarded_run_zoom [of id "\<lambda>(_, out'). length out' = length out"
        "fill_blocks (hash_outlen a) (hashgen_block a) 0" "\<lambda>(d, out). (take ?s (hash_v d), out)" "(d, out)"
        "2 * blocks_for (hash_outlen a) (length out)" "()"
        "(?st (blocks_for (hash_outlen a) (length out)), ?out)"
        "\<lambda>(d', out'). d' = d \<and> length out' = length out" "\<lambda>(_, out) (d, _). (d, out)"]
    by (auto simp: assms(2))
qed

lemma add_to_v_put:
  assumes "hash_wf d" "length v = hash_seedlen a" "length c = hash_seedlen a"
  shows "add_to_v a src (hash_put (v, c) d) = hash_put (be_bytes (hash_seedlen a) (be_val v + be_val src), c) d"
  using hash_put_set(1) [OF assms, of "be_bytes (hash_seedlen a) (be_val v + be_val src)"]
  by (simp add: add_to_v_def hash_put_slices [OF assms] add_into_be_eq assms(2))

lemma hash_generate_refused:
  assumes "generate_refusal HASH_DRBG_MAX_DF_INPUT (1 + hash_seedlen a) (drbg_slot.truncate d) ai (length out) = Some err"
  shows "hash_generate a ai (d, out) env = (Inl err, (d, zeros (length out)), env)"
  using assms
  by (cases ai)
    (auto simp: hash_generate_def wiping_def hash_generate_unwiped_def generate_refusal_def act_bind_def
      act_simps drbg_slot.truncate_def checked_add_usize_def HASH_DRBG_MAX_DF_INPUT_def split: if_splits)

definition hash_generate_loads :: "hash_alg \<Rightarrow> bytes option \<Rightarrow> nat \<Rightarrow> nat" where
  "hash_generate_loads a ai len =
     (if ai = None then 0 else 2) + (2 * blocks_for (hash_outlen a) len + 2)"

lemma hash_generate_run:
  assumes "generate_refusal HASH_DRBG_MAX_DF_INPUT (1 + hash_seedlen a) (drbg_slot.truncate d) ai (length out) = None"
    and wf: "hash_wf d"
    and res_def: "res = hash_generate_spec (digest_spec a) (hash_outlen a) (hash_seedlen a) ai (length out)
      (hash_vc a d) (unat (reseed_counter d))"
  shows "guarded_run DrbgModule (\<lambda>(d', out'). hash_kept d d' \<and> out' = zeros (length out))
    (hash_generate a ai) (d, out) (hash_generate_loads a ai (length out)) ()
    ((hash_put (snd res) d)\<lparr>reseed_counter := reseed_counter d + 1\<rparr>, fst res)"
proof -
  let ?s = "hash_seedlen a"
  let ?P = "\<lambda>(d', out'). hash_kept d d' \<and> length out' = length out"
  have fits: "instantiated d" "\<not> length out > MAX_BITS_PER_REQ" "\<not> reseed_counter d > RESEED_INTERVAL"
    using assms(1) by (auto simp: generate_refusal_def drbg_slot.truncate_def split: if_splits)
  have ai: "\<not> length input + (1 + ?s) > HASH_DRBG_MAX_DF_INPUT" if "ai = Some input" for input
    using assms(1) that by (auto simp: generate_refusal_def split: if_splits)
  obtain v0 c where v0: "hash_vc a d = (v0, c)" by (cases "hash_vc a d")
  then have l0: "length v0 = ?s" "length c = ?s" using hash_vc_lengths [OF wf, of a] by simp_all
  have d0: "hash_put (v0, c) d = d" using hash_put_self [OF wf, of a] v0 by simp
  define v where "v = (case ai of None \<Rightarrow> v0
    | Some x \<Rightarrow> be_bytes ?s (be_val v0 + be_val (digest_spec a ([0x02] @ v0 @ x))))"
  have l: "length v = ?s" using l0 by (simp add: v_def split: option.splits)
  let ?m = "blocks_for (hash_outlen a) (length out)"
  let ?out = "block_bytes (hash_outlen a) (\<lambda>j. digest_spec a (be_bytes ?s (be_val v + j))) (length out)"
  have lo: "length ?out = length out" by (intro length_block_bytes) simp_all
  let ?h = "digest_spec a ([0x03] @ v)"
  let ?v' = "be_bytes ?s (be_val v + be_val ?h + be_val c + unat (reseed_counter d))"
  have res: "res = (?out, ?v', c)"
    by (simp add: res_def hash_generate_spec_def v0 v_def Let_def)
  note kept = hash_kept_put [OF wf l l0(2)]
  have part1: "guarded_run DrbgModule ?P (case ai of
           None \<Rightarrow> act_ok ()
         | Some ai \<Rightarrow>
             (case checked_add_usize (length ai) (1 + ?s) of
                None \<Rightarrow> act_fail InputTooLong
              | Some t \<Rightarrow>
                  if t > HASH_DRBG_MAX_DF_INPUT then act_fail InputTooLong
                  else act_fst (act_map_err DrbgModule (act_get (\<lambda>d.
                    act_bind (act_gate (digest_parts a [[0x02], take ?s (hash_v d), ai])) (\<lambda>w.
                    act_update (add_to_v a w))))))) (d, out)
      (if ai = None then 0 else 2) () (hash_put (v, c) d, out)"
  proof (cases ai)
    case None
    then show ?thesis by (simp add: v_def d0 guarded_run_ok)
  next
    case (Some x)
    have sum: "checked_add_usize (length x) (1 + ?s) = Some (length x + (1 + ?s))"
      using ai [OF Some] by (simp add: checked_add_usize_def HASH_DRBG_MAX_DF_INPUT_def)
    have v: "take ?s (hash_v d) = v0" using v0 by (simp add: hash_vc_def)
    have "add_to_v a (digest_spec a ([0x02] @ v0 @ x)) d = hash_put (v, c) d"
      using add_to_v_put [OF wf l0, of "digest_spec a ([0x02] @ v0 @ x)"] by (simp only: d0 v_def Some option.case)
    then have "guarded_run id (hash_kept d) (act_get (\<lambda>d.
          act_bind (act_gate (digest_parts a [[0x02], take ?s (hash_v d), x])) (\<lambda>w. act_update (add_to_v a w))))
        d 2 () (hash_put (v, c) d)"
      using guarded_run_guards_update [of "hash_kept d" d 2 "digest_spec a ([0x02] @ v0 @ x)" "add_to_v a"] wf
      unfolding digest_parts_guards by (intro guarded_run_get) (simp add: v hash_kept_def)
    from guarded_run_map_err [OF this, of DrbgModule]
    have "guarded_run DrbgModule ?P (act_fst (act_map_err DrbgModule (act_get (\<lambda>d.
          act_bind (act_gate (digest_parts a [[0x02], take ?s (hash_v d), x])) (\<lambda>w. act_update (add_to_v a w))))))
        (d, out) 2 () (hash_put (v, c) d, out)"
      by (intro guarded_run_fst [of _ "hash_kept d"]) simp_all
    then show ?thesis using Some ai [OF Some] by (simp only: sum option.case option.simps if_False)
  qed
  have part2: "guarded_run DrbgModule ?P (act_map_err DrbgModule (hashgen a)) (hash_put (v, c) d, out) (2 * ?m) ()
      (hash_put (v, c) d, ?out)"
    using guarded_run_map_err [OF hashgen_run [OF l hash_put_slices(1) [OF wf l l0(2)], of out], of DrbgModule] kept
    by (auto elim!: guarded_run_weaken)
  let ?upd = "\<lambda>h d. let d = add_to_v a h d;
               d = add_to_v a (take ?s (hash_c d)) d;
               d = add_to_v a (be_of_u64 (reseed_counter d)) d
           in d\<lparr>reseed_counter := reseed_counter d + 1\<rparr>"
  have upd: "?upd ?h (hash_put (v, c) d) = (hash_put (?v', c) d)\<lparr>reseed_counter := reseed_counter d + 1\<rparr>"
    by (simp add: Let_def add_to_v_put [OF wf _ l0(2)] hash_put_slices [OF wf _ l0(2)] l be_bytes_add be_val_u64
        del: append_Cons)
  have "guarded_run id (hash_kept d) (act_get (\<lambda>d.
         act_bind (act_gate (digest_parts a [[0x03], take ?s (hash_v d)])) (\<lambda>h. act_update (?upd h))))
      (hash_put (v, c) d) 2 () ((hash_put (?v', c) d)\<lparr>reseed_counter := reseed_counter d + 1\<rparr>)"
    using guarded_run_guards_update [of "hash_kept d" "hash_put (v, c) d" 2 ?h ?upd, OF kept] upd
    unfolding digest_parts_guards
    by (intro guarded_run_get) (simp only: hash_put_slices [OF wf l l0(2)] concat.simps append_Nil2)
  from guarded_run_map_err [OF this, of DrbgModule]
  have part3: "guarded_run DrbgModule ?P (act_fst (act_map_err DrbgModule (act_get (\<lambda>d.
         act_bind (act_gate (digest_parts a [[0x03], take ?s (hash_v d)])) (\<lambda>h. act_update (?upd h))))))
      (hash_put (v, c) d, ?out) 2 () ((hash_put (?v', c) d)\<lparr>reseed_counter := reseed_counter d + 1\<rparr>, ?out)"
    using lo by (intro guarded_run_fst [of _ "hash_kept d"]) simp_all
  have "guarded_run DrbgModule ?P (hash_generate_unwiped a ai) (d, out) (hash_generate_loads a ai (length out)) ()
      ((hash_put (snd res) d)\<lparr>reseed_counter := reseed_counter d + 1\<rparr>, fst res)"
    unfolding hash_generate_unwiped_def hash_generate_loads_def
    by (rule guarded_run_get, simp only: prod.case fits if_False simp_thms res fst_conv snd_conv)
      (rule guarded_run_then [OF part1 guarded_run_then [OF part2 part3]])
  then show ?thesis
    unfolding hash_generate_def by (rule guarded_run_weaken [OF guarded_run_wiping]) auto
qed


subsection \<open>The contract of the mechanism\<close>

lemma hash_kept_eq: "hash_kept d = (\<lambda>d'. hash_wf d' \<and> drbg_slot.truncate d' = drbg_slot.truncate d)"
  by (simp add: hash_kept_def fun_eq_iff)

lemma length_hash_seed_spec:
  "length (fst (hash_seed_spec (digest_spec a) (hash_outlen a) (hash_seedlen a) seed)) = hash_seedlen a"
  "length (snd (hash_seed_spec (digest_spec a) (hash_outlen a) (hash_seedlen a) seed)) = hash_seedlen a"
  by (simp_all add: hash_seed_spec_def Let_def)

lemma length_hash_generate_spec:
  assumes "length (fst vc) = hash_seedlen a" "length (snd vc) = hash_seedlen a"
  shows "length (fst (hash_generate_spec (digest_spec a) (hash_outlen a) (hash_seedlen a) ai n vc r)) = n"
    "length (fst (snd (hash_generate_spec (digest_spec a) (hash_outlen a) (hash_seedlen a) ai n vc r))) = hash_seedlen a"
    "length (snd (snd (hash_generate_spec (digest_spec a) (hash_outlen a) (hash_seedlen a) ai n vc r))) = hash_seedlen a"
  using assms by (cases vc; simp add: hash_generate_spec_def Let_def length_block_bytes)+

lemma hash_seeded_simps:
  assumes "hash_wf d"
  shows "hash_wf (hash_seeded a seed d)"
    "hash_vc a (hash_seeded a seed d) = hash_seed_spec (digest_spec a) (hash_outlen a) (hash_seedlen a) seed"
    "drbg_slot.truncate (hash_seeded a seed d) = \<lparr>reseed_counter = 1, instantiated = True\<rparr>"
  using hash_put_simps(1,2) [OF assms length_hash_seed_spec, of a seed]
  by (simp_all add: hash_seeded_def hash_wf_def hash_vc_def drbg_slot.truncate_def)

lemma hash_wf_uninstantiate [simp]: "hash_wf (hash_uninstantiate d) = hash_wf d"
  by (simp add: hash_wf_def hash_uninstantiate_def)

lemma hash_counter_wf [simp]:
  "hash_wf (d\<lparr>reseed_counter := n\<rparr>) = hash_wf d" "hash_vc a (d\<lparr>reseed_counter := n\<rparr>) = hash_vc a d"
  "drbg_slot.truncate (d\<lparr>reseed_counter := n\<rparr>) = (drbg_slot.truncate d)\<lparr>reseed_counter := n\<rparr>"
  by (simp_all add: hash_wf_def hash_vc_def drbg_slot.truncate_def)

lemma seed_loads_pos: "0 < seed_loads a"
  by (cases a) (simp_all add: seed_loads_def df_blocks_def blocks_for_def)

interpretation hash_mech: drbg_mechanism hash_wf drbg_slot.truncate
  "\<lambda>s e ai. reseed_refusal HASH_DRBG_MAX_DF_INPUT (1 + hash_seedlen a) s (length e) (length ai)" "generate_refusal HASH_DRBG_MAX_DF_INPUT (1 + hash_seedlen a)"
  "hash_reseed a" "hash_generate a" for a
proof
  fix s addl n merr e ai
  show "generate_refusal HASH_DRBG_MAX_DF_INPUT (1 + hash_seedlen a) s addl n = None \<Longrightarrow>
      instantiated s \<and> reseed_counter s \<le> RESEED_INTERVAL"
    "reseed_refusal HASH_DRBG_MAX_DF_INPUT (1 + hash_seedlen a) s (length e) (length ai) = None \<Longrightarrow> instantiated s"
    "reseed_refusal HASH_DRBG_MAX_DF_INPUT (1 + hash_seedlen a) s (length e) (length ai) \<noteq> Some (DrbgModule merr)"
    "generate_refusal HASH_DRBG_MAX_DF_INPUT (1 + hash_seedlen a) s addl n \<noteq> Some (DrbgModule merr)"
    by (auto simp: generate_refusal_def reseed_refusal_def split: if_splits option.splits)
next
  fix d :: hash_drbg and e ai :: bytes and addl :: "bytes option" and out :: bytes and err env
  assume "reseed_refusal HASH_DRBG_MAX_DF_INPUT (1 + hash_seedlen a) (drbg_slot.truncate d) (length e) (length ai) = Some err"
  then show "hash_reseed a e ai d env = (Inl err, d, env)" by (rule hash_reseed_refused)
next
  fix d :: hash_drbg and addl :: "bytes option" and out :: bytes and err env
  assume "generate_refusal HASH_DRBG_MAX_DF_INPUT (1 + hash_seedlen a) (drbg_slot.truncate d) addl (length out) = Some err"
  then show "hash_generate a addl (d, out) env = (Inl err, (d, zeros (length out)), env)"
    by (rule hash_generate_refused)
next
  fix d :: hash_drbg and e ai :: bytes
  assume a: "reseed_refusal HASH_DRBG_MAX_DF_INPUT (1 + hash_seedlen a) (drbg_slot.truncate d) (length e) (length ai) = None"
    and wf: "hash_wf d"
  let ?vc = "hash_seed_spec (digest_spec a) (hash_outlen a) (hash_seedlen a) ([0x01] @ fst (hash_vc a d) @ e @ ai)"
  have "hash_wf (hash_put ?vc d)"
    by (intro hash_put_simps(1) [OF wf, of _ a] length_hash_seed_spec)
  with hash_reseed_run [OF a wf] seed_loads_pos [of a]
  show "\<exists>k d'. 0 < k \<and> hash_wf d' \<and> drbg_slot.truncate d' = (drbg_slot.truncate d)\<lparr>reseed_counter := 1\<rparr> \<and>
      guarded_run DrbgModule (\<lambda>d''. hash_wf d'' \<and> drbg_slot.truncate d'' = drbg_slot.truncate d)
        (hash_reseed a e ai) d k () d'"
    unfolding hash_kept_eq
    by (intro exI [of _ "seed_loads a"] exI [of _ "(hash_put ?vc d)\<lparr>reseed_counter := 1\<rparr>"]) simp
next
  fix d :: hash_drbg and addl :: "bytes option" and out :: bytes
  assume a: "generate_refusal HASH_DRBG_MAX_DF_INPUT (1 + hash_seedlen a) (drbg_slot.truncate d) addl (length out) = None"
    and wf: "hash_wf d"
  note vc = hash_vc_lengths [OF wf, of a]
  let ?res = "hash_generate_spec (digest_spec a) (hash_outlen a) (hash_seedlen a) addl (length out)
    (hash_vc a d) (unat (reseed_counter d))"
  have "hash_wf (hash_put (snd ?res) d)" "length (fst ?res) = length out"
    using vc by (simp_all add: hash_put_simps(1) [OF wf, of _ a] length_hash_generate_spec)
  with hash_generate_run [OF a wf refl]
  show "\<exists>k d' out'. 0 < k \<and> hash_wf d' \<and>
      drbg_slot.truncate d' = (drbg_slot.truncate d)\<lparr>reseed_counter := reseed_counter (drbg_slot.truncate d) + 1\<rparr> \<and>
      length out' = length out \<and>
      guarded_run DrbgModule (\<lambda>(d'', o'). hash_wf d'' \<and> drbg_slot.truncate d'' = drbg_slot.truncate d \<and>
          o' = zeros (length out)) (hash_generate a addl) (d, out) k () (d', out')"
    unfolding hash_kept_def
    by (intro exI [of _ "hash_generate_loads a addl (length out)"]
        exI [of _ "(hash_put (snd ?res) d)\<lparr>reseed_counter := reseed_counter d + 1\<rparr>"] exI [of _ "fst ?res"] conjI)
      (auto simp: hash_generate_loads_def drbg_slot.truncate_def conj_assoc)
qed


subsection \<open>Property\<close>

text \<open>The abstract state of an instance: none, or \<open>V\<close>, \<open>C\<close> and the counter.\<close>

definition hash_view :: "hash_alg \<Rightarrow> hash_drbg \<Rightarrow> ((bytes \<times> bytes) \<times> nat) option" where
  "hash_view a d = (if instantiated d then Some (hash_vc a d, unat (reseed_counter d)) else None)"

text \<open>C20: Hash_DRBG implements SP 800-90A section 10.1.1 for each of its three hashes: whenever the
  module admits every internal check, accepted instantiate, reseed and generate calls succeed with
  \<open>V\<close> and \<open>C\<close> derived by \<open>Hash_df\<close>, output hashed from \<open>V\<close> counted up, and \<open>V\<close> updated to
  \<open>V + H + C + reseed_counter\<close> as integers modulo \<open>2^seedlen\<close>, which the code computes by bytes and
  carries.\<close>

theorem hash_drbg_correct:
  assumes "\<forall>i. gate_at env i = Inr ()" "hash_wf d"
  shows
   "(32 \<le> length e \<and> 16 \<le> length n \<and> length e + length n + length p \<le> 768 \<longrightarrow>
      (\<exists>d'. hash_instantiate_internal a e n p d env = (Inr (), d', env_later env (seed_loads a)) \<and> hash_wf d' \<and>
        hash_view a d' = Some (hash_seed_spec (digest_spec a) (hash_outlen a) (hash_seedlen a) (e @ n @ p), 1))) \<and>
    (instantiated d \<and> 32 \<le> length e \<and> 1 + hash_seedlen a + length e + length ai \<le> 768 \<longrightarrow>
      (\<exists>d'. hash_reseed a e ai d env = (Inr (), d', env_later env (seed_loads a)) \<and> hash_wf d' \<and>
        hash_view a d' = Some (hash_seed_spec (digest_spec a) (hash_outlen a) (hash_seedlen a)
          ([0x01] @ fst (hash_vc a d) @ e @ ai), 1))) \<and>
    (instantiated d \<and> reseed_counter d \<le> 2 ^ 48 \<and> length out \<le> 2 ^ 16 \<and>
       (case addl of None \<Rightarrow> True | Some x \<Rightarrow> 1 + hash_seedlen a + length x \<le> 768) \<longrightarrow>
      (let res = hash_generate_spec (digest_spec a) (hash_outlen a) (hash_seedlen a) addl (length out)
           (hash_vc a d) (unat (reseed_counter d)) in
       \<exists>d'. hash_generate a addl (d, out) env =
           (Inr (), (d', fst res), env_later env (hash_generate_loads a addl (length out))) \<and>
         hash_wf d' \<and> hash_view a d' = Some (snd res, unat (reseed_counter d) + 1)))"
proof (intro conjI impI)
  note vc = hash_vc_lengths [OF assms(2), of a]
  note limits = MIN_ENTROPY_LEN_def MIN_NONCE_LEN_def SECURITY_STRENGTH_def HASH_DRBG_MAX_DF_INPUT_def
    MAX_BITS_PER_REQ_def RESEED_INTERVAL_simp drbg_slot.truncate_def
  {
    assume "32 \<le> length e \<and> 16 \<le> length n \<and> length e + length n + length p \<le> 768"
    then have "seed_refusal HASH_DRBG_MAX_DF_INPUT (length e) (length n) (length p) = None"
      by (simp add: seed_refusal_def limits)
    note run = gates_pass [OF assms(1) hash_instantiate_run [OF this assms(2), of a]]
    have "hash_wf (hash_uninstantiate d)" using assms(2) by simp
    from hash_seeded_simps [OF this, of a "e @ n @ p"]
    have "hash_wf (hash_seeded a (e @ n @ p) (hash_uninstantiate d)) \<and>
        hash_view a (hash_seeded a (e @ n @ p) (hash_uninstantiate d)) =
          Some (hash_seed_spec (digest_spec a) (hash_outlen a) (hash_seedlen a) (e @ n @ p), 1)"
      by (simp add: hash_view_def drbg_slot.truncate_def)
    then show "\<exists>d'. hash_instantiate_internal a e n p d env = (Inr (), d', env_later env (seed_loads a)) \<and> hash_wf d' \<and>
        hash_view a d' = Some (hash_seed_spec (digest_spec a) (hash_outlen a) (hash_seedlen a) (e @ n @ p), 1)"
      unfolding run by blast
  next
    assume *: "instantiated d \<and> 32 \<le> length e \<and> 1 + hash_seedlen a + length e + length ai \<le> 768"
    then have "reseed_refusal HASH_DRBG_MAX_DF_INPUT (1 + hash_seedlen a) (drbg_slot.truncate d)
        (length e) (length ai) = None"
      by (simp add: reseed_refusal_def limits)
    note run = gates_pass [OF assms(1) hash_reseed_run [OF this assms(2)]]
    note put = hash_put_simps(1,2) [OF assms(2) length_hash_seed_spec, of a "[0x01] @ fst (hash_vc a d) @ e @ ai"]
    show "\<exists>d'. hash_reseed a e ai d env = (Inr (), d', env_later env (seed_loads a)) \<and> hash_wf d' \<and>
        hash_view a d' = Some (hash_seed_spec (digest_spec a) (hash_outlen a) (hash_seedlen a)
          ([0x01] @ fst (hash_vc a d) @ e @ ai), 1)"
      unfolding run using put *
      by (intro exI [of _ "(hash_put (hash_seed_spec (digest_spec a) (hash_outlen a) (hash_seedlen a)
          ([0x01] @ fst (hash_vc a d) @ e @ ai)) d)\<lparr>reseed_counter := 1\<rparr>"]) (simp add: hash_view_def)
  next
    assume *: "instantiated d \<and> reseed_counter d \<le> 2 ^ 48 \<and> length out \<le> 2 ^ 16 \<and>
       (case addl of None \<Rightarrow> True | Some x \<Rightarrow> 1 + hash_seedlen a + length x \<le> 768)"
    define res where "res = hash_generate_spec (digest_spec a) (hash_outlen a) (hash_seedlen a) addl (length out)
           (hash_vc a d) (unat (reseed_counter d))"
    have "generate_refusal HASH_DRBG_MAX_DF_INPUT (1 + hash_seedlen a) (drbg_slot.truncate d) addl (length out) = None"
      using * by (auto simp: generate_refusal_def limits split: option.splits)
    note run = gates_pass [OF assms(1) hash_generate_run [OF this assms(2) res_def]]
    have "length (fst (snd res)) = hash_seedlen a" "length (snd (snd res)) = hash_seedlen a"
      using vc by (simp_all add: res_def length_hash_generate_spec)
    note put = hash_put_simps(1,2) [OF assms(2) this]
    from * have "unat (reseed_counter d) \<le> unat ((2 :: u64) ^ 48)" by (simp only: word_le_nat_alt)
    then have "unat (reseed_counter d + 1) = unat (reseed_counter d) + 1" by (simp add: unat_word_ariths)
    then show "let res = hash_generate_spec (digest_spec a) (hash_outlen a) (hash_seedlen a) addl (length out)
           (hash_vc a d) (unat (reseed_counter d)) in
       \<exists>d'. hash_generate a addl (d, out) env =
           (Inr (), (d', fst res), env_later env (hash_generate_loads a addl (length out))) \<and>
         hash_wf d' \<and> hash_view a d' = Some (snd res, unat (reseed_counter d) + 1)"
      unfolding res_def [symmetric] Let_def run using put *
      by (intro exI [of _ "(hash_put (snd res) d)\<lparr>reseed_counter := reseed_counter d + 1\<rparr>"]) (simp add: hash_view_def)
  }
qed

theorem hash_drbg_correct_witness:
  "let d = \<lparr>reseed_counter = 3, instantiated = True, hash_v = zeros 111, hash_c = zeros 111\<rparr>;
       env = steady None OPERATIONAL 0;
       vc = hash_seed_spec sha256_spec 32 55 (zeros 32 @ zeros 16 @ []);
       res = hash_generate_spec sha256_spec 32 55 (Some [7]) 100 (zeros 55, zeros 55) 3
   in (\<exists>d'. hash_instantiate_internal Sha256Alg (zeros 32) (zeros 16) [] d env = (Inr (), d', env) \<and>
        hash_view Sha256Alg d' = Some (vc, 1)) \<and>
      (\<exists>d'. hash_generate Sha256Alg (Some [7]) (d, zeros 100) env = (Inr (), (d', fst res), env) \<and>
        hash_view Sha256Alg d' = Some (snd res, 4))"
proof -
  let ?d = "\<lparr>reseed_counter = 3, instantiated = True, hash_v = zeros 111, hash_c = zeros 111\<rparr>"
  let ?env = "steady None OPERATIONAL 0"
  have "\<forall>i. gate_at ?env i = Inr ()" by (simp add: require_self_test_started_def)
  moreover have "hash_wf ?d" by (simp add: hash_wf_def MAX_SEEDLEN_simp)
  ultimately show ?thesis
    using hash_drbg_correct [of ?env ?d "zeros 32" "zeros 16" "[]" Sha256Alg "[]" "zeros 100" "Some [7]"]
    by (auto simp: Let_def hash_vc_def zeros_def min_def word_le_nat_alt)
qed

end
