(* ===== verification/Aes_Field.thy ===== *)
theory Aes_Field
  imports Prelude
begin

unbundle bit_operations_syntax

text \<open>
  The byte tables and the field arithmetic of \<^verbatim>\<open>src/crates/oxicrypt-aes/src/block.rs\<close>: the two S-boxes,
  \<open>gmul\<close>, and GF(2^8) as FIPS 197 section 4 defines it, in which the S-box is the affine transform of
  the multiplicative inverse.
\<close>

subsection \<open>Tables\<close>

definition SBOX :: bytes where
  "SBOX = [
    99, 124, 119, 123, 242, 107, 111, 197, 48, 1, 103, 43, 254, 215, 171, 118,
    202, 130, 201, 125, 250, 89, 71, 240, 173, 212, 162, 175, 156, 164, 114, 192,
    183, 253, 147, 38, 54, 63, 247, 204, 52, 165, 229, 241, 113, 216, 49, 21,
    4, 199, 35, 195, 24, 150, 5, 154, 7, 18, 128, 226, 235, 39, 178, 117,
    9, 131, 44, 26, 27, 110, 90, 160, 82, 59, 214, 179, 41, 227, 47, 132,
    83, 209, 0, 237, 32, 252, 177, 91, 106, 203, 190, 57, 74, 76, 88, 207,
    208, 239, 170, 251, 67, 77, 51, 133, 69, 249, 2, 127, 80, 60, 159, 168,
    81, 163, 64, 143, 146, 157, 56, 245, 188, 182, 218, 33, 16, 255, 243, 210,
    205, 12, 19, 236, 95, 151, 68, 23, 196, 167, 126, 61, 100, 93, 25, 115,
    96, 129, 79, 220, 34, 42, 144, 136, 70, 238, 184, 20, 222, 94, 11, 219,
    224, 50, 58, 10, 73, 6, 36, 92, 194, 211, 172, 98, 145, 149, 228, 121,
    231, 200, 55, 109, 141, 213, 78, 169, 108, 86, 244, 234, 101, 122, 174, 8,
    186, 120, 37, 46, 28, 166, 180, 198, 232, 221, 116, 31, 75, 189, 139, 138,
    112, 62, 181, 102, 72, 3, 246, 14, 97, 53, 87, 185, 134, 193, 29, 158,
    225, 248, 152, 17, 105, 217, 142, 148, 155, 30, 135, 233, 206, 85, 40, 223,
    140, 161, 137, 13, 191, 230, 66, 104, 65, 153, 45, 15, 176, 84, 187, 22]"

definition INV_SBOX :: bytes where
  "INV_SBOX = [
    82, 9, 106, 213, 48, 54, 165, 56, 191, 64, 163, 158, 129, 243, 215, 251,
    124, 227, 57, 130, 155, 47, 255, 135, 52, 142, 67, 68, 196, 222, 233, 203,
    84, 123, 148, 50, 166, 194, 35, 61, 238, 76, 149, 11, 66, 250, 195, 78,
    8, 46, 161, 102, 40, 217, 36, 178, 118, 91, 162, 73, 109, 139, 209, 37,
    114, 248, 246, 100, 134, 104, 152, 22, 212, 164, 92, 204, 93, 101, 182, 146,
    108, 112, 72, 80, 253, 237, 185, 218, 94, 21, 70, 87, 167, 141, 157, 132,
    144, 216, 171, 0, 140, 188, 211, 10, 247, 228, 88, 5, 184, 179, 69, 6,
    208, 44, 30, 143, 202, 63, 15, 2, 193, 175, 189, 3, 1, 19, 138, 107,
    58, 145, 17, 65, 79, 103, 220, 234, 151, 242, 207, 206, 240, 180, 230, 115,
    150, 172, 116, 34, 231, 173, 53, 133, 226, 249, 55, 232, 28, 117, 223, 110,
    71, 241, 26, 113, 29, 41, 197, 137, 111, 183, 98, 14, 170, 24, 190, 27,
    252, 86, 62, 75, 198, 210, 121, 32, 154, 219, 192, 254, 120, 205, 90, 244,
    31, 221, 168, 51, 136, 7, 199, 49, 177, 18, 16, 89, 39, 128, 236, 95,
    96, 81, 127, 169, 25, 181, 74, 13, 45, 229, 122, 159, 147, 201, 156, 239,
    160, 224, 59, 77, 174, 42, 245, 176, 200, 235, 187, 60, 131, 83, 153, 97,
    23, 43, 4, 126, 186, 119, 214, 38, 225, 105, 20, 99, 85, 33, 12, 125]"

definition RCON :: bytes where
  "RCON = [0, 1, 2, 4, 8, 16, 32, 64, 128, 27, 54]"

subsection \<open>Multiplication\<close>

text \<open>One iteration of the loop of \<open>gmul\<close> on \<open>(r, x, y)\<close>.\<close>

definition gmul_step :: "u8 \<times> u8 \<times> u8 \<Rightarrow> u8 \<times> u8 \<times> u8" where
  "gmul_step st =
     (case st of (r, x, y) \<Rightarrow>
        let r = (if y AND 1 \<noteq> 0 then r XOR x else r);
            hi = x AND 0x80;
            x = push_bit 1 x;
            x = (if hi \<noteq> 0 then x XOR 0x1b else x)
        in (r, x, drop_bit 1 y))"

definition gmul :: "u8 \<Rightarrow> u8 \<Rightarrow> u8" where
  "gmul a b = fst ((gmul_step ^^ 8) (0, a, b))"

subsection \<open>GF(2^8)\<close>

text \<open>\<open>xtime\<close>, FIPS 197 section 4.2.1, and the product as the sum of its applications.\<close>

definition xtime :: "u8 \<Rightarrow> u8" where
  "xtime a = push_bit 1 a XOR (if bit a 7 then 0x1b else 0)"

fun gf_sum :: "nat \<Rightarrow> (nat \<Rightarrow> u8) \<Rightarrow> u8" where
  "gf_sum 0 f = 0"
| "gf_sum (Suc n) f = gf_sum n f XOR f n"

definition gf_times :: "u8 \<Rightarrow> u8 \<Rightarrow> u8" where
  "gf_times a b = gf_sum 8 (\<lambda>i. if bit b i then (xtime ^^ i) a else 0)"

lemma xtime_xor: "xtime (a XOR b) = xtime a XOR xtime b"
  by (auto simp: xtime_def bit_simps push_bit_xor xor.assoc xor.left_commute)

lemma xtime_0 [simp]: "xtime 0 = 0"
  by (simp add: xtime_def)

lemma xtime_pow_xor: "(xtime ^^ n) (a XOR b) = (xtime ^^ n) a XOR (xtime ^^ n) b"
  by (induction n) (simp_all add: xtime_xor)

lemma xtime_pow_0 [simp]: "(xtime ^^ n) 0 = 0"
  by (induction n) simp_all

lemma gf_sum_cong: "(\<And>i. i < n \<Longrightarrow> f i = g i) \<Longrightarrow> gf_sum n f = gf_sum n g"
  by (induction n) simp_all

lemma gf_sum_xor: "gf_sum n (\<lambda>i. f i XOR g i) = gf_sum n f XOR gf_sum n g"
  by (induction n) (simp_all add: xor.assoc xor.left_commute)

lemma gf_sum_0 [simp]: "gf_sum n (\<lambda>i. 0) = 0"
  by (induction n) simp_all

lemma gf_sum_swap: "gf_sum n (\<lambda>i. gf_sum m (\<lambda>j. f i j)) = gf_sum m (\<lambda>j. gf_sum n (\<lambda>i. f i j))"
  by (induction n) (simp_all add: gf_sum_xor)

lemma gf_sum_xtime: "(xtime ^^ k) (gf_sum n f) = gf_sum n (\<lambda>i. (xtime ^^ k) (f i))"
  by (induction n) (simp_all add: xtime_pow_xor)

lemma gf_times_xor: "gf_times (a XOR b) c = gf_times a c XOR gf_times b c"
  unfolding gf_times_def gf_sum_xor [symmetric] by (rule gf_sum_cong) (simp add: xtime_pow_xor)

lemma gf_times_0 [simp]: "gf_times 0 c = 0"
  by (simp add: gf_times_def cong: if_cong)

lemma gf_times_xtime: "gf_times ((xtime ^^ k) a) c = (xtime ^^ k) (gf_times a c)"
  unfolding gf_times_def gf_sum_xtime
  by (rule gf_sum_cong) (simp add: funpow_add [symmetric, THEN fun_cong, unfolded o_def] add.commute)

lemma gf_times_sum: "gf_times (gf_sum n f) c = gf_sum n (\<lambda>i. gf_times (f i) c)"
  by (induction n) (simp_all add: gf_times_xor)

text \<open>A byte is the sum of its bits' powers of \<open>x\<close>.\<close>

lemma xtime_push_bit: "i < 7 \<Longrightarrow> xtime (push_bit i 1) = push_bit (Suc i) 1"
  by (auto simp: xtime_def bit_simps push_bit_push_bit)

lemma xtime_pow_1: "i < 8 \<Longrightarrow> (xtime ^^ i) 1 = push_bit i 1"
proof (induction i)
  case (Suc i)
  then show ?case using xtime_push_bit [of i] by simp
qed simp

lemma gf_sum_bit: "bit (gf_sum n f) k \<longleftrightarrow> odd (card {i. i < n \<and> bit (f i) k})"
proof (induction n)
  case (Suc n)
  have "{i. i < Suc n \<and> bit (f i) k} =
      {i. i < n \<and> bit (f i) k} \<union> (if bit (f n) k then {n} else {})"
    by (auto simp: less_Suc_eq)
  then have "card {i. i < Suc n \<and> bit (f i) k} =
      card {i. i < n \<and> bit (f i) k} + (if bit (f n) k then 1 else 0)"
    by (simp add: card_Un_disjoint)
  then show ?case using Suc by (simp add: bit_simps)
qed simp

lemma byte_sum: "a = gf_sum 8 (\<lambda>j. if bit a j then (xtime ^^ j) 1 else 0)"
proof (rule bit_word_eqI)
  fix k :: nat
  assume "k < LENGTH(8)"
  then have k: "k < 8" by simp
  have "{i. i < 8 \<and> bit (if bit a i then (xtime ^^ i) 1 else 0 :: u8) k} = (if bit a k then {k} else {})"
    using k by (auto simp: xtime_pow_1 bit_simps)
  then show "bit a k = bit (gf_sum 8 (\<lambda>j. if bit a j then (xtime ^^ j) 1 else 0)) k"
    by (simp add: gf_sum_bit)
qed

text \<open>The product is symmetric in the bits, so commutative; and associative.\<close>

lemma gf_times_sym:
  "gf_times a b = gf_sum 8 (\<lambda>i. gf_sum 8 (\<lambda>j. if bit a j \<and> bit b i then (xtime ^^ (i + j)) 1 else 0))"
proof -
  have "gf_times a b = gf_sum 8 (\<lambda>i. if bit b i then (xtime ^^ i) (gf_sum 8 (\<lambda>j. if bit a j then (xtime ^^ j) 1 else 0)) else 0)"
    unfolding gf_times_def by (subst byte_sum [of a]) (rule refl)
  also have "\<dots> = gf_sum 8 (\<lambda>i. gf_sum 8 (\<lambda>j. if bit a j \<and> bit b i then (xtime ^^ (i + j)) 1 else 0))"
  proof (rule gf_sum_cong)
    fix i :: nat
    show "(if bit b i then (xtime ^^ i) (gf_sum 8 (\<lambda>j. if bit a j then (xtime ^^ j) 1 else 0)) else 0) =
        gf_sum 8 (\<lambda>j. if bit a j \<and> bit b i then (xtime ^^ (i + j)) 1 else 0)"
    proof (cases "bit b i")
      case True
      then show ?thesis
        unfolding gf_sum_xtime by (simp only: if_True) (rule gf_sum_cong, simp add: funpow_add)
    next
      case False
      then show ?thesis by (simp cong: if_cong)
    qed
  qed
  finally show ?thesis .
qed

lemma gf_times_commute: "gf_times a b = gf_times b a"
  unfolding gf_times_sym [of a b] gf_times_sym [of b a]
  by (subst gf_sum_swap) (intro gf_sum_cong, simp add: add.commute conj_commute)

lemma gf_times_assoc: "gf_times (gf_times a b) c = gf_times a (gf_times b c)"
proof -
  have "gf_times (gf_times a b) c = gf_times (gf_times b a) c" by (simp only: gf_times_commute)
  also have "\<dots> = gf_sum 8 (\<lambda>i. gf_times (if bit a i then (xtime ^^ i) b else 0) c)"
    by (simp only: gf_times_def [of b a] gf_times_sum)
  also have "\<dots> = gf_sum 8 (\<lambda>i. if bit a i then (xtime ^^ i) (gf_times b c) else 0)"
    by (rule gf_sum_cong) (simp add: gf_times_xtime)
  also have "\<dots> = gf_times (gf_times b c) a" by (simp only: gf_times_def)
  finally show ?thesis by (simp only: gf_times_commute)
qed

lemma gf_times_1 [simp]: "gf_times 1 a = a" "gf_times a 1 = a"
proof -
  show "gf_times 1 a = a" unfolding gf_times_def by (rule byte_sum [symmetric])
  then show "gf_times a 1 = a" by (simp add: gf_times_commute)
qed

lemma gf_inverse_unique:
  assumes "gf_times b x = 1" "gf_times b y = 1"
  shows "x = y"
proof -
  have "x = gf_times x (gf_times b y)" by (simp add: assms(2))
  also have "\<dots> = gf_times (gf_times b x) y" by (simp only: gf_times_assoc [symmetric] gf_times_commute [of x b])
  also have "\<dots> = y" by (simp add: assms(1))
  finally show ?thesis .
qed

text \<open>\<open>gmul\<close> is that product.\<close>

lemma xtime_shift: "(if x AND 0x80 \<noteq> 0 then push_bit 1 x XOR 0x1b else push_bit 1 x) = xtime x"
proof -
  have "(0x80 :: u8) = push_bit 7 1" by simp
  then have "(x AND 0x80 \<noteq> 0) = bit x 7" by (simp only: and_exp_eq_0_iff_not_bit push_bit_of_1 not_not)
  then show ?thesis by (simp add: xtime_def)
qed

lemma gmul_step_eq: "gmul_step (r, x, y) = (if bit y 0 then r XOR x else r, xtime x, drop_bit 1 y)"
  unfolding gmul_step_def prod.case Let_def xtime_shift by (simp add: and_one_eq bit_0 odd_iff_mod_2_eq_one)

lemma gmul_steps:
  "(gmul_step ^^ n) (0, a, b) =
     (gf_sum n (\<lambda>i. if bit b i then (xtime ^^ i) a else 0), (xtime ^^ n) a, drop_bit n b)"
proof (induction n)
  case (Suc n)
  then show ?case by (simp add: gmul_step_eq bit_drop_bit_eq drop_bit_drop_bit)
qed simp

lemma gmul_eq: "gmul a b = gf_times a b"
  by (simp add: gmul_def gmul_steps gf_times_def)


text \<open>Evaluation in the kernel computes each intermediate byte once.\<close>

lemma gmul_step_code [code]:
  "gmul_step st = (case st of (r, x, y) \<Rightarrow>
     (if bit y 0 then eval_word (r XOR x) else r, eval_word (xtime x), eval_word (drop_bit 1 y)))"
  by (cases st) (simp add: gmul_step_eq)

subsection \<open>The S-box of FIPS 197\<close>

definition is_inverse :: "u8 \<Rightarrow> u8 \<Rightarrow> bool" where
  "is_inverse b x = (if b = 0 then x = 0 else gf_times b x = 1)"

definition all_bytes :: bytes where
  "all_bytes = map word_of_nat [0..<256]"

definition gf_inverse :: "u8 \<Rightarrow> u8" where
  "gf_inverse b = hd (filter (is_inverse b) all_bytes)"

text \<open>The affine transform: bits \<open>i\<close>, \<open>i+4\<close>, ..., \<open>i+7\<close> modulo 8, as rotations to the left.\<close>

definition rotate_byte :: "nat \<Rightarrow> u8 \<Rightarrow> u8" where
  "rotate_byte k x = push_bit k x OR drop_bit (8 - k) x"

definition affine :: "u8 \<Rightarrow> u8" where
  "affine x = x XOR rotate_byte 1 x XOR rotate_byte 2 x XOR rotate_byte 3 x XOR rotate_byte 4 x XOR 0x63"

definition fips_sub_byte :: "u8 \<Rightarrow> u8" where
  "fips_sub_byte b = affine (gf_inverse b)"

text \<open>Both are checked on the whole byte range against a table of inverses.\<close>

definition INVERSES :: bytes where
  "INVERSES = [
      0, 1, 141, 246, 203, 82, 123, 209, 232, 79, 41, 192, 176, 225, 229, 199,
      116, 180, 170, 75, 153, 43, 96, 95, 88, 63, 253, 204, 255, 64, 238, 178,
      58, 110, 90, 241, 85, 77, 168, 201, 193, 10, 152, 21, 48, 68, 162, 194,
      44, 69, 146, 108, 243, 57, 102, 66, 242, 53, 32, 111, 119, 187, 89, 25,
      29, 254, 55, 103, 45, 49, 245, 105, 167, 100, 171, 19, 84, 37, 233, 9,
      237, 92, 5, 202, 76, 36, 135, 191, 24, 62, 34, 240, 81, 236, 97, 23,
      22, 94, 175, 211, 73, 166, 54, 67, 244, 71, 145, 223, 51, 147, 33, 59,
      121, 183, 151, 133, 16, 181, 186, 60, 182, 112, 208, 6, 161, 250, 129, 130,
      131, 126, 127, 128, 150, 115, 190, 86, 155, 158, 149, 217, 247, 2, 185, 164,
      222, 106, 50, 109, 216, 138, 132, 114, 42, 20, 159, 136, 249, 220, 137, 154,
      251, 124, 46, 195, 143, 184, 101, 72, 38, 200, 18, 74, 206, 231, 210, 98,
      12, 224, 31, 239, 17, 117, 120, 113, 165, 142, 118, 61, 189, 188, 134, 87,
      11, 40, 47, 163, 218, 212, 228, 15, 169, 39, 83, 4, 27, 252, 172, 230,
      122, 7, 174, 99, 197, 219, 226, 234, 148, 139, 196, 213, 157, 248, 144, 107,
      177, 13, 214, 235, 198, 14, 207, 173, 8, 78, 215, 227, 93, 80, 30, 179,
      91, 35, 56, 52, 104, 70, 3, 140, 221, 156, 125, 160, 205, 26, 65, 28]"

fun check_rows :: "u8 \<Rightarrow> bytes \<Rightarrow> bytes \<Rightarrow> bool" where
  "check_rows b (x # xs) (s # ss) =
     ((if b = 0 then x = 0 else gmul b x = 1) \<and> affine x = s \<and> check_rows (eval_word (b + 1)) xs ss)"
| "check_rows b xs ss = (xs = [] \<and> ss = [])"

lemma inverse_table: "check_rows 0 INVERSES SBOX"
  by code_simp

lemma inv_sbox_tables:
  "map (\<lambda>b. INV_SBOX ! unat b) SBOX = all_bytes" "map (\<lambda>b. SBOX ! unat b) INV_SBOX = all_bytes"
  by code_simp+


lemma check_rows_nth:
  assumes "check_rows b xs ss" "i < length xs"
  shows "affine (xs ! i) = ss ! i \<and>
    (if b + word_of_nat i = 0 then xs ! i = 0 else gmul (b + word_of_nat i) (xs ! i) = 1)"
  using assms
proof (induction b xs ss arbitrary: i rule: check_rows.induct)
  case (1 b x xs s ss)
  show ?case
  proof (cases i)
    case 0
    then show ?thesis using 1(2) by simp
  next
    case (Suc j)
    have "b + 1 + word_of_nat j = b + word_of_nat (Suc j)" by simp
    from 1(1) [of j, unfolded eval_word_simp this] 1(2,3) Suc show ?thesis
      by (cases "b + (1 + word_of_nat j) = 0") (simp_all, auto)
  qed
qed auto

lemma table_lengths [simp]: "length SBOX = 256" "length INV_SBOX = 256" "length INVERSES = 256" "length all_bytes = 256"
  by (simp_all add: SBOX_def INV_SBOX_def INVERSES_def all_bytes_def)

lemma unat_byte [simp]: "unat (b :: u8) < 256"
  using unsigned_less [of b, where 'a = nat] by simp

lemma all_bytes_nth [simp]: "all_bytes ! unat b = b"
  by (simp add: all_bytes_def)

lemma all_bytes_set: "b \<in> set all_bytes"
  using nth_mem [of "unat b" all_bytes] by simp

lemma inverse_table_nth: "is_inverse b (INVERSES ! unat b)" "affine (INVERSES ! unat b) = SBOX ! unat b"
  using check_rows_nth [OF inverse_table, of "unat b"] by (simp_all add: is_inverse_def gmul_eq split: if_splits)

lemma gf_inverse_eq: "gf_inverse b = INVERSES ! unat b"
proof -
  have "INVERSES ! unat b \<in> set (filter (is_inverse b) all_bytes)"
    using inverse_table_nth(1) all_bytes_set by simp
  then have "gf_inverse b \<in> set (filter (is_inverse b) all_bytes)"
    unfolding gf_inverse_def by (metis empty_iff hd_in_set list.set(1))
  then have "is_inverse b (gf_inverse b)" by simp
  then show ?thesis
    using inverse_table_nth(1) [of b] gf_inverse_unique by (auto simp: is_inverse_def split: if_splits)
qed

lemma gf_inverse_times: "b \<noteq> 0 \<Longrightarrow> gf_times b (gf_inverse b) = 1"
  using inverse_table_nth(1) [of b] by (simp add: is_inverse_def gf_inverse_eq)

text \<open>The table is the S-box of the standard, and the other table its inverse.\<close>

lemma sbox_fips: "SBOX ! unat b = fips_sub_byte b"
  by (simp add: fips_sub_byte_def gf_inverse_eq inverse_table_nth)

lemma sbox_inverse [simp]: "INV_SBOX ! unat (SBOX ! unat b) = b" "SBOX ! unat (INV_SBOX ! unat b) = b"
proof -
  have "map (\<lambda>b. INV_SBOX ! unat b) SBOX ! unat b = b" by (simp only: inv_sbox_tables all_bytes_nth)
  then show "INV_SBOX ! unat (SBOX ! unat b) = b" by simp
  have "map (\<lambda>b. SBOX ! unat b) INV_SBOX ! unat b = b" by (simp only: inv_sbox_tables all_bytes_nth)
  then show "SBOX ! unat (INV_SBOX ! unat b) = b" by simp
qed

subsection \<open>The constants of MixColumns\<close>

lemma gf_sum_8: "gf_sum 8 f = f 0 XOR f 1 XOR f 2 XOR f 3 XOR f 4 XOR f 5 XOR f 6 XOR f 7"
  by (simp add: numeral_eq_Suc xor.assoc)

lemma gmul_constants:
  "gmul a 2 = xtime a" "gmul a 3 = a XOR xtime a" "gmul a 9 = a XOR xtime (xtime (xtime a))"
  "gmul a 11 = a XOR xtime a XOR xtime (xtime (xtime a))"
  "gmul a 13 = a XOR xtime (xtime a) XOR xtime (xtime (xtime a))"
  "gmul a 14 = xtime a XOR xtime (xtime a) XOR xtime (xtime (xtime a))"
  by (simp_all add: gmul_eq gf_times_def gf_sum_8 numeral_2_eq_2 numeral_3_eq_3)

end
