(* ===== verification/Aes_Block.thy ===== *)
theory Aes_Block
  imports Aes_Field Gates
begin

unbundle bit_operations_syntax

text \<open>
  The AES block cipher of \<^verbatim>\<open>src/crates/oxicrypt-aes/src/block.rs\<close>, portable path: the round primitives on
  a 16-byte state, the key schedule, both directions of the cipher and the three key types with their
  guards; FIPS 197 beside it, and both directions inverse to each other.
\<close>

subsection \<open>Round primitives\<close>

definition BLOCK_SIZE :: usize where "BLOCK_SIZE = 16"

definition sub_bytes :: "bytes \<Rightarrow> bytes" where
  "sub_bytes s = map (\<lambda>b. SBOX ! unat b) s"

definition inv_sub_bytes :: "bytes \<Rightarrow> bytes" where
  "inv_sub_bytes s = map (\<lambda>b. INV_SBOX ! unat b) s"

text \<open>Column-major layout \<open>s[r + 4*c]\<close>; each row is saved, then written.\<close>

definition shift_rows :: "bytes \<Rightarrow> bytes" where
  "shift_rows s =
     (let s = s[1 := s ! 5, 5 := s ! 9, 9 := s ! 13, 13 := s ! 1];
          s = s[2 := s ! 10, 6 := s ! 14, 10 := s ! 2, 14 := s ! 6]
      in s[3 := s ! 15, 7 := s ! 3, 11 := s ! 7, 15 := s ! 11])"

definition inv_shift_rows :: "bytes \<Rightarrow> bytes" where
  "inv_shift_rows s =
     (let s = s[1 := s ! 13, 5 := s ! 1, 9 := s ! 5, 13 := s ! 9];
          s = s[2 := s ! 10, 6 := s ! 14, 10 := s ! 2, 14 := s ! 6]
      in s[3 := s ! 7, 7 := s ! 11, 11 := s ! 15, 15 := s ! 3])"

definition mix_column :: "bytes \<Rightarrow> usize \<Rightarrow> bytes" where
  "mix_column s i =
     (let a0 = s ! i; a1 = s ! (i + 1); a2 = s ! (i + 2); a3 = s ! (i + 3)
      in s[i := gmul a0 2 XOR gmul a1 3 XOR a2 XOR a3,
           i + 1 := a0 XOR gmul a1 2 XOR gmul a2 3 XOR a3,
           i + 2 := a0 XOR a1 XOR gmul a2 2 XOR gmul a3 3,
           i + 3 := gmul a0 3 XOR a1 XOR a2 XOR gmul a3 2])"

definition mix_columns :: "bytes \<Rightarrow> bytes" where
  "mix_columns s = foldl mix_column s [0, 4, 8, 12]"

definition inv_mix_column :: "bytes \<Rightarrow> usize \<Rightarrow> bytes" where
  "inv_mix_column s i =
     (let a0 = s ! i; a1 = s ! (i + 1); a2 = s ! (i + 2); a3 = s ! (i + 3)
      in s[i := gmul a0 0x0e XOR gmul a1 0x0b XOR gmul a2 0x0d XOR gmul a3 0x09,
           i + 1 := gmul a0 0x09 XOR gmul a1 0x0e XOR gmul a2 0x0b XOR gmul a3 0x0d,
           i + 2 := gmul a0 0x0d XOR gmul a1 0x09 XOR gmul a2 0x0e XOR gmul a3 0x0b,
           i + 3 := gmul a0 0x0b XOR gmul a1 0x0d XOR gmul a2 0x09 XOR gmul a3 0x0e])"

definition inv_mix_columns :: "bytes \<Rightarrow> bytes" where
  "inv_mix_columns s = foldl inv_mix_column s [0, 4, 8, 12]"

definition add_round_key :: "bytes \<Rightarrow> bytes \<Rightarrow> bytes" where
  "add_round_key s rk = foldl (\<lambda>s i. s[i := s ! i XOR rk ! i]) s [0..<16]"

subsection \<open>The key schedule\<close>

definition sub_word :: "bytes \<Rightarrow> bytes" where
  "sub_word t = t[0 := SBOX ! unat (t ! 0), 1 := SBOX ! unat (t ! 1), 2 := SBOX ! unat (t ! 2), 3 := SBOX ! unat (t ! 3)]"

definition rot_word :: "bytes \<Rightarrow> bytes" where
  "rot_word t = t[0 := t ! 1, 1 := t ! 2, 2 := t ! 3, 3 := t ! 0]"

definition expand_word :: "usize \<Rightarrow> bytes \<Rightarrow> usize \<Rightarrow> bytes" where
  "expand_word nk out i =
     (let off = (i - 1) * 4;
          t = [out ! off, out ! (off + 1), out ! (off + 2), out ! (off + 3)];
          t = (if i mod nk = 0 then
                 let t = sub_word (rot_word t) in t[0 := t ! 0 XOR RCON ! (i div nk)]
               else if nk > 6 \<and> i mod nk = 4 then sub_word t
               else t);
          prev = (i - nk) * 4;
          cur = i * 4
      in out[cur := out ! prev XOR t ! 0, cur + 1 := out ! (prev + 1) XOR t ! 1,
             cur + 2 := out ! (prev + 2) XOR t ! 2, cur + 3 := out ! (prev + 3) XOR t ! 3])"

definition expand_key :: "bytes \<Rightarrow> usize \<Rightarrow> usize \<Rightarrow> bytes \<Rightarrow> bytes" where
  "expand_key key nk nr out =
     (let total_words = 4 * (nr + 1);
          key_bytes = 4 * nk;
          out = copy_at out 0 (take key_bytes key)
      in foldl (expand_word nk) out [nk..<total_words])"

subsection \<open>The cipher\<close>

definition round_key :: "bytes \<Rightarrow> usize \<Rightarrow> bytes" where
  "round_key rk round = take 16 (drop (round * 16) rk)"

definition encrypt_round :: "bytes \<Rightarrow> bytes \<Rightarrow> usize \<Rightarrow> bytes" where
  "encrypt_round rk s round = add_round_key (mix_columns (shift_rows (sub_bytes s))) (round_key rk round)"

definition encrypt_block_generic :: "bytes \<Rightarrow> bytes \<Rightarrow> usize \<Rightarrow> bytes" where
  "encrypt_block_generic state rk nr =
     (let s = add_round_key state (round_key rk 0);
          s = foldl (encrypt_round rk) s [1..<nr]
      in add_round_key (shift_rows (sub_bytes s)) (round_key rk nr))"

definition decrypt_round :: "bytes \<Rightarrow> bytes \<Rightarrow> usize \<Rightarrow> bytes" where
  "decrypt_round rk s round = inv_mix_columns (add_round_key (inv_sub_bytes (inv_shift_rows s)) (round_key rk round))"

definition decrypt_block_generic :: "bytes \<Rightarrow> bytes \<Rightarrow> usize \<Rightarrow> bytes" where
  "decrypt_block_generic state rk nr =
     (let s = add_round_key state (round_key rk nr);
          s = foldl (decrypt_round rk) s (rev [1..<nr])
      in add_round_key (inv_sub_bytes (inv_shift_rows s)) (round_key rk 0))"

subsection \<open>Keys\<close>

text \<open>\<open>Aes128Key\<close>, \<open>Aes192Key\<close> and \<open>Aes256Key\<close>: the same code at three sizes.\<close>

datatype aes = Aes128Key | Aes192Key | Aes256Key

fun aes_nk :: "aes \<Rightarrow> usize" where
  "aes_nk Aes128Key = 4" | "aes_nk Aes192Key = 6" | "aes_nk Aes256Key = 8"

fun aes_nr :: "aes \<Rightarrow> usize" where
  "aes_nr Aes128Key = 10" | "aes_nr Aes192Key = 12" | "aes_nr Aes256Key = 14"

fun aes_key_service :: "aes \<Rightarrow> service" where
  "aes_key_service Aes128Key = AesS Aes128" | "aes_key_service Aes192Key = AesS Aes192" | "aes_key_service Aes256Key = AesS Aes256"

definition aes_new_unguarded :: "aes \<Rightarrow> bytes \<Rightarrow> bytes" where
  "aes_new_unguarded a key = expand_key key (aes_nk a) (aes_nr a) (zeros (16 * (aes_nr a + 1)))"

definition aes_new_internal :: "aes \<Rightarrow> bytes \<Rightarrow> (error, bytes) gated" where
  "aes_new_internal a key = chain gate_self_test_started (\<lambda>_. ok (aes_new_unguarded a key))"

definition aes_new :: "aes \<Rightarrow> bytes \<Rightarrow> (error, bytes) gated" where
  "aes_new a key =
     chain gate_operational (\<lambda>_. chain (gate_allowed (aes_key_service a)) (\<lambda>_. aes_new_internal a key))"

text \<open>The \<open>_with\<close> methods hold the proof that the caller passed the guard.\<close>

definition encrypt_block_with :: "aes \<Rightarrow> bytes \<Rightarrow> bytes \<Rightarrow> bytes" where
  "encrypt_block_with a rk block = encrypt_block_generic block rk (aes_nr a)"

definition decrypt_block_with :: "aes \<Rightarrow> bytes \<Rightarrow> bytes \<Rightarrow> bytes" where
  "decrypt_block_with a rk block = decrypt_block_generic block rk (aes_nr a)"

definition encrypt_block :: "aes \<Rightarrow> bytes \<Rightarrow> bytes \<Rightarrow> (error, bytes) gated" where
  "encrypt_block a rk block = chain gate_self_test_started (\<lambda>_. ok (encrypt_block_with a rk block))"

definition decrypt_block :: "aes \<Rightarrow> bytes \<Rightarrow> bytes \<Rightarrow> (error, bytes) gated" where
  "decrypt_block a rk block = chain gate_self_test_started (\<lambda>_. ok (decrypt_block_with a rk block))"

subsection \<open>Both directions are inverse\<close>

lemma list16E:
  assumes "length (s :: 'a list) = 16"
  obtains s0 s1 s2 s3 s4 s5 s6 s7 s8 s9 s10 s11 s12 s13 s14 s15
  where "s = [s0, s1, s2, s3, s4, s5, s6, s7, s8, s9, s10, s11, s12, s13, s14, s15]"
  using assms by (auto simp: numeral_eq_Suc length_Suc_conv)

lemma add_round_key_eq:
  assumes "length s = 16" "length rk = 16"
  shows "add_round_key s rk = map2 (XOR) s rk"
proof -
  have "n \<le> 16 \<Longrightarrow> foldl (\<lambda>s i. s[i := s ! i XOR rk ! i]) s [0..<n] =
      map2 (XOR) (take n s) (take n rk) @ drop n s" for n
  proof (induction n)
    case (Suc n)
    then have n: "n < length s" "n < length rk" using assms by simp_all
    then have "drop n s = s ! n # drop (Suc n) s" by (simp add: Cons_nth_drop_Suc)
    with Suc n assms show ?case
      by (simp add: take_Suc_conv_app_nth list_update_append nth_append)
  qed simp
  from this [of 16] show ?thesis using assms by (simp add: add_round_key_def)
qed

lemma round_lengths [simp]:
  "length (sub_bytes s) = length s" "length (inv_sub_bytes s) = length s"
  "length (shift_rows s) = length s" "length (inv_shift_rows s) = length s"
  "length (mix_columns s) = length s" "length (inv_mix_columns s) = length s"
  by (simp_all add: sub_bytes_def inv_sub_bytes_def shift_rows_def inv_shift_rows_def mix_columns_def
      inv_mix_columns_def mix_column_def inv_mix_column_def Let_def)

lemma length_add_round_key [simp]: "length (add_round_key s rk) = length s"
proof -
  have "length (foldl (\<lambda>s i. s[i := s ! i XOR rk ! i]) s is) = length s" for "is"
    by (induction "is" arbitrary: s) simp_all
  then show ?thesis by (simp add: add_round_key_def)
qed

lemma add_round_key_twice [simp]:
  assumes "length s = 16" "length rk = 16"
  shows "add_round_key (add_round_key s rk) rk = s"
proof -
  have "map2 (XOR) (map2 (XOR) s rk) rk = s" if "length s = length rk" for s rk :: bytes
    using that by (induction s rk rule: list_induct2) (simp_all add: xor.assoc)
  then show ?thesis using assms by (simp add: add_round_key_eq)
qed

lemma sub_bytes_inverse [simp]: "inv_sub_bytes (sub_bytes s) = s" "sub_bytes (inv_sub_bytes s) = s"
  by (simp_all add: sub_bytes_def inv_sub_bytes_def comp_def)

lemma shift_rows_list:
  "shift_rows [s0, s1, s2, s3, s4, s5, s6, s7, s8, s9, s10, s11, s12, s13, s14, s15] =
     [s0, s5, s10, s15, s4, s9, s14, s3, s8, s13, s2, s7, s12, s1, s6, s11]"
  "inv_shift_rows [s0, s1, s2, s3, s4, s5, s6, s7, s8, s9, s10, s11, s12, s13, s14, s15] =
     [s0, s13, s10, s7, s4, s1, s14, s11, s8, s5, s2, s15, s12, s9, s6, s3]"
  by (simp_all add: shift_rows_def inv_shift_rows_def Let_def)

lemma shift_rows_inverse [simp]:
  assumes "length s = 16"
  shows "inv_shift_rows (shift_rows s) = s" "shift_rows (inv_shift_rows s) = s"
  using assms by (auto elim!: list16E simp: shift_rows_list)

text \<open>One column of MixColumns and of its inverse.\<close>

fun mix4 :: "bytes \<Rightarrow> bytes" where
  "mix4 [a0, a1, a2, a3] =
     [gmul a0 2 XOR gmul a1 3 XOR a2 XOR a3, a0 XOR gmul a1 2 XOR gmul a2 3 XOR a3,
      a0 XOR a1 XOR gmul a2 2 XOR gmul a3 3, gmul a0 3 XOR a1 XOR a2 XOR gmul a3 2]"
| "mix4 s = s"

fun inv_mix4 :: "bytes \<Rightarrow> bytes" where
  "inv_mix4 [a0, a1, a2, a3] =
     [gmul a0 0x0e XOR gmul a1 0x0b XOR gmul a2 0x0d XOR gmul a3 0x09,
      gmul a0 0x09 XOR gmul a1 0x0e XOR gmul a2 0x0b XOR gmul a3 0x0d,
      gmul a0 0x0d XOR gmul a1 0x09 XOR gmul a2 0x0e XOR gmul a3 0x0b,
      gmul a0 0x0b XOR gmul a1 0x0d XOR gmul a2 0x09 XOR gmul a3 0x0e]"
| "inv_mix4 s = s"

lemma mix_columns_list:
  "mix_columns [s0, s1, s2, s3, s4, s5, s6, s7, s8, s9, s10, s11, s12, s13, s14, s15] =
     mix4 [s0, s1, s2, s3] @ mix4 [s4, s5, s6, s7] @ mix4 [s8, s9, s10, s11] @ mix4 [s12, s13, s14, s15]"
  "inv_mix_columns [s0, s1, s2, s3, s4, s5, s6, s7, s8, s9, s10, s11, s12, s13, s14, s15] =
     inv_mix4 [s0, s1, s2, s3] @ inv_mix4 [s4, s5, s6, s7] @ inv_mix4 [s8, s9, s10, s11] @ inv_mix4 [s12, s13, s14, s15]"
  by (simp_all add: mix_columns_def inv_mix_columns_def mix_column_def inv_mix_column_def Let_def)

lemma xor_cancel: "a XOR (a XOR b) = (b :: u8)"
  by (simp flip: xor.assoc)

lemma mix4_inverse: "inv_mix4 (mix4 [a, b, c, d]) = [a, b, c, d]" "mix4 (inv_mix4 [a, b, c, d]) = [a, b, c, d]"
  by (simp_all add: gmul_constants xtime_xor xor.assoc xor.left_commute xor_cancel)


lemma length_mix4 [simp]: "length (mix4 s) = length s" "length (inv_mix4 s) = length s"
  by (cases s rule: mix4.cases; simp)+

lemma mix4E: obtains w x y z where "mix4 [a, b, c, d] = [w, x, y, z]" by simp
lemma inv_mix4E: obtains w x y z where "inv_mix4 [a, b, c, d] = [w, x, y, z]" by simp

lemma mix_columns_inverse [simp]:
  assumes "length s = 16"
  shows "inv_mix_columns (mix_columns s) = s" "mix_columns (inv_mix_columns s) = s"
proof -
  obtain s0 s1 s2 s3 s4 s5 s6 s7 s8 s9 s10 s11 s12 s13 s14 s15
    where s: "s = [s0, s1, s2, s3, s4, s5, s6, s7, s8, s9, s10, s11, s12, s13, s14, s15]"
    by (rule list16E [OF assms])
  obtain a0 a1 a2 a3 where a: "mix4 [s0, s1, s2, s3] = [a0, a1, a2, a3]" by (rule mix4E)
  obtain b0 b1 b2 b3 where b: "mix4 [s4, s5, s6, s7] = [b0, b1, b2, b3]" by (rule mix4E)
  obtain c0 c1 c2 c3 where c: "mix4 [s8, s9, s10, s11] = [c0, c1, c2, c3]" by (rule mix4E)
  obtain d0 d1 d2 d3 where d: "mix4 [s12, s13, s14, s15] = [d0, d1, d2, d3]" by (rule mix4E)
  show "inv_mix_columns (mix_columns s) = s"
    using mix4_inverse(1) [of s0 s1 s2 s3] mix4_inverse(1) [of s4 s5 s6 s7]
      mix4_inverse(1) [of s8 s9 s10 s11] mix4_inverse(1) [of s12 s13 s14 s15]
    unfolding s mix_columns_list a b c d append.simps by simp
  obtain a0 a1 a2 a3 where a: "inv_mix4 [s0, s1, s2, s3] = [a0, a1, a2, a3]" by (rule inv_mix4E)
  obtain b0 b1 b2 b3 where b: "inv_mix4 [s4, s5, s6, s7] = [b0, b1, b2, b3]" by (rule inv_mix4E)
  obtain c0 c1 c2 c3 where c: "inv_mix4 [s8, s9, s10, s11] = [c0, c1, c2, c3]" by (rule inv_mix4E)
  obtain d0 d1 d2 d3 where d: "inv_mix4 [s12, s13, s14, s15] = [d0, d1, d2, d3]" by (rule inv_mix4E)
  show "mix_columns (inv_mix_columns s) = s"
    using mix4_inverse(2) [of s0 s1 s2 s3] mix4_inverse(2) [of s4 s5 s6 s7]
      mix4_inverse(2) [of s8 s9 s10 s11] mix4_inverse(2) [of s12 s13 s14 s15]
    unfolding s mix_columns_list a b c d append.simps by simp
qed

lemma length_round_key: "16 * (r + 1) \<le> length rk \<Longrightarrow> length (round_key rk r) = 16"
  by (simp add: round_key_def)

lemma rounds_length:
  "length (foldl (encrypt_round rk) s rs) = length s" "length (foldl (decrypt_round rk) s rs) = length s"
  by (induction rs arbitrary: s) (simp_all add: encrypt_round_def decrypt_round_def)

lemma length_cipher [simp]:
  "length (encrypt_block_generic s rk nr) = length s" "length (decrypt_block_generic s rk nr) = length s"
  by (simp_all add: encrypt_block_generic_def decrypt_block_generic_def rounds_length)

text \<open>
  Between \<open>SubBytes, ShiftRows\<close> of one round and their inverses, a round and its inverse cancel.
\<close>

lemma round_cancel:
  assumes "length s = 16" "16 * (r + 1) \<le> length rk"
  shows "decrypt_round rk (shift_rows (sub_bytes (encrypt_round rk s r))) r = shift_rows (sub_bytes s)"
  using assms by (simp_all add: encrypt_round_def decrypt_round_def length_round_key)

lemma rounds_cancel:
  assumes "length s = 16" "16 * n \<le> length rk"
  shows "foldl (decrypt_round rk) (shift_rows (sub_bytes (foldl (encrypt_round rk) s [1..<n]))) (rev [1..<n]) =
    shift_rows (sub_bytes s)"
  using assms
proof (induction n)
  case (Suc n)
  show ?case
  proof (cases "1 \<le> n")
    case True
    then have "[1..<Suc n] = [1..<n] @ [n]" by simp
    with Suc show ?thesis by (simp add: round_cancel rounds_length del: upt_Suc)
  qed simp
qed simp

lemma decrypt_encrypt:
  assumes "length s = 16" "16 * (nr + 1) \<le> length rk"
  shows "decrypt_block_generic (encrypt_block_generic s rk nr) rk nr = s"
proof -
  let ?s = "add_round_key s (round_key rk 0)"
  have "decrypt_block_generic (encrypt_block_generic s rk nr) rk nr =
      add_round_key (inv_sub_bytes (inv_shift_rows (shift_rows (sub_bytes ?s)))) (round_key rk 0)"
    using rounds_cancel [of ?s nr rk] assms
    by (simp add: encrypt_block_generic_def decrypt_block_generic_def Let_def rounds_length length_round_key)
  then show ?thesis using assms by (simp add: length_round_key)
qed

text \<open>A left inverse on the finite set of blocks is also a right inverse.\<close>

lemma encrypt_decrypt:
  assumes "length s = 16" "16 * (nr + 1) \<le> length rk"
  shows "encrypt_block_generic (decrypt_block_generic s rk nr) rk nr = s"
proof -
  let ?B = "{s :: bytes. length s = 16}" and ?E = "\<lambda>s. encrypt_block_generic s rk nr"
  have "finite ?B" using finite_lists_length_eq [of "UNIV :: u8 set" 16] by simp
  moreover have "?E ` ?B \<subseteq> ?B" by auto
  moreover have "inj_on ?E ?B"
    by (rule inj_on_inverseI [of _ "\<lambda>s. decrypt_block_generic s rk nr"]) (use assms(2) decrypt_encrypt in auto)
  ultimately have "?E ` ?B = ?B" by (rule endo_inj_surj)
  then obtain u where u: "length u = 16" "s = ?E u" using assms(1) by blast
  then show ?thesis using decrypt_encrypt [OF u(1) assms(2)] by simp
qed


subsection \<open>FIPS 197\<close>

text \<open>A state from its entry in row \<open>r\<close> and column \<open>c\<close>.\<close>

definition fips_state :: "(nat \<Rightarrow> nat \<Rightarrow> u8) \<Rightarrow> bytes" where
  "fips_state f = map (\<lambda>i. f (i mod 4) (i div 4)) [0..<16]"

definition fips_sub_bytes :: "bytes \<Rightarrow> bytes" where
  "fips_sub_bytes s = map fips_sub_byte s"

definition fips_shift_rows :: "bytes \<Rightarrow> bytes" where
  "fips_shift_rows s = fips_state (\<lambda>r c. s ! (r + 4 * ((c + r) mod 4)))"

text \<open>Each column is multiplied by \<open>03 x^3 + 01 x^2 + 01 x + 02\<close> modulo \<open>x^4 + 1\<close>.\<close>

definition fips_mix_columns :: "bytes \<Rightarrow> bytes" where
  "fips_mix_columns s = fips_state (\<lambda>r c.
     gf_sum 4 (\<lambda>k. gf_times (s ! (k + 4 * c)) ([2, 1, 1, 3] ! ((4 + r - k) mod 4))))"

definition fips_xor_words :: "bytes \<Rightarrow> bytes \<Rightarrow> bytes" where
  "fips_xor_words v w = map2 (XOR) v w"

function fips_word :: "usize \<Rightarrow> bytes \<Rightarrow> usize \<Rightarrow> bytes" where
  "fips_word nk key i =
     (if i < nk \<or> nk = 0 then map (\<lambda>r. key ! (4 * i + r)) [0..<4]
      else
        let temp = fips_word nk key (i - 1);
            temp = (if i mod nk = 0 then
                fips_xor_words (map fips_sub_byte (rotate1 temp)) [(xtime ^^ (i div nk - 1)) 1, 0, 0, 0]
              else if nk > 6 \<and> i mod nk = 4 then map fips_sub_byte temp
              else temp)
        in fips_xor_words (fips_word nk key (i - nk)) temp)"
  by pat_completeness auto
termination by (relation "measure (\<lambda>(nk, key, i). i)") auto

declare fips_word.simps [simp del]

definition fips_add_round_key :: "usize \<Rightarrow> bytes \<Rightarrow> usize \<Rightarrow> bytes \<Rightarrow> bytes" where
  "fips_add_round_key nk key round s = fips_state (\<lambda>r c. s ! (r + 4 * c) XOR fips_word nk key (4 * round + c) ! r)"

definition fips_cipher :: "usize \<Rightarrow> usize \<Rightarrow> bytes \<Rightarrow> bytes \<Rightarrow> bytes" where
  "fips_cipher nk nr key block =
     (let s = fips_add_round_key nk key 0 block;
          s = foldl (\<lambda>s round. fips_add_round_key nk key round
                (fips_mix_columns (fips_shift_rows (fips_sub_bytes s)))) s [1..<nr]
      in fips_add_round_key nk key nr (fips_shift_rows (fips_sub_bytes s)))"

subsection \<open>The code computes it\<close>

lemma upt_16: "[0..<16] = [0, 1, 2, 3, 4, 5, 6, 7, 8, 9, 10, 11, 12, 13, 14, 15 :: nat]"
  by (simp add: upt_rec)

lemma upt_4: "[0..<4] = [0, 1, 2, 3 :: nat]"
  by (simp add: upt_rec)

lemma length_fips_state [simp]: "length (fips_state f) = 16"
  by (simp add: fips_state_def)

lemma sub_bytes_fips: "sub_bytes s = fips_sub_bytes s"
  by (simp add: sub_bytes_def fips_sub_bytes_def sbox_fips)

lemma shift_rows_fips: "length s = 16 \<Longrightarrow> shift_rows s = fips_shift_rows s"
  by (erule list16E) (simp add: shift_rows_list fips_shift_rows_def fips_state_def upt_16)

lemma gf_sum_4: "gf_sum 4 f = f 0 XOR f 1 XOR f 2 XOR f 3"
  by (simp add: numeral_eq_Suc xor.assoc)

lemma mix_columns_fips: "length s = 16 \<Longrightarrow> mix_columns s = fips_mix_columns s"
  by (erule list16E)
    (simp add: mix_columns_list fips_mix_columns_def fips_state_def upt_16 gf_sum_4 gmul_eq)

text \<open>The key schedule, word by word.\<close>

definition word_at :: "bytes \<Rightarrow> usize \<Rightarrow> bytes" where
  "word_at out j = map (\<lambda>r. out ! (4 * j + r)) [0..<4]"

lemma rcon_table: "map (\<lambda>k. (xtime ^^ (k - 1)) 1) [1..<11] = tl RCON"
  by code_simp

lemma rcon_eq: "0 < k \<Longrightarrow> k \<le> 10 \<Longrightarrow> RCON ! k = (xtime ^^ (k - 1)) 1"
proof -
  assume k: "0 < k" "k \<le> 10"
  then have "map (\<lambda>k. (xtime ^^ (k - 1)) 1) [1..<11] ! (k - 1) = (xtime ^^ (k - 1)) (1 :: u8)"
    by (subst nth_map) (simp_all add: nth_upt)
  moreover have "RCON ! k = tl RCON ! (k - 1)" using k by (simp add: nth_tl RCON_def)
  ultimately show ?thesis by (simp only: rcon_table)
qed

lemma expand_word_step:
  assumes "0 < nk" "nk \<le> i" "i div nk \<le> 10" "4 * i + 4 \<le> length out"
    and words: "\<And>j. j < i \<Longrightarrow> word_at out j = fips_word nk key j"
  shows "length (expand_word nk out i) = length out"
    "j \<le> i \<Longrightarrow> word_at (expand_word nk out i) j = fips_word nk key j"
proof -
  show "length (expand_word nk out i) = length out" by (simp add: expand_word_def Let_def)
  assume j: "j \<le> i"
  show "word_at (expand_word nk out i) j = fips_word nk key j"
  proof (cases "j < i")
    case True
    then have "word_at (expand_word nk out i) j = word_at out j"
      by (simp add: word_at_def upt_4 expand_word_def Let_def nth_list_update)
    with words True show ?thesis by simp
  next
    case False
    then have ji: "j = i" using j by simp
    have i: "i - 1 < i" "i - nk < i" "\<not> (i < nk \<or> nk = 0)" using assms(1,2) by simp_all
    obtain t0 t1 t2 t3 where t: "fips_word nk key (i - 1) = [t0, t1, t2, t3]"
      by (rule that [OF words [OF i(1), symmetric, unfolded word_at_def upt_4 list.map]])
    then have o1: "out ! ((i - 1) * 4) = t0" "out ! ((i - 1) * 4 + 1) = t1" "out ! ((i - 1) * 4 + 2) = t2"
      "out ! ((i - 1) * 4 + 3) = t3"
      using words [OF i(1)] by (simp_all add: word_at_def upt_4 mult.commute)
    obtain p0 p1 p2 p3 where p: "fips_word nk key (i - nk) = [p0, p1, p2, p3]"
      by (rule that [OF words [OF i(2), symmetric, unfolded word_at_def upt_4 list.map]])
    then have o2: "out ! ((i - nk) * 4) = p0" "out ! ((i - nk) * 4 + 1) = p1" "out ! ((i - nk) * 4 + 2) = p2"
      "out ! ((i - nk) * 4 + 3) = p3"
      using words [OF i(2)] by (simp_all add: word_at_def upt_4 mult.commute)
    have "0 < i div nk" using assms(1,2) by (simp add: div_greater_zero_iff)
    note rcon = rcon_eq [OF this assms(3)]
    show ?thesis
      unfolding ji
      by (subst fips_word.simps)
        (use i assms(4) in \<open>simp add: t [simplified] p Let_def word_at_def upt_4 expand_word_def o1 [simplified] o2 [simplified] rcon sub_word_def
          rot_word_def fips_xor_words_def sbox_fips mult.commute [of i]\<close>)
  qed
qed

lemma expand_key_words:
  assumes "0 < nk" "length key = 4 * nk" "length out = 16 * (nr + 1)" "nk \<le> n" "n \<le> 4 * (nr + 1)"
    "(n - 1) div nk \<le> 10"
  shows "length (foldl (expand_word nk) (copy_at out 0 key) [nk..<n]) = length out \<and>
    (\<forall>j < n. word_at (foldl (expand_word nk) (copy_at out 0 key) [nk..<n]) j = fips_word nk key j)"
  using assms(4-)
proof (induction n rule: dec_induct)
  case base
  have "word_at (copy_at out 0 key) j = fips_word nk key j" if "j < nk" for j
    using that assms(2) by (subst fips_word.simps) (simp add: word_at_def upt_4 copy_at_def nth_append)
  then show ?case using assms(2,3) base by simp
next
  case (step n)
  have "(n - 1) div nk \<le> n div nk" by (rule div_le_mono) simp
  then have IH: "length (foldl (expand_word nk) (copy_at out 0 key) [nk..<n]) = length out"
    "\<And>j. j < n \<Longrightarrow> word_at (foldl (expand_word nk) (copy_at out 0 key) [nk..<n]) j = fips_word nk key j"
    using step by simp_all
  have "4 * n + 4 \<le> length (foldl (expand_word nk) (copy_at out 0 key) [nk..<n])"
    using step(4) assms(3) IH(1) by simp
  note s = expand_word_step [OF assms(1) step(1) _ this IH(2)]
  show ?case using step(1,5) s IH(1) by (auto simp: less_Suc_eq_le)
qed


lemma add_round_key_fips:
  assumes "length s = 16" "\<And>j. j < 4 * (nr + 1) \<Longrightarrow> word_at rk j = fips_word nk key j" "round \<le> nr"
    "length rk = 16 * (nr + 1)"
  shows "add_round_key s (round_key rk round) = fips_add_round_key nk key round s"
proof -
  have r: "length (round_key rk round) = 16" using assms(3,4) by (intro length_round_key) simp
  have w: "fips_word nk key (4 * round + c) = word_at rk (4 * round + c)" if "c < 4" for c
    using assms(2) [of "4 * round + c"] assms(3) that by simp
  have k: "round_key rk round ! (4 * c + r) = fips_word nk key (4 * round + c) ! r" if "c < 4" "r < 4" for c r
    using w [OF that(1)] assms(3,4) that by (simp add: round_key_def word_at_def algebra_simps)
  show ?thesis
  proof (rule nth_equalityI)
    fix i assume "i < length (add_round_key s (round_key rk round))"
    then have i: "i < 16" using assms(1) by simp
    then have "i div 4 < 4" "i mod 4 < 4" by simp_all
    note k [OF this]
    moreover have "4 * (i div 4) + i mod 4 = i" by simp
    ultimately show "add_round_key s (round_key rk round) ! i = fips_add_round_key nk key round s ! i"
      using i assms(1) r by (simp add: add_round_key_eq fips_add_round_key_def fips_state_def add.commute)
  qed (simp add: assms(1) fips_add_round_key_def)
qed

text \<open>The arguments of the three key types.\<close>

lemma aes_sizes: "0 < aes_nk a" "aes_nk a \<le> 4 * (aes_nr a + 1)" "(4 * (aes_nr a + 1) - 1) div aes_nk a \<le> 10"
  by (cases a; simp)+

lemma aes_key_words:
  assumes "length key = 4 * aes_nk a"
  shows "length (aes_new_unguarded a key) = 16 * (aes_nr a + 1)"
    "j < 4 * (aes_nr a + 1) \<Longrightarrow> word_at (aes_new_unguarded a key) j = fips_word (aes_nk a) key j"
  using expand_key_words [OF aes_sizes(1) assms, of "zeros (16 * (aes_nr a + 1))" "aes_nr a" "4 * (aes_nr a + 1)"]
    aes_sizes [of a] assms by (simp_all add: aes_new_unguarded_def expand_key_def)

lemma encrypt_fips:
  assumes "length block = 16" "length key = 4 * aes_nk a"
  shows "encrypt_block_with a (aes_new_unguarded a key) block = fips_cipher (aes_nk a) (aes_nr a) key block"
proof -
  let ?rk = "aes_new_unguarded a key" and ?nk = "aes_nk a" and ?nr = "aes_nr a"
  note ark = add_round_key_fips [OF _ aes_key_words(2) [OF assms(2)] _ aes_key_words(1) [OF assms(2)]]
  have round: "encrypt_round ?rk s r = fips_add_round_key ?nk key r (fips_mix_columns (fips_shift_rows (fips_sub_bytes s)))"
    if "length s = 16" "r \<le> ?nr" for s r
    using that ark [of "mix_columns (shift_rows (sub_bytes s))" r]
    by (simp add: encrypt_round_def flip: sub_bytes_fips shift_rows_fips mix_columns_fips)
  have "n \<le> ?nr \<Longrightarrow> foldl (encrypt_round ?rk) (add_round_key block (round_key ?rk 0)) [1..<n] =
      foldl (\<lambda>s round. fips_add_round_key ?nk key round (fips_mix_columns (fips_shift_rows (fips_sub_bytes s))))
        (fips_add_round_key ?nk key 0 block) [1..<n]" for n
  proof (induction n)
    case (Suc n)
    show ?case
    proof (cases "1 \<le> n")
      case True
      let ?e = "foldl (encrypt_round ?rk) (add_round_key block (round_key ?rk 0)) [1..<n]"
      have "length ?e = 16" by (simp add: rounds_length assms)
      moreover have "n \<le> ?nr" using Suc(2) by simp
      ultimately have "encrypt_round ?rk ?e n =
          fips_add_round_key ?nk key n (fips_mix_columns (fips_shift_rows (fips_sub_bytes ?e)))" by (rule round)
      moreover note Suc(1) [OF \<open>n \<le> ?nr\<close>]
      moreover have "[1..<Suc n] = [1..<n] @ [n]" using True by simp
      ultimately show ?thesis by (simp del: upt_Suc)
    qed (use ark [of block 0] assms(1) in simp)
  qed (use ark [of block 0] assms(1) in simp)
  note e = this [of ?nr, OF order_refl]
  let ?s = "foldl (encrypt_round ?rk) (add_round_key block (round_key ?rk 0)) [1..<?nr]"
  have "length ?s = 16" using assms(1) by (simp add: rounds_length)
  then have "add_round_key (shift_rows (sub_bytes ?s)) (round_key ?rk ?nr) =
      fips_add_round_key ?nk key ?nr (fips_shift_rows (fips_sub_bytes ?s))"
    using ark [of "shift_rows (sub_bytes ?s)" ?nr] by (simp flip: sub_bytes_fips shift_rows_fips)
  then show ?thesis
    unfolding encrypt_block_with_def encrypt_block_generic_def fips_cipher_def Let_def e by simp
qed

lemma aes_block_inverse:
  assumes "length key = 4 * aes_nk a" "length block = 16"
  shows "decrypt_block_with a (aes_new_unguarded a key) (encrypt_block_with a (aes_new_unguarded a key) block) = block"
    "encrypt_block_with a (aes_new_unguarded a key) (decrypt_block_with a (aes_new_unguarded a key) block) = block"
  using decrypt_encrypt [of block "aes_nr a" "aes_new_unguarded a key"]
    encrypt_decrypt [of block "aes_nr a" "aes_new_unguarded a key"] assms aes_key_words(1) [of key a, OF assms(1)]
  by (simp_all add: encrypt_block_with_def decrypt_block_with_def)

lemma length_encrypt_block_with [simp]: "length (encrypt_block_with a rk block) = length block"
  by (simp add: encrypt_block_with_def encrypt_block_generic_def rounds_length)

lemma aes_key_length: "length key = 4 * aes_nk a \<Longrightarrow> length (aes_new_unguarded a key) = 16 * (aes_nr a + 1)"
  by (rule aes_key_words(1))

subsection \<open>The properties\<close>

text \<open>C26: For AES-128, AES-192 and AES-256, every key and every block, the table-driven cipher with its
  in-place rounds and its precomputed key schedule computes the function of FIPS 197: SubBytes as
  inversion in the field followed by the affine map, ShiftRows and MixColumns as indexed equations
  over the field, and the key expansion by its recurrence over words.
\<close>

theorem aes_fips197:
  assumes "length key = 4 * aes_nk a" "length block = 16"
  shows "encrypt_block_with a (aes_new_unguarded a key) block = fips_cipher (aes_nk a) (aes_nr a) key block"
  by (rule encrypt_fips [OF assms(2,1)])

theorem aes_fips197_witness:
  "encrypt_block_with Aes192Key (aes_new_unguarded Aes192Key (replicate 24 7)) (replicate 16 1) =
     fips_cipher 6 12 (replicate 24 7) (replicate 16 1)"
  using aes_fips197 [of "replicate 24 7" Aes192Key "replicate 16 1"] by simp

text \<open>C27: Building a key schedule, encrypting a block and decrypting the result returns the block, and so
  does decrypting first, for the three key sizes, every key and every block.  Each of the three calls
  passes the internal guard of the module once, and the first refusal is what the sequence returns:
  no key schedule and no block is produced by a call that is refused.
\<close>

theorem aes_roundtrip:
  assumes "length key = 4 * aes_nk a" "length block = 16"
  shows "chain (aes_new_internal a key) (\<lambda>rk. chain (encrypt_block a rk block) (decrypt_block a rk)) env = guards 3 block env \<and>
    chain (aes_new_internal a key) (\<lambda>rk. chain (decrypt_block a rk block) (encrypt_block a rk)) env = guards 3 block env"
  using aes_block_inverse [OF assms]
  by (simp add: aes_new_internal_def encrypt_block_def decrypt_block_def chain_def numeral_3_eq_3
      split: prod.splits sum.splits)

theorem aes_roundtrip_witness:
  "chain (aes_new_internal Aes256Key (replicate 32 9))
     (\<lambda>rk. chain (encrypt_block Aes256Key rk (replicate 16 1)) (decrypt_block Aes256Key rk))
     (steady None OPERATIONAL 0) = (Inr (replicate 16 1), steady None OPERATIONAL 0)"
  using aes_roundtrip [of "replicate 32 9" Aes256Key "replicate 16 1" "steady None OPERATIONAL 0"]
  by (simp add: require_self_test_started_def)

end
