(* ===== verification/Aes_Modes.thy ===== *)
theory Aes_Modes
  imports Aes_Block Actions Big_Endian
begin

unbundle bit_operations_syntax

text \<open>
  The modes of \<^verbatim>\<open>src/crates/oxicrypt-aes/src/modes.rs\<close> over a block cipher: ECB, CBC and CTR, with the
  interface \<open>BlockCipher\<close> they rely on and its laws; what each returns and writes, in SP 800-38A's terms.
\<close>

subsection \<open>The interface of a block cipher\<close>

text \<open>The trait \<open>BlockCipher\<close>: a value of it is a key with its two directions on 16-byte blocks.\<close>

record block_cipher =
  cipher_encrypt :: "bytes \<Rightarrow> bytes"
  cipher_decrypt :: "bytes \<Rightarrow> bytes"

text \<open>\<open>impl BlockCipher for Aes128Key\<close> and its two siblings.\<close>

definition aes_cipher :: "aes \<Rightarrow> bytes \<Rightarrow> block_cipher" where
  "aes_cipher a rk = \<lparr>cipher_encrypt = encrypt_block_with a rk, cipher_decrypt = decrypt_block_with a rk\<rparr>"

text \<open>What mode code relies on, for the keys a constructor can return.\<close>

locale block_cipher_laws =
  fixes cipher :: "'k \<Rightarrow> block_cipher" and key_ok :: "'k \<Rightarrow> bool"
  assumes encrypt_length: "length b = 16 \<Longrightarrow> length (cipher_encrypt (cipher k) b) = 16"
    and decrypt_length: "length b = 16 \<Longrightarrow> length (cipher_decrypt (cipher k) b) = 16"
    and decrypt_encrypts: "key_ok k \<Longrightarrow> length b = 16 \<Longrightarrow> cipher_decrypt (cipher k) (cipher_encrypt (cipher k) b) = b"
    and encrypt_decrypts: "key_ok k \<Longrightarrow> length b = 16 \<Longrightarrow> cipher_encrypt (cipher k) (cipher_decrypt (cipher k) b) = b"

subsection \<open>Errors\<close>

datatype mode_error =
    NotBlockAligned
  | InvalidIvLength
  | TagMismatch
  | LengthMismatch
  | InvalidNonceLength
  | InvalidTagLength
  | InvalidPayloadLength
  | InvalidAadLength
  | ModeModule error

text \<open>\<open>Display\<close>; the section sign is the two bytes of its encoding.\<close>

definition SECTION :: string where "SECTION = [CHR 0xC2, CHR 0xA7]"

fun mode_error_display :: "u8 \<Rightarrow> mode_error \<Rightarrow> string" where
  "mode_error_display p NotBlockAligned =
     ''input length is not a multiple of 16 bytes (AES block size); pad or use a streaming mode (CTR/GCM/CCM)''"
| "mode_error_display p InvalidIvLength =
     ''GCM IV must be exactly 12 bytes (96 bits); pass a 12-byte nonce''"
| "mode_error_display p TagMismatch =
     ''authentication tag did not verify; the ciphertext or AAD was modified, or the key/nonce is wrong''"
| "mode_error_display p LengthMismatch =
     ''output buffer length does not match ciphertext length; allocate an output buffer of the same size as the ciphertext''"
| "mode_error_display p InvalidNonceLength =
     ''CCM nonce must be 7..=13 bytes (SP 800-38C '' @ SECTION @ ''A.2.1); pass a nonce in that range''"
| "mode_error_display p InvalidTagLength =
     ''CCM tag length must be one of {4, 6, 8, 10, 12, 14, 16} bytes; choose a valid tag size''"
| "mode_error_display p InvalidPayloadLength =
     ''CCM plaintext too long for the chosen nonce length; use a shorter nonce (fewer bytes = larger max payload) or split the data''"
| "mode_error_display p InvalidAadLength =
     ''CCM associated data exceeds the SP 800-38C '' @ SECTION @ ''A.2.2 maximum; reduce the AAD length''"
| "mode_error_display p (ModeModule e) = ''the module refused the operation: '' @ error_display p e"

text \<open>\<open>require_self_test_started_token()?\<close>, the first line of every mode function.\<close>

definition mode_guard :: "('s, mode_error, unit) action" where
  "mode_guard = act_map_err ModeModule (act_gate gate_self_test_started)"

subsection \<open>ECB\<close>

text \<open>
  The caller's output buffer is the state of an operation.  \<open>while i < input.len()\<close>, one block is
  copied out, transformed and copied into the output at the same offset.
\<close>

function ecb_loop :: "(bytes \<Rightarrow> bytes) \<Rightarrow> bytes \<Rightarrow> usize \<Rightarrow> bytes \<Rightarrow> bytes" where
  "ecb_loop f input i out =
     (if i < length input
      then ecb_loop f input (i + 16) (copy_at out i (f (take 16 (drop i input))))
      else out)"
  by pat_completeness auto
termination by (relation "measure (\<lambda>(f, input, i, out). length input - i)") auto

definition ecb_encrypt :: "block_cipher \<Rightarrow> bytes \<Rightarrow> (bytes, mode_error, unit) action" where
  "ecb_encrypt cipher input =
     act_bind mode_guard (\<lambda>_. act_get (\<lambda>out.
     if length input \<noteq> length out \<or> length input mod BLOCK_SIZE \<noteq> 0 then act_fail NotBlockAligned
     else act_update (ecb_loop (cipher_encrypt cipher) input 0)))"

definition ecb_decrypt :: "block_cipher \<Rightarrow> bytes \<Rightarrow> (bytes, mode_error, unit) action" where
  "ecb_decrypt cipher input =
     act_bind mode_guard (\<lambda>_. act_get (\<lambda>out.
     if length input \<noteq> length out \<or> length input mod BLOCK_SIZE \<noteq> 0 then act_fail NotBlockAligned
     else act_update (ecb_loop (cipher_decrypt cipher) input 0)))"

subsection \<open>CBC\<close>

function cbc_encrypt_loop :: "(bytes \<Rightarrow> bytes) \<Rightarrow> bytes \<Rightarrow> usize \<Rightarrow> bytes \<Rightarrow> bytes \<Rightarrow> bytes" where
  "cbc_encrypt_loop enc input i prev out =
     (if i < length input
      then let blk = enc (map2 (XOR) (take 16 (drop i input)) prev)
           in cbc_encrypt_loop enc input (i + 16) blk (copy_at out i blk)
      else out)"
  by pat_completeness auto
termination by (relation "measure (\<lambda>(enc, input, i, prev, out). length input - i)") auto

definition cbc_encrypt :: "block_cipher \<Rightarrow> bytes \<Rightarrow> bytes \<Rightarrow> (bytes, mode_error, unit) action" where
  "cbc_encrypt cipher iv input =
     act_bind mode_guard (\<lambda>_. act_get (\<lambda>out.
     if length input \<noteq> length out \<or> length input mod BLOCK_SIZE \<noteq> 0 then act_fail NotBlockAligned
     else act_update (cbc_encrypt_loop (cipher_encrypt cipher) input 0 iv)))"

function cbc_decrypt_loop :: "(bytes \<Rightarrow> bytes) \<Rightarrow> bytes \<Rightarrow> usize \<Rightarrow> bytes \<Rightarrow> bytes \<Rightarrow> bytes" where
  "cbc_decrypt_loop dec input i prev out =
     (if i < length input
      then let cipher_in = take 16 (drop i input)
           in cbc_decrypt_loop dec input (i + 16) cipher_in (copy_at out i (map2 (XOR) (dec cipher_in) prev))
      else out)"
  by pat_completeness auto
termination by (relation "measure (\<lambda>(dec, input, i, prev, out). length input - i)") auto

definition cbc_decrypt :: "block_cipher \<Rightarrow> bytes \<Rightarrow> bytes \<Rightarrow> (bytes, mode_error, unit) action" where
  "cbc_decrypt cipher iv input =
     act_bind mode_guard (\<lambda>_. act_get (\<lambda>out.
     if length input \<noteq> length out \<or> length input mod BLOCK_SIZE \<noteq> 0 then act_fail NotBlockAligned
     else act_update (cbc_decrypt_loop (cipher_decrypt cipher) input 0 iv)))"

subsection \<open>CTR\<close>

definition inc32 :: "bytes \<Rightarrow> bytes" where
  "inc32 ctr =
     (let c = u32_of_be (ctr ! 12) (ctr ! 13) (ctr ! 14) (ctr ! 15) + 1;
          b = be_of_u32 c
      in ctr[12 := b ! 0, 13 := b ! 1, 14 := b ! 2, 15 := b ! 3])"

text \<open>The loop of \<open>inc128_for_ctr\<close> from byte \<open>i - 1\<close> down, leaving when the carry is gone.\<close>

fun inc128_from :: "bytes \<Rightarrow> u16 \<Rightarrow> usize \<Rightarrow> bytes" where
  "inc128_from ctr carry 0 = ctr"
| "inc128_from ctr carry (Suc i) =
     (let s = ucast (ctr ! i) + carry;
          ctr = ctr[i := ucast (s AND 0xff)];
          carry = drop_bit 8 s
      in if carry = 0 then ctr else inc128_from ctr carry i)"

definition inc128_for_ctr :: "bytes \<Rightarrow> bytes" where
  "inc128_for_ctr ctr = inc128_from ctr 1 16"

text \<open>
  \<open>output[i + j] = input[i + j] ^ ks[j]\<close>, for \<open>j\<close> in \<open>0..take\<close>.  An index past the end of the output panics, with
  the bytes before it written.  \<open>stop\<close> is how such a call ends: with an error of its own, or by
  unwinding.
\<close>

datatype 'e stop = Refused 'e | Panicked

fun xor_bytes_at :: "bytes \<Rightarrow> bytes \<Rightarrow> usize \<Rightarrow> usize list \<Rightarrow> (bytes, mode_error stop, unit) action" where
  "xor_bytes_at input ks i [] = act_ok ()"
| "xor_bytes_at input ks i (j # js) = act_get (\<lambda>out.
     if length out \<le> i + j then act_fail Panicked
     else act_bind (act_update (\<lambda>out. out[i + j := input ! (i + j) XOR ks ! j])) (\<lambda>_.
       xor_bytes_at input ks i js))"

text \<open>
  The loop of CTR, which GCM and CCM repeat with their own counters: the keystream block of the
  counter, the input xored with it, the next counter.
\<close>

function xor_stream ::
  "('c \<Rightarrow> 'c) \<Rightarrow> ('c \<Rightarrow> bytes) \<Rightarrow> bytes \<Rightarrow> usize \<Rightarrow> 'c \<Rightarrow> (bytes, mode_error stop, unit) action" where
  "xor_stream inc keystream input i ctr =
     (if i < length input
      then act_bind (xor_bytes_at input (keystream ctr) i [0..<min 16 (length input - i)]) (\<lambda>_.
        xor_stream inc keystream input (i + 16) (inc ctr))
      else act_ok ())"
  by pat_completeness auto
termination by (relation "measure (\<lambda>(inc, keystream, input, i, ctr). length input - i)") auto

definition ctr_xor :: "block_cipher \<Rightarrow> bytes \<Rightarrow> bytes \<Rightarrow> (bytes, mode_error stop, unit) action" where
  "ctr_xor cipher icb input =
     act_bind (act_map_err Refused mode_guard) (\<lambda>_.
     xor_stream inc128_for_ctr (cipher_encrypt cipher) input 0 icb)"

declare ecb_loop.simps [simp del] cbc_encrypt_loop.simps [simp del] cbc_decrypt_loop.simps [simp del]
  xor_stream.simps [simp del]

subsection \<open>What the modes compute\<close>

text \<open>SP 800-38A, 6.1 and 6.2, on the blocks of a message.\<close>

function chunks :: "nat \<Rightarrow> 'a list \<Rightarrow> 'a list list" where
  "chunks n xs = (if xs = [] \<or> n = 0 then [] else take n xs # chunks n (drop n xs))"
  by pat_completeness auto
termination by (relation "measure (\<lambda>(n, xs). length xs)") auto

declare chunks.simps [simp del]

definition ecb_spec :: "(bytes \<Rightarrow> bytes) \<Rightarrow> bytes \<Rightarrow> bytes" where
  "ecb_spec f m = concat (map f (chunks 16 m))"

fun cbc_chain :: "(bytes \<Rightarrow> bytes) \<Rightarrow> bytes \<Rightarrow> bytes list \<Rightarrow> bytes list" where
  "cbc_chain enc iv [] = []"
| "cbc_chain enc iv (p # ps) = (let c = enc (map2 (XOR) p iv) in c # cbc_chain enc c ps)"

fun cbc_unchain :: "(bytes \<Rightarrow> bytes) \<Rightarrow> bytes \<Rightarrow> bytes list \<Rightarrow> bytes list" where
  "cbc_unchain dec iv [] = []"
| "cbc_unchain dec iv (c # cs) = map2 (XOR) (dec c) iv # cbc_unchain dec c cs"

text \<open>6.5, with the counter blocks \<open>T\<^sub>1, T\<^sub>2, \<dots>\<close> given as a function of the index.\<close>

definition stream_spec :: "(nat \<Rightarrow> bytes) \<Rightarrow> bytes \<Rightarrow> bytes" where
  "stream_spec keystream m = map2 (XOR) m (block_bytes 16 keystream (length m))"

lemma chunks_Nil [simp]: "chunks n [] = []"
  by (subst chunks.simps) simp

lemma chunks_Cons: "0 < n \<Longrightarrow> xs \<noteq> [] \<Longrightarrow> chunks n xs = take n xs # chunks n (drop n xs)"
  by (subst chunks.simps) simp

lemma aligned_nonempty: "length m mod n = 0 \<Longrightarrow> m \<noteq> [] \<Longrightarrow> n \<le> length m"
  by (cases "length m < n") auto

lemma chunks_length:
  assumes "0 < n" "length m mod n = 0" "b \<in> set (chunks n m)"
  shows "length b = n"
  using assms(2,3)
proof (induction "length m" arbitrary: m rule: less_induct)
  case less
  show ?case
  proof (cases "m = []")
    case False
    then show ?thesis using less(1) [of "drop n m"] less(2,3) aligned_nonempty [OF less(2) False] assms(1)
      by (auto simp: le_mod_geq chunks_Cons)
  qed (use less in simp)
qed

lemmas chunks_aligned = chunks_length [of 16, OF zero_less_numeral]

lemma concat_chunks: "0 < n \<Longrightarrow> concat (chunks n m) = m"
proof (induction "length m" arbitrary: m rule: less_induct)
  case less
  show ?case
    using less(1) [of "drop n m"] less(2) by (cases "m = []") (auto simp: chunks_Cons)
qed

lemma length_concat_all: "\<forall>b \<in> set bs. length b = n \<Longrightarrow> length (concat bs) = n * length bs"
  by (induction bs) simp_all

lemma chunks_concat:
  "0 < n \<Longrightarrow> \<forall>b \<in> set bs. length b = n \<Longrightarrow> chunks n (concat bs) = bs"
proof (induction bs)
  case (Cons b bs)
  then have "b @ concat bs \<noteq> []" by auto
  with Cons show ?case by (simp add: chunks_Cons)
qed simp

lemma chunks_append:
  assumes "0 < n" "length a mod n = 0"
  shows "chunks n (a @ b) = chunks n a @ chunks n b"
  using assms(2)
proof (induction "length a" arbitrary: a rule: less_induct)
  case less
  show ?case
  proof (cases "a = []")
    case False
    with assms(1) aligned_nonempty [OF less(2) False] show ?thesis
      using less(1) [of "drop n a"] less(2) by (simp add: le_mod_geq chunks_Cons)
  qed simp
qed

lemma chunks_single: "length b = n \<Longrightarrow> 0 < n \<Longrightarrow> chunks n b = [b]"
  by (subst chunks_Cons) auto

text \<open>Zero padding to whole blocks, and one block of the padded string.\<close>

definition pad16 :: "bytes \<Rightarrow> bytes" where
  "pad16 d = d @ zeros ((16 - length d mod 16) mod 16)"

lemma pad16_simps:
  "length (pad16 d) mod 16 = 0" "d = [] \<Longrightarrow> pad16 d = []"
  "16 \<le> length d \<Longrightarrow> pad16 d = take 16 d @ pad16 (drop 16 d)"
  "0 < length d \<Longrightarrow> length d < 16 \<Longrightarrow> pad16 d = d @ zeros (16 - length d)"
proof -
  have "(length d + (16 - length d mod 16) mod 16) mod 16 = 0"
  proof (cases "length d mod 16 = 0")
    case False
    then have "(length d + (16 - length d mod 16)) mod 16 = 0" by (metis add_diff_inverse_nat mod_add_left_eq mod_less_divisor mod_self not_less_iff_gr_or_eq zero_less_numeral order_less_imp_le linorder_not_le)
    then show ?thesis by (simp add: mod_add_right_eq)
  qed simp
  then show "length (pad16 d) mod 16 = 0" by (simp add: pad16_def)
  show "pad16 d = []" if "d = []" using that by (simp add: pad16_def zeros_def)
  show "pad16 d = take 16 d @ pad16 (drop 16 d)" if "16 \<le> length d"
    using that by (simp add: pad16_def le_mod_geq flip: append_assoc)
  show "pad16 d = d @ zeros (16 - length d)" if "0 < length d" "length d < 16"
    using that by (simp add: pad16_def)
qed

lemma chunks_pad16:
  "16 \<le> length d \<Longrightarrow> chunks 16 (pad16 d) = take 16 d # chunks 16 (pad16 (drop 16 d))"
  "0 < length d \<Longrightarrow> length d < 16 \<Longrightarrow> chunks 16 (pad16 d) = [d @ zeros (16 - length d)]"
proof -
  assume l: "16 \<le> length d"
  then have "take 16 d \<noteq> []" by auto
  then show "chunks 16 (pad16 d) = take 16 d # chunks 16 (pad16 (drop 16 d))"
    using l by (simp add: pad16_simps(3) chunks_Cons)
next
  assume "0 < length d" "length d < 16"
  then show "chunks 16 (pad16 d) = [d @ zeros (16 - length d)]"
    by (simp only: pad16_simps(4)) (rule chunks_single, simp_all)
qed

text \<open>One step of a block loop, as its result: the output up to the offset, then the blocks still to come.\<close>

lemma copy_at_step:
  assumes "length b = 16" "i + 16 \<le> length out"
  shows "take (i + 16) (copy_at out i b) = take i out @ b" "length (copy_at out i b) = length out"
  using assms take_copy_at [of i out b] by (simp_all del: take_append)

lemma aligned_step:
  assumes "length input mod 16 = 0" "i mod 16 = 0" "i < length input"
  shows "i + 16 \<le> length input" "(i + 16) mod 16 = 0" "length (take 16 (drop i input)) = 16"
    "chunks 16 (drop i input) = take 16 (drop i input) # chunks 16 (drop (i + 16) input)"
proof -
  obtain k l where kl: "i = 16 * k" "length input = 16 * l" using assms by (auto elim!: dvdE simp: mod_eq_0_iff_dvd)
  then show "i + 16 \<le> length input" using assms(3) by simp
  then show "length (take 16 (drop i input)) = 16" by simp
  show "(i + 16) mod 16 = 0" using assms(2) by simp
  show "chunks 16 (drop i input) = take 16 (drop i input) # chunks 16 (drop (i + 16) input)"
    using assms(3) by (simp add: add.commute chunks_Cons)
qed

lemma ecb_loop_eq:
  assumes "\<And>b. length b = 16 \<Longrightarrow> length (f b) = 16"
    and "length input mod 16 = 0" "i mod 16 = 0" "i \<le> length input" "length out = length input"
  shows "ecb_loop f input i out = take i out @ concat (map f (chunks 16 (drop i input)))"
  using assms(2-)
proof (induction "length input - i" arbitrary: i out rule: less_induct)
  case less
  show ?case
  proof (cases "i < length input")
    case True
    note st = aligned_step [OF less(2,3) True]
    note c = copy_at_step [OF assms(1) [OF st(3)], of i out]
    show ?thesis
      using less(1) [of "i + 16" "copy_at out i (f (take 16 (drop i input)))"] True st c less(2-)
      by (subst ecb_loop.simps) simp
  qed (use less in \<open>subst ecb_loop.simps, simp\<close>)
qed

lemma cbc_encrypt_loop_eq:
  assumes "\<And>b. length b = 16 \<Longrightarrow> length (enc b) = 16"
    and "length input mod 16 = 0" "i mod 16 = 0" "i \<le> length input" "length out = length input" "length prev = 16"
  shows "cbc_encrypt_loop enc input i prev out = take i out @ concat (cbc_chain enc prev (chunks 16 (drop i input)))"
  using assms(2-)
proof (induction "length input - i" arbitrary: i out prev rule: less_induct)
  case less
  show ?case
  proof (cases "i < length input")
    case True
    note st = aligned_step [OF less(2,3) True]
    let ?b = "enc (map2 (XOR) (take 16 (drop i input)) prev)"
    have b: "length ?b = 16" using st(3) less(6) by (intro assms(1)) simp
    note c = copy_at_step [OF b, of i out]
    show ?thesis
      using less(1) [of "i + 16" "copy_at out i ?b" ?b] True st c b less(2-)
      by (subst cbc_encrypt_loop.simps) (simp add: Let_def)
  qed (use less in \<open>subst cbc_encrypt_loop.simps, simp\<close>)
qed

lemma cbc_decrypt_loop_eq:
  assumes "\<And>b. length b = 16 \<Longrightarrow> length (dec b) = 16"
    and "length input mod 16 = 0" "i mod 16 = 0" "i \<le> length input" "length out = length input" "length prev = 16"
  shows "cbc_decrypt_loop dec input i prev out = take i out @ concat (cbc_unchain dec prev (chunks 16 (drop i input)))"
  using assms(2-)
proof (induction "length input - i" arbitrary: i out prev rule: less_induct)
  case less
  show ?case
  proof (cases "i < length input")
    case True
    note st = aligned_step [OF less(2,3) True]
    let ?c = "take 16 (drop i input)" and ?b = "map2 (XOR) (dec (take 16 (drop i input))) prev"
    have b: "length ?b = 16" using assms(1) [OF st(3)] less(6) by simp
    note c = copy_at_step [OF b, of i out]
    show ?thesis
      using less(1) [of "i + 16" "copy_at out i ?b" ?c] True st c b less(2-)
      by (subst cbc_decrypt_loop.simps) (simp add: Let_def)
  qed (use less in \<open>subst cbc_decrypt_loop.simps, simp\<close>)
qed

text \<open>Xoring bytes \<open>a..b\<close> of a keystream block into the output, up to the end of the output.\<close>

lemma xor_bytes_at_eq:
  assumes "a \<le> b" "i + a \<le> length out" "i + b \<le> length input" "b \<le> length ks"
  shows "xor_bytes_at input ks i [a..<b] out env =
    (if i + b \<le> length out then Inr () else Inl Panicked,
     take (i + a) out @ take (length out - (i + a)) (map2 (XOR) (take (b - a) (drop (i + a) input)) (drop a ks)) @
       drop (i + b) out, env)"
  using assms
proof (induction "b - a" arbitrary: a out)
  case 0
  then have "a = b" by simp
  then show ?case using 0 by (simp add: act_simps)
next
  case (Suc n)
  then have ab: "a < b" "[a..<b] = a # [Suc a..<b]" "i + a < length input" "a < length ks"
    by (simp_all add: upt_conv_Cons)
  show ?case
  proof (cases "length out \<le> i + a")
    case True
    then show ?thesis using Suc(4) ab by (simp add: act_simps act_bind_def)
  next
    case False
    let ?v = "input ! (i + a) XOR ks ! a"
    let ?out = "out[i + a := ?v]"
    have t: "take (Suc (i + a)) ?out = take (i + a) out @ [?v]" using False by (simp add: take_Suc_conv_app_nth)
    have "drop (i + a) input = input ! (i + a) # drop (Suc (i + a)) input" "drop a ks = ks ! a # drop (Suc a) ks"
      using ab by (simp_all add: Cons_nth_drop_Suc)
    moreover have "b - a = Suc (b - Suc a)" "length out - (i + a) = Suc (length out - Suc (i + a))"
      using ab False by simp_all
    ultimately have m: "take (length out - (i + a)) (map2 (XOR) (take (b - a) (drop (i + a) input)) (drop a ks)) =
        ?v # take (length out - Suc (i + a)) (map2 (XOR) (take (b - Suc a) (drop (Suc (i + a)) input)) (drop (Suc a) ks))"
      by simp
    from Suc(1) [of "Suc a" ?out] Suc(2-) ab False show ?thesis
      by (simp add: act_simps act_bind_def t m)
  qed
qed

lemma zip_take_take: "zip (take t xs) (take t ys) = zip (take t xs) ys"
  by (rule nth_equalityI) auto

lemma block_bytes_at:
  assumes "\<And>j. length (ks j) = 16" "16 * k < len"
  shows "take (min 16 (len - 16 * k)) (drop (16 * k) (block_bytes 16 ks len)) = take (min 16 (len - 16 * k)) (ks k)"
proof -
  have "k < blocks_for 16 len" using assms(2) by (simp add: blocks_for_def less_eq_div_iff_mult_less_eq Suc_le_eq [symmetric])
  then have "[0..<blocks_for 16 len] = [0..<k] @ k # [Suc k..<blocks_for 16 len]"
    using upt_add_eq_append [of 0 k "blocks_for 16 len - k"] by (simp add: upt_conv_Cons)
  moreover have "length (concat (map ks [0..<k])) = 16 * k" using length_concat_blocks [of ks 16 0 k] assms(1) by simp
  ultimately show ?thesis
    using assms by (simp add: block_bytes_def drop_take take_take min_def)
qed

text \<open>
  The loop in full: it panics exactly when the output is shorter than the input, after writing all of
  the output; otherwise the output past the input is left alone.
\<close>

lemma xor_stream_from:
  assumes "\<And>j. length (keystream ((inc ^^ j) c)) = 16" "out = copy_at out 0 (take (min (16 * k) (length input)) m)"
    and "m = stream_spec (\<lambda>j. keystream ((inc ^^ j) c)) input" "min (16 * k) (length input) \<le> length out"
  shows "xor_stream inc keystream input (16 * k) ((inc ^^ k) c) out env =
    (if length input \<le> length out then Inr () else Inl Panicked,
     take (length out) m @ drop (length input) out, env)"
  using assms(2,4)
proof (induction "length input - 16 * k" arbitrary: k out rule: less_induct)
  case less
  let ?ks = "\<lambda>j. keystream ((inc ^^ j) c)"
  have lm: "length m = length input"
    using assms(1,3) length_block_bytes [of 16 ?ks "length input"] by (simp add: stream_spec_def)
  show ?case
  proof (cases "16 * k < length input")
    case False
    then have "take (length input) out = m" using less(2,3) lm by (metis append_eq_conv_conj copy_at_def drop_0
      length_take min.absorb2 not_le_imp_less less_imp_le_nat order_refl take_0 take_all append_Nil)
    then show ?thesis using False less(3) lm by (subst xor_stream.simps) (auto simp: act_simps)
  next
    case True
    define t where "t = min 16 (length input - 16 * k)"
    define b where "b = map2 (XOR) (take t (drop (16 * k) input)) (?ks k)"
    have t: "0 < t" "t \<le> 16" "16 * k + t \<le> length input" "min (16 * Suc k) (length input) = 16 * k + t"
      using True by (simp_all add: t_def)
    have lb: "length b = t" using t assms(1) by (simp add: b_def)
    have mb: "take t (drop (16 * k) m) = b"
    proof -
      have "take t (drop (16 * k) m) = map2 (XOR) (take t (drop (16 * k) input)) (take t (drop (16 * k) (block_bytes 16 ?ks (length input))))"
        by (simp add: assms(3) stream_spec_def drop_map take_map drop_zip take_zip)
      also have "\<dots> = map2 (XOR) (take t (drop (16 * k) input)) (take t (?ks k))"
        using block_bytes_at [of ?ks k "length input"] assms(1) True by (simp add: t_def)
      also have "\<dots> = b" by (simp add: b_def zip_take_take)
      finally show ?thesis .
    qed
    have pre: "take (16 * k) out = take (16 * k) m" "16 * k \<le> length out"
      using less(2,3) True lm by (simp_all add: copy_at_def) (metis append_eq_conv_conj length_take lm min.absorb2 less_imp_le_nat)
    have mt: "take (16 * k + t) m = take (16 * k) m @ b" by (simp add: take_add mb)
    note x = xor_bytes_at_eq [of 0 t "16 * k" out input "?ks k", unfolded add_0_right drop_0 diff_zero, folded b_def]
    have run: "xor_bytes_at input (?ks k) (16 * k) [0..<t] out env =
      (if 16 * k + t \<le> length out then Inr () else Inl Panicked,
       take (16 * k) m @ take (length out - 16 * k) b @ drop (16 * k + t) out, env)"
      using x pre t assms(1) by simp
    show ?thesis
    proof (cases "16 * k + t \<le> length out")
      case False
      then have "take (length out) m = take (16 * k) m @ take (length out - 16 * k) b"
        using arg_cong [OF mt, of "take (length out)"] lm pre(2) by (simp add: min_def split: if_splits)
      with run False t True show ?thesis
        by (subst xor_stream.simps) (simp add: t_def act_bind_def)
    next
      case fits: True
      let ?out = "take (16 * k) m @ b @ drop (16 * k + t) out"
      have lo: "length ?out = length out" using fits lb lm True by simp
      have "?out = copy_at ?out 0 (take (min (16 * Suc k) (length input)) m)"
        using t(4) mt lb lm True by (simp add: copy_at_def)
      moreover have "length input - 16 * Suc k < length input - 16 * k" using True by simp
      moreover have "min (16 * Suc k) (length input) \<le> length ?out" using fits lo t(4) by simp
      ultimately have IH: "xor_stream inc keystream input (16 * Suc k) ((inc ^^ Suc k) c) ?out env =
        (if length input \<le> length ?out then Inr () else Inl Panicked,
         take (length ?out) m @ drop (length input) ?out, env)"
        using less(1) [of "Suc k" ?out] by blast
      have "drop (length input) ?out = drop (length input) out"
        using t(3) lb lm True by simp
      then show ?thesis using run fits IH lo lb True
        by (subst xor_stream.simps) (simp add: t_def [symmetric] act_bind_def add.commute)
    qed
  qed
qed

lemma xor_stream_eq:
  assumes "\<And>j. length (keystream ((inc ^^ j) c)) = 16"
  shows "xor_stream inc keystream input 0 c out env =
    (if length input \<le> length out then Inr () else Inl Panicked,
     take (length out) (stream_spec (\<lambda>j. keystream ((inc ^^ j) c)) input) @ drop (length input) out, env)"
  using xor_stream_from [of keystream inc c out 0 input, OF assms _ refl] by (simp add: copy_at_def)

subsection \<open>Comparing bytes\<close>

text \<open>The comparisons of the authenticated modes accumulate differences with \<open>|=\<close>.\<close>

lemma xor_zero: "a XOR b = 0 \<longleftrightarrow> a = (b :: u8)"
  by (metis xor_cancel xor_self_eq xor.right_neutral)

lemma or_fold_zero: "foldl (\<lambda>d k. d OR f k) d ks = 0 \<longleftrightarrow> d = 0 \<and> (\<forall>k \<in> set ks. f k = (0 :: u8))"
proof (induction ks arbitrary: d)
  case (Cons k ks)
  then show ?case by (auto simp: or_eq_0_iff)
qed simp

subsection \<open>Counters\<close>

lemma be_of_u32_of_be: "be_of_u32 (u32_of_be a b c d) = [a, b, c, d]"
proof -
  have "(ucast (drop_bit 24 (u32_of_be a b c d)) :: u8) = a" "(ucast (drop_bit 16 (u32_of_be a b c d)) :: u8) = b"
    "(ucast (drop_bit 8 (u32_of_be a b c d)) :: u8) = c" "(ucast (u32_of_be a b c d) :: u8) = d"
    unfolding u32_of_be_def by (rule bit_word_eqI, force simp: bit_simps dest: bit_imp_le_length)+
  then show ?thesis by (simp add: be_of_u32_def)
qed

lemma unat_u32_of_be: "unat (u32_of_be a b c d) = be_val [a, b, c, d]"
proof -
  let ?w = "u32_of_be a b c d"
  have "be_bytes 4 (unat ?w) = [a, b, c, d]" using be_of_u32_eq [of "unat ?w"] by (simp add: be_of_u32_of_be)
  then have "be_val [a, b, c, d] = unat ?w mod 256 ^ 4" by (metis be_val_bytes)
  then show ?thesis using unsigned_less [of ?w, where 'a = nat] by simp
qed

lemma carry_byte:
  fixes c :: u8
  shows "ucast ((ucast c + 1 :: u16) AND 0xff) = c + 1" "drop_bit 8 (ucast c + 1 :: u16) = (if c = 0xff then 1 else 0)"
proof -
  have c: "unat c < 256" using unsigned_less [of c, where 'a = nat] by simp
  have "take_bit 16 (unat c) = unat c" by (rule take_bit_nat_eq_self, rule order.strict_trans [OF c]) simp
  moreover have m: "Suc (unat c) mod 65536 = Suc (unat c)" by (rule mod_less, rule order.strict_trans1 [of _ 256]) (use c in linarith, simp)
  ultimately have u: "unat (ucast c + 1 :: u16) = unat c + 1" by (simp add: unat_word_ariths unsigned_ucast_eq)
  have "(0xff :: u16) = mask 8" by (simp add: mask_eq_exp_minus_1)
  then have "(ucast c + 1 :: u16) AND 0xff = take_bit 8 (ucast c + 1)" by (simp only: take_bit_eq_mask)
  then have "(ucast ((ucast c + 1 :: u16) AND 0xff) :: u8) = ucast (take_bit 8 (ucast c + 1) :: u16)" by (simp only:)
  also have "\<dots> = ucast (ucast c + 1 :: u16)" by (rule bit_word_eqI) (auto simp: bit_simps)
  also have "unat \<dots> = (unat c + 1) mod 2 ^ 8"
    by (subst unsigned_ucast_eq) (simp only: u take_bit_eq_mod len_num0 len_bit0 len_num1 mult_2, simp)
  also have "\<dots> = unat (c + 1)" by (simp add: unat_word_ariths)
  finally show "ucast ((ucast c + 1 :: u16) AND 0xff) = c + 1" by (simp only: word_unat_eq_iff)
  have "unat (drop_bit 8 (ucast c + 1 :: u16)) = (unat c + 1) div 256"
    by (subst unsigned_drop_bit_eq) (simp only: u drop_bit_eq_div, simp add: take_bit_eq_mod m)
  also have "\<dots> = unat (if c = 0xff then 1 else 0 :: u16)"
  proof (cases "c = 0xff")
    case False
    then have "unat c \<noteq> 255" by (simp add: word_unat_eq_iff)
    with c have "unat c + 1 < 256" by linarith
    then show ?thesis using False by (simp only: div_less if_False unsigned_0)
  qed simp
  finally show "drop_bit 8 (ucast c + 1 :: u16) = (if c = 0xff then 1 else 0)" by (simp only: word_unat_eq_iff)
qed

lemma inc128_increments: "inc128_from ctr 1 i = increment_from ctr i"
proof (induction i arbitrary: ctr)
  case (Suc i)
  show ?case
  proof (cases "ctr ! i = 0xff")
    case True
    then have "ctr ! i + 1 = 0" by simp
    with Suc show ?thesis
      unfolding inc128_from.simps increment_from.simps Let_def carry_byte by (simp only: True) simp
  qed (simp add: Let_def carry_byte)
qed simp

lemma inc128_for_ctr_eq: "length ctr = 16 \<Longrightarrow> inc128_for_ctr ctr = be_bytes 16 (be_val ctr + 1)"
  using increment_be_eq [of ctr] by (simp add: inc128_for_ctr_def inc128_increments increment_be_def)

lemma be_bytes_add_mod: "be_bytes n (v mod 256 ^ n + w) = be_bytes n (v + w)"
  using be_bytes_mod [of n "v mod 256 ^ n + w"] be_bytes_mod [of n "v + w"] by (simp add: mod_add_left_eq)

lemma inc128_iterated: "length icb = 16 \<Longrightarrow> (inc128_for_ctr ^^ j) icb = be_bytes 16 (be_val icb + j)"
proof (induction j)
  case 0
  then show ?case using be_bytes_val [of icb] by simp
next
  case (Suc j)
  then show ?case
    using be_bytes_add_mod [of 16 "be_val icb + j" 1] by (simp add: inc128_for_ctr_eq be_val_bytes del: be_bytes.simps)
qed

text \<open>\<open>inc32\<close> counts in the last four bytes, modulo \<open>2^32\<close>, and leaves the rest alone.\<close>

lemma list4E:
  assumes "length xs = 4"
  obtains a b c d where "xs = [a, b, c, d]"
  using assms by (auto simp: numeral_eq_Suc length_Suc_conv)

lemma inc32_eq:
  assumes "length p = 12"
  shows "inc32 (p @ be_bytes 4 v) = p @ be_bytes 4 (v + 1)"
proof -
  obtain a b c d where abcd: "be_bytes 4 v = [a, b, c, d]" by (rule list4E [OF length_be_bytes])
  have n: "(p @ [a, b, c, d]) ! 12 = a" "(p @ [a, b, c, d]) ! 13 = b" "(p @ [a, b, c, d]) ! 14 = c" "(p @ [a, b, c, d]) ! 15 = d"
    using assms by (simp_all add: nth_append)
  have "unat (u32_of_be a b c d) = v mod 256 ^ 4" using be_val_bytes [of 4 v] by (simp add: unat_u32_of_be abcd)
  moreover have "u32_of_be a b c d = word_of_nat (unat (u32_of_be a b c d))" by simp
  ultimately have "u32_of_be a b c d = word_of_nat (v mod 256 ^ 4)" by simp
  then have "u32_of_be a b c d + 1 = word_of_nat (v mod 256 ^ 4 + 1)" by (simp only: of_nat_add of_nat_1)
  then have "be_of_u32 (u32_of_be a b c d + 1) = be_bytes 4 (v + 1)"
    by (simp only: be_of_u32_eq be_bytes_add_mod)
  moreover obtain e f g h where efgh: "be_bytes 4 (v + 1) = [e, f, g, h]" by (rule list4E [OF length_be_bytes])
  ultimately show ?thesis
    using assms unfolding inc32_def abcd n by (simp add: Let_def efgh list_update_append)
qed

lemma inc32_iterated: "length p = 12 \<Longrightarrow> (inc32 ^^ j) (p @ be_bytes 4 v) = p @ be_bytes 4 (v + j)"
  by (induction j) (simp_all add: inc32_eq del: be_bytes.simps)

subsection \<open>The operations\<close>

text \<open>
  A mode function loads the state once.  \<open>past_guard\<close> is its outcome: the refusal with the buffer as it
  was, or what the body answers.
\<close>

definition past_guard ::
  "(error \<Rightarrow> 'e) \<Rightarrow> env \<Rightarrow> 's \<Rightarrow> ('e + 'a) \<times> 's \<Rightarrow> ('e + 'a) \<times> 's \<times> env" where
  "past_guard g env s body =
     (case gate_at env 0 of
        Inl e \<Rightarrow> (Inl (g e), s, env_later env 1)
      | Inr _ \<Rightarrow> (fst body, snd body, env_later env 1))"

lemma mode_guard_bind:
  "act_bind mode_guard f s env =
     (case gate_at env 0 of Inl e \<Rightarrow> (Inl (ModeModule e), s, env_later env 1) | Inr _ \<Rightarrow> f () s (env_later env 1))"
  "act_bind (act_map_err h mode_guard) f' s env =
     (case gate_at env 0 of Inl e \<Rightarrow> (Inl (h (ModeModule e)), s, env_later env 1) | Inr _ \<Rightarrow> f' () s (env_later env 1))"
  by (simp_all add: act_bind_def mode_guard_def act_map_err_def act_gate_def gate_self_test_started_at split: sum.splits)

lemma past_guard_passed: "gate_at env 0 = Inr () \<Longrightarrow> past_guard g env s body = (fst body, snd body, env_later env 1)"
  by (simp add: past_guard_def)

text \<open>The answer of a mode on whole blocks.\<close>

definition whole_blocks :: "bytes \<Rightarrow> bytes \<Rightarrow> bytes \<Rightarrow> (mode_error + unit) \<times> bytes" where
  "whole_blocks input out result =
     (if length input \<noteq> length out \<or> length input mod 16 \<noteq> 0 then (Inl NotBlockAligned, out) else (Inr (), result))"

lemma ecb_exact:
  assumes "\<And>b. length b = 16 \<Longrightarrow> length (cipher_encrypt c b) = 16" "\<And>b. length b = 16 \<Longrightarrow> length (cipher_decrypt c b) = 16"
  shows "ecb_encrypt c input out env =
      past_guard ModeModule env out (whole_blocks input out (ecb_spec (cipher_encrypt c) input))"
    "ecb_decrypt c input out env =
      past_guard ModeModule env out (whole_blocks input out (ecb_spec (cipher_decrypt c) input))"
  using ecb_loop_eq [of "cipher_encrypt c" input 0 out, OF assms(1)] ecb_loop_eq [of "cipher_decrypt c" input 0 out, OF assms(2)]
  by (simp_all add: ecb_encrypt_def ecb_decrypt_def mode_guard_bind past_guard_def whole_blocks_def act_simps
      BLOCK_SIZE_def ecb_spec_def split: sum.splits)

lemma cbc_exact:
  assumes "\<And>b. length b = 16 \<Longrightarrow> length (cipher_encrypt c b) = 16" "\<And>b. length b = 16 \<Longrightarrow> length (cipher_decrypt c b) = 16"
    and "length iv = 16"
  shows "cbc_encrypt c iv input out env =
      past_guard ModeModule env out (whole_blocks input out (concat (cbc_chain (cipher_encrypt c) iv (chunks 16 input))))"
    "cbc_decrypt c iv input out env =
      past_guard ModeModule env out (whole_blocks input out (concat (cbc_unchain (cipher_decrypt c) iv (chunks 16 input))))"
  using cbc_encrypt_loop_eq [of "cipher_encrypt c" input 0 out iv, OF assms(1)]
    cbc_decrypt_loop_eq [of "cipher_decrypt c" input 0 out iv, OF assms(2)] assms(3)
  by (simp_all add: cbc_encrypt_def cbc_decrypt_def mode_guard_bind past_guard_def whole_blocks_def act_simps
      BLOCK_SIZE_def split: sum.splits)

text \<open>The keystream of CTR: the cipher on consecutive 128-bit counters, modulo \<open>2^128\<close>.\<close>

definition ctr_keystream :: "(bytes \<Rightarrow> bytes) \<Rightarrow> bytes \<Rightarrow> nat \<Rightarrow> bytes" where
  "ctr_keystream enc icb j = enc (be_bytes 16 (be_val icb + j))"

lemma ctr_exact:
  assumes "\<And>b. length b = 16 \<Longrightarrow> length (cipher_encrypt c b) = 16" "length icb = 16"
  shows "ctr_xor c icb input out env =
    past_guard (\<lambda>e. Refused (ModeModule e)) env out
      (if length input \<le> length out then Inr () else Inl Panicked,
       take (length out) (stream_spec (ctr_keystream (cipher_encrypt c) icb) input) @ drop (length input) out)"
  using xor_stream_eq [of "cipher_encrypt c" inc128_for_ctr icb input out] assms
  by (simp add: ctr_xor_def mode_guard_bind past_guard_def inc128_iterated ctr_keystream_def [abs_def] split: sum.splits)

lemma xor_twice: "length xs \<le> length ys \<Longrightarrow> map2 (XOR) (map2 (XOR) xs ys) ys = (xs :: bytes)"
proof (induction xs arbitrary: ys)
  case (Cons x xs)
  then show ?case by (cases ys) (simp_all add: xor.assoc)
qed simp

lemma stream_twice:
  assumes "\<And>j. length (keystream j) = 16"
  shows "stream_spec keystream (stream_spec keystream m) = m"
  using length_block_bytes [of 16 keystream "length m"] assms
  by (simp add: stream_spec_def xor_twice)

lemma length_cbc_chain:
  assumes "\<And>b. length b = 16 \<Longrightarrow> length (enc b) = 16" "length iv = 16" "\<forall>p \<in> set ps. length p = 16"
  shows "\<forall>c \<in> set (cbc_chain enc iv ps). length c = 16"
  using assms(2,3)
proof (induction ps arbitrary: iv)
  case (Cons p ps)
  then have "length (enc (map2 (XOR) p iv)) = 16" by (intro assms(1)) simp
  with Cons show ?case by (simp add: Let_def)
qed simp

lemma cbc_inverse:
  assumes "\<And>b. length b = 16 \<Longrightarrow> length (enc b) = 16" "\<And>b. length b = 16 \<Longrightarrow> dec (enc b) = b"
    and "length iv = 16" "\<forall>p \<in> set ps. length p = 16"
  shows "cbc_unchain dec iv (cbc_chain enc iv ps) = ps"
  using assms(3,4) by (induction ps arbitrary: iv) (simp_all add: assms(1,2) xor_twice Let_def)

lemma cbc_chain_cong:
  assumes "\<And>b. length b = 16 \<Longrightarrow> enc b = enc' b" "\<And>b. length b = 16 \<Longrightarrow> length (enc b) = 16"
    and "length iv = 16" "\<forall>p \<in> set ps. length p = 16"
  shows "cbc_chain enc iv ps = cbc_chain enc' iv ps"
  using assms(3,4) by (induction ps arbitrary: iv) (simp_all add: Let_def assms(2) flip: assms(1))

text \<open>The laws of the interface make every mode undo itself.\<close>

context block_cipher_laws begin

lemma ecb_undo: "key_ok k \<Longrightarrow> length m mod 16 = 0 \<Longrightarrow>
    ecb_spec (cipher_decrypt (cipher k)) (ecb_spec (cipher_encrypt (cipher k)) m) = m"
proof -
  assume k: "key_ok k" and m: "length m mod 16 = 0"
  note l = chunks_aligned [OF m]
  then have "chunks 16 (ecb_spec (cipher_encrypt (cipher k)) m) = map (cipher_encrypt (cipher k)) (chunks 16 m)"
    unfolding ecb_spec_def by (intro chunks_concat) (auto simp: encrypt_length)
  moreover have "map (cipher_decrypt (cipher k)) (map (cipher_encrypt (cipher k)) (chunks 16 m)) = chunks 16 m"
    unfolding map_map using l by (intro map_idI) (simp add: decrypt_encrypts k)
  ultimately show ?thesis by (simp add: ecb_spec_def concat_chunks del: map_map)
qed

lemma cbc_undo: "key_ok k \<Longrightarrow> length iv = 16 \<Longrightarrow> length m mod 16 = 0 \<Longrightarrow>
    concat (cbc_unchain (cipher_decrypt (cipher k)) iv
      (chunks 16 (concat (cbc_chain (cipher_encrypt (cipher k)) iv (chunks 16 m))))) = m"
proof -
  assume k: "key_ok k" and iv: "length iv = 16" and m: "length m mod 16 = 0"
  have l: "\<forall>p \<in> set (chunks 16 m). length p = 16" using chunks_aligned [OF m] by blast
  have "chunks 16 (concat (cbc_chain (cipher_encrypt (cipher k)) iv (chunks 16 m))) =
      cbc_chain (cipher_encrypt (cipher k)) iv (chunks 16 m)"
    by (rule chunks_concat, simp, rule length_cbc_chain [OF _ iv l]) (rule encrypt_length)
  with cbc_inverse [of "cipher_encrypt (cipher k)" "cipher_decrypt (cipher k)", OF encrypt_length decrypt_encrypts [OF k] iv l]
  show ?thesis by (simp add: concat_chunks)
qed

lemma length_cbc: "length iv = 16 \<Longrightarrow> length m mod 16 = 0 \<Longrightarrow>
    length (concat (cbc_chain (cipher_encrypt (cipher k)) iv (chunks 16 m))) = length m"
proof -
  assume iv: "length iv = 16" and m: "length m mod 16 = 0"
  have l: "\<forall>p \<in> set (chunks 16 m). length p = 16" using chunks_aligned [OF m] by blast
  have n: "length (cbc_chain enc iv ps) = length ps" for enc iv and ps :: "bytes list"
    by (induction ps arbitrary: iv) (simp_all add: Let_def)
  have "length (concat (cbc_chain (cipher_encrypt (cipher k)) iv (chunks 16 m))) = 16 * length (chunks 16 m)"
    by (subst length_concat_all, rule length_cbc_chain [OF _ iv l]) (simp_all add: encrypt_length n)
  then show ?thesis using length_concat_all [OF l] concat_chunks [of 16 m] by simp
qed

lemma length_ecb: "length m mod 16 = 0 \<Longrightarrow> length (ecb_spec (cipher_encrypt (cipher k)) m) = length m"
proof -
  assume m: "length m mod 16 = 0"
  have l: "\<forall>p \<in> set (chunks 16 m). length p = 16" using chunks_aligned [OF m] by blast
  then have "length (ecb_spec (cipher_encrypt (cipher k)) m) = 16 * length (chunks 16 m)"
    unfolding ecb_spec_def by (subst length_concat_all) (auto simp: encrypt_length)
  then show ?thesis using length_concat_all [OF l] concat_chunks [of 16 m] by simp
qed

lemma ctr_undo: "length icb = 16 \<Longrightarrow>
    stream_spec (ctr_keystream (cipher_encrypt (cipher k)) icb) (stream_spec (ctr_keystream (cipher_encrypt (cipher k)) icb) m) = m"
  by (rule stream_twice) (simp add: ctr_keystream_def encrypt_length)

end

interpretation aes: block_cipher_laws "\<lambda>(a, rk). aes_cipher a rk" "\<lambda>(a, rk). length rk = 16 * (aes_nr a + 1)"
  by unfold_locales (auto simp: aes_cipher_def encrypt_block_with_def decrypt_block_with_def decrypt_encrypt encrypt_decrypt)

text \<open>A key schedule built by a constructor, with the FIPS 197 cipher it computes.\<close>

definition aes_key :: "aes \<Rightarrow> bytes \<Rightarrow> block_cipher" where
  "aes_key a key = aes_cipher a (aes_new_unguarded a key)"

definition fips_aes :: "aes \<Rightarrow> bytes \<Rightarrow> bytes \<Rightarrow> bytes" where
  "fips_aes a key = fips_cipher (aes_nk a) (aes_nr a) key"

lemma aes_key_encrypt:
  assumes "length key = 4 * aes_nk a" "length b = 16"
  shows "cipher_encrypt (aes_key a key) b = fips_aes a key b"
  using encrypt_fips [OF assms(2,1)] by (simp add: aes_key_def aes_cipher_def fips_aes_def)

lemma aes_key_lengths: "length b = 16 \<Longrightarrow> length (cipher_encrypt (aes_key a key) b) = 16"
  "length b = 16 \<Longrightarrow> length (cipher_decrypt (aes_key a key) b) = 16"
  using aes.encrypt_length [of b "(a, aes_new_unguarded a key)"] aes.decrypt_length [of b "(a, aes_new_unguarded a key)"]
  by (simp_all add: aes_key_def)

lemma aes_undo:
  assumes "length key = 4 * aes_nk a" "length iv = 16"
  shows "length m mod 16 = 0 \<Longrightarrow>
      ecb_spec (cipher_decrypt (aes_key a key)) (ecb_spec (cipher_encrypt (aes_key a key)) m) = m"
    "length m mod 16 = 0 \<Longrightarrow> concat (cbc_unchain (cipher_decrypt (aes_key a key)) iv
        (chunks 16 (concat (cbc_chain (cipher_encrypt (aes_key a key)) iv (chunks 16 m))))) = m"
    "stream_spec (ctr_keystream (cipher_encrypt (aes_key a key)) iv)
       (stream_spec (ctr_keystream (cipher_encrypt (aes_key a key)) iv) m) = m"
    "length m mod 16 = 0 \<Longrightarrow> length (ecb_spec (cipher_encrypt (aes_key a key)) m) = length m"
    "length m mod 16 = 0 \<Longrightarrow>
      length (concat (cbc_chain (cipher_encrypt (aes_key a key)) iv (chunks 16 m))) = length m"
  using aes.ecb_undo [of "(a, aes_new_unguarded a key)" m] aes.cbc_undo [of "(a, aes_new_unguarded a key)" iv m]
    aes.ctr_undo [of iv "(a, aes_new_unguarded a key)" m] aes.length_ecb [of m "(a, aes_new_unguarded a key)"]
    aes.length_cbc [of iv m "(a, aes_new_unguarded a key)"] aes_key_length [OF assms(1)] assms(2)
  by (simp_all add: aes_key_def)

lemma length_stream_spec:
  "(\<And>j. length (keystream j) = 16) \<Longrightarrow> length (stream_spec keystream m) = length m"
  using length_block_bytes [of 16 keystream "length m"] by (simp add: stream_spec_def)

subsection \<open>The properties\<close>

text \<open>C28: On every input and output buffer, and whatever the module's state, the encryption modes over a
  constructed AES key answer exactly this: a refusal by the internal guard leaves the buffer as it
  was; ECB and CBC then refuse buffers of different lengths or a partial block, and otherwise write
  the ECB or the chained CBC encryption of SP 800-38A under the cipher of FIPS 197; CTR writes the input
  xored with the cipher of consecutive 128-bit counters, wrapping at \<open>2^128\<close>, for inputs of any length,
  leaves an output longer than the input alone past it, and unwinds when the output is shorter.\<close>

theorem aes_modes_exact:
  assumes "length key = 4 * aes_nk a" "length iv = 16"
  shows
    "ecb_encrypt (aes_key a key) input out env =
       past_guard ModeModule env out (whole_blocks input out (ecb_spec (fips_aes a key) input)) \<and>
     cbc_encrypt (aes_key a key) iv input out env =
       past_guard ModeModule env out
         (whole_blocks input out (concat (cbc_chain (fips_aes a key) iv (chunks 16 input)))) \<and>
     ctr_xor (aes_key a key) iv input out env =
       past_guard (\<lambda>e. Refused (ModeModule e)) env out
         (if length input \<le> length out then Inr () else Inl Panicked,
          take (length out) (stream_spec (ctr_keystream (fips_aes a key) iv) input) @ drop (length input) out)"
proof -
  let ?E = "cipher_encrypt (aes_key a key)"
  have "ecb_spec ?E input = ecb_spec (fips_aes a key) input" if "length input mod 16 = 0"
    unfolding ecb_spec_def
    by (rule arg_cong [of _ _ concat], rule map_cong [OF refl])
      (rule aes_key_encrypt [OF assms(1) chunks_aligned [OF that]])
  then have ecb: "whole_blocks input out (ecb_spec ?E input) = whole_blocks input out (ecb_spec (fips_aes a key) input)"
    by (simp add: whole_blocks_def)
  have "cbc_chain ?E iv (chunks 16 input) = cbc_chain (fips_aes a key) iv (chunks 16 input)" if "length input mod 16 = 0"
    by (rule cbc_chain_cong [OF aes_key_encrypt [OF assms(1)] aes_key_lengths(1) assms(2)])
      (use chunks_aligned [OF that] in auto)
  then have cbc: "whole_blocks input out (concat (cbc_chain ?E iv (chunks 16 input))) =
      whole_blocks input out (concat (cbc_chain (fips_aes a key) iv (chunks 16 input)))"
    by (simp add: whole_blocks_def)
  have ctr: "ctr_keystream ?E iv = ctr_keystream (fips_aes a key) iv"
    by (rule ext) (simp add: ctr_keystream_def aes_key_encrypt [OF assms(1)])
  show ?thesis
    using ecb_exact(1) [of "aes_key a key", OF aes_key_lengths] cbc_exact(1) [of "aes_key a key", OF aes_key_lengths assms(2)]
      ctr_exact [of "aes_key a key", OF aes_key_lengths(1) assms(2)]
    by (simp only: ecb cbc ctr)
qed

theorem aes_modes_exact_witness:
  "ctr_xor (aes_key Aes128Key (replicate 16 7)) (zeros 16) [1, 2, 3] [0, 0] (steady None OPERATIONAL 0) =
     (Inl Panicked, take 2 (stream_spec (ctr_keystream (fips_aes Aes128Key (replicate 16 7)) (zeros 16)) [1, 2, 3]),
      steady None OPERATIONAL 0)"
  using aes_modes_exact [of "replicate 16 7" Aes128Key "zeros 16" "[1, 2, 3]" "[0, 0]" "steady None OPERATIONAL 0"]
  by (simp add: require_self_test_started_def past_guard_def numeral_2_eq_2)

text \<open>C29: What a mode encrypts it decrypts to the same message, for the three key sizes, every key,
  initialisation vector and message, when the module admits both calls: ECB and CBC on whole blocks,
  CTR on any length.\<close>

theorem aes_modes_roundtrip:
  assumes "length key = 4 * aes_nk a" "length iv = 16" "length m mod 16 = 0"
    and "length b1 = length m" "length b2 = length m" "length b3 = length n" "length b4 = length n"
    and "gate_at env 0 = Inr ()" "gate_at env 1 = Inr ()"
  shows
    "(case ecb_encrypt (aes_key a key) m b1 env of (r, ct, env') \<Rightarrow> ecb_decrypt (aes_key a key) ct b2 env') =
       (Inr (), m, env_later env 2) \<and>
     (case cbc_encrypt (aes_key a key) iv m b1 env of (r, ct, env') \<Rightarrow> cbc_decrypt (aes_key a key) iv ct b2 env') =
       (Inr (), m, env_later env 2) \<and>
     (case ctr_xor (aes_key a key) iv n b3 env of (r, ct, env') \<Rightarrow> ctr_xor (aes_key a key) iv ct b4 env') =
       (Inr (), n, env_later env 2)"
proof -
  let ?c = "aes_key a key" and ?env = "env_later env 1"
  have admitted: "gate_at ?env 0 = Inr ()" using assms(9) by simp
  note ecb = ecb_exact [of ?c, OF aes_key_lengths] and cbc = cbc_exact [of ?c, OF aes_key_lengths assms(2)]
    and ctr = ctr_exact [of ?c, OF aes_key_lengths(1) assms(2)]
  note undo = aes_undo [OF assms(1,2)] and first = past_guard_passed [OF assms(8)] and second = past_guard_passed [OF admitted, unfolded One_nat_def]
  have "ecb_encrypt ?c m b1 env = (Inr (), ecb_spec (cipher_encrypt ?c) m, ?env)"
    "ecb_decrypt ?c (ecb_spec (cipher_encrypt ?c) m) b2 ?env = (Inr (), m, env_later env 2)"
    by (simp_all add: ecb first second whole_blocks_def undo assms(3,4,5) numeral_2_eq_2)
  moreover
  let ?ct = "concat (cbc_chain (cipher_encrypt ?c) iv (chunks 16 m))"
  have "cbc_encrypt ?c iv m b1 env = (Inr (), ?ct, ?env)" "cbc_decrypt ?c iv ?ct b2 ?env = (Inr (), m, env_later env 2)"
    by (simp_all add: cbc first second whole_blocks_def undo assms(3,4,5) numeral_2_eq_2)
  moreover
  let ?s = "stream_spec (ctr_keystream (cipher_encrypt ?c) iv)"
  have "length (?s x) = length x" for x
    by (rule length_stream_spec) (simp add: ctr_keystream_def aes_key_lengths)
  then have "ctr_xor ?c iv n b3 env = (Inr (), ?s n, ?env)" "ctr_xor ?c iv (?s n) b4 ?env = (Inr (), n, env_later env 2)"
    by (simp_all add: ctr first second undo assms(6,7) numeral_2_eq_2)
  ultimately show ?thesis by simp
qed

theorem aes_modes_roundtrip_witness:
  "(case cbc_encrypt (aes_key Aes256Key (zeros 32)) (zeros 16) (replicate 32 5) (zeros 32) (steady None OPERATIONAL 0) of
      (r, ct, env) \<Rightarrow> cbc_decrypt (aes_key Aes256Key (zeros 32)) (zeros 16) ct (zeros 32) env) =
    (Inr (), replicate 32 5, steady None OPERATIONAL 0)"
  using aes_modes_roundtrip [of "zeros 32" Aes256Key "zeros 16" "replicate 32 5" "zeros 32" "zeros 32" "[]" "[]" "[]"
      "steady None OPERATIONAL 0"]
  by (simp add: require_self_test_started_def)

end
