(* ===== verification/Ctr_Drbg.thy ===== *)
theory Ctr_Drbg
  imports Drbg_Mechanism Aes_Modes
begin

unbundle bit_operations_syntax

text \<open>
  CTR_DRBG of \<^verbatim>\<open>src/crates/oxicrypt-drbg/src/ctr.rs\<close> over the three AES key sizes, with and without its
  derivation function \<open>Block_Cipher_df\<close>: every operation of the instance, and the mechanism of SP 800-90A
  sections 10.2.1, 10.3.2 and 10.3.3 they implement.  Local arrays of the largest variant are given at the
  length in use; the key field keeps its full size.
\<close>

subsection \<open>The ciphers\<close>

definition OUTLEN :: usize where "OUTLEN = 16"
definition MAX_KEY_LEN :: usize where "MAX_KEY_LEN = 32"
definition MAX_SEED_LEN :: usize where "MAX_SEED_LEN = MAX_KEY_LEN + OUTLEN"
definition MAX_DF_INPUT :: usize where "MAX_DF_INPUT = 192"
definition DF_SCRATCH_MIN :: usize where "DF_SCRATCH_MIN = OUTLEN + 8 + MAX_DF_INPUT + 1"
definition DF_SCRATCH_LEN :: usize where "DF_SCRATCH_LEN = (DF_SCRATCH_MIN + OUTLEN - 1) div OUTLEN * OUTLEN"

text \<open>The implementors of \<open>CipherFactory\<close>, one for each key type.\<close>

fun ctr_key_len :: "aes \<Rightarrow> usize" where
  "ctr_key_len Aes128Key = 16"
| "ctr_key_len Aes192Key = 24"
| "ctr_key_len Aes256Key = 32"

fun ctr_seed_len :: "aes \<Rightarrow> usize" where
  "ctr_seed_len Aes128Key = 32"
| "ctr_seed_len Aes192Key = 40"
| "ctr_seed_len Aes256Key = 48"

fun ctr_drbg_service :: "aes \<Rightarrow> service" where
  "ctr_drbg_service Aes128Key = DrbgS CtrDrbgAes128"
| "ctr_drbg_service Aes192Key = DrbgS CtrDrbgAes192"
| "ctr_drbg_service Aes256Key = DrbgS CtrDrbgAes256"

definition from_key :: "aes \<Rightarrow> bytes \<Rightarrow> (error, block_cipher) gated" where
  "from_key a key = chain (aes_new_internal a (take (ctr_key_len a) key)) (\<lambda>rk. ok (aes_cipher a rk))"

definition ctr_min_entropy_len :: "aes \<Rightarrow> usize" where "ctr_min_entropy_len a = ctr_key_len a"
definition ctr_min_nonce_len :: "aes \<Rightarrow> usize" where "ctr_min_nonce_len a = ctr_key_len a div 2"

subsection \<open>The instance\<close>

record ctr_drbg = drbg_slot +
  ctr_key :: bytes
  ctr_v :: bytes

definition ctr_drbg_new :: ctr_drbg where
  "ctr_drbg_new = \<lparr>reseed_counter = 0, instantiated = False,
     ctr_key = zeros MAX_KEY_LEN, ctr_v = zeros OUTLEN\<rparr>"

definition ctr_uninstantiate :: "ctr_drbg \<Rightarrow> ctr_drbg" where
  "ctr_uninstantiate d =
     d\<lparr>ctr_key := zeros (length (ctr_key d)), ctr_v := zeros (length (ctr_v d)),
       reseed_counter := 0, instantiated := False\<rparr>"

definition ctr_force_reseed_ceiling :: "ctr_drbg \<Rightarrow> ctr_drbg" where
  "ctr_force_reseed_ceiling d = d\<lparr>reseed_counter := RESEED_INTERVAL + 1\<rparr>"

definition increment_counter :: "bytes \<Rightarrow> bytes" where
  "increment_counter v = increment_from v OUTLEN"

text \<open>
  \<open>increment_counter(&mut self.v)\<close>, then the cipher of it: one turn of the loops of \<open>update\<close> and
  \<open>generate_blocks\<close>.  An operation on a local array gives its value back.
\<close>

definition act_local :: "'t \<Rightarrow> ('t, 'e, unit) action \<Rightarrow> ('s, 'e, 't) action" where
  "act_local t m s env =
     (case m t env of (Inl e, _, env') \<Rightarrow> (Inl e, s, env') | (Inr _, t', env') \<Rightarrow> (Inr t', s, env'))"

definition ctr_block :: "block_cipher \<Rightarrow> (bytes, error, bytes) action" where
  "ctr_block cipher =
     act_bind (act_update increment_counter) (\<lambda>_. act_get (\<lambda>v. act_ok (cipher_encrypt cipher v)))"

definition ctr_update :: "aes \<Rightarrow> bytes \<Rightarrow> (ctr_drbg, error, unit) action" where
  "ctr_update a provided_data =
     act_bind (act_gate gate_self_test_started) (\<lambda>_. act_get (\<lambda>d.
     act_bind (act_gate (from_key a (take (ctr_key_len a) (ctr_key d)))) (\<lambda>cipher.
     act_bind (act_local (ctr_v d, zeros (ctr_seed_len a)) (fill_blocks OUTLEN (ctr_block cipher) 0)) (\<lambda>(v, temp).
     act_update (\<lambda>d.
       let d = d\<lparr>ctr_v := v\<rparr>;
           temp = map2 (XOR) temp provided_data
       in d\<lparr>ctr_key := copy_at (ctr_key d) 0 (take (ctr_key_len a) temp),
            ctr_v := take OUTLEN (drop (ctr_key_len a) temp)\<rparr>)))))"

definition generate_blocks :: "aes \<Rightarrow> (ctr_drbg \<times> bytes, error, unit) action" where
  "generate_blocks a =
     act_bind (act_gate gate_self_test_started) (\<lambda>_. act_get (\<lambda>(d, _).
     act_bind (act_gate (from_key a (take (ctr_key_len a) (ctr_key d)))) (\<lambda>cipher.
     act_zoom (\<lambda>(d, out). (ctr_v d, out)) (\<lambda>(v, out) (d, _). (d\<lparr>ctr_v := v\<rparr>, out))
       (fill_blocks OUTLEN (ctr_block cipher) 0))))"

subsection \<open>The derivation function\<close>

function bcc_from :: "(bytes \<Rightarrow> bytes) \<Rightarrow> bytes \<Rightarrow> usize \<Rightarrow> bytes \<Rightarrow> bytes" where
  "bcc_from enc data i chaining =
     (if i < length data
      then bcc_from enc data (i + OUTLEN) (enc (map2 (XOR) chaining (take OUTLEN (drop i data))))
      else chaining)"
  by pat_completeness auto
termination by (relation "measure (\<lambda>(enc, data, i, chaining). length data - i)") (auto simp: OUTLEN_def)

definition bcc :: "(bytes \<Rightarrow> bytes) \<Rightarrow> bytes \<Rightarrow> bytes" where
  "bcc enc data = bcc_from enc data 0 (zeros OUTLEN)"

definition pad_len :: "nat \<Rightarrow> nat" where
  "pad_len m = (16 - m mod 16) mod 16"

lemma pad_len_0: "m mod 16 = 0 \<Longrightarrow> pad_len m = 0"
  by (simp add: pad_len_def)

lemma pad_len_step: "m mod 16 \<noteq> 0 \<Longrightarrow> pad_len m = Suc (pad_len (Suc m))"
proof -
  assume "m mod 16 \<noteq> 0"
  then obtain r where r: "m mod 16 = r" "0 < r" "r < 16" by simp
  show ?thesis
  proof (cases "Suc r = 16")
    case False
    with r have "Suc m mod 16 = Suc r" by (simp add: mod_Suc)
    then show ?thesis using r False by (simp add: pad_len_def)
  qed (use r in \<open>simp add: mod_Suc pad_len_def\<close>)
qed

text \<open>\<open>while (idx - OUTLEN) % OUTLEN != 0 { s_buf[idx] = 0; idx += 1; }\<close>\<close>

function df_pad :: "bytes \<Rightarrow> usize \<Rightarrow> bytes \<times> usize" where
  "df_pad s_buf idx =
     (if (idx - OUTLEN) mod OUTLEN \<noteq> 0 then df_pad (s_buf[idx := 0]) (idx + 1) else (s_buf, idx))"
  by pat_completeness auto
termination
proof (relation "measure (\<lambda>(s_buf, idx). pad_len (idx - OUTLEN))")
  fix s_buf :: bytes and idx
  assume *: "(idx - OUTLEN) mod OUTLEN \<noteq> 0"
  then have "idx + 1 - OUTLEN = Suc (idx - OUTLEN)" by (cases "OUTLEN \<le> idx") auto
  then show "((s_buf[idx := 0], idx + 1), (s_buf, idx)) \<in> measure (\<lambda>(s_buf, idx). pad_len (idx - OUTLEN))"
    using pad_len_step [of "idx - OUTLEN"] * by (simp only: OUTLEN_def in_measure prod.case simp_thms lessI)
qed simp

text \<open>\<open>IV || L || N || input || 0x80\<close> in the scratch buffer, padded, and the length in use.\<close>

definition df_scratch :: "bytes \<Rightarrow> usize \<Rightarrow> bytes \<times> usize" where
  "df_scratch input no_bits_return_bytes =
     (let s_buf = zeros DF_SCRATCH_LEN;
          idx = OUTLEN;
          s_buf = copy_at s_buf idx (be_of_u32 (word_of_nat (length input)));
          idx = idx + 4;
          s_buf = copy_at s_buf idx (be_of_u32 (word_of_nat no_bits_return_bytes));
          idx = idx + 4;
          s_buf = copy_at s_buf idx input;
          idx = idx + length input;
          s_buf = s_buf[idx := 0x80];
          idx = idx + 1
      in df_pad s_buf idx)"

text \<open>One turn of the loop over \<open>i\<close>: only the first block of the scratch buffer changes.\<close>

definition df_bcc_block :: "(bytes \<Rightarrow> bytes) \<Rightarrow> bytes \<Rightarrow> usize \<Rightarrow> (u32, error, bytes) action" where
  "df_bcc_block enc s_buf total_bcc_in = act_get (\<lambda>i.
     let s_buf = copy_at (copy_at s_buf 0 (be_of_u32 i)) 4 (zeros (OUTLEN - 4));
         block = bcc enc (take total_bcc_in s_buf)
     in act_bind (act_update (\<lambda>i. i + 1)) (\<lambda>_. act_ok block))"

definition df_out_block :: "(bytes \<Rightarrow> bytes) \<Rightarrow> (bytes, error, bytes) action" where
  "df_out_block enc = act_bind (act_update enc) (\<lambda>_. act_get (\<lambda>x. act_ok x))"

definition block_cipher_df :: "aes \<Rightarrow> bytes \<Rightarrow> (bytes, drbg_error, unit) action" where
  "block_cipher_df a input =
     (if length input > MAX_DF_INPUT then act_fail InputTooLong
      else act_map_err DrbgModule (
        act_bind (act_gate gate_self_test_started) (\<lambda>_. act_get (\<lambda>out.
        let (s_buf, total_bcc_in) = df_scratch input (length out);
            k = map word_of_nat [0..<ctr_key_len a]
        in act_bind (act_gate (from_key a k)) (\<lambda>k_cipher.
           act_bind (act_local (0, zeros (ctr_seed_len a))
             (fill_blocks OUTLEN (df_bcc_block (cipher_encrypt k_cipher) s_buf total_bcc_in) 0)) (\<lambda>(i, temp).
           act_bind (act_gate (from_key a (take (ctr_key_len a) temp))) (\<lambda>k2_cipher.
           act_zoom (\<lambda>out. (take OUTLEN (drop (ctr_key_len a) temp), out)) (\<lambda>(_, out) _. out)
             (fill_blocks OUTLEN (df_out_block (cipher_encrypt k2_cipher)) 0))))))))"

text \<open>\<open>let mut derived = [0; ..]; self.block_cipher_df(input, &mut derived[..SEED_LEN])\<close>\<close>

definition derive_seed :: "aes \<Rightarrow> bytes \<Rightarrow> ('s, drbg_error, bytes) action" where
  "derive_seed a input = act_local (zeros (ctr_seed_len a)) (block_cipher_df a input)"

subsection \<open>Instantiate and reseed\<close>

definition ctr_zero_state :: "aes \<Rightarrow> ctr_drbg \<Rightarrow> ctr_drbg" where
  "ctr_zero_state a d = d\<lparr>ctr_key := copy_at (ctr_key d) 0 (zeros (ctr_key_len a)), ctr_v := zeros OUTLEN\<rparr>"

definition ctr_instantiate_no_df_internal :: "aes \<Rightarrow> bytes \<Rightarrow> (ctr_drbg, error, unit) action" where
  "ctr_instantiate_no_df_internal a seed_material =
     act_bind (act_update ctr_uninstantiate) (\<lambda>_.
     if length seed_material \<noteq> ctr_seed_len a then act_fail InvalidInput
     else
       act_bind (act_update (ctr_zero_state a)) (\<lambda>_.
       act_bind (ctr_update a seed_material) (\<lambda>_.
       act_update (\<lambda>d. d\<lparr>reseed_counter := 1, instantiated := True\<rparr>))))"

definition ctr_instantiate_no_df :: "aes \<Rightarrow> bytes \<Rightarrow> (ctr_drbg, error, unit) action" where
  "ctr_instantiate_no_df a seed_material =
     act_bind (act_gate gate_operational) (\<lambda>_.
     act_bind (act_gate (gate_allowed (ctr_drbg_service a))) (\<lambda>_.
     ctr_instantiate_no_df_internal a seed_material))"

fun df_error :: "drbg_error \<Rightarrow> error" where
  "df_error (DrbgModule e) = e"
| "df_error _ = InvalidInput"

definition ctr_instantiate_df_internal :: "aes \<Rightarrow> bytes \<Rightarrow> bytes \<Rightarrow> bytes \<Rightarrow> (ctr_drbg, error, unit) action" where
  "ctr_instantiate_df_internal a entropy nonce personalization =
     act_bind (act_update ctr_uninstantiate) (\<lambda>_.
     case checked_sum [length entropy, length nonce, length personalization] of
       None \<Rightarrow> act_fail InvalidInput
     | Some len \<Rightarrow>
         if len > MAX_DF_INPUT then act_fail InvalidInput
         else if length entropy < ctr_min_entropy_len a then act_fail EntropyInputTooShort
         else if length nonce < ctr_min_nonce_len a then act_fail NonceTooShort
         else
           let seed_material = copy_at (copy_at (copy_at (zeros MAX_DF_INPUT) 0 entropy)
                 (length entropy) nonce) (length entropy + length nonce) personalization
           in act_bind (act_map_err df_error (derive_seed a (take len seed_material))) (\<lambda>derived.
              act_bind (act_update (ctr_zero_state a)) (\<lambda>_.
              act_bind (ctr_update a derived) (\<lambda>_.
              act_update (\<lambda>d. d\<lparr>reseed_counter := 1, instantiated := True\<rparr>)))))"

definition ctr_instantiate_df :: "aes \<Rightarrow> bytes \<Rightarrow> bytes \<Rightarrow> bytes \<Rightarrow> (ctr_drbg, error, unit) action" where
  "ctr_instantiate_df a entropy nonce personalization =
     act_bind (act_gate gate_operational) (\<lambda>_.
     act_bind (act_gate (gate_allowed (ctr_drbg_service a))) (\<lambda>_.
     ctr_instantiate_df_internal a entropy nonce personalization))"

definition ctr_reseed_no_df :: "aes \<Rightarrow> bytes \<Rightarrow> (ctr_drbg, drbg_error, unit) action" where
  "ctr_reseed_no_df a seed_material = act_get (\<lambda>d.
     if \<not> instantiated d then act_fail Uninstantiated
     else if length seed_material \<noteq> ctr_seed_len a then act_fail InvalidSeedLength
     else
       act_bind (act_map_err DrbgModule (ctr_update a seed_material)) (\<lambda>_.
       act_update (\<lambda>d. d\<lparr>reseed_counter := 1\<rparr>)))"

definition ctr_reseed_df :: "aes \<Rightarrow> bytes \<Rightarrow> bytes \<Rightarrow> (ctr_drbg, drbg_error, unit) action" where
  "ctr_reseed_df a entropy additional_input = act_get (\<lambda>d.
     if \<not> instantiated d then act_fail Uninstantiated
     else case checked_sum [length entropy, length additional_input] of
       None \<Rightarrow> act_fail InputTooLong
     | Some len \<Rightarrow>
         if len > MAX_DF_INPUT then act_fail InputTooLong
         else if length entropy < ctr_min_entropy_len a then act_fail DrbgEntropyInputTooShort
         else
           let seed_material = copy_at (copy_at (zeros MAX_DF_INPUT) 0 entropy) (length entropy) additional_input
           in act_bind (derive_seed a (take len seed_material)) (\<lambda>derived.
              act_bind (act_map_err DrbgModule (ctr_update a derived)) (\<lambda>_.
              act_update (\<lambda>d. d\<lparr>reseed_counter := 1\<rparr>))))"

subsection \<open>Generate\<close>

text \<open>The part both variants share: the blocks, the final update, the counter.\<close>

definition ctr_generate_rest :: "aes \<Rightarrow> bytes \<Rightarrow> (ctr_drbg \<times> bytes, drbg_error, unit) action" where
  "ctr_generate_rest a addl =
     act_bind (act_map_err DrbgModule (generate_blocks a)) (\<lambda>_.
     act_bind (act_fst (act_map_err DrbgModule (ctr_update a addl))) (\<lambda>_.
     act_fst (act_update (\<lambda>d. d\<lparr>reseed_counter := reseed_counter d + 1\<rparr>))))"

definition ctr_generate_no_df_unwiped ::
  "aes \<Rightarrow> bytes option \<Rightarrow> (ctr_drbg \<times> bytes, drbg_error, unit) action" where
  "ctr_generate_no_df_unwiped a additional_input = act_get (\<lambda>(d, out).
     if \<not> instantiated d then act_fail Uninstantiated
     else if length out > 2 ^ 16 then act_fail RequestTooLong
     else if reseed_counter d > RESEED_INTERVAL then act_fail ReseedRequired
     else
       act_bind (case additional_input of
           None \<Rightarrow> act_ok (zeros (ctr_seed_len a))
         | Some ai \<Rightarrow>
             if length ai \<noteq> ctr_seed_len a then act_fail InvalidSeedLength
             else act_bind (act_fst (act_map_err DrbgModule (ctr_update a ai))) (\<lambda>_. act_ok ai))
       (ctr_generate_rest a))"

definition ctr_generate_df_unwiped ::
  "aes \<Rightarrow> bytes option \<Rightarrow> (ctr_drbg \<times> bytes, drbg_error, unit) action" where
  "ctr_generate_df_unwiped a additional_input = act_get (\<lambda>(d, out).
     if \<not> instantiated d then act_fail Uninstantiated
     else if length out > 2 ^ 16 then act_fail RequestTooLong
     else if reseed_counter d > RESEED_INTERVAL then act_fail ReseedRequired
     else
       act_bind (case additional_input of
           None \<Rightarrow> act_ok (zeros (ctr_seed_len a))
         | Some ai \<Rightarrow>
             if length ai > MAX_DF_INPUT then act_fail InputTooLong
             else act_bind (derive_seed a ai) (\<lambda>addl.
               act_bind (act_fst (act_map_err DrbgModule (ctr_update a addl))) (\<lambda>_. act_ok addl)))
       (ctr_generate_rest a))"

definition ctr_generate_no_df :: "aes \<Rightarrow> bytes option \<Rightarrow> (ctr_drbg \<times> bytes, drbg_error, unit) action" where
  "ctr_generate_no_df a additional_input = wiping (ctr_generate_no_df_unwiped a additional_input)"

definition ctr_generate_df :: "aes \<Rightarrow> bytes option \<Rightarrow> (ctr_drbg \<times> bytes, drbg_error, unit) action" where
  "ctr_generate_df a additional_input = wiping (ctr_generate_df_unwiped a additional_input)"

definition ctr_generate_no_df_pr :: "aes \<Rightarrow> bytes \<Rightarrow> (ctr_drbg \<times> bytes, drbg_error, unit) action" where
  "ctr_generate_no_df_pr a seed_material =
     act_bind (act_fst (ctr_reseed_no_df a seed_material)) (\<lambda>_. ctr_generate_no_df a None)"

definition ctr_generate_df_pr :: "aes \<Rightarrow> bytes \<Rightarrow> bytes \<Rightarrow> (ctr_drbg \<times> bytes, drbg_error, unit) action" where
  "ctr_generate_df_pr a entropy additional_input =
     act_bind (act_fst (ctr_reseed_df a entropy additional_input)) (\<lambda>_. ctr_generate_df a None)"

declare bcc_from.simps [simp del] df_pad.simps [simp del]

subsection \<open>SP 800-90A sections 10.2.1, 10.3.2 and 10.3.3\<close>

text \<open>\<open>len\<close> bytes of the cipher of \<open>V + 1\<close>, \<open>V + 2\<close>, \<dots> modulo \<open>2^128\<close>, with FIPS 197's cipher.\<close>

definition ctr_output :: "aes \<Rightarrow> bytes \<Rightarrow> nat \<Rightarrow> nat \<Rightarrow> bytes" where
  "ctr_output a key v len = block_bytes 16 (\<lambda>j. fips_aes a key (be_bytes 16 (v + Suc j))) len"

definition ctr_update_spec :: "aes \<Rightarrow> bytes \<Rightarrow> bytes \<times> bytes \<Rightarrow> bytes \<times> bytes" where
  "ctr_update_spec a provided kv =
     (let temp = map2 (XOR) (ctr_output a (fst kv) (be_val (snd kv)) (ctr_seed_len a)) provided
      in (take (ctr_key_len a) temp, drop (ctr_key_len a) temp))"

definition bcc_spec :: "(bytes \<Rightarrow> bytes) \<Rightarrow> bytes \<Rightarrow> bytes" where
  "bcc_spec enc data = foldl (\<lambda>c block. enc (map2 (XOR) c block)) (zeros 16) (chunks 16 data)"

definition df_spec :: "aes \<Rightarrow> bytes \<Rightarrow> nat \<Rightarrow> bytes" where
  "df_spec a input n =
     (let s = pad16 (be_bytes 4 (length input) @ be_bytes 4 n @ input @ [0x80]);
          k = map word_of_nat [0..<ctr_key_len a];
          temp = block_bytes 16 (\<lambda>i. bcc_spec (fips_aes a k) (be_bytes 4 i @ zeros 12 @ s)) (ctr_seed_len a);
          k' = take (ctr_key_len a) temp;
          x = drop (ctr_key_len a) temp
      in block_bytes 16 (\<lambda>j. (fips_aes a k' ^^ Suc j) x) n)"

text \<open>The state after instantiating, and generate with the derived additional input.\<close>

definition ctr_seed_spec :: "aes \<Rightarrow> bytes \<Rightarrow> bytes \<times> bytes" where
  "ctr_seed_spec a seed = ctr_update_spec a seed (zeros (ctr_key_len a), zeros 16)"

definition ctr_generate_spec ::
  "aes \<Rightarrow> bytes option \<Rightarrow> nat \<Rightarrow> bytes \<times> bytes \<Rightarrow> bytes \<times> bytes \<times> bytes" where
  "ctr_generate_spec a ai len kv =
     (let (ai, k, v) = (case ai of None \<Rightarrow> (zeros (ctr_seed_len a), kv) | Some x \<Rightarrow> (x, ctr_update_spec a x kv));
          v' = be_bytes 16 (be_val v + blocks_for 16 len)
      in (ctr_output a k (be_val v) len, ctr_update_spec a ai (k, v')))"


subsection \<open>The pieces under the guards\<close>

lemma OUTLEN_16 [simp]: "OUTLEN = 16" by (simp add: OUTLEN_def)

lemma ctr_lengths: "ctr_key_len a = 4 * aes_nk a" "ctr_seed_len a = ctr_key_len a + 16" "ctr_key_len a \<le> 32"
  "16 \<le> ctr_key_len a"
  by (cases a; simp)+

lemma gate_guards: "gate_self_test_started = guards 1 ()"
  by (rule ext) (simp add: chain_def ok_def split: prod.splits sum.splits)

lemma from_key_guards: "length key = ctr_key_len a \<Longrightarrow> from_key a key = guards 1 (aes_key a key)"
  by (rule ext)
    (simp add: from_key_def aes_new_internal_def chain_def ok_def aes_key_def split: prod.splits sum.splits)

lemma guarded_run_now: "guarded_run g P m s 0 x s' \<Longrightarrow> m s env = (Inr x, s', env)"
  using guarded_runD(1) [of g P m s 0 x s' env] by simp

lemma guarded_run_pure: "(\<And>env. m s env = (Inr x, s', env)) \<Longrightarrow> guarded_run g P m s 0 x s'"
  by (rule guarded_runI) simp_all

lemma guarded_run_local:
  assumes "guarded_run g P m t k () t'" "Q s"
  shows "guarded_run g Q (act_local t m) s k t' s"
  by (rule guarded_runI)
    (auto simp: act_local_def guarded_runD(1) [OF assms(1)] assms(2) dest!: guarded_runD(2) [OF assms(1)])

text \<open>The blocks of \<open>update\<close> and \<open>generate_blocks\<close>.\<close>

lemma increment_counter_eq: "increment_counter (be_bytes 16 x) = be_bytes 16 (Suc x)"
  using increment_be_eq [of "be_bytes 16 x"] be_bytes_add_mod [of 16 x 1]
  by (simp add: increment_counter_def increment_be_def be_val_bytes del: be_bytes.simps)

lemma ctr_fill:
  assumes "length v = 16" "length key = ctr_key_len a"
  shows "guarded_run id (\<lambda>_. True) (fill_blocks 16 (ctr_block (aes_key a key)) 0) (v, out) 0 ()
    (be_bytes 16 (be_val v + blocks_for 16 (length out)), ctr_output a key (be_val v) (length out))"
proof -
  let ?block = "\<lambda>j. fips_aes a key (be_bytes 16 (be_val v + Suc j))"
  have enc: "cipher_encrypt (aes_key a key) (be_bytes 16 x) = fips_aes a key (be_bytes 16 x)" for x
    using assms(2) by (simp add: aes_key_encrypt ctr_lengths del: be_bytes.simps)
  have l: "length (?block j) = 16" for j
    using aes_key_lengths(1) [of "be_bytes 16 (be_val v + Suc j)" a key] by (simp only: enc length_be_bytes)
  have "guarded_run id (\<lambda>_. True) (ctr_block (aes_key a key)) (be_bytes 16 (be_val v + j)) 0 (?block j)
      (be_bytes 16 (be_val v + Suc j))" for j
    by (rule guarded_run_pure)
      (simp add: ctr_block_def act_bind_def act_simps increment_counter_eq enc del: be_bytes.simps)
  from guarded_run_fill [of 16 id "\<lambda>_. True" _ "\<lambda>j. be_bytes 16 (be_val v + j)" 0 ?block out "\<lambda>_. True",
      OF _ this l] be_bytes_val [of v] assms(1)
  show ?thesis by (simp add: ctr_output_def del: be_bytes.simps)
qed

lemma length_ctr_output [simp]: "length key = ctr_key_len a \<Longrightarrow> length (ctr_output a key v len) = len"
  unfolding ctr_output_def
  by (rule length_block_bytes)
    (use aes_key_lengths(1) in \<open>simp_all add: aes_key_encrypt [symmetric] ctr_lengths del: be_bytes.simps\<close>)

text \<open>The scratch buffer of the derivation function.\<close>

lemma copy_at_zeros: "length pre = i \<Longrightarrow> length src \<le> k \<Longrightarrow>
    copy_at (pre @ zeros k) i src = (pre @ src) @ zeros (k - length src)"
  by (simp add: copy_at_def zeros_def)

lemma df_pad_eq:
  "length pre = 16 + m \<Longrightarrow> (m + k) mod 16 = 0 \<Longrightarrow>
     df_pad (pre @ zeros k) (16 + m) = (pre @ zeros k, 16 + m + pad_len m)"
proof (induction "pad_len m" arbitrary: pre m k)
  case 0
  then have "m mod 16 = 0" using pad_len_step [of m] by auto
  then show ?case by (subst df_pad.simps) (simp add: pad_len_0)
next
  case (Suc r)
  then have m: "m mod 16 \<noteq> 0" using pad_len_0 [of m] by auto
  with Suc(4) obtain k' where k: "k = Suc k'" by (cases k) auto
  then have "(pre @ zeros k)[16 + m := 0] = (pre @ [0]) @ zeros k'"
    using Suc(3) by (simp add: zeros_def list_update_append)
  then have "df_pad (pre @ zeros k) (16 + m) = df_pad ((pre @ [0]) @ zeros k') (16 + Suc m)"
    using m by (subst df_pad.simps) simp
  also have "\<dots> = ((pre @ [0]) @ zeros k', 16 + Suc m + pad_len (Suc m))"
    using Suc(2-4) pad_len_step [OF m] k by (intro Suc(1)) simp_all
  finally show ?case using pad_len_step [OF m] k by (simp add: zeros_def)
qed

lemma pad16_len: "pad16 d = d @ zeros (pad_len (length d))"
  by (simp add: pad16_def pad_len_def)

definition df_string :: "bytes \<Rightarrow> nat \<Rightarrow> bytes" where
  "df_string input n = pad16 (be_bytes 4 (length input) @ be_bytes 4 n @ input @ [0x80])"

lemma df_scratch_eq:
  assumes "length input \<le> MAX_DF_INPUT"
  obtains k where "df_scratch input n = (zeros 16 @ df_string input n @ zeros k, 16 + length (df_string input n))"
proof -
  define body where "body = be_bytes 4 (length input) @ be_bytes 4 n @ input @ [0x80]"
  define m where "m = 9 + length input"
  define k where "k = 208 - m"
  have m: "length body = m" "m \<le> 201" "9 \<le> m" using assms by (simp_all add: body_def m_def MAX_DF_INPUT_def)
  have total: "DF_SCRATCH_LEN = 224"
    by (simp add: DF_SCRATCH_LEN_def DF_SCRATCH_MIN_def MAX_DF_INPUT_def)
  have start: "zeros 224 = zeros 16 @ zeros 208" by (simp add: zeros_def flip: replicate_add)
  have set: "(p @ zeros (208 - (m - 1)))[16 + m - 1 := x] = p @ [x] @ zeros k" if "length p = 15 + m" for p x
  proof -
    have "208 - (m - 1) = Suc k" "16 + m - 1 = length p" using m that by (simp_all add: k_def)
    then show ?thesis by (simp only: zeros_def replicate_Suc) simp
  qed
  have "df_scratch input n = df_pad ((zeros 16 @ body) @ zeros k) (16 + m)"
    unfolding df_scratch_def total start Let_def be_of_u32_eq OUTLEN_16
    using m set [of "zeros 16 @ be_bytes 4 (length input) @ be_bytes 4 n @ input" "0x80"]
      copy_at_zeros [of "zeros 16" 16 "be_bytes 4 (length input)" 208]
      copy_at_zeros [of "zeros 16 @ be_bytes 4 (length input)" 20 "be_bytes 4 n" 204]
      copy_at_zeros [of "zeros 16 @ be_bytes 4 (length input) @ be_bytes 4 n" 24 input 200]
    by (simp add: m_def body_def del: be_bytes.simps)
  also have "\<dots> = ((zeros 16 @ body) @ zeros k, 16 + m + pad_len m)"
    using m by (intro df_pad_eq) (simp_all add: k_def)
  finally have eq: "df_scratch input n = ((zeros 16 @ body) @ zeros k, 16 + m + pad_len m)" .
  have s: "df_string input n = body @ zeros (pad_len m)"
    using m by (simp add: df_string_def pad16_len body_def)
  then have "(m + pad_len m) mod 16 = 0"
    using pad16_simps(1) [of body] m by (simp add: pad16_len)
  moreover have "pad_len m < 16" by (simp add: pad_len_def)
  ultimately have "pad_len m \<le> k" using m by (simp add: k_def) presburger
  then have "zeros k = zeros (pad_len m) @ zeros (k - pad_len m)" by (simp add: zeros_def flip: replicate_add)
  then show thesis using that [of "k - pad_len m"] eq s m by simp
qed


lemma bcc_from_eq:
  "length data mod 16 = 0 \<Longrightarrow> i mod 16 = 0 \<Longrightarrow> i \<le> length data \<Longrightarrow>
     bcc_from enc data i c = foldl (\<lambda>c block. enc (map2 (XOR) c block)) c (chunks 16 (drop i data))"
proof (induction "length data - i" arbitrary: i c rule: less_induct)
  case less
  show ?case
  proof (cases "i < length data")
    case True
    note step = aligned_step [OF less(2,3) True]
    show ?thesis
      using less(1) [of "i + 16"] less(2) step True by (subst bcc_from.simps) simp
  qed (use less in \<open>subst bcc_from.simps, simp\<close>)
qed

lemma bcc_spec_lengths:
  assumes "\<And>b. length b = 16 \<Longrightarrow> enc b = enc' b \<and> length (enc' b) = 16" "length data mod 16 = 0"
  shows "bcc_spec enc data = bcc_spec enc' data" "length (bcc_spec enc' data) = 16"
proof -
  have "foldl (\<lambda>c block. enc (map2 (XOR) c block)) c bs = foldl (\<lambda>c block. enc' (map2 (XOR) c block)) c bs \<and>
      length (foldl (\<lambda>c block. enc' (map2 (XOR) c block)) c bs) = 16"
    if "\<forall>b \<in> set bs. length b = 16" "length c = 16" for bs c
    using that by (induction bs arbitrary: c) (auto simp: assms(1))
  then show "bcc_spec enc data = bcc_spec enc' data" "length (bcc_spec enc' data) = 16"
    using chunks_aligned [OF assms(2)] unfolding bcc_spec_def by simp_all
qed

lemma df_run:
  assumes "length input \<le> MAX_DF_INPUT"
  shows "guarded_run DrbgModule (\<lambda>_. True) (block_cipher_df a input) out 3 () (df_spec a input (length out))"
proof -
  define s where "s = df_string input (length out)"
  obtain r where scratch: "df_scratch input (length out) = (zeros 16 @ s @ zeros r, 16 + length s)"
    using df_scratch_eq [OF assms] unfolding s_def by blast
  have s: "length s mod 16 = 0" by (simp add: s_def df_string_def pad16_simps(1))
  define k :: bytes where "k = map word_of_nat [0..<ctr_key_len a]"
  define block where "block = (\<lambda>i. bcc_spec (fips_aes a k) (be_bytes 4 i @ zeros 12 @ s))"
  define temp where "temp = block_bytes 16 block (ctr_seed_len a)"
  define k' where "k' = take (ctr_key_len a) temp"
  define x where "x = drop (ctr_key_len a) temp"
  have lk: "length k = ctr_key_len a" by (simp add: k_def)
  have enc: "fips_aes a key b = cipher_encrypt (aes_key a key) b \<and> length (fips_aes a key b) = 16"
    if "length key = ctr_key_len a" "length b = 16" for key b
    using that aes_key_lengths(1) [of b a key] aes_key_encrypt [of key a b] by (simp add: ctr_lengths)
  have bcc: "bcc (cipher_encrypt (aes_key a k)) (be_bytes 4 i @ zeros 12 @ s) = block i" "length (block i) = 16" for i
  proof -
    let ?data = "be_bytes 4 i @ zeros 12 @ s" and ?enc = "cipher_encrypt (aes_key a k)"
    have l: "length ?data mod 16 = 0" using s by simp
    have "bcc ?enc ?data = bcc_spec ?enc ?data"
      using bcc_from_eq [OF l, of 0 ?enc "zeros 16"] by (simp add: bcc_def bcc_spec_def del: be_bytes.simps)
    then show "bcc ?enc ?data = block i" "length (block i) = 16"
      using bcc_spec_lengths [of ?enc "fips_aes a k" ?data, OF _ l] enc [OF lk]
      by (simp_all add: block_def aes_key_lengths(1) del: be_bytes.simps)
  qed
  have lt: "length temp = ctr_seed_len a" unfolding temp_def by (rule length_block_bytes) (simp_all add: bcc)
  then have lens: "length k' = ctr_key_len a" "length x = 16" "take 16 x = x" by (simp_all add: k'_def x_def ctr_lengths)
  have "copy_at (copy_at (zeros 16 @ s @ zeros r) 0 (be_bytes 4 i)) 4 (zeros 12) = be_bytes 4 i @ zeros 12 @ s @ zeros r" for i
    by (simp add: copy_at_def zeros_def del: be_bytes.simps)
  then have "guarded_run id (\<lambda>_. True) (df_bcc_block (cipher_encrypt (aes_key a k)) (zeros 16 @ s @ zeros r) (16 + length s))
      (word_of_nat i) 0 (block i) (word_of_nat (Suc i))" for i
    by (intro guarded_run_pure)
      (simp add: df_bcc_block_def act_bind_def act_simps be_of_u32_eq bcc add.commute del: be_bytes.simps)
  from guarded_run_fill [of 16 id "\<lambda>_. True" _ word_of_nat 0 block "zeros (ctr_seed_len a)" "\<lambda>_. True", OF _ this bcc(2)]
  have first: "guarded_run id (\<lambda>_. True) (act_local (0, zeros (ctr_seed_len a))
      (fill_blocks 16 (df_bcc_block (cipher_encrypt (aes_key a k)) (zeros 16 @ s @ zeros r) (16 + length s)) 0)) out 0
      (word_of_nat (blocks_for 16 (ctr_seed_len a)), temp) out"
    by (intro guarded_run_local [of id "\<lambda>_. True"]) (simp_all add: temp_def)
  have power: "(cipher_encrypt (aes_key a k') ^^ j) x = (fips_aes a k' ^^ j) x \<and> length ((fips_aes a k' ^^ j) x) = 16" for j
    by (induction j) (simp_all add: lens enc aes_key_lengths(1))
  then have "guarded_run id (\<lambda>_. True) (df_out_block (cipher_encrypt (aes_key a k')))
      ((fips_aes a k' ^^ j) x) 0 ((fips_aes a k' ^^ Suc j) x) ((fips_aes a k' ^^ Suc j) x)" for j
    using enc [OF lens(1)] by (intro guarded_run_pure) (simp add: df_out_block_def act_bind_def act_simps)
  from guarded_run_fill [of 16 id "\<lambda>_. True" _ "\<lambda>j. (fips_aes a k' ^^ j) x" 0 "\<lambda>j. (fips_aes a k' ^^ Suc j) x" out
      "\<lambda>_. True", OF _ this] power
  have "guarded_run id (\<lambda>_. True) (fill_blocks 16 (df_out_block (cipher_encrypt (aes_key a k'))) 0) (x, out) 0 ()
      ((fips_aes a k' ^^ blocks_for 16 (length out)) x, df_spec a input (length out))"
    by (simp add: df_spec_def s_def df_string_def block_def temp_def k_def k'_def x_def Let_def del: be_bytes.simps funpow.simps)
  from guarded_run_zoom [of id "\<lambda>_. True" _ "\<lambda>out. (x, out)" out, OF this, of "\<lambda>_. True" "\<lambda>(_, out) _. out"]
  have second: "guarded_run id (\<lambda>_. True) (act_zoom (\<lambda>out. (x, out)) (\<lambda>(_, out) _. out)
      (fill_blocks 16 (df_out_block (cipher_encrypt (aes_key a k'))) 0)) out 0 () (df_spec a input (length out))"
    by simp
  note guards = guarded_run_guards [of "\<lambda>_. True" out, OF TrueI]
  have "guarded_run id (\<lambda>_. True) (act_bind (act_gate gate_self_test_started) (\<lambda>_. act_get (\<lambda>out.
        let (s_buf, total_bcc_in) = df_scratch input (length out);
            k = map word_of_nat [0..<ctr_key_len a]
        in act_bind (act_gate (from_key a k)) (\<lambda>k_cipher.
           act_bind (act_local (0, zeros (ctr_seed_len a))
             (fill_blocks OUTLEN (df_bcc_block (cipher_encrypt k_cipher) s_buf total_bcc_in) 0)) (\<lambda>(i, temp).
           act_bind (act_gate (from_key a (take (ctr_key_len a) temp))) (\<lambda>k2_cipher.
           act_zoom (\<lambda>out. (take OUTLEN (drop (ctr_key_len a) temp), out)) (\<lambda>(_, out) _. out)
             (fill_blocks OUTLEN (df_out_block (cipher_encrypt k2_cipher)) 0))))))) out (1 + (1 + (0 + (1 + 0)))) ()
      (df_spec a input (length out))"
    unfolding gate_guards OUTLEN_16
    by (rule guarded_run_then [OF guards], rule guarded_run_get,
        simp only: scratch prod.case Let_def k_def [symmetric] from_key_guards [OF lk])
      (rule guarded_run_bind [OF guards], rule guarded_run_bind [OF first],
        simp only: prod.case k'_def [symmetric] x_def [symmetric] from_key_guards [OF lens(1)] lens(3),
        rule guarded_run_bind [OF guards], rule second)
  from guarded_run_map_err [OF this, of DrbgModule] assms show ?thesis by (simp add: block_cipher_df_def numeral_3_eq_3)
qed


lemma length_df_spec: "length (df_spec a input n) = n"
proof -
  have power: "length ((fips_aes a k ^^ Suc j) x) = 16" if "length k = ctr_key_len a" "length x = 16" for k x j
    using that by (induction j) (simp_all add: aes_key_encrypt [symmetric] aes_key_lengths(1) ctr_lengths)
  have "length (fips_aes a k b) = 16" if "length k = ctr_key_len a" "length b = 16" for k b
    using that by (simp add: aes_key_encrypt [symmetric] aes_key_lengths(1) ctr_lengths)
  then have "length (bcc_spec (fips_aes a k) d) = 16" if "length k = ctr_key_len a" "length d mod 16 = 0" for k d
    using bcc_spec_lengths(2) [of "fips_aes a k" "fips_aes a k" d] that by simp
  then show ?thesis
    by (simp add: df_spec_def Let_def length_block_bytes power ctr_lengths pad16_simps(1) del: funpow.simps be_bytes.simps)
qed

text \<open>The working state of an instance.\<close>

definition ctr_wf :: "ctr_drbg \<Rightarrow> bool" where
  "ctr_wf d \<longleftrightarrow> length (ctr_key d) = MAX_KEY_LEN \<and> length (ctr_v d) = 16"

definition ctr_kv :: "aes \<Rightarrow> ctr_drbg \<Rightarrow> bytes \<times> bytes" where
  "ctr_kv a d = (take (ctr_key_len a) (ctr_key d), ctr_v d)"

definition ctr_put :: "bytes \<times> bytes \<Rightarrow> ctr_drbg \<Rightarrow> ctr_drbg" where
  "ctr_put kv d = d\<lparr>ctr_key := copy_at (ctr_key d) 0 (fst kv), ctr_v := snd kv\<rparr>"

definition ctr_kept :: "ctr_drbg \<Rightarrow> ctr_drbg \<Rightarrow> bool" where
  "ctr_kept d d' \<longleftrightarrow> ctr_wf d' \<and> drbg_slot.truncate d' = drbg_slot.truncate d"

definition ctr_fits :: "aes \<Rightarrow> bytes \<times> bytes \<Rightarrow> bool" where
  "ctr_fits a kv \<longleftrightarrow> length (fst kv) = ctr_key_len a \<and> length (snd kv) = 16"

lemma ctr_put_simps [simp]:
  assumes "ctr_wf d" "ctr_fits a kv"
  shows "ctr_wf (ctr_put kv d)" "ctr_kv a (ctr_put kv d) = kv"
    "ctr_fits a kv' \<Longrightarrow> ctr_put kv' (ctr_put kv d) = ctr_put kv' d" "ctr_kept d (ctr_put kv d)"
  using assms ctr_lengths [of a]
  by (simp_all add: ctr_wf_def ctr_kv_def ctr_put_def ctr_fits_def ctr_kept_def MAX_KEY_LEN_def copy_at_def prod_eq_iff
      drbg_slot.truncate_def)

lemma ctr_put_slot [simp]:
  "reseed_counter (ctr_put kv d) = reseed_counter d" "instantiated (ctr_put kv d) = instantiated d"
  "drbg_slot.truncate (ctr_put kv d) = drbg_slot.truncate d"
  by (simp_all add: ctr_put_def drbg_slot.truncate_def)

lemma ctr_counter_wf [simp]:
  "ctr_wf (d\<lparr>reseed_counter := n\<rparr>) = ctr_wf d" "ctr_kv a (d\<lparr>reseed_counter := n\<rparr>) = ctr_kv a d"
  "ctr_wf (d\<lparr>instantiated := b\<rparr>) = ctr_wf d" "ctr_kv a (d\<lparr>instantiated := b\<rparr>) = ctr_kv a d"
  "drbg_slot.truncate (d\<lparr>reseed_counter := n\<rparr>) = (drbg_slot.truncate d)\<lparr>reseed_counter := n\<rparr>"
  "drbg_slot.truncate (d\<lparr>instantiated := b\<rparr>) = (drbg_slot.truncate d)\<lparr>instantiated := b\<rparr>"
  by (simp_all add: ctr_wf_def ctr_kv_def drbg_slot.truncate_def)

lemma ctr_kv_fits [simp]: "ctr_wf d \<Longrightarrow> ctr_fits a (ctr_kv a d)"
  using ctr_lengths [of a] by (simp add: ctr_wf_def ctr_kv_def ctr_fits_def MAX_KEY_LEN_def)

lemma ctr_put_self: "ctr_wf d \<Longrightarrow> ctr_put (ctr_kv a d) d = d"
  using ctr_lengths [of a] by (simp add: ctr_wf_def ctr_kv_def ctr_put_def MAX_KEY_LEN_def copy_at_def min_def)

lemma ctr_update_fits:
  assumes "ctr_fits a kv" "length provided = ctr_seed_len a"
  shows "ctr_fits a (ctr_update_spec a provided kv)"
  using assms by (simp add: ctr_fits_def ctr_update_spec_def Let_def ctr_lengths)

lemma ctr_update_run:
  assumes "ctr_wf d" "ctr_fits a kv" "length provided = ctr_seed_len a"
  shows "guarded_run id (ctr_kept d) (ctr_update a provided) (ctr_put kv d) 2 ()
    (ctr_put (ctr_update_spec a provided kv) d)"
proof -
  let ?d = "ctr_put kv d"
  let ?temp = "ctr_output a (fst kv) (be_val (snd kv)) (ctr_seed_len a)"
  let ?v = "be_bytes 16 (be_val (snd kv) + blocks_for 16 (ctr_seed_len a))"
  note put = ctr_put_simps [OF assms(1,2)]
  have key: "take (ctr_key_len a) (ctr_key ?d) = fst kv" "ctr_v ?d = snd kv"
    using put(2) by (auto simp: ctr_kv_def prod_eq_iff)
  have lens: "length (snd kv) = 16" "length (fst kv) = ctr_key_len a" using assms(2) by (simp_all add: ctr_fits_def)
  note guards = guarded_run_guards [of "ctr_kept d" ?d, OF put(4)]
  have fill: "guarded_run id (ctr_kept d) (act_local (snd kv, zeros (ctr_seed_len a))
      (fill_blocks 16 (ctr_block (aes_key a (fst kv))) 0)) ?d 0 (?v, ?temp) ?d"
    using ctr_fill [OF lens, of "zeros (ctr_seed_len a)"] put(4) by (intro guarded_run_local) simp_all
  let ?f = "\<lambda>(v, temp) d. let d = d\<lparr>ctr_v := v\<rparr>; temp = map2 (XOR) temp provided
       in d\<lparr>ctr_key := copy_at (ctr_key d) 0 (take (ctr_key_len a) temp),
            ctr_v := take 16 (drop (ctr_key_len a) temp)\<rparr>"
  have upd: "?f (?v, ?temp) ?d = ctr_put (ctr_update_spec a provided kv) d"
    using ctr_put_simps(3) [OF assms(1,2) ctr_update_fits [OF assms(2,3)]] lens assms(3)
    by (simp add: ctr_put_def ctr_update_spec_def Let_def ctr_lengths)
  have "guarded_run id (ctr_kept d) (ctr_update a provided) ?d (1 + (1 + (0 + 0))) () (?f (?v, ?temp) ?d)"
    unfolding ctr_update_def gate_guards OUTLEN_16
    by (rule guarded_run_then [OF guards], rule guarded_run_get, simp only: key from_key_guards [OF lens(2)],
        rule guarded_run_bind [OF guards], rule guarded_run_bind [OF fill])
      (simp only: prod.case, rule guarded_run_update)
  then show ?thesis unfolding upd by (simp add: numeral_2_eq_2)
qed

lemma generate_blocks_run:
  assumes "ctr_wf d" "ctr_fits a (k, v)"
  shows "guarded_run id (\<lambda>(d', out'). ctr_kept d d' \<and> length out' = length out) (generate_blocks a) (ctr_put (k, v) d, out) 2 ()
    (ctr_put (k, be_bytes 16 (be_val v + blocks_for 16 (length out))) d, ctr_output a k (be_val v) (length out))"
proof -
  let ?d = "ctr_put (k, v) d" and ?P = "\<lambda>(d', out'). ctr_kept d d' \<and> length out' = length out"
  let ?v = "be_bytes 16 (be_val v + blocks_for 16 (length out))" and ?out = "ctr_output a k (be_val v) (length out)"
  note put = ctr_put_simps [OF assms]
  have key: "take (ctr_key_len a) (ctr_key ?d) = k" "ctr_v ?d = v" using put(2) by (auto simp: ctr_kv_def)
  have lens: "length v = 16" "length k = ctr_key_len a" using assms(2) by (simp_all add: ctr_fits_def)
  have P: "?P (?d, out)" using put(4) by simp
  note guards = guarded_run_guards [of ?P "(?d, out)", OF P]
  have "guarded_run id ?P (act_zoom (\<lambda>(d, out). (ctr_v d, out)) (\<lambda>(v, out) (d, _). (d\<lparr>ctr_v := v\<rparr>, out))
       (fill_blocks 16 (ctr_block (aes_key a k)) 0)) (?d, out) 0 () (?d\<lparr>ctr_v := ?v\<rparr>, ?out)"
    using guarded_run_now [OF ctr_fill [OF lens, of out]]
    by (intro guarded_run_pure) (simp add: act_zoom_def key)
  moreover have "?d\<lparr>ctr_v := ?v\<rparr> = ctr_put (k, ?v) d" by (simp add: ctr_put_def)
  ultimately have fill: "guarded_run id ?P (act_zoom (\<lambda>(d, out). (ctr_v d, out)) (\<lambda>(v, out) (d, _). (d\<lparr>ctr_v := v\<rparr>, out))
       (fill_blocks 16 (ctr_block (aes_key a k)) 0)) (?d, out) 0 () (ctr_put (k, ?v) d, ?out)" by simp
  have "guarded_run id ?P (generate_blocks a) (?d, out) (1 + (1 + 0)) () (ctr_put (k, ?v) d, ?out)"
    unfolding generate_blocks_def gate_guards OUTLEN_16
    by (rule guarded_run_then [OF guards], rule guarded_run_get, simp only: prod.case key from_key_guards [OF lens(2)])
      (rule guarded_run_bind [OF guards], rule fill)
  then show ?thesis by (simp add: numeral_2_eq_2)
qed


subsection \<open>The operations\<close>

text \<open>The refusals of the two variants, in the order of the code.\<close>

definition ctr_seed_refusal :: "aes \<Rightarrow> usize \<Rightarrow> usize \<Rightarrow> usize \<Rightarrow> error option" where
  "ctr_seed_refusal a e n p =
     (if e + n + p > MAX_DF_INPUT then Some InvalidInput
      else if e < ctr_key_len a then Some EntropyInputTooShort
      else if n < ctr_key_len a div 2 then Some NonceTooShort
      else None)"

definition ctr_reseed_refusal :: "aes \<Rightarrow> drbg_slot \<Rightarrow> bytes \<Rightarrow> bytes \<Rightarrow> drbg_error option" where
  "ctr_reseed_refusal a d e ai =
     (if \<not> instantiated d then Some Uninstantiated
      else if length e + length ai > MAX_DF_INPUT then Some InputTooLong
      else if length e < ctr_key_len a then Some DrbgEntropyInputTooShort
      else None)"

definition ctr_reseed_refusal_no_df :: "aes \<Rightarrow> drbg_slot \<Rightarrow> bytes \<Rightarrow> drbg_error option" where
  "ctr_reseed_refusal_no_df a d seed =
     (if \<not> instantiated d then Some Uninstantiated
      else if length seed \<noteq> ctr_seed_len a then Some InvalidSeedLength
      else None)"

definition ctr_generate_refusal_no_df :: "aes \<Rightarrow> drbg_slot \<Rightarrow> bytes option \<Rightarrow> usize \<Rightarrow> drbg_error option" where
  "ctr_generate_refusal_no_df a d ai n =
     (if \<not> instantiated d then Some Uninstantiated
      else if n > MAX_BITS_PER_REQ then Some RequestTooLong
      else if reseed_counter d > RESEED_INTERVAL then Some ReseedRequired
      else case ai of None \<Rightarrow> None
        | Some input \<Rightarrow> if length input \<noteq> ctr_seed_len a then Some InvalidSeedLength else None)"

lemmas ctr_refusal_defs = ctr_seed_refusal_def ctr_reseed_refusal_def ctr_reseed_refusal_no_df_def
  ctr_generate_refusal_no_df_def generate_refusal_def

lemmas ctr_limits = MAX_DF_INPUT_def MAX_BITS_PER_REQ_def ctr_min_entropy_len_def ctr_min_nonce_len_def

lemma ctr_refused:
  "length seed \<noteq> ctr_seed_len a \<Longrightarrow>
     ctr_instantiate_no_df_internal a seed d env = (Inl InvalidInput, ctr_uninstantiate d, env)"
  "ctr_seed_refusal a (length e) (length n) (length p) = Some err \<Longrightarrow>
     ctr_instantiate_df_internal a e n p d env = (Inl err, ctr_uninstantiate d, env)"
  "ctr_reseed_refusal_no_df a (drbg_slot.truncate d) seed = Some derr \<Longrightarrow>
     ctr_reseed_no_df a seed d env = (Inl derr, d, env)"
  "ctr_reseed_refusal a (drbg_slot.truncate d) e ai = Some derr \<Longrightarrow>
     ctr_reseed_df a e ai d env = (Inl derr, d, env)"
  by (simp_all add: ctr_instantiate_no_df_internal_def ctr_instantiate_df_internal_def ctr_reseed_no_df_def
      ctr_reseed_df_def ctr_refusal_defs checked_sum_eq act_bind_def act_simps ctr_limits drbg_slot.truncate_def
      add.assoc split: if_splits)

lemma ctr_generate_refused:
  "ctr_generate_refusal_no_df a (drbg_slot.truncate d) addl (length out) = Some err \<Longrightarrow>
     ctr_generate_no_df a addl (d, out) env = (Inl err, (d, zeros (length out)), env)"
  "generate_refusal MAX_DF_INPUT 0 (drbg_slot.truncate d) addl (length out) = Some err \<Longrightarrow>
     ctr_generate_df a addl (d, out) env = (Inl err, (d, zeros (length out)), env)"
  by (cases addl;
      auto simp: ctr_generate_no_df_def ctr_generate_df_def wiping_def ctr_generate_no_df_unwiped_def
        ctr_generate_df_unwiped_def ctr_refusal_defs act_bind_def act_simps drbg_slot.truncate_def ctr_limits
        split: if_splits)+

lemma derive_seed_run:
  assumes "length input \<le> MAX_DF_INPUT" "P d"
  shows "guarded_run DrbgModule P (derive_seed a input) d 3 (df_spec a input (ctr_seed_len a)) d"
  using df_run [OF assms(1), of a "zeros (ctr_seed_len a)"] assms(2)
  unfolding derive_seed_def by (intro guarded_run_local) simp_all

text \<open>Seeding an instance whose working state has been cleared.\<close>

definition ctr_seeded :: "aes \<Rightarrow> bytes \<Rightarrow> ctr_drbg \<Rightarrow> ctr_drbg" where
  "ctr_seeded a seed d =
     (ctr_put (ctr_seed_spec a seed) (ctr_uninstantiate d))\<lparr>reseed_counter := 1, instantiated := True\<rparr>"

lemma ctr_wf_uninstantiate [simp]: "ctr_wf d \<Longrightarrow> ctr_wf (ctr_uninstantiate d)"
  "drbg_slot.truncate (ctr_uninstantiate d) = \<lparr>reseed_counter = 0, instantiated = False\<rparr>"
  by (simp_all add: ctr_wf_def ctr_uninstantiate_def drbg_slot.truncate_def)

definition ctr_blank :: "ctr_drbg \<Rightarrow> bool" where
  "ctr_blank d \<longleftrightarrow> ctr_wf d \<and> \<not> instantiated d \<and> reseed_counter d = 0"

lemma ctr_seed_run:
  assumes "ctr_wf d" "length seed = ctr_seed_len a"
  shows "guarded_run id ctr_blank (act_bind (act_update (ctr_zero_state a)) (\<lambda>_.
       act_bind (ctr_update a seed) (\<lambda>_. act_update (\<lambda>d. d\<lparr>reseed_counter := 1, instantiated := True\<rparr>))))
    (ctr_uninstantiate d) 2 () (ctr_seeded a seed d)"
proof -
  let ?d = "ctr_uninstantiate d" and ?kv = "(zeros (ctr_key_len a), zeros 16)"
  have fits: "ctr_fits a ?kv" by (simp add: ctr_fits_def)
  have zero: "ctr_zero_state a ?d = ctr_put ?kv ?d" by (simp add: ctr_zero_state_def ctr_put_def)
  have "guarded_run id ctr_blank (ctr_update a seed) (ctr_put ?kv ?d) 2 () (ctr_put (ctr_seed_spec a seed) ?d)"
    using ctr_update_run [OF ctr_wf_uninstantiate(1) [OF assms(1)] fits assms(2)] unfolding ctr_seed_spec_def
    by (rule guarded_run_weaken) (auto simp: ctr_kept_def ctr_blank_def drbg_slot.truncate_def ctr_uninstantiate_def)
  note zeroed = guarded_run_update [of id ctr_blank "ctr_zero_state a" ?d, unfolded zero]
  have "guarded_run id ctr_blank (act_bind (act_update (ctr_zero_state a)) (\<lambda>_.
       act_bind (ctr_update a seed) (\<lambda>_. act_update (\<lambda>d. d\<lparr>reseed_counter := 1, instantiated := True\<rparr>))))
    ?d (0 + (2 + 0)) () (ctr_seeded a seed d)"
    unfolding ctr_seeded_def
    by (rule guarded_run_then [OF zeroed guarded_run_then [OF \<open>guarded_run id ctr_blank (ctr_update a seed) _ _ _ _\<close>
        guarded_run_update]])
  then show ?thesis by (simp add: numeral_2_eq_2)
qed

lemma ctr_instantiate_no_df_run:
  assumes "ctr_wf d" "length seed = ctr_seed_len a"
  shows "guarded_run id ctr_blank (ctr_instantiate_no_df_internal a seed) d 2 () (ctr_seeded a seed d)"
proof -
  have "guarded_run id ctr_blank (ctr_instantiate_no_df_internal a seed) d (0 + 2) () (ctr_seeded a seed d)"
    unfolding ctr_instantiate_no_df_internal_def using assms(2)
    by (intro guarded_run_then [OF guarded_run_update]) (simp add: ctr_seed_run [OF assms])
  then show ?thesis by (simp add: numeral_2_eq_2)
qed

lemma ctr_instantiate_df_run:
  assumes "ctr_wf d" "ctr_seed_refusal a (length e) (length n) (length p) = None"
  shows "guarded_run id ctr_blank (ctr_instantiate_df_internal a e n p) d 5 ()
    (ctr_seeded a (df_spec a (e @ n @ p) (ctr_seed_len a)) d)"
proof -
  let ?seed = "df_spec a (e @ n @ p) (ctr_seed_len a)" and ?d = "ctr_uninstantiate d"
  have fits: "\<not> length e + length n + length p > MAX_DF_INPUT" "\<not> length e < ctr_min_entropy_len a"
    "\<not> length n < ctr_min_nonce_len a"
    using assms(2) by (auto simp: ctr_seed_refusal_def ctr_limits split: if_splits)
  have material: "take (length e + length n + length p)
      (copy_at (copy_at (copy_at (zeros MAX_DF_INPUT) 0 e) (length e) n) (length e + length n) p) = e @ n @ p"
    using fits(1) by (intro take_copy_at_3) simp
  have len: "checked_sum [length e, length n, length p] = Some (length e + length n + length p)"
    using fits(1) by (simp add: checked_sum_eq MAX_DF_INPUT_def)
  have blank: "ctr_blank ?d"
    using assms(1) by (auto simp: ctr_blank_def ctr_wf_uninstantiate(1)) (simp_all add: ctr_uninstantiate_def)
  have "guarded_run DrbgModule ctr_blank (derive_seed a (e @ n @ p)) ?d 3 ?seed ?d"
    using fits(1) blank by (intro derive_seed_run) simp_all
  from guarded_run_map_err [OF this, of df_error]
  have derive: "guarded_run id ctr_blank (act_map_err df_error (derive_seed a (e @ n @ p))) ?d 3 ?seed ?d"
    by (simp add: id_def)
  have "guarded_run id ctr_blank (ctr_instantiate_df_internal a e n p) d (0 + (3 + 2)) () (ctr_seeded a ?seed d)"
    unfolding ctr_instantiate_df_internal_def len option.case Let_def material
    by (rule guarded_run_then [OF guarded_run_update], simp only: fits if_False)
      (rule guarded_run_bind [OF derive], rule ctr_seed_run [OF assms(1) length_df_spec])
  then show ?thesis by simp
qed

text \<open>Reseeding and generating from the working state.\<close>

lemma ctr_reupdate_run:
  assumes "ctr_wf d" "length seed = ctr_seed_len a"
  shows "guarded_run DrbgModule (ctr_kept d) (act_map_err DrbgModule (ctr_update a seed)) d 2 ()
    (ctr_put (ctr_update_spec a seed (ctr_kv a d)) d)"
  using guarded_run_map_err [OF ctr_update_run [OF assms(1) ctr_kv_fits [OF assms(1)] assms(2)], of DrbgModule]
  by (simp add: ctr_put_self [OF assms(1)])

lemma ctr_reseed_no_df_run:
  assumes "ctr_wf d" "ctr_reseed_refusal_no_df a (drbg_slot.truncate d) seed = None"
  shows "guarded_run DrbgModule (ctr_kept d) (ctr_reseed_no_df a seed) d 2 ()
    ((ctr_put (ctr_update_spec a seed (ctr_kv a d)) d)\<lparr>reseed_counter := 1\<rparr>)"
proof -
  have ok: "instantiated d" "length seed = ctr_seed_len a"
    using assms(2) by (auto simp: ctr_reseed_refusal_no_df_def drbg_slot.truncate_def split: if_splits)
  have "guarded_run DrbgModule (ctr_kept d) (ctr_reseed_no_df a seed) d (2 + 0) ()
    ((ctr_put (ctr_update_spec a seed (ctr_kv a d)) d)\<lparr>reseed_counter := 1\<rparr>)"
    unfolding ctr_reseed_no_df_def
    by (rule guarded_run_get, simp only: ok if_False simp_thms)
      (rule guarded_run_then [OF ctr_reupdate_run [OF assms(1) ok(2)] guarded_run_update])
  then show ?thesis by (simp add: numeral_2_eq_2)
qed


lemma ctr_reseed_df_run:
  assumes "ctr_wf d" "ctr_reseed_refusal a (drbg_slot.truncate d) e ai = None"
  shows "guarded_run DrbgModule (ctr_kept d) (ctr_reseed_df a e ai) d 5 ()
    ((ctr_put (ctr_update_spec a (df_spec a (e @ ai) (ctr_seed_len a)) (ctr_kv a d)) d)\<lparr>reseed_counter := 1\<rparr>)"
proof -
  have ok: "instantiated d" "\<not> length e + length ai > MAX_DF_INPUT" "\<not> length e < ctr_min_entropy_len a"
    using assms(2) by (auto simp: ctr_reseed_refusal_def drbg_slot.truncate_def ctr_min_entropy_len_def split: if_splits)
  have material: "take (length e + length ai) (copy_at (copy_at (zeros MAX_DF_INPUT) 0 e) (length e) ai) = e @ ai"
    using ok(2) by (intro take_copy_at_2) simp
  have len: "checked_sum [length e, length ai] = Some (length e + length ai)"
    using ok(2) by (simp add: checked_sum_eq MAX_DF_INPUT_def)
  have derive: "guarded_run DrbgModule (ctr_kept d) (derive_seed a (e @ ai)) d 3 (df_spec a (e @ ai) (ctr_seed_len a)) d"
    using ok(2) assms(1) by (intro derive_seed_run) (simp_all add: ctr_kept_def)
  have "guarded_run DrbgModule (ctr_kept d) (ctr_reseed_df a e ai) d (3 + (2 + 0)) ()
    ((ctr_put (ctr_update_spec a (df_spec a (e @ ai) (ctr_seed_len a)) (ctr_kv a d)) d)\<lparr>reseed_counter := 1\<rparr>)"
    unfolding ctr_reseed_df_def
    by (rule guarded_run_get, simp only: len option.case Let_def material ok if_False simp_thms)
      (rule guarded_run_bind [OF derive],
       rule guarded_run_then [OF ctr_reupdate_run [OF assms(1) length_df_spec] guarded_run_update])
  then show ?thesis by simp
qed

text \<open>The shared end of the two generate functions, from any working state.\<close>

lemma ctr_generate_rest_run:
  assumes "ctr_wf d" "ctr_fits a (k, v)" "length addl = ctr_seed_len a"
  shows "guarded_run DrbgModule (\<lambda>(d', out'). ctr_kept d d' \<and> length out' = length out) (ctr_generate_rest a addl)
    (ctr_put (k, v) d, out) 4 ()
    ((ctr_put (ctr_update_spec a addl (k, be_bytes 16 (be_val v + blocks_for 16 (length out)))) d)
       \<lparr>reseed_counter := reseed_counter d + 1\<rparr>, ctr_output a k (be_val v) (length out))"
proof -
  let ?P = "\<lambda>(d', out'). ctr_kept d d' \<and> length out' = length out"
  let ?kv = "(k, be_bytes 16 (be_val v + blocks_for 16 (length out)))" and ?out = "ctr_output a k (be_val v) (length out)"
  have fits: "ctr_fits a ?kv" "length k = ctr_key_len a" using assms(2) by (simp_all add: ctr_fits_def)
  have update: "guarded_run DrbgModule ?P (act_fst (act_map_err DrbgModule (ctr_update a addl))) (ctr_put ?kv d, ?out) 2 ()
      (ctr_put (ctr_update_spec a addl ?kv) d, ?out)"
    using guarded_run_map_err [OF ctr_update_run [OF assms(1) fits(1) assms(3)], of DrbgModule] fits(2)
    by (intro guarded_run_fst [of _ "ctr_kept d"]) simp_all
  have count: "guarded_run DrbgModule ?P (act_fst (act_update (\<lambda>d. d\<lparr>reseed_counter := reseed_counter d + 1\<rparr>)))
      (ctr_put (ctr_update_spec a addl ?kv) d, ?out) 0 ()
      ((ctr_put (ctr_update_spec a addl ?kv) d)\<lparr>reseed_counter := reseed_counter d + 1\<rparr>, ?out)"
    by (rule guarded_run_pure) (simp add: act_fst_def act_zoom_def act_update_def)
  have blocks: "guarded_run DrbgModule ?P (act_map_err DrbgModule (generate_blocks a)) (ctr_put (k, v) d, out) 2 ()
      (ctr_put ?kv d, ?out)"
    using guarded_run_map_err [OF generate_blocks_run [OF assms(1,2), of out], of DrbgModule] by simp
  have "guarded_run DrbgModule ?P (ctr_generate_rest a addl) (ctr_put (k, v) d, out) (2 + (2 + 0)) ()
      ((ctr_put (ctr_update_spec a addl ?kv) d)\<lparr>reseed_counter := reseed_counter d + 1\<rparr>, ?out)"
    unfolding ctr_generate_rest_def by (rule guarded_run_then [OF blocks guarded_run_then [OF update count]])
  then show ?thesis by simp
qed

text \<open>The additional input as it is mixed in, and the number of loads a generate call makes.\<close>

definition ctr_generate_loads :: "nat \<Rightarrow> bytes option \<Rightarrow> nat" where
  "ctr_generate_loads k ai = (if ai = None then 0 else k) + 4"

lemma ctr_generate_common:
  assumes "ctr_wf d" "\<forall>x. ai = Some x \<longrightarrow> length x = ctr_seed_len a"
    and "guarded_run DrbgModule (\<lambda>(d', out'). ctr_kept d d' \<and> length out' = length out) mix (d, out) l
      (case ai of None \<Rightarrow> zeros (ctr_seed_len a) | Some x \<Rightarrow> x)
      (case ai of None \<Rightarrow> d | Some x \<Rightarrow> ctr_put (ctr_update_spec a x (ctr_kv a d)) d, out)"
    and "res = ctr_generate_spec a ai (length out) (ctr_kv a d)"
  shows "guarded_run DrbgModule (\<lambda>(d', out'). ctr_kept d d' \<and> length out' = length out)
    (act_bind mix (ctr_generate_rest a)) (d, out) (l + 4) ()
    ((ctr_put (snd res) d)\<lparr>reseed_counter := reseed_counter d + 1\<rparr>, fst res)"
proof -
  define addl where "addl = (case ai of None \<Rightarrow> zeros (ctr_seed_len a) | Some x \<Rightarrow> x)"
  define kv where "kv = (case ai of None \<Rightarrow> ctr_kv a d | Some x \<Rightarrow> ctr_update_spec a x (ctr_kv a d))"
  have st: "(case ai of None \<Rightarrow> d | Some x \<Rightarrow> ctr_put (ctr_update_spec a x (ctr_kv a d)) d) = ctr_put kv d"
    by (simp add: kv_def ctr_put_self [OF assms(1)] split: option.splits)
  have fits: "ctr_fits a (fst kv, snd kv)" "length addl = ctr_seed_len a"
    using assms(2) ctr_kv_fits [OF assms(1), of a] ctr_update_fits [OF ctr_kv_fits [OF assms(1), of a]]
    by (auto simp: kv_def addl_def split: option.splits)
  have res: "res = (ctr_output a (fst kv) (be_val (snd kv)) (length out),
      ctr_update_spec a addl (fst kv, be_bytes 16 (be_val (snd kv) + blocks_for 16 (length out))))"
    by (simp add: assms(4) ctr_generate_spec_def kv_def addl_def Let_def case_prod_unfold split: option.splits)
  from guarded_run_bind [OF assms(3) [unfolded st addl_def [symmetric]], of "ctr_generate_rest a" 4]
    ctr_generate_rest_run [OF assms(1) fits, of out]
  show ?thesis by (simp add: res)
qed

lemma mix_update_run:
  assumes "ctr_wf d" "length x = ctr_seed_len a"
  shows "guarded_run DrbgModule (\<lambda>(d', out'). ctr_kept d d' \<and> length out' = length out)
    (act_bind (act_fst (act_map_err DrbgModule (ctr_update a x))) (\<lambda>_. act_ok x)) (d, out) 2 x
    (ctr_put (ctr_update_spec a x (ctr_kv a d)) d, out)"
proof -
  let ?P = "\<lambda>(d', out'). ctr_kept d d' \<and> length out' = length out"
  have "guarded_run DrbgModule ?P (act_fst (act_map_err DrbgModule (ctr_update a x))) (d, out) 2 ()
      (ctr_put (ctr_update_spec a x (ctr_kv a d)) d, out)"
    using ctr_reupdate_run [OF assms] by (intro guarded_run_fst [of _ "ctr_kept d"]) simp_all
  from guarded_run_then [OF this guarded_run_ok] show ?thesis by simp
qed

lemma ctr_generate_no_df_run:
  assumes "ctr_wf d" "ctr_generate_refusal_no_df a (drbg_slot.truncate d) ai (length out) = None"
    and "res = ctr_generate_spec a ai (length out) (ctr_kv a d)"
  shows "guarded_run DrbgModule (\<lambda>(d', out'). ctr_kept d d' \<and> out' = zeros (length out))
    (ctr_generate_no_df a ai) (d, out) (ctr_generate_loads 2 ai) ()
    ((ctr_put (snd res) d)\<lparr>reseed_counter := reseed_counter d + 1\<rparr>, fst res)"
proof -
  let ?P = "\<lambda>(d', out'). ctr_kept d d' \<and> length out' = length out"
  have ok: "instantiated d" "\<not> length out > 2 ^ 16" "\<not> reseed_counter d > RESEED_INTERVAL"
    and ai: "\<forall>x. ai = Some x \<longrightarrow> length x = ctr_seed_len a"
    using assms(2) by (auto simp: ctr_generate_refusal_no_df_def drbg_slot.truncate_def MAX_BITS_PER_REQ_def split: if_splits)
  have "guarded_run DrbgModule ?P (case ai of
           None \<Rightarrow> act_ok (zeros (ctr_seed_len a))
         | Some ai \<Rightarrow>
             if length ai \<noteq> ctr_seed_len a then act_fail InvalidSeedLength
             else act_bind (act_fst (act_map_err DrbgModule (ctr_update a ai))) (\<lambda>_. act_ok ai)) (d, out)
      (if ai = None then 0 else 2) (case ai of None \<Rightarrow> zeros (ctr_seed_len a) | Some x \<Rightarrow> x)
      (case ai of None \<Rightarrow> d | Some x \<Rightarrow> ctr_put (ctr_update_spec a x (ctr_kv a d)) d, out)"
    using ai mix_update_run [OF assms(1), of _ a out] by (cases ai) (simp_all add: guarded_run_ok)
  from ctr_generate_common [OF assms(1) ai this assms(3)]
  have "guarded_run DrbgModule ?P (ctr_generate_no_df_unwiped a ai) (d, out) (ctr_generate_loads 2 ai) ()
      ((ctr_put (snd res) d)\<lparr>reseed_counter := reseed_counter d + 1\<rparr>, fst res)"
    unfolding ctr_generate_no_df_unwiped_def ctr_generate_loads_def
    by (intro guarded_run_get) (simp only: prod.case ok if_False simp_thms)
  then show ?thesis
    unfolding ctr_generate_no_df_def by (rule guarded_run_weaken [OF guarded_run_wiping]) auto
qed

lemma ctr_generate_df_run:
  assumes "ctr_wf d" "generate_refusal MAX_DF_INPUT 0 (drbg_slot.truncate d) ai (length out) = None"
    and "res = ctr_generate_spec a (map_option (\<lambda>x. df_spec a x (ctr_seed_len a)) ai) (length out) (ctr_kv a d)"
  shows "guarded_run DrbgModule (\<lambda>(d', out'). ctr_kept d d' \<and> out' = zeros (length out))
    (ctr_generate_df a ai) (d, out) (ctr_generate_loads 5 ai) ()
    ((ctr_put (snd res) d)\<lparr>reseed_counter := reseed_counter d + 1\<rparr>, fst res)"
proof -
  let ?P = "\<lambda>(d', out'). ctr_kept d d' \<and> length out' = length out"
  let ?ai = "map_option (\<lambda>x. df_spec a x (ctr_seed_len a)) ai"
  have ok: "instantiated d" "\<not> length out > 2 ^ 16" "\<not> reseed_counter d > RESEED_INTERVAL"
    and ai: "\<forall>x. ai = Some x \<longrightarrow> length x \<le> MAX_DF_INPUT"
    using assms(2) by (auto simp: generate_refusal_def drbg_slot.truncate_def MAX_BITS_PER_REQ_def split: if_splits)
  have derived: "guarded_run DrbgModule ?P (act_bind (derive_seed a x) (\<lambda>addl.
        act_bind (act_fst (act_map_err DrbgModule (ctr_update a addl))) (\<lambda>_. act_ok addl))) (d, out) (3 + 2)
      (df_spec a x (ctr_seed_len a)) (ctr_put (ctr_update_spec a (df_spec a x (ctr_seed_len a)) (ctr_kv a d)) d, out)"
    if "length x \<le> MAX_DF_INPUT" for x
    by (rule guarded_run_bind [OF derive_seed_run [OF that]])
      (use assms(1) in \<open>simp add: ctr_kept_def\<close>, rule mix_update_run [OF assms(1) length_df_spec])
  have "guarded_run DrbgModule ?P (case ai of
           None \<Rightarrow> act_ok (zeros (ctr_seed_len a))
         | Some ai \<Rightarrow>
             if length ai > MAX_DF_INPUT then act_fail InputTooLong
             else act_bind (derive_seed a ai) (\<lambda>addl.
               act_bind (act_fst (act_map_err DrbgModule (ctr_update a addl))) (\<lambda>_. act_ok addl))) (d, out)
      (if ai = None then 0 else 5) (case ?ai of None \<Rightarrow> zeros (ctr_seed_len a) | Some x \<Rightarrow> x)
      (case ?ai of None \<Rightarrow> d | Some x \<Rightarrow> ctr_put (ctr_update_spec a x (ctr_kv a d)) d, out)"
    using ai derived by (cases ai) (simp_all add: guarded_run_ok)
  moreover have "\<forall>x. ?ai = Some x \<longrightarrow> length x = ctr_seed_len a" by (auto simp: length_df_spec)
  ultimately have "guarded_run DrbgModule ?P (act_bind (case ai of
           None \<Rightarrow> act_ok (zeros (ctr_seed_len a))
         | Some ai \<Rightarrow>
             if length ai > MAX_DF_INPUT then act_fail InputTooLong
             else act_bind (derive_seed a ai) (\<lambda>addl.
               act_bind (act_fst (act_map_err DrbgModule (ctr_update a addl))) (\<lambda>_. act_ok addl)))
      (ctr_generate_rest a)) (d, out) ((if ai = None then 0 else 5) + 4) ()
      ((ctr_put (snd res) d)\<lparr>reseed_counter := reseed_counter d + 1\<rparr>, fst res)"
    by (intro ctr_generate_common [OF assms(1) _ _ assms(3)])
  then
  have "guarded_run DrbgModule ?P (ctr_generate_df_unwiped a ai) (d, out) (ctr_generate_loads 5 ai) ()
      ((ctr_put (snd res) d)\<lparr>reseed_counter := reseed_counter d + 1\<rparr>, fst res)"
    unfolding ctr_generate_df_unwiped_def ctr_generate_loads_def
    by (intro guarded_run_get) (simp only: prod.case ok if_False simp_thms)
  then show ?thesis
    unfolding ctr_generate_df_def by (rule guarded_run_weaken [OF guarded_run_wiping]) auto
qed

subsection \<open>The contract of the mechanism\<close>

lemma ctr_kept_eq: "ctr_kept d = (\<lambda>d'. ctr_wf d' \<and> drbg_slot.truncate d' = drbg_slot.truncate d)"
  by (simp add: ctr_kept_def fun_eq_iff)

lemma ctr_generate_fits:
  assumes "ctr_fits a kv" "\<forall>x. ai = Some x \<longrightarrow> length x = ctr_seed_len a"
  shows "ctr_fits a (snd (ctr_generate_spec a ai n kv))" "length (fst (ctr_generate_spec a ai n kv)) = n"
proof -
  define addl where "addl = (case ai of None \<Rightarrow> zeros (ctr_seed_len a) | Some x \<Rightarrow> x)"
  define kv' where "kv' = (case ai of None \<Rightarrow> kv | Some x \<Rightarrow> ctr_update_spec a x kv)"
  have l: "ctr_fits a kv'" "length addl = ctr_seed_len a"
    using assms ctr_update_fits by (auto simp: kv'_def addl_def split: option.splits)
  have "ctr_generate_spec a ai n kv = (ctr_output a (fst kv') (be_val (snd kv')) n,
      ctr_update_spec a addl (fst kv', be_bytes 16 (be_val (snd kv') + blocks_for 16 n)))"
    by (simp add: ctr_generate_spec_def kv'_def addl_def Let_def case_prod_unfold split: option.splits)
  then show "ctr_fits a (snd (ctr_generate_spec a ai n kv))" "length (fst (ctr_generate_spec a ai n kv)) = n"
    using l ctr_update_fits [of a "(fst kv', be_bytes 16 (be_val (snd kv') + blocks_for 16 n))" addl]
    by (simp_all add: ctr_fits_def)
qed

text \<open>What a complete run gives the contract, for either variant.\<close>

lemma ctr_reseed_contract:
  assumes "ctr_wf d" "ctr_fits a kv" "0 < k"
    and "guarded_run DrbgModule (ctr_kept d) m d k () ((ctr_put kv d)\<lparr>reseed_counter := 1\<rparr>)"
  shows "\<exists>k d'. 0 < k \<and> ctr_wf d' \<and> drbg_slot.truncate d' = (drbg_slot.truncate d)\<lparr>reseed_counter := 1\<rparr> \<and>
    guarded_run DrbgModule (\<lambda>d''. ctr_wf d'' \<and> drbg_slot.truncate d'' = drbg_slot.truncate d) m d k () d'"
  using assms ctr_put_simps(1) [OF assms(1,2)] unfolding ctr_kept_eq
  by (intro exI [of _ k] exI [of _ "(ctr_put kv d)\<lparr>reseed_counter := 1\<rparr>"]) simp

lemma ctr_generate_contract:
  assumes "ctr_wf d" "ctr_fits a (snd res)" "length (fst res) = length out"
    and "guarded_run DrbgModule (\<lambda>(d', out'). ctr_kept d d' \<and> out' = zeros (length out)) m (d, out) (ctr_generate_loads k ai) ()
      ((ctr_put (snd res) d)\<lparr>reseed_counter := reseed_counter d + 1\<rparr>, fst res)"
  shows "\<exists>k d' out'. 0 < k \<and> ctr_wf d' \<and>
    drbg_slot.truncate d' = (drbg_slot.truncate d)\<lparr>reseed_counter := reseed_counter (drbg_slot.truncate d) + 1\<rparr> \<and>
    length out' = length out \<and>
    guarded_run DrbgModule (\<lambda>(d'', o'). ctr_wf d'' \<and> drbg_slot.truncate d'' = drbg_slot.truncate d \<and>
      o' = zeros (length out)) m (d, out) k () (d', out')"
  using assms(3,4) ctr_put_simps(1) [OF assms(1,2)] unfolding ctr_kept_def
  by (intro exI [of _ "ctr_generate_loads k ai"] exI [of _ "(ctr_put (snd res) d)\<lparr>reseed_counter := reseed_counter d + 1\<rparr>"]
      exI [of _ "fst res"] conjI)
    (auto simp: ctr_generate_loads_def drbg_slot.truncate_def conj_assoc)

interpretation ctr_df: drbg_mechanism ctr_wf drbg_slot.truncate "ctr_reseed_refusal a" "generate_refusal MAX_DF_INPUT 0"
  "ctr_reseed_df a" "ctr_generate_df a" for a
proof
  fix d :: ctr_drbg and e ai :: bytes
  assume *: "ctr_reseed_refusal a (drbg_slot.truncate d) e ai = None" "ctr_wf d"
  show "\<exists>k d'. 0 < k \<and> ctr_wf d' \<and> drbg_slot.truncate d' = (drbg_slot.truncate d)\<lparr>reseed_counter := 1\<rparr> \<and>
      guarded_run DrbgModule (\<lambda>d''. ctr_wf d'' \<and> drbg_slot.truncate d'' = drbg_slot.truncate d) (ctr_reseed_df a e ai) d k () d'"
    by (rule ctr_reseed_contract [where a = a, OF *(2) _ _ ctr_reseed_df_run [OF *(2,1)]])
      (simp_all add: *(2) ctr_update_fits length_df_spec)
next
  fix d :: ctr_drbg and addl :: "bytes option" and out :: bytes
  assume *: "generate_refusal MAX_DF_INPUT 0 (drbg_slot.truncate d) addl (length out) = None" "ctr_wf d"
  show "\<exists>k d' out'. 0 < k \<and> ctr_wf d' \<and>
      drbg_slot.truncate d' = (drbg_slot.truncate d)\<lparr>reseed_counter := reseed_counter (drbg_slot.truncate d) + 1\<rparr> \<and>
      length out' = length out \<and>
      guarded_run DrbgModule (\<lambda>(d'', o'). ctr_wf d'' \<and> drbg_slot.truncate d'' = drbg_slot.truncate d \<and>
        o' = zeros (length out)) (ctr_generate_df a addl) (d, out) k () (d', out')"
    by (rule ctr_generate_contract [where a = a, OF *(2) _ _ ctr_generate_df_run [OF *(2,1) refl]])
      (auto simp: *(2) length_df_spec intro!: ctr_generate_fits)
qed (auto simp: ctr_refusal_defs ctr_refused ctr_generate_refused split: if_splits option.splits)

interpretation ctr_no_df: drbg_mechanism ctr_wf drbg_slot.truncate
  "\<lambda>s seed _. ctr_reseed_refusal_no_df a s seed" "ctr_generate_refusal_no_df a"
  "\<lambda>seed _. ctr_reseed_no_df a seed" "ctr_generate_no_df a" for a
proof
  fix d :: ctr_drbg and e ai :: bytes
  assume *: "ctr_reseed_refusal_no_df a (drbg_slot.truncate d) e = None" "ctr_wf d"
  then have "length e = ctr_seed_len a" by (auto simp: ctr_reseed_refusal_no_df_def split: if_splits)
  then show "\<exists>k d'. 0 < k \<and> ctr_wf d' \<and> drbg_slot.truncate d' = (drbg_slot.truncate d)\<lparr>reseed_counter := 1\<rparr> \<and>
      guarded_run DrbgModule (\<lambda>d''. ctr_wf d'' \<and> drbg_slot.truncate d'' = drbg_slot.truncate d) (ctr_reseed_no_df a e) d k () d'"
    by (intro ctr_reseed_contract [where a = a, OF *(2) _ _ ctr_reseed_no_df_run [OF *(2,1)]]) (simp_all add: *(2) ctr_update_fits)
next
  fix d :: ctr_drbg and addl :: "bytes option" and out :: bytes
  assume *: "ctr_generate_refusal_no_df a (drbg_slot.truncate d) addl (length out) = None" "ctr_wf d"
  then have "\<forall>x. addl = Some x \<longrightarrow> length x = ctr_seed_len a"
    by (auto simp: ctr_generate_refusal_no_df_def split: if_splits)
  then show "\<exists>k d' out'. 0 < k \<and> ctr_wf d' \<and>
      drbg_slot.truncate d' = (drbg_slot.truncate d)\<lparr>reseed_counter := reseed_counter (drbg_slot.truncate d) + 1\<rparr> \<and>
      length out' = length out \<and>
      guarded_run DrbgModule (\<lambda>(d'', o'). ctr_wf d'' \<and> drbg_slot.truncate d'' = drbg_slot.truncate d \<and>
        o' = zeros (length out)) (ctr_generate_no_df a addl) (d, out) k () (d', out')"
    by (intro ctr_generate_contract [where a = a, OF *(2) _ _ ctr_generate_no_df_run [OF *(2,1) refl]])
      (auto simp: *(2) intro!: ctr_generate_fits)
qed (auto simp: ctr_refusal_defs ctr_refused ctr_generate_refused split: if_splits option.splits)

subsection \<open>The property\<close>

text \<open>The abstract state of an instance: none, or \<open>Key\<close>, \<open>V\<close> and the counter.\<close>

definition ctr_view :: "aes \<Rightarrow> ctr_drbg \<Rightarrow> ((bytes \<times> bytes) \<times> nat) option" where
  "ctr_view a d = (if instantiated d then Some (ctr_kv a d, unat (reseed_counter d)) else None)"

lemma ctr_seeded_view:
  assumes "ctr_wf d" "length seed = ctr_seed_len a"
  shows "ctr_wf (ctr_seeded a seed d)" "ctr_view a (ctr_seeded a seed d) = Some (ctr_seed_spec a seed, 1)"
proof -
  have "ctr_fits a (ctr_seed_spec a seed)"
    unfolding ctr_seed_spec_def using assms(2) by (intro ctr_update_fits) (simp_all add: ctr_fits_def)
  note put = ctr_put_simps(1,2) [OF ctr_wf_uninstantiate(1) [OF assms(1)] this]
  then show "ctr_wf (ctr_seeded a seed d)" "ctr_view a (ctr_seeded a seed d) = Some (ctr_seed_spec a seed, 1)"
    by (simp_all add: ctr_seeded_def ctr_view_def)
qed

lemma ctr_reseeded_view:
  assumes "ctr_wf d" "instantiated d" "length seed = ctr_seed_len a"
  shows "ctr_view a ((ctr_put (ctr_update_spec a seed (ctr_kv a d)) d)\<lparr>reseed_counter := 1\<rparr>) =
    Some (ctr_update_spec a seed (ctr_kv a d), 1)"
  using ctr_put_simps(2) [OF assms(1) ctr_update_fits [OF ctr_kv_fits [OF assms(1)] assms(3)]] assms(2)
  by (simp add: ctr_view_def)

lemma ctr_generated_view:
  assumes "ctr_wf d" "instantiated d" "reseed_counter d \<le> RESEED_INTERVAL" "ctr_fits a kv"
  shows "ctr_view a ((ctr_put kv d)\<lparr>reseed_counter := reseed_counter d + 1\<rparr>) =
    Some (kv, unat (reseed_counter d) + 1)"
proof -
  from assms(3) have "unat (reseed_counter d) \<le> unat ((2 :: u64) ^ 48)"
    by (simp only: RESEED_INTERVAL_simp word_le_nat_alt)
  then have "unat (reseed_counter d + 1) = unat (reseed_counter d) + 1" by (simp add: unat_word_ariths)
  then show ?thesis using ctr_put_simps(2) [OF assms(1,4)] assms(2) by (simp add: ctr_view_def)
qed

text \<open>The calls of the two variants when every load admits them.\<close>

lemma ctr_seeding:
  assumes "\<forall>i. gate_at env i = Inr ()" "ctr_wf d"
  shows "length seed = ctr_seed_len a \<Longrightarrow> \<exists>d'. ctr_instantiate_no_df_internal a seed d env = (Inr (), d', env_later env 2) \<and>
      ctr_view a d' = Some (ctr_seed_spec a seed, 1)"
    and "ctr_seed_refusal a (length e) (length n) (length p) = None \<Longrightarrow>
      \<exists>d'. ctr_instantiate_df_internal a e n p d env = (Inr (), d', env_later env 5) \<and>
        ctr_view a d' = Some (ctr_seed_spec a (df_spec a (e @ n @ p) (ctr_seed_len a)), 1)"
    and "ctr_reseed_refusal_no_df a (drbg_slot.truncate d) seed = None \<Longrightarrow>
      \<exists>d'. ctr_reseed_no_df a seed d env = (Inr (), d', env_later env 2) \<and>
        ctr_view a d' = Some (ctr_update_spec a seed (ctr_kv a d), 1)"
    and "ctr_reseed_refusal a (drbg_slot.truncate d) e ai = None \<Longrightarrow>
      \<exists>d'. ctr_reseed_df a e ai d env = (Inr (), d', env_later env 5) \<and>
        ctr_view a d' = Some (ctr_update_spec a (df_spec a (e @ ai) (ctr_seed_len a)) (ctr_kv a d), 1)"
proof -
  note pass = gates_pass [OF assms(1)]
  show "\<exists>d'. ctr_instantiate_no_df_internal a seed d env = (Inr (), d', env_later env 2) \<and>
      ctr_view a d' = Some (ctr_seed_spec a seed, 1)" if "length seed = ctr_seed_len a"
    using pass [OF ctr_instantiate_no_df_run [OF assms(2) that]] ctr_seeded_view [OF assms(2) that] by simp
  show "\<exists>d'. ctr_instantiate_df_internal a e n p d env = (Inr (), d', env_later env 5) \<and>
        ctr_view a d' = Some (ctr_seed_spec a (df_spec a (e @ n @ p) (ctr_seed_len a)), 1)"
    if "ctr_seed_refusal a (length e) (length n) (length p) = None"
    using pass [OF ctr_instantiate_df_run [OF assms(2) that]] ctr_seeded_view [OF assms(2) length_df_spec] by simp
  show "\<exists>d'. ctr_reseed_no_df a seed d env = (Inr (), d', env_later env 2) \<and>
        ctr_view a d' = Some (ctr_update_spec a seed (ctr_kv a d), 1)"
    if "ctr_reseed_refusal_no_df a (drbg_slot.truncate d) seed = None"
    using pass [OF ctr_reseed_no_df_run [OF assms(2) that]] ctr_reseeded_view [OF assms(2), of seed a] that
    by (auto simp: ctr_reseed_refusal_no_df_def drbg_slot.truncate_def split: if_splits)
  show "\<exists>d'. ctr_reseed_df a e ai d env = (Inr (), d', env_later env 5) \<and>
        ctr_view a d' = Some (ctr_update_spec a (df_spec a (e @ ai) (ctr_seed_len a)) (ctr_kv a d), 1)"
    if "ctr_reseed_refusal a (drbg_slot.truncate d) e ai = None"
    using pass [OF ctr_reseed_df_run [OF assms(2) that]] ctr_reseeded_view [OF assms(2) _ length_df_spec] that
    by (auto simp: ctr_reseed_refusal_def drbg_slot.truncate_def split: if_splits)
qed

lemma ctr_generating:
  assumes "\<forall>i. gate_at env i = Inr ()" "ctr_wf d"
  shows "ctr_generate_refusal_no_df a (drbg_slot.truncate d) addl (length out) = None \<Longrightarrow>
      res = ctr_generate_spec a addl (length out) (ctr_kv a d) \<Longrightarrow>
      \<exists>d'. ctr_generate_no_df a addl (d, out) env = (Inr (), (d', fst res), env_later env (ctr_generate_loads 2 addl)) \<and>
        ctr_view a d' = Some (snd res, unat (reseed_counter d) + 1)"
    and "generate_refusal MAX_DF_INPUT 0 (drbg_slot.truncate d) addl (length out) = None \<Longrightarrow>
      res = ctr_generate_spec a (map_option (\<lambda>x. df_spec a x (ctr_seed_len a)) addl) (length out) (ctr_kv a d) \<Longrightarrow>
      \<exists>d'. ctr_generate_df a addl (d, out) env = (Inr (), (d', fst res), env_later env (ctr_generate_loads 5 addl)) \<and>
        ctr_view a d' = Some (snd res, unat (reseed_counter d) + 1)"
proof -
  note pass = gates_pass [OF assms(1)]
  {
    assume *: "ctr_generate_refusal_no_df a (drbg_slot.truncate d) addl (length out) = None"
      "res = ctr_generate_spec a addl (length out) (ctr_kv a d)"
    then have "instantiated d" "reseed_counter d \<le> RESEED_INTERVAL" "\<forall>x. addl = Some x \<longrightarrow> length x = ctr_seed_len a"
      by (auto simp: ctr_generate_refusal_no_df_def drbg_slot.truncate_def split: if_splits)
    moreover from this have "ctr_fits a (snd res)"
      unfolding *(2) by (intro ctr_generate_fits(1) ctr_kv_fits assms(2))
    ultimately show "\<exists>d'. ctr_generate_no_df a addl (d, out) env = (Inr (), (d', fst res), env_later env (ctr_generate_loads 2 addl)) \<and>
        ctr_view a d' = Some (snd res, unat (reseed_counter d) + 1)"
      using pass [OF ctr_generate_no_df_run [OF assms(2) *]] ctr_generated_view [OF assms(2), of a "snd res"] by simp
  next
    assume *: "generate_refusal MAX_DF_INPUT 0 (drbg_slot.truncate d) addl (length out) = None"
      "res = ctr_generate_spec a (map_option (\<lambda>x. df_spec a x (ctr_seed_len a)) addl) (length out) (ctr_kv a d)"
    then have "instantiated d" "reseed_counter d \<le> RESEED_INTERVAL"
      by (auto simp: generate_refusal_def drbg_slot.truncate_def split: if_splits)
    moreover have "ctr_fits a (snd res)"
      unfolding *(2) by (rule ctr_generate_fits(1) [OF ctr_kv_fits [OF assms(2)]]) (auto simp: length_df_spec)
    ultimately show "\<exists>d'. ctr_generate_df a addl (d, out) env = (Inr (), (d', fst res), env_later env (ctr_generate_loads 5 addl)) \<and>
        ctr_view a d' = Some (snd res, unat (reseed_counter d) + 1)"
      using pass [OF ctr_generate_df_run [OF assms(2) *]] ctr_generated_view [OF assms(2), of a "snd res"] by simp
  }
qed

lemma ctr_accepts:
  "ctr_seed_refusal a e n p = None \<longleftrightarrow> ctr_key_len a \<le> e \<and> ctr_key_len a div 2 \<le> n \<and> e + n + p \<le> 192"
  "ctr_reseed_refusal_no_df a (drbg_slot.truncate d) seed = None \<longleftrightarrow> instantiated d \<and> length seed = ctr_seed_len a"
  "ctr_reseed_refusal a (drbg_slot.truncate d) entropy ai = None \<longleftrightarrow>
     instantiated d \<and> ctr_key_len a \<le> length entropy \<and> length entropy + length ai \<le> 192"
  "ctr_generate_refusal_no_df a (drbg_slot.truncate d) addl l = None \<longleftrightarrow>
     instantiated d \<and> reseed_counter d \<le> 2 ^ 48 \<and> l \<le> 2 ^ 16 \<and>
     (case addl of None \<Rightarrow> True | Some x \<Rightarrow> length x = ctr_seed_len a)"
  "generate_refusal MAX_DF_INPUT 0 (drbg_slot.truncate d) addl l = None \<longleftrightarrow>
     instantiated d \<and> reseed_counter d \<le> 2 ^ 48 \<and> l \<le> 2 ^ 16 \<and>
     (case addl of None \<Rightarrow> True | Some x \<Rightarrow> length x \<le> 192)"
  by (auto simp: ctr_refusal_defs ctr_limits drbg_slot.truncate_def RESEED_INTERVAL_simp split: option.splits)

text \<open>C21: CTR_DRBG implements SP 800-90A section 10.2.1 for the three AES key sizes, with and without the
  derivation function: whenever the module admits every internal check, each call within its length
  limits succeeds, with \<open>Key\<close> and \<open>V\<close> taken from the cipher of \<open>V\<close> counted up modulo \<open>2^128\<close>, xored with
  the seed or the additional input, which \<open>Block_Cipher_df\<close> of 10.3.2 derives in the second variant, and
  with the output the cipher of the next counters; the cipher is that of FIPS 197.\<close>

theorem ctr_drbg_correct:
  assumes "\<forall>i. gate_at env i = Inr ()" "ctr_wf d"
  shows
   "(length seed = ctr_seed_len a \<longrightarrow>
      (\<exists>d'. ctr_instantiate_no_df_internal a seed d env = (Inr (), d', env_later env 2) \<and>
        ctr_view a d' = Some (ctr_seed_spec a seed, 1))) \<and>
    (ctr_key_len a \<le> length e \<and> ctr_key_len a div 2 \<le> length n \<and> length e + length n + length p \<le> 192 \<longrightarrow>
      (\<exists>d'. ctr_instantiate_df_internal a e n p d env = (Inr (), d', env_later env 5) \<and>
        ctr_view a d' = Some (ctr_seed_spec a (df_spec a (e @ n @ p) (ctr_seed_len a)), 1))) \<and>
    (instantiated d \<and> length seed = ctr_seed_len a \<longrightarrow>
      (\<exists>d'. ctr_reseed_no_df a seed d env = (Inr (), d', env_later env 2) \<and>
        ctr_view a d' = Some (ctr_update_spec a seed (ctr_kv a d), 1))) \<and>
    (instantiated d \<and> ctr_key_len a \<le> length e \<and> length e + length ai \<le> 192 \<longrightarrow>
      (\<exists>d'. ctr_reseed_df a e ai d env = (Inr (), d', env_later env 5) \<and>
        ctr_view a d' = Some (ctr_update_spec a (df_spec a (e @ ai) (ctr_seed_len a)) (ctr_kv a d), 1))) \<and>
    (instantiated d \<and> reseed_counter d \<le> 2 ^ 48 \<and> length out \<le> 2 ^ 16 \<longrightarrow>
      (case addl of None \<Rightarrow> True | Some x \<Rightarrow> length x = ctr_seed_len a) \<longrightarrow>
      (let res = ctr_generate_spec a addl (length out) (ctr_kv a d) in
       \<exists>d'. ctr_generate_no_df a addl (d, out) env = (Inr (), (d', fst res), env_later env (ctr_generate_loads 2 addl)) \<and>
         ctr_view a d' = Some (snd res, unat (reseed_counter d) + 1))) \<and>
    (instantiated d \<and> reseed_counter d \<le> 2 ^ 48 \<and> length out \<le> 2 ^ 16 \<longrightarrow>
      (case addl of None \<Rightarrow> True | Some x \<Rightarrow> length x \<le> 192) \<longrightarrow>
      (let res = ctr_generate_spec a (map_option (\<lambda>x. df_spec a x (ctr_seed_len a)) addl) (length out) (ctr_kv a d) in
       \<exists>d'. ctr_generate_df a addl (d, out) env = (Inr (), (d', fst res), env_later env (ctr_generate_loads 5 addl)) \<and>
         ctr_view a d' = Some (snd res, unat (reseed_counter d) + 1)))"
proof (intro conjI impI, unfold Let_def)
  show "\<exists>d'. ctr_instantiate_no_df_internal a seed d env = (Inr (), d', env_later env 2) \<and>
      ctr_view a d' = Some (ctr_seed_spec a seed, 1)" if "length seed = ctr_seed_len a"
    by (rule ctr_seeding(1) [OF assms that])
qed (use ctr_seeding(2-4) [OF assms] ctr_generating [OF assms, OF _ refl] in \<open>simp_all only: ctr_accepts simp_thms\<close>)

theorem ctr_drbg_correct_witness:
  "let d = \<lparr>reseed_counter = 3, instantiated = True, ctr_key = zeros 32, ctr_v = zeros 16\<rparr>;
       env = steady None OPERATIONAL 0;
       res = ctr_generate_spec Aes256Key (Some (df_spec Aes256Key [7] 48)) 40 (zeros 32, zeros 16)
   in (\<exists>d'. ctr_instantiate_df_internal Aes128Key (zeros 16) (zeros 8) [1] d env = (Inr (), d', env) \<and>
        ctr_view Aes128Key d' = Some (ctr_seed_spec Aes128Key (df_spec Aes128Key (zeros 16 @ zeros 8 @ [1]) 32), 1)) \<and>
      (\<exists>d'. ctr_generate_df Aes256Key (Some [7]) (d, zeros 40) env = (Inr (), (d', fst res), env) \<and>
        ctr_view Aes256Key d' = Some (snd res, 4))"
proof -
  let ?d = "\<lparr>reseed_counter = 3, instantiated = True, ctr_key = zeros 32, ctr_v = zeros 16\<rparr>"
  let ?env = "steady None OPERATIONAL 0"
  have "\<forall>i. gate_at ?env i = Inr ()" by (simp add: require_self_test_started_def)
  moreover have "ctr_wf ?d" by (simp add: ctr_wf_def MAX_KEY_LEN_def)
  ultimately show ?thesis
    using ctr_drbg_correct [where env = ?env and d = ?d and a = Aes128Key and e = "zeros 16" and n = "zeros 8" and p = "[1]"]
      ctr_drbg_correct [where env = ?env and d = ?d and a = Aes256Key and addl = "Some [7]" and out = "zeros 40"]
    by (auto simp: Let_def ctr_kv_def zeros_def min_def word_le_nat_alt)
qed

end
