(* ===== verification/Drbg_Family.thy ===== *)
theory Drbg_Family
  imports Hmac_Drbg Hash_Drbg Ctr_Drbg
begin

text \<open>
  HMAC_DRBG, Hash_DRBG and CTR_DRBG together: what their refusals are and in which order, that the reseed
  interval bounds every run, that a refusal by the module is final, and the power-up health tests of
  \<^verbatim>\<open>src/crates/oxicrypt-drbg/src/health.rs\<close> that drive them.
\<close>

subsection \<open>Health tests\<close>

definition ENTROPY_32 :: bytes where "ENTROPY_32 = replicate 32 0x5a"
definition NONCE_16 :: bytes where "NONCE_16 = replicate 16 0xa5"

text \<open>\<open>match\<close> on the one error a check expects: anything else fails the test.\<close>

definition expect_error :: "'e \<Rightarrow> ('s, 'e, 'a) action \<Rightarrow> ('s, self_test_failure, unit) action" where
  "expect_error err m s env =
     (case m s env of
        (Inl e, s', env') \<Rightarrow> (if e = err then Inr () else Inl SelfTestFailure, s', env')
      | (Inr _, s', env') \<Rightarrow> (Inl SelfTestFailure, s', env'))"

text \<open>The four checks, the same for every mechanism.\<close>

definition health_steps ::
  "('s, error, unit) action \<Rightarrow> ('s \<times> bytes, drbg_error, unit) action \<Rightarrow> ('s \<Rightarrow> 's) \<Rightarrow> ('s \<Rightarrow> 's) \<Rightarrow>
   ('s \<times> bytes, self_test_failure, unit) action" where
  "health_steps instantiate gen force_ceiling uninstantiate =
     act_bind (expect_error Uninstantiated gen) (\<lambda>_.
     act_bind (act_fst (act_map_err (\<lambda>_. SelfTestFailure) instantiate)) (\<lambda>_.
     act_bind (act_map_err (\<lambda>_. SelfTestFailure) gen) (\<lambda>_.
     act_bind (act_fst (act_update force_ceiling)) (\<lambda>_.
     act_bind (expect_error ReseedRequired gen) (\<lambda>_.
     act_bind (act_fst (act_update uninstantiate)) (\<lambda>_.
     expect_error Uninstantiated gen))))))"

definition run_hash_drbg_health :: "(self_test_failure, unit) gated" where
  "run_hash_drbg_health env =
     (case health_steps (hash_instantiate_internal Sha256Alg ENTROPY_32 NONCE_16 [])
        (hash_generate Sha256Alg None) hash_force_reseed_ceiling hash_uninstantiate (hash_drbg_new, zeros 16) env of
        (r, _, env') \<Rightarrow> (r, env'))"

definition run_hmac_drbg_health :: "(self_test_failure, unit) gated" where
  "run_hmac_drbg_health env =
     (case health_steps (hmac_instantiate_internal HmacSha256Alg ENTROPY_32 NONCE_16 [])
        (hmac_generate HmacSha256Alg None) hmac_force_reseed_ceiling hmac_uninstantiate (hmac_drbg_new, zeros 16) env of
        (r, _, env') \<Rightarrow> (r, env'))"

definition run_ctr_drbg_health :: "(self_test_failure, unit) gated" where
  "run_ctr_drbg_health env =
     (case health_steps (ctr_instantiate_df_internal Aes128Key (take 16 ENTROPY_32) (take 8 NONCE_16) [])
        (ctr_generate_df Aes128Key None) ctr_force_reseed_ceiling ctr_uninstantiate (ctr_drbg_new, zeros 16) env of
        (r, _, env') \<Rightarrow> (r, env'))"

lemma guarded_run_expect:
  "(\<And>env. m s env = (Inl e, s', env)) \<Longrightarrow> guarded_run g P (expect_error e m) s 0 () s'"
  by (rule guarded_run_pure) (simp add: expect_error_def)

lemma guarded_run_any:
  assumes "guarded_run g P m s k x s'"
  shows "guarded_run (\<lambda>_. SelfTestFailure) (\<lambda>_. True) (act_map_err (\<lambda>_. SelfTestFailure) m) s k x s'"
  using guarded_run_weaken [OF guarded_run_map_err [OF assms, of "\<lambda>_. SelfTestFailure"], of "\<lambda>_. True"] by simp

text \<open>
  The checks run for any mechanism whose calls refuse and run as stated, in \<open>k\<close> plus \<open>l\<close> loads.
\<close>

lemma health_run:
  assumes refused: "\<And>env. gen (d0, out) env = (Inl Uninstantiated, (d0, out), env)"
    and inst: "guarded_run id P instantiate d0 k () d1"
    and gen: "guarded_run DrbgModule Q gen (d1, out) l () (d2, out2)"
    and ceiling: "\<And>env. gen (force_ceiling d2, out2) env = (Inl ReseedRequired, (force_ceiling d2, out), env)"
    and again: "\<And>d env. gen (uninstantiate d, out) env = (Inl Uninstantiated, (uninstantiate d, out), env)"
  shows "guarded_run (\<lambda>_. SelfTestFailure) (\<lambda>_. True)
    (health_steps instantiate gen force_ceiling uninstantiate) (d0, out) (k + l) () (uninstantiate (force_ceiling d2), out)"
proof -
  let ?g = "\<lambda>_. SelfTestFailure" and ?P = "\<lambda>_. True"
  have 1: "guarded_run ?g ?P (expect_error Uninstantiated gen) (d0, out) 0 () (d0, out)"
    by (rule guarded_run_expect, rule refused)
  have 2: "guarded_run ?g ?P (act_fst (act_map_err ?g instantiate)) (d0, out) k () (d1, out)"
    by (rule guarded_run_fst [OF guarded_run_any [OF inst]]) simp
  note 3 = guarded_run_any [OF gen]
  have 4: "guarded_run ?g ?P (act_fst (act_update force_ceiling)) (d2, out2) 0 () (force_ceiling d2, out2)"
    by (rule guarded_run_pure) (simp add: act_fst_def act_zoom_def act_update_def)
  have 5: "guarded_run ?g ?P (expect_error ReseedRequired gen) (force_ceiling d2, out2) 0 () (force_ceiling d2, out)"
    by (rule guarded_run_expect, rule ceiling)
  have 6: "guarded_run ?g ?P (act_fst (act_update uninstantiate)) (force_ceiling d2, out) 0 () (uninstantiate (force_ceiling d2), out)"
    by (rule guarded_run_pure) (simp add: act_fst_def act_zoom_def act_update_def)
  have 7: "guarded_run ?g ?P (expect_error Uninstantiated gen) (uninstantiate (force_ceiling d2), out) 0 () (uninstantiate (force_ceiling d2), out)"
    by (rule guarded_run_expect, rule again)
  have "guarded_run ?g ?P (health_steps instantiate gen force_ceiling uninstantiate) (d0, out)
      (0 + (k + (l + (0 + (0 + (0 + 0)))))) () (uninstantiate (force_ceiling d2), out)"
    unfolding health_steps_def
    by (rule guarded_run_then [OF 1 guarded_run_then [OF 2 guarded_run_then [OF 3 guarded_run_then [OF 4
        guarded_run_then [OF 5 guarded_run_then [OF 6 7]]]]]])
  then show ?thesis by simp
qed

lemma health_result:
  assumes "guarded_run (\<lambda>_. SelfTestFailure) (\<lambda>_. True) m s k () s'"
  shows "(case m s env of (r, _, env') \<Rightarrow> r) = (if \<forall>i < k. gate_at env i = Inr () then Inr () else Inl SelfTestFailure)"
proof (cases "first_refusal env k")
  case None
  with guarded_runD(1) [OF assms None] show ?thesis by (simp add: first_refusal_None)
next
  case (Some r)
  then obtain i e where r: "first_refusal env k = Some (i, e)" by (cases r) auto
  then have "\<not> (\<forall>i < k. gate_at env i = Inr ())" by (auto simp: first_refusal_Some)
  with guarded_runD(2) [OF assms r] show ?thesis by auto
qed

lemma health_lengths: "length ENTROPY_32 = 32" "length NONCE_16 = 16"
  by (simp_all add: ENTROPY_32_def NONCE_16_def)

lemmas drbg_limits = MIN_ENTROPY_LEN_def MIN_NONCE_LEN_def SECURITY_STRENGTH_def HMAC_DRBG_MAX_PROVIDED_def
  HASH_DRBG_MAX_DF_INPUT_def MAX_BITS_PER_REQ_def RESEED_INTERVAL_simp

lemma hmac_health_run:
  "\<exists>d'. guarded_run (\<lambda>_. SelfTestFailure) (\<lambda>_. True)
     (health_steps (hmac_instantiate_internal HmacSha256Alg ENTROPY_32 NONCE_16 [])
        (hmac_generate HmacSha256Alg None) hmac_force_reseed_ceiling hmac_uninstantiate)
     (hmac_drbg_new, zeros 16) 21 () d'"
proof -
  let ?d1 = "hmac_seeded HmacSha256Alg (ENTROPY_32 @ NONCE_16 @ []) (hmac_uninstantiate hmac_drbg_new)"
  let ?res = "hmac_generate_spec (mac_spec HmacSha256Alg) 32 None 16 (hmac_kv HmacSha256Alg ?d1)"
  let ?d2 = "(hmac_put (snd ?res) ?d1)\<lparr>reseed_counter := 2\<rparr>"
  have new: "hmac_wf hmac_drbg_new" "\<not> instantiated hmac_drbg_new"
    by (simp_all add: hmac_drbg_new_def hmac_wf_def)
  have "hmac_wf (hmac_uninstantiate hmac_drbg_new)" using new(1) by simp
  note seeded = hmac_seeded_simps [OF this, of HmacSha256Alg "ENTROPY_32 @ NONCE_16 @ []"]
  note wf1 = seeded(1) and slot1 = seeded(3)
  have refused: "hmac_generate HmacSha256Alg None (d, o1) env = (Inl Uninstantiated, (d, zeros (length o1)), env)"
    if "\<not> instantiated d" for d o1 env
    using that by (intro hmac_generate_refused) (simp add: generate_refusal_def drbg_slot.truncate_def)
  have inst: "guarded_run id (\<lambda>d'. hmac_wf d' \<and> \<not> instantiated d' \<and> reseed_counter d' = 0)
      (hmac_instantiate_internal HmacSha256Alg ENTROPY_32 NONCE_16 []) hmac_drbg_new 12 () ?d1"
    using new(1) by (intro hmac_instantiate_run) (simp_all add: seed_refusal_def health_lengths drbg_limits)
  have gen: "guarded_run DrbgModule (\<lambda>(d', out'). hmac_kept ?d1 d' \<and> out' = zeros 16)
      (hmac_generate HmacSha256Alg None) (?d1, zeros 16) 9 () (?d2, fst ?res)"
    using hmac_generate_run [of ?d1 None "zeros 16" ?res HmacSha256Alg, OF _ wf1] slot1
    by (simp add: generate_refusal_def drbg_limits generate_loads_def update_loads_def blocks_for_def
        drbg_slot.truncate_def word_le_nat_alt)
  have "length (fst ?res) = 16"
    using length_hmac_generate_spec(1) [of "hmac_kv HmacSha256Alg ?d1" HmacSha256Alg None 16]
      hmac_kv_lengths [OF wf1, of HmacSha256Alg] by simp
  then have ceiling: "hmac_generate HmacSha256Alg None (hmac_force_reseed_ceiling ?d2, fst ?res) env =
      (Inl ReseedRequired, (hmac_force_reseed_ceiling ?d2, zeros 16), env)" for env
    using hmac_generate_refused [of "hmac_force_reseed_ceiling ?d2" None "fst ?res" ReseedRequired HmacSha256Alg env]
    by (simp add: generate_refusal_def drbg_limits hmac_force_reseed_ceiling_def drbg_slot.truncate_def
        word_less_nat_alt hmac_seeded_def)
  have again: "hmac_generate HmacSha256Alg None (hmac_uninstantiate d, zeros 16) env =
      (Inl Uninstantiated, (hmac_uninstantiate d, zeros 16), env)" for d env
    using refused [of "hmac_uninstantiate d" "zeros 16"] by (simp add: hmac_uninstantiate_def)
  have "guarded_run (\<lambda>_. SelfTestFailure) (\<lambda>_. True)
     (health_steps (hmac_instantiate_internal HmacSha256Alg ENTROPY_32 NONCE_16 [])
        (hmac_generate HmacSha256Alg None) hmac_force_reseed_ceiling hmac_uninstantiate)
     (hmac_drbg_new, zeros 16) (12 + 9) () (hmac_uninstantiate (hmac_force_reseed_ceiling ?d2), zeros 16)"
  proof (rule health_run [OF _ inst gen])
    show "hmac_generate HmacSha256Alg None (hmac_drbg_new, zeros 16) env =
        (Inl Uninstantiated, (hmac_drbg_new, zeros 16), env)" for env
      using refused [OF new(2), of "zeros 16" env] by simp
  qed (fact ceiling again)+
  then show ?thesis by auto
qed

lemma hash_health_run:
  "\<exists>d'. guarded_run (\<lambda>_. SelfTestFailure) (\<lambda>_. True)
     (health_steps (hash_instantiate_internal Sha256Alg ENTROPY_32 NONCE_16 [])
        (hash_generate Sha256Alg None) hash_force_reseed_ceiling hash_uninstantiate)
     (hash_drbg_new, zeros 16) 12 () d'"
proof -
  let ?d1 = "hash_seeded Sha256Alg (ENTROPY_32 @ NONCE_16 @ []) (hash_uninstantiate hash_drbg_new)"
  let ?res = "hash_generate_spec (digest_spec Sha256Alg) 32 55 None 16 (hash_vc Sha256Alg ?d1) 1"
  let ?d2 = "(hash_put (snd ?res) ?d1)\<lparr>reseed_counter := 2\<rparr>"
  have new: "hash_wf hash_drbg_new" "\<not> instantiated hash_drbg_new"
    by (simp_all add: hash_drbg_new_def hash_wf_def)
  have "hash_wf (hash_uninstantiate hash_drbg_new)" using new(1) by simp
  note seeded = hash_seeded_simps [OF this, of Sha256Alg "ENTROPY_32 @ NONCE_16 @ []"]
  note wf1 = seeded(1) and slot1 = seeded(3)
  have refused: "hash_generate Sha256Alg None (d, o1) env = (Inl Uninstantiated, (d, zeros (length o1)), env)"
    if "\<not> instantiated d" for d o1 env
    using that by (intro hash_generate_refused) (simp add: generate_refusal_def drbg_slot.truncate_def)
  have inst: "guarded_run id (\<lambda>d'. hash_wf d' \<and> \<not> instantiated d' \<and> reseed_counter d' = 0)
      (hash_instantiate_internal Sha256Alg ENTROPY_32 NONCE_16 []) hash_drbg_new 8 () ?d1"
    using hash_instantiate_run [of ENTROPY_32 NONCE_16 "[]" hash_drbg_new Sha256Alg] new(1)
    by (simp add: seed_refusal_def health_lengths drbg_limits seed_loads_def df_blocks_def blocks_for_def)
  have gen: "guarded_run DrbgModule (\<lambda>(d', out'). hash_kept ?d1 d' \<and> out' = zeros 16)
      (hash_generate Sha256Alg None) (?d1, zeros 16) 4 () (?d2, fst ?res)"
    using hash_generate_run [of Sha256Alg ?d1 None "zeros 16" ?res, OF _ wf1] slot1
    by (simp add: generate_refusal_def drbg_limits hash_generate_loads_def blocks_for_def
        drbg_slot.truncate_def word_le_nat_alt)
  have "length (fst ?res) = 16"
    using length_hash_generate_spec(1) [of "hash_vc Sha256Alg ?d1" Sha256Alg None 16 1]
      hash_vc_lengths [OF wf1, of Sha256Alg] by simp
  then have ceiling: "hash_generate Sha256Alg None (hash_force_reseed_ceiling ?d2, fst ?res) env =
      (Inl ReseedRequired, (hash_force_reseed_ceiling ?d2, zeros 16), env)" for env
    using hash_generate_refused [of Sha256Alg "hash_force_reseed_ceiling ?d2" None "fst ?res" ReseedRequired env]
    by (simp add: generate_refusal_def drbg_limits hash_force_reseed_ceiling_def drbg_slot.truncate_def
        word_less_nat_alt hash_seeded_def)
  have again: "hash_generate Sha256Alg None (hash_uninstantiate d, zeros 16) env =
      (Inl Uninstantiated, (hash_uninstantiate d, zeros 16), env)" for d env
    using refused [of "hash_uninstantiate d" "zeros 16"] by (simp add: hash_uninstantiate_def)
  have "guarded_run (\<lambda>_. SelfTestFailure) (\<lambda>_. True)
     (health_steps (hash_instantiate_internal Sha256Alg ENTROPY_32 NONCE_16 [])
        (hash_generate Sha256Alg None) hash_force_reseed_ceiling hash_uninstantiate)
     (hash_drbg_new, zeros 16) (8 + 4) () (hash_uninstantiate (hash_force_reseed_ceiling ?d2), zeros 16)"
  proof (rule health_run [OF _ inst gen])
    show "hash_generate Sha256Alg None (hash_drbg_new, zeros 16) env =
        (Inl Uninstantiated, (hash_drbg_new, zeros 16), env)" for env
      using refused [OF new(2), of "zeros 16" env] by simp
  qed (fact ceiling again)+
  then show ?thesis by auto
qed


lemma ctr_health_run:
  "\<exists>d'. guarded_run (\<lambda>_. SelfTestFailure) (\<lambda>_. True)
     (health_steps (ctr_instantiate_df_internal Aes128Key (take 16 ENTROPY_32) (take 8 NONCE_16) [])
        (ctr_generate_df Aes128Key None) ctr_force_reseed_ceiling ctr_uninstantiate)
     (ctr_drbg_new, zeros 16) 9 () d'"
proof -
  let ?e = "take 16 ENTROPY_32" and ?n = "take 8 NONCE_16"
  let ?seed = "df_spec Aes128Key (?e @ ?n @ []) (ctr_seed_len Aes128Key)"
  let ?d1 = "ctr_seeded Aes128Key ?seed ctr_drbg_new"
  let ?res = "ctr_generate_spec Aes128Key None 16 (ctr_kv Aes128Key ?d1)"
  let ?d2 = "(ctr_put (snd ?res) ?d1)\<lparr>reseed_counter := 2\<rparr>"
  have new: "ctr_wf ctr_drbg_new" "\<not> instantiated ctr_drbg_new"
    by (simp_all add: ctr_drbg_new_def ctr_wf_def)
  have wf1: "ctr_wf ?d1" by (rule ctr_seeded_view(1) [OF new(1) length_df_spec])
  have slot1: "instantiated ?d1" "reseed_counter ?d1 = 1" by (simp_all add: ctr_seeded_def)
  have refused: "ctr_generate_df Aes128Key None (d, o1) env = (Inl Uninstantiated, (d, zeros (length o1)), env)"
    if "\<not> instantiated d" for d o1 env
    using that by (intro ctr_generate_refused(2)) (simp add: generate_refusal_def drbg_slot.truncate_def)
  have inst: "guarded_run id ctr_blank (ctr_instantiate_df_internal Aes128Key ?e ?n []) ctr_drbg_new 5 () ?d1"
    using new(1) by (intro ctr_instantiate_df_run) (simp_all add: ctr_accepts health_lengths)
  have gen: "guarded_run DrbgModule (\<lambda>(d', out'). ctr_kept ?d1 d' \<and> out' = zeros 16)
      (ctr_generate_df Aes128Key None) (?d1, zeros 16) 4 () (?d2, fst ?res)"
    using ctr_generate_df_run [where ai = None and out = "zeros 16" and a = Aes128Key, OF wf1 _ refl] slot1
    by (simp add: ctr_accepts ctr_generate_loads_def word_le_nat_alt)
  have "length (fst ?res) = 16"
    using ctr_generate_fits(2) [OF ctr_kv_fits [OF wf1], of None Aes128Key 16] by simp
  then have ceiling: "ctr_generate_df Aes128Key None (ctr_force_reseed_ceiling ?d2, fst ?res) env =
      (Inl ReseedRequired, (ctr_force_reseed_ceiling ?d2, zeros 16), env)" for env
    using ctr_generate_refused(2) [of "ctr_force_reseed_ceiling ?d2" None "fst ?res" ReseedRequired Aes128Key env] slot1
    by (simp add: generate_refusal_def drbg_limits ctr_force_reseed_ceiling_def drbg_slot.truncate_def word_less_nat_alt)
  have again: "ctr_generate_df Aes128Key None (ctr_uninstantiate d, zeros 16) env =
      (Inl Uninstantiated, (ctr_uninstantiate d, zeros 16), env)" for d env
    using refused [of "ctr_uninstantiate d" "zeros 16"] by (simp add: ctr_uninstantiate_def)
  have "guarded_run (\<lambda>_. SelfTestFailure) (\<lambda>_. True)
     (health_steps (ctr_instantiate_df_internal Aes128Key ?e ?n [])
        (ctr_generate_df Aes128Key None) ctr_force_reseed_ceiling ctr_uninstantiate)
     (ctr_drbg_new, zeros 16) (5 + 4) () (ctr_uninstantiate (ctr_force_reseed_ceiling ?d2), zeros 16)"
  proof (rule health_run [OF _ inst gen])
    show "ctr_generate_df Aes128Key None (ctr_drbg_new, zeros 16) env =
        (Inl Uninstantiated, (ctr_drbg_new, zeros 16), env)" for env
      using refused [OF new(2), of "zeros 16" env] by simp
  qed (fact ceiling again)+
  then show ?thesis by auto
qed

subsection \<open>Properties\<close>



text \<open>The public constructors' two checks of the module come before anything is written.\<close>

lemma gated_instantiate:
  "act_bind (act_gate gate_operational) (\<lambda>_. act_bind (act_gate (gate_allowed service)) (\<lambda>_. m)) d env =
     (case require_operational (shd (state_loads env)) of
        Inl x \<Rightarrow> (Inl x, d, env\<lparr>state_loads := stl (state_loads env)\<rparr>)
      | Inr _ \<Rightarrow>
          let env' = env\<lparr>state_loads := stl (state_loads env), profile_loads := stl (profile_loads env)\<rparr> in
          case require_allowed (shd (profile_loads env)) service of
            Inl x \<Rightarrow> (Inl x, d, env')
          | Inr _ \<Rightarrow> m d env')"
  by (simp add: act_bind_def act_gate_def gate_operational_def gate_allowed_def Let_def split: sum.splits)




text \<open>C23: CTR_DRBG refuses in the order of the code: an instantiate call is refused by the module first and
  leaves the instance alone, and past its gates a seed of the wrong length, or an over-long input, short
  entropy and a short nonce in this order, leave it wiped; reseed and generate of an instance that was
  never seeded, with inputs of the wrong length, over-long requests and an exhausted interval are
  refused with the instance unchanged and the caller's buffer zeroed.\<close>

theorem ctr_refusals:
 "(case require_operational (shd (state_loads env)) of
       Inl x \<Rightarrow> \<exists>env'. ctr_instantiate_df k e n p c env = (Inl x, c, env') \<and>
         ctr_instantiate_no_df k seed c env = (Inl x, c, env')
     | Inr _ \<Rightarrow>
       (case require_allowed (shd (profile_loads env)) (ctr_drbg_service k) of
          Inl x \<Rightarrow> \<exists>env'. ctr_instantiate_df k e n p c env = (Inl x, c, env') \<and>
            ctr_instantiate_no_df k seed c env = (Inl x, c, env')
        | Inr _ \<Rightarrow> \<exists>env'.
            (length e + length n + length p > 192 \<longrightarrow>
               ctr_instantiate_df k e n p c env = (Inl InvalidInput, ctr_uninstantiate c, env')) \<and>
            (length e + length n + length p \<le> 192 \<and> length e < ctr_key_len k \<longrightarrow>
               ctr_instantiate_df k e n p c env = (Inl EntropyInputTooShort, ctr_uninstantiate c, env')) \<and>
            (length e + length n + length p \<le> 192 \<and> ctr_key_len k \<le> length e \<and> length n < ctr_key_len k div 2 \<longrightarrow>
               ctr_instantiate_df k e n p c env = (Inl NonceTooShort, ctr_uninstantiate c, env')) \<and>
            (length seed \<noteq> ctr_seed_len k \<longrightarrow>
               ctr_instantiate_no_df k seed c env = (Inl InvalidInput, ctr_uninstantiate c, env')))) \<and>
  (\<not> instantiated c \<longrightarrow>
     ctr_reseed_df k e ai c env = (Inl Uninstantiated, c, env) \<and>
     ctr_reseed_no_df k seed c env = (Inl Uninstantiated, c, env) \<and>
     ctr_generate_df k addl (c, out) env = (Inl Uninstantiated, (c, zeros (length out)), env) \<and>
     ctr_generate_no_df k addl (c, out) env = (Inl Uninstantiated, (c, zeros (length out)), env)) \<and>
  (instantiated c \<longrightarrow>
     (length e + length ai > 192 \<longrightarrow> ctr_reseed_df k e ai c env = (Inl InputTooLong, c, env)) \<and>
     (length e + length ai \<le> 192 \<and> length e < ctr_key_len k \<longrightarrow>
        ctr_reseed_df k e ai c env = (Inl DrbgEntropyInputTooShort, c, env)) \<and>
     (length seed \<noteq> ctr_seed_len k \<longrightarrow> ctr_reseed_no_df k seed c env = (Inl InvalidSeedLength, c, env)) \<and>
     (length out > 2 ^ 16 \<longrightarrow>
        ctr_generate_df k addl (c, out) env = (Inl RequestTooLong, (c, zeros (length out)), env) \<and>
        ctr_generate_no_df k addl (c, out) env = (Inl RequestTooLong, (c, zeros (length out)), env)) \<and>
     (length out \<le> 2 ^ 16 \<and> reseed_counter c > 2 ^ 48 \<longrightarrow>
        ctr_generate_df k addl (c, out) env = (Inl ReseedRequired, (c, zeros (length out)), env) \<and>
        ctr_generate_no_df k addl (c, out) env = (Inl ReseedRequired, (c, zeros (length out)), env)) \<and>
     (length out \<le> 2 ^ 16 \<and> reseed_counter c \<le> 2 ^ 48 \<longrightarrow>
        (length ai > 192 \<longrightarrow>
           ctr_generate_df k (Some ai) (c, out) env = (Inl InputTooLong, (c, zeros (length out)), env)) \<and>
        (length ai \<noteq> ctr_seed_len k \<longrightarrow>
           ctr_generate_no_df k (Some ai) (c, out) env = (Inl InvalidSeedLength, (c, zeros (length out)), env))))"
proof (intro conjI impI)
  let ?env' = "env\<lparr>state_loads := stl (state_loads env), profile_loads := stl (profile_loads env)\<rparr>"
  note refused = ctr_refused(1) [of seed k c ?env'] ctr_refused(2) [of k e n p _ c ?env', unfolded ctr_seed_refusal_def MAX_DF_INPUT_def]
  show "case require_operational (shd (state_loads env)) of
       Inl x \<Rightarrow> \<exists>env'. ctr_instantiate_df k e n p c env = (Inl x, c, env') \<and>
         ctr_instantiate_no_df k seed c env = (Inl x, c, env')
     | Inr _ \<Rightarrow>
       (case require_allowed (shd (profile_loads env)) (ctr_drbg_service k) of
          Inl x \<Rightarrow> \<exists>env'. ctr_instantiate_df k e n p c env = (Inl x, c, env') \<and>
            ctr_instantiate_no_df k seed c env = (Inl x, c, env')
        | Inr _ \<Rightarrow> \<exists>env'.
            (length e + length n + length p > 192 \<longrightarrow>
               ctr_instantiate_df k e n p c env = (Inl InvalidInput, ctr_uninstantiate c, env')) \<and>
            (length e + length n + length p \<le> 192 \<and> length e < ctr_key_len k \<longrightarrow>
               ctr_instantiate_df k e n p c env = (Inl EntropyInputTooShort, ctr_uninstantiate c, env')) \<and>
            (length e + length n + length p \<le> 192 \<and> ctr_key_len k \<le> length e \<and> length n < ctr_key_len k div 2 \<longrightarrow>
               ctr_instantiate_df k e n p c env = (Inl NonceTooShort, ctr_uninstantiate c, env')) \<and>
            (length seed \<noteq> ctr_seed_len k \<longrightarrow>
               ctr_instantiate_no_df k seed c env = (Inl InvalidInput, ctr_uninstantiate c, env')))"
    unfolding ctr_instantiate_df_def ctr_instantiate_no_df_def gated_instantiate Let_def
    by (auto split: sum.splits intro!: exI [of _ ?env'] refused)
qed (auto intro!: ctr_refused ctr_generate_refused simp: ctr_refusal_defs ctr_limits drbg_slot.truncate_def RESEED_INTERVAL_simp)

theorem ctr_refusals_witness:
  "ctr_generate_df Aes192Key None (ctr_drbg_new, [1, 2]) (steady None OPERATIONAL 0) =
     (Inl Uninstantiated, (ctr_drbg_new, [0, 0]), steady None OPERATIONAL 0) \<and>
   ctr_reseed_no_df Aes192Key (zeros 40) ctr_drbg_new (steady None OPERATIONAL 0) =
     (Inl Uninstantiated, ctr_drbg_new, steady None OPERATIONAL 0) \<and>
   fst (ctr_instantiate_df Aes192Key (zeros 23) (zeros 12) [] ctr_drbg_new (steady None OPERATIONAL 0)) =
     Inl EntropyInputTooShort"
proof -
  have "require_operational OPERATIONAL = Inr ()" "require_allowed 0 s = Inr ()" for s
    by (simp_all add: require_operational_def require_allowed_def profile_from_u8_def)
  moreover have "zeros (Suc (Suc 0)) = [0, 0]" "\<not> instantiated ctr_drbg_new"
    by (simp_all add: zeros_def ctr_drbg_new_def)
  ultimately show ?thesis
    using ctr_refusals [where env = "steady None OPERATIONAL 0" and c = ctr_drbg_new and out = "[1, 2]"
        and k = Aes192Key and addl = None and seed = "zeros 40" and e = "zeros 23" and n = "zeros 12" and p = "[]" and ai = "[]"]
    by auto
qed

text \<open>C24: The reseed interval bounds every run: from a freshly seeded instance, whatever requests follow
  and whatever the module answers, the counter is one more than the outputs since the last successful
  seeding, and those are never more than \<open>2^48\<close>.\<close>

theorem drbg_interval_enforced:
  assumes "hmac_wf d" "instantiated d" "reseed_counter d = 1"
    and "hash_wf h" "instantiated h" "reseed_counter h = 1"
    and "ctr_wf c" "instantiated c" "reseed_counter c = 1"
  shows
   "(case serve (hmac_reseed a) (hmac_generate a) requests d env of (replies, d', env') \<Rightarrow>
       unat (reseed_counter d') = 1 + outputs_since_seed replies \<and> outputs_since_seed replies \<le> 2 ^ 48) \<and>
    (case serve (hash_reseed b) (hash_generate b) requests h env of (replies, h', env') \<Rightarrow>
       unat (reseed_counter h') = 1 + outputs_since_seed replies \<and> outputs_since_seed replies \<le> 2 ^ 48) \<and>
    (case serve (ctr_reseed_df k) (ctr_generate_df k) requests c env of (replies, c', env') \<Rightarrow>
       unat (reseed_counter c') = 1 + outputs_since_seed replies \<and> outputs_since_seed replies \<le> 2 ^ 48) \<and>
    (case serve (\<lambda>seed _. ctr_reseed_no_df k seed) (ctr_generate_no_df k) requests c env of (replies, c', env') \<Rightarrow>
       unat (reseed_counter c') = 1 + outputs_since_seed replies \<and> outputs_since_seed replies \<le> 2 ^ 48)"
  using hmac_mech.interval_enforced [of d a requests env] hash_mech.interval_enforced [of h b requests env]
    ctr_df.interval_enforced [of c k requests env] ctr_no_df.interval_enforced [of c k requests env] assms
  by (simp add: drbg_slot.truncate_def)

theorem drbg_interval_enforced_witness:
  "let d = \<lparr>reseed_counter = 1, instantiated = True, hd_key = zeros 64, hd_v = zeros 64\<rparr>;
       requests = [GenerateRequest None (zeros 40), ReseedRequest (zeros 32) [], GenerateRequest (Some [1]) (zeros 9)]
   in case serve (hmac_reseed HmacSha512Alg) (hmac_generate HmacSha512Alg) requests d (steady None OPERATIONAL 0) of
        (replies, d', env') \<Rightarrow>
          unat (reseed_counter d') = 1 + outputs_since_seed replies \<and> outputs_since_seed replies \<le> 2 ^ 48"
  using drbg_interval_enforced [where d = "\<lparr>reseed_counter = 1, instantiated = True, hd_key = zeros 64, hd_v = zeros 64\<rparr>"
      and h = "\<lparr>reseed_counter = 1, instantiated = True, hash_v = zeros 111, hash_c = zeros 111\<rparr>" and a = HmacSha512Alg
      and c = "\<lparr>reseed_counter = 1, instantiated = True, ctr_key = zeros 32, ctr_v = zeros 16\<rparr>"
      and requests = "[GenerateRequest None (zeros 40), ReseedRequest (zeros 32) [], GenerateRequest (Some [1]) (zeros 9)]"
      and env = "steady None OPERATIONAL 0"]
  by (simp add: Let_def hmac_wf_def MAX_OUTLEN_simp hash_wf_def MAX_SEEDLEN_simp ctr_wf_def MAX_KEY_LEN_def del: serve.simps)

text \<open>C25: A refusal by the module ends an instance's service: in a module that has become operational,
  every reply after the first one it refuses is a failure, under every schedule of the state loads; and
  whatever the environment, a failed generate call, interrupted in any of its steps, returns a zeroed
  buffer of the same length and keeps the flag and the counter.\<close>

theorem drbg_failure_final:
  assumes "live env" "hmac_wf d" "hash_wf h" "ctr_wf c"
  shows
   "(case serve (hmac_reseed a) (hmac_generate a) requests d env of (replies, d', env') \<Rightarrow> refusal_final replies) \<and>
    (case serve (hash_reseed b) (hash_generate b) requests h env of (replies, h', env') \<Rightarrow> refusal_final replies) \<and>
    (case hmac_generate a addl (d, out) env1 of
       (Inl e, (d', out'), env') \<Rightarrow> out' = zeros (length out) \<and> drbg_slot.truncate d' = drbg_slot.truncate d
     | (Inr _, (d', out'), env') \<Rightarrow> length out' = length out \<and> reseed_counter d' = reseed_counter d + 1) \<and>
    (case hash_generate b addl (h, out) env1 of
       (Inl e, (h', out'), env') \<Rightarrow> out' = zeros (length out) \<and> drbg_slot.truncate h' = drbg_slot.truncate h
     | (Inr _, (h', out'), env') \<Rightarrow> length out' = length out \<and> reseed_counter h' = reseed_counter h + 1) \<and>
    (case serve (ctr_reseed_df k) (ctr_generate_df k) requests c env of (replies, c', env') \<Rightarrow> refusal_final replies) \<and>
    (case serve (\<lambda>seed _. ctr_reseed_no_df k seed) (ctr_generate_no_df k) requests c env of
       (replies, c', env') \<Rightarrow> refusal_final replies) \<and>
    (case ctr_generate_df k addl (c, out) env1 of
       (Inl e, (c', out'), env') \<Rightarrow> out' = zeros (length out) \<and> drbg_slot.truncate c' = drbg_slot.truncate c
     | (Inr _, (c', out'), env') \<Rightarrow> length out' = length out \<and> reseed_counter c' = reseed_counter c + 1) \<and>
    (case ctr_generate_no_df k addl (c, out) env1 of
       (Inl e, (c', out'), env') \<Rightarrow> out' = zeros (length out) \<and> drbg_slot.truncate c' = drbg_slot.truncate c
     | (Inr _, (c', out'), env') \<Rightarrow> length out' = length out \<and> reseed_counter c' = reseed_counter c + 1)"
proof (intro conjI)
  show "case serve (hmac_reseed a) (hmac_generate a) requests d env of (replies, d', env') \<Rightarrow> refusal_final replies"
    by (rule hmac_mech.failure_final [OF assms(2,1)])
  show "case serve (hash_reseed b) (hash_generate b) requests h env of (replies, h', env') \<Rightarrow> refusal_final replies"
    by (rule hash_mech.failure_final [OF assms(3,1)])
  show "case serve (ctr_reseed_df k) (ctr_generate_df k) requests c env of (replies, c', env') \<Rightarrow> refusal_final replies"
    by (rule ctr_df.failure_final [OF assms(4,1)])
  show "case serve (\<lambda>seed _. ctr_reseed_no_df k seed) (ctr_generate_no_df k) requests c env of
       (replies, c', env') \<Rightarrow> refusal_final replies"
    by (rule ctr_no_df.failure_final [OF assms(4,1)])
  show "case hmac_generate a addl (d, out) env1 of
       (Inl e, (d', out'), env') \<Rightarrow> out' = zeros (length out) \<and> drbg_slot.truncate d' = drbg_slot.truncate d
     | (Inr _, (d', out'), env') \<Rightarrow> length out' = length out \<and> reseed_counter d' = reseed_counter d + 1"
    using hmac_mech.generate_cases [OF assms(2), of a addl out env1]
    by (fastforce simp: drbg_slot.truncate_def split: prod.splits sum.splits)
  show "case hash_generate b addl (h, out) env1 of
       (Inl e, (h', out'), env') \<Rightarrow> out' = zeros (length out) \<and> drbg_slot.truncate h' = drbg_slot.truncate h
     | (Inr _, (h', out'), env') \<Rightarrow> length out' = length out \<and> reseed_counter h' = reseed_counter h + 1"
    using hash_mech.generate_cases [OF assms(3), of b addl out env1]
    by (fastforce simp: drbg_slot.truncate_def split: prod.splits sum.splits)
qed (use ctr_df.generate_cases [OF assms(4), of k addl out env1] ctr_no_df.generate_cases [OF assms(4), of k addl out env1]
  in \<open>fastforce simp: drbg_slot.truncate_def split: prod.splits sum.splits\<close>)+

theorem drbg_failure_final_witness:
  "let d = \<lparr>reseed_counter = 1, instantiated = True, hd_key = zeros 64, hd_v = zeros 64\<rparr>;
       h = \<lparr>reseed_counter = 1, instantiated = True, hash_v = zeros 111, hash_c = zeros 111\<rparr>;
       env = \<lparr>os_tid = None, state_loads = OPERATIONAL ## sconst ERROR, profile_loads = sconst 0\<rparr>
   in (case serve (hmac_reseed HmacSha256Alg) (hmac_generate HmacSha256Alg)
         [GenerateRequest None (zeros 40), GenerateRequest None (zeros 40)] d env of
         (replies, d', env') \<Rightarrow> refusal_final replies) \<and>
      (case serve (hash_reseed Sha256Alg) (hash_generate Sha256Alg)
         [GenerateRequest None (zeros 40), GenerateRequest None (zeros 40)] h env of
         (replies, d', env') \<Rightarrow> refusal_final replies)"
proof -
  let ?d = "\<lparr>reseed_counter = 1, instantiated = True, hd_key = zeros 64, hd_v = zeros 64\<rparr>"
  let ?h = "\<lparr>reseed_counter = 1, instantiated = True, hash_v = zeros 111, hash_c = zeros 111\<rparr>"
  let ?env = "\<lparr>os_tid = None, state_loads = OPERATIONAL ## sconst ERROR, profile_loads = sconst 0\<rparr>"
  have loads: "state_loads ?env !! i = (if i = 0 then OPERATIONAL else ERROR)" for i by (cases i) simp_all
  have fails: "word_next OPERATIONAL ERROR" by (simp add: word_next_def)
  have "live ?env"
  proof (rule live_start)
    show "legal_loads ?env" unfolding legal_loads_def loads by (auto intro: word_later_next [OF fails])
  qed simp
  moreover have "hmac_wf ?d" "hash_wf ?h" "ctr_wf ctr_drbg_new"
    by (simp_all add: hmac_wf_def MAX_OUTLEN_simp hash_wf_def MAX_SEEDLEN_simp ctr_wf_def ctr_drbg_new_def)
  ultimately show ?thesis
    using drbg_failure_final [where env = ?env and d = ?d and h = ?h and c = ctr_drbg_new and a = HmacSha256Alg and b = Sha256Alg
        and requests = "[GenerateRequest None (zeros 40), GenerateRequest None (zeros 40)]"]
    by (simp add: Let_def del: serve.simps)
qed

text \<open>The power-up health tests of the generators are exact: each passes when the internal guard
  admits every load it makes, 12 for Hash_DRBG, 21 for HMAC_DRBG and 9 for CTR_DRBG, and fails otherwise, so no
  operational module is failed by them and no failed one passes.\<close>

theorem drbg_health_exact:
  "fst (run_hash_drbg_health env) = (if \<forall>i < 12. gate_at env i = Inr () then Inr () else Inl SelfTestFailure) \<and>
   fst (run_hmac_drbg_health env) = (if \<forall>i < 21. gate_at env i = Inr () then Inr () else Inl SelfTestFailure) \<and>
   fst (run_ctr_drbg_health env) = (if \<forall>i < 9. gate_at env i = Inr () then Inr () else Inl SelfTestFailure)"
proof -
  obtain c where c: "guarded_run (\<lambda>_. SelfTestFailure) (\<lambda>_. True)
     (health_steps (ctr_instantiate_df_internal Aes128Key (take 16 ENTROPY_32) (take 8 NONCE_16) [])
        (ctr_generate_df Aes128Key None) ctr_force_reseed_ceiling ctr_uninstantiate)
     (ctr_drbg_new, zeros 16) 9 () c"
    using ctr_health_run by blast
  obtain h where h: "guarded_run (\<lambda>_. SelfTestFailure) (\<lambda>_. True)
     (health_steps (hash_instantiate_internal Sha256Alg ENTROPY_32 NONCE_16 [])
        (hash_generate Sha256Alg None) hash_force_reseed_ceiling hash_uninstantiate)
     (hash_drbg_new, zeros 16) 12 () h"
    using hash_health_run by blast
  obtain d where d: "guarded_run (\<lambda>_. SelfTestFailure) (\<lambda>_. True)
     (health_steps (hmac_instantiate_internal HmacSha256Alg ENTROPY_32 NONCE_16 [])
        (hmac_generate HmacSha256Alg None) hmac_force_reseed_ceiling hmac_uninstantiate)
     (hmac_drbg_new, zeros 16) 21 () d"
    using hmac_health_run by blast
  show ?thesis
    using health_result [OF h, of env] health_result [OF d, of env] health_result [OF c, of env]
    by (simp add: run_hash_drbg_health_def run_hmac_drbg_health_def run_ctr_drbg_health_def case_prod_unfold)
qed

theorem drbg_health_exact_witness:
  "fst (run_hash_drbg_health (steady None OPERATIONAL 0)) = Inr () \<and>
   fst (run_hmac_drbg_health (steady None OPERATIONAL 0)) = Inr () \<and>
   fst (run_ctr_drbg_health (steady None OPERATIONAL 0)) = Inr ()"
  using drbg_health_exact [of "steady None OPERATIONAL 0"]
  by (simp add: require_self_test_started_def)

end
