(* ===== verification/Aes_Gcm.thy ===== *)
theory Aes_Gcm
  imports Aes_Modes
begin

unbundle bit_operations_syntax

text \<open>
  AES-GCM of \<^verbatim>\<open>src/crates/oxicrypt-aes/src/modes.rs\<close>: the multiplication of GHASH, both directions, and
  SP 800-38D beside them.
\<close>

subsection \<open>GHASH\<close>

text \<open>
  One round of \<open>gf_mul_portable\<close>: \<open>z\<close> takes \<open>v\<close> when the next bit of \<open>x\<close> is set, and \<open>v\<close> is shifted right
  by one bit across its bytes and reduced.
\<close>

definition gf_shift_byte :: "bytes \<times> u8 \<Rightarrow> usize \<Rightarrow> bytes \<times> u8" where
  "gf_shift_byte vc k =
     (case vc of (v, carry) \<Rightarrow>
        let b = v ! k in (v[k := drop_bit 1 b OR carry], push_bit 7 (b AND 1)))"

definition gf_shift :: "bytes \<Rightarrow> bytes" where
  "gf_shift v =
     (let lsb = v ! 15 AND 1;
          (v, carry) = foldl gf_shift_byte (v, 0) [0..<16]
      in if lsb = 1 then v[0 := v ! 0 XOR 0xe1] else v)"

definition gf_mul_step :: "bytes \<Rightarrow> bytes \<times> bytes \<Rightarrow> usize \<Rightarrow> bytes \<times> bytes" where
  "gf_mul_step x zv i =
     (case zv of (z, v) \<Rightarrow>
        let byte = i div 8; bit = 7 - i mod 8;
            z = (if drop_bit bit (x ! byte) AND 1 = 1 then map2 (XOR) z v else z)
        in (z, gf_shift v))"

definition gf_mul_portable :: "bytes \<Rightarrow> bytes \<Rightarrow> bytes" where
  "gf_mul_portable x y = fst (foldl (gf_mul_step x) (zeros 16, y) [0..<128])"

text \<open>Without the accelerator feature the dispatcher is the portable function.\<close>

definition gf_mul :: "bytes \<Rightarrow> bytes \<Rightarrow> bytes" where
  "gf_mul x y = gf_mul_portable x y"

function ghash_from :: "bytes \<Rightarrow> bytes \<Rightarrow> usize \<Rightarrow> bytes \<Rightarrow> bytes" where
  "ghash_from h data i y =
     (if i < length data
      then let taken = min 16 (length data - i);
               blk = copy_at (zeros 16) 0 (take taken (drop i data))
           in ghash_from h data (i + 16) (gf_mul (map2 (XOR) y blk) h)
      else y)"
  by pat_completeness auto
termination by (relation "measure (\<lambda>(h, data, i, y). length data - i)") auto

declare ghash_from.simps [simp del]

definition ghash_update :: "bytes \<Rightarrow> bytes \<Rightarrow> bytes \<Rightarrow> bytes" where
  "ghash_update y h data = ghash_from h data 0 y"

subsection \<open>GCM\<close>

definition gcm_j0 :: "bytes \<Rightarrow> bytes" where
  "gcm_j0 iv = (copy_at (zeros 16) 0 iv)[15 := 1]"

text \<open>The tag, which both directions compute the same way.\<close>

definition gcm_length_block :: "bytes \<Rightarrow> bytes \<Rightarrow> bytes" where
  "gcm_length_block aad ct =
     (let aad_bits = word_of_nat (length aad) * 8 :: u64;
          ct_bits = word_of_nat (length ct) * 8 :: u64
      in copy_at (copy_at (zeros 16) 0 (be_of_u64 aad_bits)) 8 (be_of_u64 ct_bits))"

definition gcm_compute_tag :: "(bytes \<Rightarrow> bytes) \<Rightarrow> bytes \<Rightarrow> bytes \<Rightarrow> bytes \<Rightarrow> bytes" where
  "gcm_compute_tag enc j0 aad ct =
     (let h = enc (zeros 16);
          y = ghash_update (zeros 16) h aad;
          y = ghash_update y h ct;
          y = gf_mul (map2 (XOR) y (gcm_length_block aad ct)) h;
          ej0 = enc j0
      in map2 (XOR) ej0 y)"

text \<open>Encryption writes two of the caller's buffers: the ciphertext, then the tag.\<close>

definition gcm_encrypt ::
  "block_cipher \<Rightarrow> bytes \<Rightarrow> bytes \<Rightarrow> bytes \<Rightarrow> (bytes \<times> bytes, mode_error stop, unit) action" where
  "gcm_encrypt cipher iv aad plaintext =
     act_bind (act_map_err Refused mode_guard) (\<lambda>_. act_get (\<lambda>(ct, tag).
     if length iv \<noteq> 12 then act_fail (Refused InvalidIvLength)
     else if length plaintext \<noteq> length ct then act_fail (Refused LengthMismatch)
     else
       let j0 = gcm_j0 iv
       in act_bind (act_fst (xor_stream inc32 (cipher_encrypt cipher) plaintext 0 (inc32 j0))) (\<lambda>_.
          act_update (\<lambda>(ct, tag). (ct, gcm_compute_tag (cipher_encrypt cipher) j0 aad ct)))))"

text \<open>\<open>diff |= computed_tag[k] ^ tag[k]\<close>.\<close>

definition tag_diff :: "bytes \<Rightarrow> bytes \<Rightarrow> u8" where
  "tag_diff a b = foldl (\<lambda>diff k. diff OR (a ! k XOR b ! k)) 0 [0..<16]"

definition gcm_decrypt ::
  "block_cipher \<Rightarrow> bytes \<Rightarrow> bytes \<Rightarrow> bytes \<Rightarrow> bytes \<Rightarrow> (bytes, mode_error stop, unit) action" where
  "gcm_decrypt cipher iv aad ciphertext tag =
     act_bind (act_map_err Refused mode_guard) (\<lambda>_. act_get (\<lambda>out.
     if length iv \<noteq> 12 then act_fail (Refused InvalidIvLength)
     else if length ciphertext \<noteq> length out then act_fail (Refused LengthMismatch)
     else
       let j0 = gcm_j0 iv;
           computed_tag = gcm_compute_tag (cipher_encrypt cipher) j0 aad ciphertext
       in if tag_diff computed_tag tag \<noteq> 0 then act_fail (Refused TagMismatch)
          else xor_stream inc32 (cipher_encrypt cipher) ciphertext 0 (inc32 j0)))"

subsection \<open>SP 800-38D\<close>

text \<open>
  6.3: blocks are 128-bit strings, their first bit the most significant.  The product adds, for each
  set bit of \<open>x\<close>, \<open>y\<close> shifted right by that many places, where shifting out a one adds \<open>R\<close>.
\<close>

type_synonym u128 = "128 word"

definition gf_half :: "u128 \<Rightarrow> u128" where
  "gf_half v = (if bit v 0 then drop_bit 1 v XOR push_bit 120 0xe1 else drop_bit 1 v)"

fun gf128_sum :: "u128 \<Rightarrow> u128 \<Rightarrow> nat \<Rightarrow> u128" where
  "gf128_sum x y 0 = 0"
| "gf128_sum x y (Suc i) = (if bit x (127 - i) then gf128_sum x y i XOR (gf_half ^^ i) y else gf128_sum x y i)"

definition gf128_times :: "u128 \<Rightarrow> u128 \<Rightarrow> u128" where
  "gf128_times x y = gf128_sum x y 128"

text \<open>6.4: GHASH over a sequence of blocks.\<close>

definition block_of :: "bytes \<Rightarrow> u128" where
  "block_of b = word_of_nat (be_val b)"

definition ghash :: "u128 \<Rightarrow> bytes list \<Rightarrow> u128" where
  "ghash h bs = foldl (\<lambda>y b. gf128_times (y XOR block_of b) h) 0 bs"

text \<open>7.1: the associated data and the ciphertext padded to whole blocks, the two lengths in bits, and the tag.\<close>

definition gcm_tag_spec :: "(bytes \<Rightarrow> bytes) \<Rightarrow> bytes \<Rightarrow> bytes \<Rightarrow> bytes \<Rightarrow> bytes" where
  "gcm_tag_spec enc iv aad ct =
     map2 (XOR) (enc (iv @ be_bytes 4 1))
       (be_bytes 16 (unat (ghash (block_of (enc (zeros 16)))
          (chunks 16 (pad16 aad @ pad16 ct @ be_bytes 8 (8 * length aad) @ be_bytes 8 (8 * length ct))))))"

text \<open>The keystream starts at the block after \<open>J\<^sub>0\<close> and counts modulo \<open>2^32\<close>.\<close>

definition gcm_keystream :: "(bytes \<Rightarrow> bytes) \<Rightarrow> bytes \<Rightarrow> nat \<Rightarrow> bytes" where
  "gcm_keystream enc iv j = enc (iv @ be_bytes 4 (2 + j))"

subsection \<open>The bits of a block\<close>

lemma bit_shifted_sum:
  assumes "b < 2 ^ k"
  shows "bit (a * 2 ^ k + b :: nat) m \<longleftrightarrow> (if m < k then bit b m else bit a (m - k))"
proof -
  have b: "\<not> bit b n" if "k \<le> n" for n
    using assms that by (metis bit_take_bit_iff linorder_not_less take_bit_nat_eq_self)
  have "a * 2 ^ k + b = push_bit k a OR b"
    unfolding push_bit_eq_mult [symmetric] using b by (intro disjunctive_add) (auto simp: bit_simps)
  then show ?thesis using b by (auto simp: bit_simps)
qed

lemma bit_be_val:
  "bit (be_val xs) m \<longleftrightarrow> m < 8 * length xs \<and> bit (xs ! (length xs - 1 - m div 8)) (m mod 8)"
proof (induction xs)
  case (Cons x xs)
  let ?l = "length xs"
  have "be_val xs < 2 ^ (8 * ?l)" using be_val_less [of xs] by (simp add: power_mult)
  moreover have "be_val (x # xs) = unat x * 2 ^ (8 * ?l) + be_val xs" by (simp add: power_mult)
  ultimately have split: "bit (be_val (x # xs)) m \<longleftrightarrow>
      (if m < 8 * ?l then bit (be_val xs) m else bit (unat x) (m - 8 * ?l))"
    by (simp only: bit_shifted_sum)
  show ?case
  proof (cases "m < 8 * ?l")
    case True
    then have "m div 8 < ?l" by (simp add: div_less_iff_less_mult mult.commute)
    then have "(x # xs) ! (?l - m div 8) = xs ! (?l - 1 - m div 8)" by (simp add: nth_Cons' )
    with True Cons split show ?thesis by simp
  next
    case False
    have "bit (unat x) (m - 8 * ?l) \<longleftrightarrow> bit x (m - 8 * ?l)" by (simp add: bit_unsigned_iff)
    moreover have "m - 8 * ?l < 8" if "bit x (m - 8 * ?l)" using bit_imp_le_length [OF that] by simp
    moreover have "m div 8 = ?l \<and> m mod 8 = m - 8 * ?l" if "m < 8 * ?l + 8"
      using that False by (intro conjI) (simp_all add: div_nat_eqI mod_nat_eqI)
    ultimately show ?thesis using split False by (auto simp: less_diff_conv2)
  qed
qed simp

lemma bit_block_of:
  "length b = 16 \<Longrightarrow> bit (block_of b) m \<longleftrightarrow> m < 128 \<and> bit (b ! (15 - m div 8)) (m mod 8)"
  by (auto simp: block_of_def bit_simps bit_be_val)

lemma bytes_block_of: "length b = 16 \<Longrightarrow> be_bytes 16 (unat (block_of b)) = b"
  using be_val_less [of b] be_bytes_val [of b] by (simp add: block_of_def unsigned_of_nat take_bit_nat_eq_self)

lemma block_of_bytes: "block_of (be_bytes 16 (unat w)) = w"
  using unsigned_less [of w, where 'a = nat] by (simp add: block_of_def be_val_bytes)

lemma block_of_zeros [simp]: "block_of (zeros 16) = 0"
  by (rule bit_word_eqI) (auto simp: bit_block_of zeros_def)

lemma block_of_xor:
  assumes "length a = 16" "length b = 16"
  shows "block_of (map2 (XOR) a b) = block_of a XOR block_of b"
  by (rule bit_word_eqI) (auto simp: bit_block_of bit_simps assms)

lemma block_bit_index:
  assumes "i < (128 :: nat)"
  shows "15 - (127 - i) div 8 = i div 8" "(127 - i) mod 8 = 7 - i mod 8"
proof -
  define q r where "q = i div 8" and "r = i mod 8"
  have i: "i = 8 * q + r" "r < 8" "q < 16" using assms by (simp_all add: q_def r_def div_less_iff_less_mult)
  then have e: "127 - i = (7 - r) + 8 * (15 - q)" by linarith
  have "(127 - i) div 8 = 15 - q" "(127 - i) mod 8 = 7 - r" unfolding e by simp_all
  then show "15 - (127 - i) div 8 = i div 8" "(127 - i) mod 8 = 7 - i mod 8"
    using i(3) by (simp_all flip: q_def r_def)
qed

lemma lsb_one: "w AND 1 = 1 \<longleftrightarrow> bit w 0" for w :: u8
  unfolding bit_0 and_one_eq odd_iff_mod_2_eq_one by (rule refl)

subsection \<open>The multiplication\<close>

text \<open>The byte \<open>k\<close> of the shifted block.\<close>

definition shifted_byte :: "bytes \<Rightarrow> nat \<Rightarrow> u8" where
  "shifted_byte v k = drop_bit 1 (v ! k) OR (if k = 0 then 0 else push_bit 7 (v ! (k - 1) AND 1))"

lemma gf_shift_bytes:
  assumes "n \<le> length v"
  shows "foldl gf_shift_byte (v, 0) [0..<n] =
    (map (shifted_byte v) [0..<n] @ drop n v, if n = 0 then 0 else push_bit 7 (v ! (n - 1) AND 1))"
  using assms
proof (induction n)
  case (Suc n)
  then have "drop n v = v ! n # drop (Suc n) v" by (simp add: Cons_nth_drop_Suc)
  with Suc show ?case
    by (simp add: gf_shift_byte_def shifted_byte_def Let_def nth_append list_update_append)
qed simp

lemma bit_shifted_byte:
  assumes "n < 8"
  shows "bit (shifted_byte v k) n \<longleftrightarrow> (if n = 7 then k \<noteq> 0 \<and> bit (v ! (k - 1)) 0 else bit (v ! k) (Suc n))"
  using assms by (auto simp: shifted_byte_def bit_simps dest: bit_imp_le_length)

lemma gf_shift_alt:
  assumes "length v = 16"
  shows "gf_shift v = (let w = map (shifted_byte v) [0..<16] in if bit (v ! 15) 0 then w[0 := w ! 0 XOR 0xe1] else w)"
  using gf_shift_bytes [of 16 v] assms by (simp add: gf_shift_def Let_def lsb_one)

lemma length_gf_shift [simp]: "length v = 16 \<Longrightarrow> length (gf_shift v) = 16"
  by (simp add: gf_shift_alt Let_def)

lemma next_bit_index:
  fixes m :: nat
  shows "m mod 8 = 7 \<Longrightarrow> (m + 1) div 8 = m div 8 + 1 \<and> (m + 1) mod 8 = 0"
    "m mod 8 \<noteq> 7 \<Longrightarrow> (m + 1) div 8 = m div 8 \<and> (m + 1) mod 8 = m mod 8 + 1"
    "m mod 8 = 7 \<Longrightarrow> m div 8 = 15 \<Longrightarrow> m = 127"
  using div_mult_mod_eq [of m 8] by (simp_all add: div_Suc mod_Suc)

lemma bit_shifted:
  assumes "length v = 16" "m < 128"
  shows "bit (shifted_byte v (15 - m div 8)) (m mod 8) \<longleftrightarrow> bit (drop_bit 1 (block_of v)) m"
proof -
  have m: "m mod 8 < 8" "m div 8 < 16" using assms(2) by (simp_all add: div_less_iff_less_mult)
  have d: "bit (drop_bit 1 (block_of v)) m \<longleftrightarrow> m + 1 < 128 \<and> bit (v ! (15 - (m + 1) div 8)) ((m + 1) mod 8)"
    using assms(1) by (simp add: bit_simps bit_block_of)
  show ?thesis
  proof (cases "m mod 8 = 7")
    case True
    show ?thesis
    proof (cases "m div 8 = 15")
      case True15: True
      then have "m = 127" using next_bit_index(3) [OF True] by blast
      then show ?thesis unfolding d bit_shifted_byte [OF m(1)] using True True15 by simp
    next
      case False
      then have "m + 1 < 128" using assms(2) True by (cases "m = 127") simp_all
      moreover have "15 - m div 8 - 1 = 15 - (m div 8 + 1)" "15 - m div 8 \<noteq> 0" using False m(2) by simp_all
      ultimately show ?thesis
        unfolding d bit_shifted_byte [OF m(1)] using next_bit_index(1) [OF True] True by simp
    qed
  next
    case False
    then have "m + 1 < 128" using assms(2) by (cases "m = 127") simp_all
    then show ?thesis
      unfolding d bit_shifted_byte [OF m(1)] using next_bit_index(2) [OF False] False by simp
  qed
qed

lemma gf_shift_half:
  assumes "length v = 16"
  shows "block_of (gf_shift v) = gf_half (block_of v)"
proof (rule bit_word_eqI)
  fix m assume "m < LENGTH(128)"
  then have m: "m < 128" by simp
  let ?w = "map (shifted_byte v) [0..<16]"
  have nth: "?w ! (15 - m div 8) = shifted_byte v (15 - m div 8)" by simp
  have lsb: "bit (block_of v) 0 \<longleftrightarrow> bit (v ! 15) 0" using assms by (simp add: bit_block_of)
  have r: "bit (push_bit 120 0xe1 :: u128) m \<longleftrightarrow> 120 \<le> m \<and> bit (0xe1 :: u128) (m - 120)"
    by (subst bit_push_bit_iff) (use m in simp)
  show "bit (block_of (gf_shift v)) m \<longleftrightarrow> bit (gf_half (block_of v)) m"
  proof (cases "bit (v ! 15) 0")
    case False
    then show ?thesis
      using assms m bit_shifted [OF assms m] lsb by (simp add: gf_shift_alt Let_def bit_block_of gf_half_def)
  next
    case True
    have "bit (block_of (gf_shift v)) m \<longleftrightarrow> bit (?w[0 := ?w ! 0 XOR 0xe1] ! (15 - m div 8)) (m mod 8)"
      using True assms m by (simp add: gf_shift_alt Let_def bit_block_of)
    also have "\<dots> \<longleftrightarrow> bit (drop_bit 1 (block_of v)) m \<noteq> bit (push_bit 120 0xe1 :: u128) m"
    proof (cases "120 \<le> m")
      case top: True
      then have i: "15 - m div 8 = 0" "m mod 8 = m - 120" "m - 120 < 8" using m by presburger+
      have e: "bit (0xe1 :: u8) (m - 120) \<longleftrightarrow> bit (0xe1 :: u128) (m - 120)"
        using i(3) by (auto simp: less_Suc_eq numeral_eq_Suc)
      have "bit (?w[0 := ?w ! 0 XOR 0xe1] ! (15 - m div 8)) (m mod 8) \<longleftrightarrow>
          bit (shifted_byte v (15 - m div 8)) (m mod 8) \<noteq> bit (0xe1 :: u8) (m - 120)"
        unfolding i(1,2) by (simp add: bit_xor_iff)
      then show ?thesis unfolding bit_shifted [OF assms m] r e using top by simp
    next
      case False
      then have "15 - m div 8 \<noteq> 0" using m by presburger
      then have "?w[0 := ?w ! 0 XOR 0xe1] ! (15 - m div 8) = shifted_byte v (15 - m div 8)" by simp
      then show ?thesis using bit_shifted [OF assms m] r False by simp
    qed
    also have "\<dots> \<longleftrightarrow> bit (gf_half (block_of v)) m" using True lsb by (simp add: gf_half_def bit_xor_iff)
    finally show ?thesis .
  qed
qed

lemma gf_mul_steps:
  assumes "length x = 16" "length y = 16" "n \<le> 128"
  shows "case foldl (gf_mul_step x) (zeros 16, y) [0..<n] of (z, v) \<Rightarrow>
    length z = 16 \<and> length v = 16 \<and> block_of z = gf128_sum (block_of x) (block_of y) n \<and>
    block_of v = (gf_half ^^ n) (block_of y)"
  using assms(3)
proof (induction n)
  case (Suc n)
  obtain z v where zv: "foldl (gf_mul_step x) (zeros 16, y) [0..<n] = (z, v)" by (cases "foldl (gf_mul_step x) (zeros 16, y) [0..<n]")
  have n: "n < 128" using Suc(2) by simp
  have "127 - n < (128 :: nat)" by linarith
  then have "drop_bit (7 - n mod 8) (x ! (n div 8)) AND 1 = 1 \<longleftrightarrow> bit (block_of x) (127 - n)"
    using block_bit_index [OF n] assms(1) by (simp add: lsb_one bit_block_of bit_drop_bit_eq)
  then have "gf_mul_step x (z, v) n = (if bit (block_of x) (127 - n) then map2 (XOR) z v else z, gf_shift v)"
    by (simp add: gf_mul_step_def Let_def)
  then show ?case using Suc zv by (simp add: block_of_xor gf_shift_half)
qed (simp add: assms(2))

lemma gf_mul_eq:
  assumes "length x = 16" "length y = 16"
  shows "length (gf_mul x y) = 16" "block_of (gf_mul x y) = gf128_times (block_of x) (block_of y)"
  using gf_mul_steps [of x y 128] assms
  by (auto simp: gf_mul_def gf_mul_portable_def gf128_times_def split: prod.splits)

subsection \<open>GHASH and the tag\<close>

lemma ghash_from_eq:
  assumes "length h = 16" "length y = 16" "i mod 16 = 0"
  shows "length (ghash_from h data i y) = 16 \<and> block_of (ghash_from h data i y) =
    foldl (\<lambda>y b. gf128_times (y XOR block_of b) (block_of h)) (block_of y) (chunks 16 (pad16 (drop i data)))"
  using assms(2,3)
proof (induction "length data - i" arbitrary: i y rule: less_induct)
  case less
  show ?case
  proof (cases "i < length data")
    case False
    then show ?thesis using less(2) by (subst (1 2) ghash_from.simps) (simp add: pad16_simps)
  next
    case True
    define t where "t = min 16 (length data - i)"
    define blk where "blk = copy_at (zeros 16) 0 (take t (drop i data))"
    have t: "0 < t" "t \<le> 16" "t \<le> length data - i" using True by (simp_all add: t_def)
    have lb: "length blk = 16" using t by (simp add: blk_def)
    have step: "ghash_from h data i y = ghash_from h data (i + 16) (gf_mul (map2 (XOR) y blk) h)"
      using True by (subst ghash_from.simps) (simp add: t_def blk_def Let_def)
    have m: "length (map2 (XOR) y blk) = 16" using less(2) lb by simp
    note mul = gf_mul_eq [OF m assms(1)]
    have chunk: "chunks 16 (pad16 (drop i data)) = blk # chunks 16 (pad16 (drop (i + 16) data))"
    proof (cases "16 \<le> length data - i")
      case True16: True
      then have "pad16 (drop i data) = take 16 (drop i data) @ pad16 (drop (i + 16) data)"
        using pad16_simps(3) [of "drop i data"] by (simp add: add.commute)
      moreover have "blk = take 16 (drop i data)" using True16 by (simp add: blk_def t_def copy_at_def)
      moreover have "take 16 (drop i data) \<noteq> []" using True by simp
      ultimately show ?thesis using lb by (simp add: chunks_Cons)
    next
      case False
      then have "pad16 (drop i data) = drop i data @ zeros (16 - length (drop i data))"
        using pad16_simps(4) [of "drop i data"] True by simp
      moreover have "blk = drop i data @ zeros (16 - length (drop i data))"
        using False by (simp add: blk_def t_def copy_at_def zeros_def)
      moreover have "pad16 (drop (i + 16) data) = []" using False by (simp add: pad16_simps)
      moreover have "chunks 16 blk = [blk]" by (rule chunks_single [OF lb]) simp
      ultimately show ?thesis by simp
    qed
    have "length data - (i + 16) < length data - i" "(i + 16) mod 16 = 0" using True less(3) by simp_all
    from less(1) [OF this(1) mul(1) this(2)] show ?thesis
      unfolding step chunk using block_of_xor [OF less(2) lb] mul(2) by simp
  qed
qed

lemma gcm_j0_eq: "length iv = 12 \<Longrightarrow> gcm_j0 iv = iv @ be_bytes 4 1"
proof -
  have "be_bytes 4 1 = [0, 0, 0, 1]" by (simp add: be_bytes_4)
  moreover have "zeros 16 = zeros 12 @ [0, 0, 0, 0]" by (simp add: zeros_def numeral_eq_Suc)
  moreover assume "length iv = 12"
  ultimately show ?thesis by (simp add: gcm_j0_def copy_at_def list_update_append)
qed

lemma gcm_counters: "length iv = 12 \<Longrightarrow> (inc32 ^^ j) (inc32 (gcm_j0 iv)) = iv @ be_bytes 4 (2 + j)"
  using inc32_iterated [of iv j 2] inc32_eq [of iv 1] by (simp add: gcm_j0_eq numeral_2_eq_2 del: be_bytes.simps)

lemma gcm_length_block_eq:
  "gcm_length_block aad ct = be_bytes 8 (8 * length aad) @ be_bytes 8 (8 * length ct)"
proof -
  have "be_of_u64 (word_of_nat n * 8) = be_bytes 8 (8 * n)" for n
    using be_of_u64_eq [of "8 * n"] by (simp add: mult.commute)
  moreover have "length (be_bytes 8 n) = 8" for n by simp
  ultimately show ?thesis
    by (simp add: gcm_length_block_def Let_def copy_at_def del: be_bytes.simps)
qed

lemma gcm_tag_exact:
  assumes "\<And>b. length b = 16 \<Longrightarrow> length (enc b) = 16" "length iv = 12"
  shows "gcm_compute_tag enc (gcm_j0 iv) aad ct = gcm_tag_spec enc iv aad ct"
proof -
  let ?h = "enc (zeros 16)"
  have h: "length ?h = 16" by (simp add: assms(1))
  note aad = ghash_from_eq [of ?h "zeros 16" 0 aad, OF h]
  define y where "y = ghash_update (zeros 16) ?h aad"
  have y: "length y = 16" "block_of y = foldl (\<lambda>y b. gf128_times (y XOR block_of b) (block_of ?h)) 0 (chunks 16 (pad16 aad))"
    using aad by (simp_all add: y_def ghash_update_def)
  define z where "z = ghash_update y ?h ct"
  have z: "length z = 16"
    "block_of z = foldl (\<lambda>y b. gf128_times (y XOR block_of b) (block_of ?h)) (block_of y) (chunks 16 (pad16 ct))"
    using ghash_from_eq [of ?h y 0 ct, OF h y(1)] by (simp_all add: z_def ghash_update_def)
  have l: "length (gcm_length_block aad ct) = 16" by (simp add: gcm_length_block_eq)
  have m: "length (map2 (XOR) z (gcm_length_block aad ct)) = 16" using z(1) l by simp
  define s where "s = gf_mul (map2 (XOR) z (gcm_length_block aad ct)) ?h"
  have s: "length s = 16" "block_of s = gf128_times (block_of z XOR block_of (gcm_length_block aad ct)) (block_of ?h)"
    using gf_mul_eq [OF m h] by (simp_all add: s_def block_of_xor z(1) l)
  have "chunks 16 (gcm_length_block aad ct) = [gcm_length_block aad ct]" by (rule chunks_single [OF l]) simp
  then have "block_of s = ghash (block_of ?h) (chunks 16 (pad16 aad @ pad16 ct @ gcm_length_block aad ct))"
    unfolding s(2) z(2) y(2) ghash_def by (simp add: chunks_append pad16_simps(1))
  then have "s = be_bytes 16 (unat (ghash (block_of ?h) (chunks 16 (pad16 aad @ pad16 ct @ gcm_length_block aad ct))))"
    using bytes_block_of [OF s(1)] by simp
  moreover have "gcm_compute_tag enc (gcm_j0 iv) aad ct = map2 (XOR) (enc (gcm_j0 iv)) s"
    by (simp add: gcm_compute_tag_def Let_def s_def z_def y_def)
  ultimately show ?thesis by (simp only: gcm_tag_spec_def gcm_j0_eq [OF assms(2)] gcm_length_block_eq)
qed

lemma length_gcm_tag:
  assumes "\<And>b. length b = 16 \<Longrightarrow> length (enc b) = 16" "length iv = 12"
  shows "length (gcm_tag_spec enc iv aad ct) = 16"
  using assms by (simp add: gcm_tag_spec_def)

lemma tag_diff_eq:
  assumes "length a = 16" "length b = 16"
  shows "tag_diff a b = 0 \<longleftrightarrow> a = b"
proof -
  have "tag_diff a b = 0 \<longleftrightarrow> (\<forall>k < 16. a ! k = b ! k)"
    unfolding tag_diff_def by (auto simp: or_fold_zero xor_zero)
  then show ?thesis using assms by (auto simp: list_eq_iff_nth_eq)
qed

subsection \<open>Both directions\<close>

definition gcm_ciphertext :: "(bytes \<Rightarrow> bytes) \<Rightarrow> bytes \<Rightarrow> bytes \<Rightarrow> bytes" where
  "gcm_ciphertext enc iv m = stream_spec (gcm_keystream enc iv) m"

lemma gcm_spec_cong:
  assumes "\<And>b. length b = 16 \<Longrightarrow> enc b = enc' b" "length iv = 12"
  shows "gcm_ciphertext enc iv m = gcm_ciphertext enc' iv m" "gcm_tag_spec enc iv aad ct = gcm_tag_spec enc' iv aad ct"
proof -
  have "gcm_keystream enc iv = gcm_keystream enc' iv"
    by (rule ext) (simp add: gcm_keystream_def assms del: be_bytes.simps)
  then show "gcm_ciphertext enc iv m = gcm_ciphertext enc' iv m" by (simp add: gcm_ciphertext_def)
  show "gcm_tag_spec enc iv aad ct = gcm_tag_spec enc' iv aad ct"
    by (simp add: gcm_tag_spec_def assms del: be_bytes.simps)
qed

lemma gcm_stream:
  assumes "\<And>b. length b = 16 \<Longrightarrow> length (enc b) = 16" "length iv = 12" "length m = length out"
  shows "xor_stream inc32 enc m 0 (inc32 (gcm_j0 iv)) out env = (Inr (), gcm_ciphertext enc iv m, env)"
proof -
  have k: "enc ((inc32 ^^ j) (inc32 (gcm_j0 iv))) = gcm_keystream enc iv j" for j
    by (simp add: gcm_counters [OF assms(2)] gcm_keystream_def del: be_bytes.simps)
  have l: "length (gcm_keystream enc iv j) = 16" for j
    using assms(1,2) by (simp add: gcm_keystream_def del: be_bytes.simps)
  then have "length (gcm_ciphertext enc iv m) = length m"
    by (simp add: gcm_ciphertext_def length_stream_spec)
  with l xor_stream_eq [of enc inc32 "inc32 (gcm_j0 iv)" m out env] assms(3) show ?thesis
    unfolding k gcm_ciphertext_def by simp
qed

lemma gcm_encrypt_exact:
  assumes "\<And>b. length b = 16 \<Longrightarrow> length (cipher_encrypt c b) = 16"
  shows "gcm_encrypt c iv aad pt (out, tag) env = past_guard (\<lambda>e. Refused (ModeModule e)) env (out, tag)
    (if length iv \<noteq> 12 then (Inl (Refused InvalidIvLength), (out, tag))
     else if length pt \<noteq> length out then (Inl (Refused LengthMismatch), (out, tag))
     else let ct = gcm_ciphertext (cipher_encrypt c) iv pt
       in (Inr (), (ct, gcm_tag_spec (cipher_encrypt c) iv aad ct)))"
  using gcm_stream [of "cipher_encrypt c" iv pt out, OF assms] gcm_tag_exact [of "cipher_encrypt c" iv, OF assms]
  unfolding gcm_encrypt_def mode_guard_bind
  by (auto simp: past_guard_def act_simps act_fst_def act_zoom_def Let_def act_bind_def split: sum.splits)

lemma gcm_decrypt_exact:
  assumes "\<And>b. length b = 16 \<Longrightarrow> length (cipher_encrypt c b) = 16" "length tag = 16"
  shows "gcm_decrypt c iv aad ct tag out env = past_guard (\<lambda>e. Refused (ModeModule e)) env out
    (if length iv \<noteq> 12 then (Inl (Refused InvalidIvLength), out)
     else if length ct \<noteq> length out then (Inl (Refused LengthMismatch), out)
     else if tag \<noteq> gcm_tag_spec (cipher_encrypt c) iv aad ct then (Inl (Refused TagMismatch), out)
     else (Inr (), gcm_ciphertext (cipher_encrypt c) iv ct))"
  using gcm_stream [of "cipher_encrypt c" iv ct out, OF assms(1)] gcm_tag_exact [of "cipher_encrypt c" iv, OF assms(1)]
    tag_diff_eq [of "gcm_tag_spec (cipher_encrypt c) iv aad ct" tag] length_gcm_tag [of "cipher_encrypt c" iv aad ct, OF assms(1)]
    assms(2)
  by (auto simp: gcm_decrypt_def mode_guard_bind past_guard_def act_simps Let_def split: sum.splits)

lemma gcm_undo:
  assumes "\<And>b. length b = 16 \<Longrightarrow> length (enc b) = 16" "length iv = 12"
  shows "gcm_ciphertext enc iv (gcm_ciphertext enc iv m) = m" "length (gcm_ciphertext enc iv m) = length m"
  using stream_twice [of "gcm_keystream enc iv"] length_stream_spec [of "gcm_keystream enc iv"] assms
  by (simp_all add: gcm_ciphertext_def gcm_keystream_def del: be_bytes.simps)

text \<open>
  The counter has 32 bits: after \<open>2^32 - 1\<close> blocks the keystream reaches the block that masks the tag.
\<close>

lemma gcm_keystream_wraps: "gcm_keystream enc iv (2 ^ 32 - 1) = enc (iv @ be_bytes 4 1)"
  using be_bytes_mod [of 4 "2 + (2 ^ 32 - 1)"] by (simp add: gcm_keystream_def del: be_bytes.simps)

subsection \<open>The properties\<close>

text \<open>C30: GCM encryption and decryption over a constructed AES key answer exactly this, for every nonce,
  associated data and message: a refusal by the internal guard, by the nonce length and by the buffer
  length, in this order, each leaving the caller's buffers as they were; otherwise encryption writes the
  ciphertext and the tag of SP 800-38D under the cipher of FIPS 197, with its GHASH over \<open>GF(2^128)\<close>, and
  decryption answers \<open>TagMismatch\<close> without writing unless the tag is that of the ciphertext.\<close>

theorem gcm_exact:
  assumes "length key = 4 * aes_nk a" "length tag = 16"
  shows
    "gcm_encrypt (aes_key a key) iv aad m (out, old) env = past_guard (\<lambda>e. Refused (ModeModule e)) env (out, old)
       (if length iv \<noteq> 12 then (Inl (Refused InvalidIvLength), (out, old))
        else if length m \<noteq> length out then (Inl (Refused LengthMismatch), (out, old))
        else let ct = gcm_ciphertext (fips_aes a key) iv m
          in (Inr (), (ct, gcm_tag_spec (fips_aes a key) iv aad ct))) \<and>
     gcm_decrypt (aes_key a key) iv aad m tag out env = past_guard (\<lambda>e. Refused (ModeModule e)) env out
       (if length iv \<noteq> 12 then (Inl (Refused InvalidIvLength), out)
        else if length m \<noteq> length out then (Inl (Refused LengthMismatch), out)
        else if tag \<noteq> gcm_tag_spec (fips_aes a key) iv aad m then (Inl (Refused TagMismatch), out)
        else (Inr (), gcm_ciphertext (fips_aes a key) iv m))"
  using gcm_encrypt_exact [of "aes_key a key" iv aad m out old env, OF aes_key_lengths(1)]
    gcm_decrypt_exact [of "aes_key a key" tag iv aad m out env, OF aes_key_lengths(1) assms(2)]
    gcm_spec_cong [of "cipher_encrypt (aes_key a key)" "fips_aes a key" iv, OF aes_key_encrypt [OF assms(1)]]
  by (simp add: Let_def)

theorem gcm_exact_witness:
  "gcm_decrypt (aes_key Aes128Key (zeros 16)) [1, 2, 3] [] [7] (zeros 16) [0] (steady None OPERATIONAL 0) =
     (Inl (Refused InvalidIvLength), [0], steady None OPERATIONAL 0)"
  using gcm_exact [of "zeros 16" Aes128Key "zeros 16" "[1, 2, 3]" "[]" "[7]" "[0]" "zeros 16" "steady None OPERATIONAL 0"]
  by (simp add: require_self_test_started_def past_guard_def)

text \<open>C31: Decrypting what GCM encrypted returns the message when the tag presented is the one that was
  computed, and for every other tag the call answers \<open>TagMismatch\<close> with the caller's buffer unchanged,
  so that no byte of the message is released; for the three key sizes, every key, nonce, associated
  data and message, when the module admits both calls.\<close>

theorem gcm_roundtrip:
  assumes "length key = 4 * aes_nk a" "length iv = 12" "length tag = 16"
    and "length buf = length m" "length out = length m" "gate_at env 0 = Inr ()" "gate_at env 1 = Inr ()"
  shows "\<exists>ct computed. gcm_encrypt (aes_key a key) iv aad m (buf, old) env = (Inr (), (ct, computed), env_later env 1) \<and>
    gcm_decrypt (aes_key a key) iv aad ct tag out (env_later env 1) =
      (if tag = computed then (Inr (), m, env_later env 2) else (Inl (Refused TagMismatch), out, env_later env 2))"
proof -
  let ?enc = "cipher_encrypt (aes_key a key)"
  note undo = gcm_undo [of ?enc iv m, OF aes_key_lengths(1) assms(2)]
  have "gate_at (env_later env 1) 0 = Inr ()" using assms(7) by simp
  note second = past_guard_passed [OF this, unfolded One_nat_def] and first = past_guard_passed [OF assms(6)]
  show ?thesis
    using undo
    by (simp add: gcm_encrypt_exact [of "aes_key a key", OF aes_key_lengths(1)]
        gcm_decrypt_exact [of "aes_key a key", OF aes_key_lengths(1) assms(3)] first second Let_def
        assms(2,4,5) numeral_2_eq_2)
qed

theorem gcm_roundtrip_witness:
  "\<exists>ct computed. gcm_encrypt (aes_key Aes128Key (zeros 16)) (zeros 12) [9] [1, 2] ([0, 0], zeros 16)
      (steady None OPERATIONAL 0) = (Inr (), (ct, computed), steady None OPERATIONAL 0) \<and>
    gcm_decrypt (aes_key Aes128Key (zeros 16)) (zeros 12) [9] ct (replicate 16 3) [0, 0] (steady None OPERATIONAL 0) =
      (if replicate 16 3 = computed then (Inr (), [1, 2], steady None OPERATIONAL 0)
       else (Inl (Refused TagMismatch), [0, 0], steady None OPERATIONAL 0))"
  using gcm_roundtrip [of "zeros 16" Aes128Key "zeros 12" "replicate 16 3" "[0, 0]" "[1, 2]" "[0, 0]"
      "steady None OPERATIONAL 0" "[9]" "zeros 16"]
  by (simp add: require_self_test_started_def cong: if_cong split del: if_split)

end
