(* ===== verification/Aes_Kw.thy ===== *)
theory Aes_Kw
  imports Aes_Modes
begin

unbundle bit_operations_syntax

text \<open>
  Key wrapping of \<^verbatim>\<open>src/crates/oxicrypt-aes/src/kw.rs\<close>: KW and KWP in both cipher directions, beside the
  wrapping function of SP 800-38F.
\<close>

subsection \<open>The wrapping function in place\<close>

definition SEMI :: usize where "SEMI = 8"

definition KW_DEFAULT_IV :: bytes where "KW_DEFAULT_IV = replicate SEMI 0xA6"

definition KWP_IV_PREFIX :: bytes where "KWP_IV_PREFIX = [0xA6, 0x59, 0x59, 0xA6]"

text \<open>
  The forward and the inverse-cipher families are the same text with the two block functions
  exchanged, so each is given once over the block function it calls.
\<close>

definition kw_counter :: "usize \<Rightarrow> usize \<Rightarrow> usize \<Rightarrow> bytes" where
  "kw_counter n j i = (let t = word_of_nat n * word_of_nat j + word_of_nat i :: u64 in be_of_u64 t)"

definition w_step :: "(bytes \<Rightarrow> bytes) \<Rightarrow> usize \<Rightarrow> usize \<Rightarrow> bytes \<times> bytes \<Rightarrow> usize \<Rightarrow> bytes \<times> bytes" where
  "w_step f n j ar i =
     (case ar of (a, r) \<Rightarrow>
        let blk = f (a @ take SEMI (drop ((i - 1) * SEMI) r));
            a = map2 (XOR) (take SEMI blk) (kw_counter n j i)
        in (a, copy_at r ((i - 1) * SEMI) (drop SEMI blk)))"

definition w_core :: "(bytes \<Rightarrow> bytes) \<Rightarrow> bytes \<times> bytes \<Rightarrow> bytes \<times> bytes" where
  "w_core f ar =
     (let n = length (snd ar) div SEMI
      in foldl (\<lambda>ar j. foldl (w_step f n j) ar [1..<n + 1]) ar [0..<6])"

definition w_step_inv :: "(bytes \<Rightarrow> bytes) \<Rightarrow> usize \<Rightarrow> usize \<Rightarrow> bytes \<times> bytes \<Rightarrow> usize \<Rightarrow> bytes \<times> bytes" where
  "w_step_inv g n j ar i =
     (case ar of (a, r) \<Rightarrow>
        let blk = g (map2 (XOR) a (kw_counter n j i) @ take SEMI (drop ((i - 1) * SEMI) r))
        in (take SEMI blk, copy_at r ((i - 1) * SEMI) (drop SEMI blk)))"

definition w_core_inv :: "(bytes \<Rightarrow> bytes) \<Rightarrow> bytes \<times> bytes \<Rightarrow> bytes \<times> bytes" where
  "w_core_inv g ar =
     (let n = length (snd ar) div SEMI
      in foldl (\<lambda>ar j. foldl (w_step_inv g n j) ar (rev [1..<n + 1])) ar (rev [0..<6]))"

definition ct_eq8 :: "bytes \<Rightarrow> bytes \<Rightarrow> bool" where
  "ct_eq8 a b \<longleftrightarrow> foldl (\<lambda>diff k. diff OR (a ! k XOR b ! k)) 0 [0..<SEMI] = 0"

subsection \<open>KW\<close>

definition kw_wrap_with :: "(bytes \<Rightarrow> bytes) \<Rightarrow> bytes \<Rightarrow> (bytes, mode_error, unit) action" where
  "kw_wrap_with f plaintext =
     act_bind mode_guard (\<lambda>_. act_get (\<lambda>out.
     if length plaintext < 2 * SEMI \<or> length plaintext mod SEMI \<noteq> 0 \<or> length out \<noteq> length plaintext + SEMI
     then act_fail LengthMismatch
     else act_update (\<lambda>out.
       let out = copy_at out SEMI plaintext;
           (a, r) = w_core f (KW_DEFAULT_IV, drop SEMI out)
       in copy_at (copy_at out SEMI r) 0 a)))"

definition kw_unwrap_with :: "(bytes \<Rightarrow> bytes) \<Rightarrow> bytes \<Rightarrow> (bytes, mode_error, unit) action" where
  "kw_unwrap_with g ciphertext =
     act_bind mode_guard (\<lambda>_. act_get (\<lambda>out.
     if length ciphertext < 3 * SEMI \<or> length ciphertext mod SEMI \<noteq> 0 \<or> length out \<noteq> length ciphertext - SEMI
     then act_fail LengthMismatch
     else
       let (a, r) = w_core_inv g (take SEMI ciphertext, drop SEMI ciphertext)
       in act_bind (act_update (\<lambda>_. r)) (\<lambda>_.
          if ct_eq8 a KW_DEFAULT_IV then act_ok () else act_fail TagMismatch)))"

definition kw_wrap :: "block_cipher \<Rightarrow> bytes \<Rightarrow> (bytes, mode_error, unit) action" where
  "kw_wrap cipher = kw_wrap_with (cipher_encrypt cipher)"

definition kw_unwrap :: "block_cipher \<Rightarrow> bytes \<Rightarrow> (bytes, mode_error, unit) action" where
  "kw_unwrap cipher = kw_unwrap_with (cipher_decrypt cipher)"

definition kw_wrap_inverse_cipher :: "block_cipher \<Rightarrow> bytes \<Rightarrow> (bytes, mode_error, unit) action" where
  "kw_wrap_inverse_cipher cipher = kw_wrap_with (cipher_decrypt cipher)"

definition kw_unwrap_inverse_cipher :: "block_cipher \<Rightarrow> bytes \<Rightarrow> (bytes, mode_error, unit) action" where
  "kw_unwrap_inverse_cipher cipher = kw_unwrap_with (cipher_encrypt cipher)"

subsection \<open>KWP\<close>

definition kwp_padded :: "usize \<Rightarrow> usize" where
  "kwp_padded mli = (mli + 7) div SEMI * SEMI"

definition kwp_wrap_with :: "(bytes \<Rightarrow> bytes) \<Rightarrow> bytes \<Rightarrow> (bytes, mode_error, unit) action" where
  "kwp_wrap_with f plaintext =
     act_bind mode_guard (\<lambda>_. act_get (\<lambda>out.
     let mli = length plaintext; padded_pt_len = kwp_padded mli in
     if mli = 0 \<or> mli > 2 ^ 32 - 1 then act_fail LengthMismatch
     else if length out \<noteq> padded_pt_len + SEMI then act_fail LengthMismatch
     else
       let aiv = KWP_IV_PREFIX @ be_of_u32 (word_of_nat mli) in
       if padded_pt_len = SEMI
       then act_update (\<lambda>_. f (copy_at (copy_at (zeros 16) 0 aiv) SEMI plaintext))
       else act_update (\<lambda>out.
         let out = copy_at out SEMI plaintext;
             out = copy_at out (SEMI + mli) (zeros (length out - (SEMI + mli)));
             (a, r) = w_core f (aiv, drop SEMI out)
         in copy_at (copy_at out SEMI r) 0 a)))"

definition kwp_unwrap_with :: "(bytes \<Rightarrow> bytes) \<Rightarrow> bytes \<Rightarrow> (bytes, mode_error, usize) action" where
  "kwp_unwrap_with g ciphertext =
     act_bind mode_guard (\<lambda>_. act_get (\<lambda>scratch.
     if length ciphertext < 2 * SEMI \<or> length ciphertext mod SEMI \<noteq> 0 \<or> length scratch \<noteq> length ciphertext - SEMI
     then act_fail LengthMismatch
     else
       let (aiv, scratch) =
             (if length ciphertext = 2 * SEMI
              then let blk = g ciphertext in (take SEMI blk, drop SEMI blk)
              else w_core_inv g (take SEMI ciphertext, drop SEMI ciphertext));
           diff = foldl (\<lambda>diff k. diff OR (aiv ! k XOR KWP_IV_PREFIX ! k)) 0 [0..<4];
           mli = unat (u32_of_be (aiv ! 4) (aiv ! 5) (aiv ! 6) (aiv ! 7));
           padded_pt_len = length scratch;
           in_range = (mli \<le> padded_pt_len \<and> padded_pt_len - mli < SEMI \<and> mli > 0);
           pad_diff = foldl (\<lambda>pad_diff k. pad_diff OR scratch ! k) 0 [mli..<padded_pt_len]
       in act_bind (act_update (\<lambda>_. scratch)) (\<lambda>_.
          if diff \<noteq> 0 \<or> \<not> in_range then act_fail TagMismatch
          else if pad_diff \<noteq> 0 then act_fail TagMismatch
          else act_ok mli)))"

definition kwp_wrap :: "block_cipher \<Rightarrow> bytes \<Rightarrow> (bytes, mode_error, unit) action" where
  "kwp_wrap cipher = kwp_wrap_with (cipher_encrypt cipher)"

definition kwp_unwrap :: "block_cipher \<Rightarrow> bytes \<Rightarrow> (bytes, mode_error, usize) action" where
  "kwp_unwrap cipher = kwp_unwrap_with (cipher_decrypt cipher)"

definition kwp_wrap_inverse_cipher :: "block_cipher \<Rightarrow> bytes \<Rightarrow> (bytes, mode_error, unit) action" where
  "kwp_wrap_inverse_cipher cipher = kwp_wrap_with (cipher_decrypt cipher)"

definition kwp_unwrap_inverse_cipher :: "block_cipher \<Rightarrow> bytes \<Rightarrow> (bytes, mode_error, usize) action" where
  "kwp_unwrap_inverse_cipher cipher = kwp_unwrap_with (cipher_encrypt cipher)"

lemma SEMI_8 [simp]: "SEMI = 8" by (simp add: SEMI_def)

subsection \<open>SP 800-38F\<close>

text \<open>
  6.1, Algorithm 1: \<open>n\<close> semiblocks after the first are a shift register, and each of the \<open>6 n\<close> steps
  takes its first semiblock, numbered \<open>t\<close> from 1.
\<close>

fun w_shift :: "(bytes \<Rightarrow> bytes) \<Rightarrow> bytes \<times> bytes list \<Rightarrow> nat \<Rightarrow> bytes \<times> bytes list" where
  "w_shift f (a, r # rs) t = (let b = f (a @ r) in (map2 (XOR) (take 8 b) (be_bytes 8 t), rs @ [drop 8 b]))"
| "w_shift f (a, []) t = (a, [])"

definition w_spec :: "(bytes \<Rightarrow> bytes) \<Rightarrow> bytes \<Rightarrow> bytes list \<Rightarrow> bytes" where
  "w_spec f a rs = (case foldl (w_shift f) (a, rs) [1..<6 * length rs + 1] of (a, rs) \<Rightarrow> a @ concat rs)"

definition kwp_spec :: "(bytes \<Rightarrow> bytes) \<Rightarrow> bytes \<Rightarrow> bytes" where
  "kwp_spec f m =
     (let aiv = [0xA6, 0x59, 0x59, 0xA6] @ be_bytes 4 (length m);
          padded = m @ zeros ((8 - length m mod 8) mod 8)
      in if length m \<le> 8 then f (aiv @ padded) else w_spec f aiv (chunks 8 padded))"

subsection \<open>Unwrapping undoes wrapping\<close>

lemma copy_at_slice:
  assumes "length b = k" "s + k \<le> length r"
  shows "take k (drop s (copy_at r s b)) = b" "copy_at (copy_at r s b) s (take k (drop s r)) = r"
proof -
  show "take k (drop s (copy_at r s b)) = b" using assms by (auto simp: copy_at_def)
  have "copy_at (copy_at r s b) s (take k (drop s r)) = take s r @ take k (drop s r) @ drop (s + k) r"
    using assms by (auto simp: copy_at_def)
  also have "\<dots> = r" by (metis append_take_drop_id drop_drop add.commute)
  finally show "copy_at (copy_at r s b) s (take k (drop s r)) = r" .
qed

text \<open>Semiblock \<open>i\<close> of a register file of \<open>n\<close>.\<close>

lemma semi_fits: "1 \<le> i \<Longrightarrow> i \<le> n \<Longrightarrow> (i - 1) * 8 + 8 \<le> 8 * (n :: nat)"
  by (cases i) simp_all

lemma w_step_lengths:
  assumes "\<And>b. length b = 16 \<Longrightarrow> length (f b) = 16" "length a = 8" "length r = 8 * n" "1 \<le> i" "i \<le> n"
  shows "case w_step f n j (a, r) i of (a', r') \<Rightarrow> length a' = 8 \<and> length r' = 8 * n"
    "case w_step_inv f n j (a, r) i of (a', r') \<Rightarrow> length a' = 8 \<and> length r' = 8 * n"
proof -
  note fits = semi_fits [OF assms(4,5)]
  then have "length (take 8 (drop ((i - 1) * 8) r)) = 8" using assms(3) by simp
  then have l: "length (f (x @ take 8 (drop ((i - 1) * 8) r))) = 16" if "length x = 8" for x
    using that by (intro assms(1)) simp
  have c: "length (kw_counter n j i) = 8" by (simp add: kw_counter_def)
  show "case w_step f n j (a, r) i of (a', r') \<Rightarrow> length a' = 8 \<and> length r' = 8 * n"
    using l [OF assms(2)] c fits assms(3) by (simp add: w_step_def Let_def)
  show "case w_step_inv f n j (a, r) i of (a', r') \<Rightarrow> length a' = 8 \<and> length r' = 8 * n"
    using l [of "map2 (XOR) a (kw_counter n j i)"] c fits assms(2,3) by (simp add: w_step_inv_def Let_def)
qed

lemma w_step_undo:
  assumes "\<And>b. length b = 16 \<Longrightarrow> length (f b) = 16" "\<And>b. length b = 16 \<Longrightarrow> g (f b) = b"
    and "length a = 8" "length r = 8 * n" "1 \<le> i" "i \<le> n"
  shows "w_step_inv g n j (w_step f n j (a, r) i) i = (a, r)" "w_step g n j (w_step_inv f n j (a, r) i) i = (a, r)"
proof -
  let ?s = "(i - 1) * 8" and ?c = "kw_counter n j i"
  let ?r = "take 8 (drop ?s r)"
  have fits: "?s + 8 \<le> length r" using semi_fits [OF assms(5,6)] assms(4) by simp
  then have lr: "length ?r = 8" by simp
  have c: "length ?c = 8" by (simp add: kw_counter_def)
  have x: "length (map2 (XOR) a ?c) = 8" using assms(3) c by simp
  have b: "length (f (y @ ?r)) = 16" "g (f (y @ ?r)) = y @ ?r" if "length y = 8" for y
    using that lr by (intro assms(1) assms(2); simp)+
  note slice = copy_at_slice [of "drop 8 (f (y @ ?r))" 8 ?s r for y]
  show "w_step_inv g n j (w_step f n j (a, r) i) i = (a, r)"
    using b [OF assms(3)] slice [of a] fits xor_twice [of "take 8 (f (a @ ?r))" ?c] c assms(3) lr
    by (simp add: w_step_def w_step_inv_def Let_def)
  show "w_step g n j (w_step_inv f n j (a, r) i) i = (a, r)"
    using b [OF x] slice [of "map2 (XOR) a ?c"] fits xor_twice [of a ?c] c assms(3) lr
    by (simp add: w_step_def w_step_inv_def Let_def)
qed

lemma fold_undo:
  assumes "\<And>s x. P s \<Longrightarrow> x \<in> set xs \<Longrightarrow> P (f s x) \<and> g (f s x) x = s" "P s"
  shows "P (foldl f s xs) \<and> foldl g (foldl f s xs) (rev xs) = s"
  using assms
proof (induction xs arbitrary: s)
  case (Cons x xs)
  then have "P (f s x)" "g (f s x) x = s" by simp_all
  with Cons show ?case by simp
qed simp

definition registers :: "nat \<Rightarrow> bytes \<times> bytes \<Rightarrow> bool" where
  "registers n ar \<longleftrightarrow> length (fst ar) = 8 \<and> length (snd ar) = 8 * n"

lemma w_core_undo:
  assumes "\<And>b. length b = 16 \<Longrightarrow> length (f b) = 16" "\<And>b. length b = 16 \<Longrightarrow> g (f b) = b" "registers n ar"
  shows "registers n (w_core f ar) \<and> w_core_inv g (w_core f ar) = ar"
    "registers n (w_core_inv f ar) \<and> w_core g (w_core_inv f ar) = ar"
proof -
  have step: "registers n (w_step f n j s i) \<and> w_step_inv g n j (w_step f n j s i) i = s"
      "registers n (w_step_inv f n j s i) \<and> w_step g n j (w_step_inv f n j s i) i = s"
    if "registers n s" "i \<in> set [1..<n + 1]" for s j i
    using that w_step_lengths [of f "fst s" "snd s" n i j, OF assms(1)]
      w_step_undo [of f g "fst s" "snd s" n i j, OF assms(1,2)]
    by (auto simp: registers_def split: prod.splits)
  have pass: "registers n (foldl (w_step f n j) s [1..<n + 1]) \<and>
      foldl (w_step_inv g n j) (foldl (w_step f n j) s [1..<n + 1]) (rev [1..<n + 1]) = s" if "registers n s" for s j
    by (rule fold_undo [of "registers n", OF step(1) that])
  have pass_inv: "registers n (foldl (w_step_inv f n j) s (rev [1..<n + 1])) \<and>
      foldl (w_step g n j) (foldl (w_step_inv f n j) s (rev [1..<n + 1])) [1..<n + 1] = s" if "registers n s" for s j
    using fold_undo [of "registers n" "rev [1..<n + 1]" "w_step_inv f n j" "w_step g n j" s] step(2) that by simp
  have n: "length (snd s) div 8 = n" if "registers n s" for s using that by (simp add: registers_def)
  note all = fold_undo [of "registers n" "[0..<6]" "\<lambda>s j. foldl (w_step f n j) s [1..<n + 1]"
      "\<lambda>s j. foldl (w_step_inv g n j) s (rev [1..<n + 1])" ar, OF pass assms(3)]
  then show "registers n (w_core f ar) \<and> w_core_inv g (w_core f ar) = ar"
    unfolding w_core_def w_core_inv_def SEMI_8 Let_def n [OF assms(3)] using n by simp
  note all_inv = fold_undo [of "registers n" "rev [0..<6]" "\<lambda>s j. foldl (w_step_inv f n j) s (rev [1..<n + 1])"
      "\<lambda>s j. foldl (w_step g n j) s [1..<n + 1]" ar, OF pass_inv assms(3)]
  then show "registers n (w_core_inv f ar) \<and> w_core g (w_core_inv f ar) = ar"
    unfolding w_core_def w_core_inv_def SEMI_8 Let_def n [OF assms(3)] rev_rev_ident using n by simp
qed

subsection \<open>The shift register\<close>

text \<open>Semiblocks in place and as a list.\<close>

lemma concat_semiblocks:
  assumes "\<forall>b \<in> set rs. length b = 8" "k < length rs"
  shows "take 8 (drop (8 * k) (concat rs)) = rs ! k"
    "length b = 8 \<Longrightarrow> copy_at (concat rs) (8 * k) b = concat (rs[k := b])"
proof -
  have split: "concat rs = concat (take k rs) @ rs ! k @ concat (drop (Suc k) rs)"
    using assms(2) by (metis concat.simps(2) concat_append id_take_nth_drop)
  have k: "length (concat (take k rs)) = 8 * k" using length_concat_all [of "take k rs" 8] assms by (auto dest: in_set_takeD)
  have n: "length (rs ! k) = 8" using assms by simp
  show "take 8 (drop (8 * k) (concat rs)) = rs ! k" unfolding split using k n by simp
  assume "length b = 8"
  then show "copy_at (concat rs) (8 * k) b = concat (rs[k := b])"
    unfolding copy_at_def upd_conv_take_nth_drop [OF assms(2)] by (subst (1 2) split) (simp add: k n)
qed

lemma kw_counter_eq: "kw_counter n j i = be_bytes 8 (n * j + i)"
  using be_of_u64_eq [of "n * j + i"] by (simp add: kw_counter_def Let_def)

text \<open>\<open>i\<close> steps of pass \<open>j\<close> rotate the register by \<open>i\<close>.\<close>

lemma w_pass:
  assumes "\<And>b. length b = 16 \<Longrightarrow> length (f b) = 16" "length a = 8" "\<forall>b \<in> set rs. length b = 8"
    and "length rs = n" "i \<le> n"
  shows "\<exists>a' rs'. length a' = 8 \<and> (\<forall>b \<in> set rs'. length b = 8) \<and> length rs' = n \<and>
    foldl (w_step f n j) (a, concat rs) [1..<i + 1] = (a', concat rs') \<and>
    foldl (w_shift f) (a, rs) [n * j + 1..<n * j + i + 1] = (a', drop i rs' @ take i rs')"
  using assms(5)
proof (induction i)
  case 0
  then show ?case using assms by simp
next
  case (Suc i)
  then obtain a' rs' where IH: "length a' = 8" "\<forall>b \<in> set rs'. length b = 8" "length rs' = n"
      "foldl (w_step f n j) (a, concat rs) [1..<i + 1] = (a', concat rs')"
      "foldl (w_shift f) (a, rs) [n * j + 1..<n * j + i + 1] = (a', drop i rs' @ take i rs')" by auto
  have i: "i < length rs'" using Suc(2) IH(3) by simp
  let ?b = "f (a' @ rs' ! i)"
  have b: "length ?b = 16" using IH(1,2) i by (intro assms(1)) simp
  define a'' where "a'' = map2 (XOR) (take 8 ?b) (be_bytes 8 (n * j + (i + 1)))"
  define rs'' where "rs'' = rs'[i := drop 8 ?b]"
  have "w_step f n j (a', concat rs') (i + 1) = (a'', concat rs'')"
    using concat_semiblocks [OF IH(2) i] b
    by (simp add: w_step_def Let_def kw_counter_eq a''_def rs''_def mult.commute del: be_bytes.simps)
  moreover have "w_shift f (a', drop i rs' @ take i rs') (n * j + (i + 1)) = (a'', drop (Suc i) rs'' @ take (Suc i) rs'')"
    using i by (simp add: Cons_nth_drop_Suc [symmetric] Let_def a''_def rs''_def take_Suc_conv_app_nth del: be_bytes.simps)
  moreover have "length a'' = 8" "\<forall>b \<in> set rs''. length b = 8" "length rs'' = n"
    using b IH(2,3) set_update_subset_insert [of rs' i "drop 8 ?b"] by (auto simp: a''_def rs''_def)
  moreover have "[1..<Suc i + 1] = [1..<i + 1] @ [i + 1]" "[n * j + 1..<n * j + Suc i + 1] = [n * j + 1..<n * j + i + 1] @ [n * j + (i + 1)]"
    by simp_all
  ultimately show ?case using IH(4,5) by (intro exI [of _ a''] exI [of _ rs'']) (simp only: foldl_append foldl_Cons foldl_Nil)
qed

lemma w_passes:
  assumes "\<And>b. length b = 16 \<Longrightarrow> length (f b) = 16" "length a = 8" "\<forall>b \<in> set rs. length b = 8" "length rs = n"
  shows "\<exists>a' rs'. length a' = 8 \<and> (\<forall>b \<in> set rs'. length b = 8) \<and> length rs' = n \<and>
    foldl (\<lambda>ar j. foldl (w_step f n j) ar [1..<n + 1]) (a, concat rs) [0..<j] = (a', concat rs') \<and>
    foldl (w_shift f) (a, rs) [1..<n * j + 1] = (a', rs')"
proof (induction j)
  case 0
  then show ?case using assms by simp
next
  case (Suc j)
  then obtain a' rs' where IH: "length a' = 8" "\<forall>b \<in> set rs'. length b = 8" "length rs' = n"
      "foldl (\<lambda>ar j. foldl (w_step f n j) ar [1..<n + 1]) (a, concat rs) [0..<j] = (a', concat rs')"
      "foldl (w_shift f) (a, rs) [1..<n * j + 1] = (a', rs')" by auto
  have "[1..<n * Suc j + 1] = [1..<n * j + 1] @ [n * j + 1..<n * j + n + 1]"
    using upt_add_eq_append [of 1 "n * j + 1" n] by (simp add: add.commute)
  moreover obtain b qs where "length b = 8" "\<forall>q \<in> set qs. length q = 8" "length qs = n"
      "foldl (w_step f n j) (a', concat rs') [1..<n + 1] = (b, concat qs)"
      "foldl (w_shift f) (a', rs') [n * j + 1..<n * j + n + 1] = (b, qs)"
    using w_pass [of f a' rs' n n j, OF assms(1) IH(1,2,3) order_refl] by auto
  moreover have "[0..<Suc j] = [0..<j] @ [j]" by simp
  ultimately show ?case
    using IH(4,5) by (intro exI [of _ b] exI [of _ qs]) (simp only: foldl_append foldl_Cons foldl_Nil simp_thms)
qed

lemma w_core_spec:
  assumes "\<And>b. length b = 16 \<Longrightarrow> length (f b) = 16" "length a = 8" "length r mod 8 = 0"
  shows "(case w_core f (a, r) of (a', r') \<Rightarrow> a' @ r') = w_spec f a (chunks 8 r)"
proof -
  have l8: "\<forall>b \<in> set (chunks 8 r). length b = 8" using chunks_length [of 8 r] assms(3) by simp
  have n: "length r div 8 = length (chunks 8 r)"
    using length_concat_all [OF l8] concat_chunks [of 8 r] by simp
  obtain b qs where "foldl (\<lambda>ar j. foldl (w_step f (length (chunks 8 r)) j) ar [1..<length (chunks 8 r) + 1])
        (a, concat (chunks 8 r)) [0..<6] = (b, concat qs)"
      "foldl (w_shift f) (a, chunks 8 r) [1..<length (chunks 8 r) * 6 + 1] = (b, qs)"
    using w_passes [of f a "chunks 8 r" "length (chunks 8 r)" 6, OF assms(1,2) l8 refl] by blast
  moreover have "concat (chunks 8 r) = r" by (simp add: concat_chunks)
  ultimately show ?thesis
    by (simp only: w_core_def w_spec_def Let_def SEMI_8 snd_conv n prod.case mult.commute [of 6])
qed

subsection \<open>The operations\<close>

lemma ct_eq8_eq:
  assumes "length a = 8" "length b = 8"
  shows "ct_eq8 a b \<longleftrightarrow> a = b"
proof -
  have "ct_eq8 a b \<longleftrightarrow> (\<forall>k < 8. a ! k = b ! k)" unfolding ct_eq8_def by (auto simp: or_fold_zero xor_zero)
  then show ?thesis using assms by (auto simp: list_eq_iff_nth_eq)
qed

definition kw_answer :: "bytes \<Rightarrow> bytes \<Rightarrow> bytes \<Rightarrow> (mode_error + unit) \<times> bytes" where
  "kw_answer m out result =
     (if length m < 16 \<or> length m mod 8 \<noteq> 0 \<or> length out \<noteq> length m + 8 then (Inl LengthMismatch, out)
      else (Inr (), result))"

definition kw_open :: "(bytes \<Rightarrow> bytes) \<Rightarrow> bytes \<Rightarrow> bytes \<times> bytes" where
  "kw_open g ct = w_core_inv g (take 8 ct, drop 8 ct)"

lemma aligned_registers:
  assumes "length a = 8" "length r mod 8 = 0"
  shows "registers (length r div 8) (a, r)"
  using assms by (simp add: registers_def) (metis mult_div_mod_eq add.right_neutral)

text \<open>The two block functions of a key, in either order.\<close>

definition inverse_pair :: "(bytes \<Rightarrow> bytes) \<Rightarrow> (bytes \<Rightarrow> bytes) \<Rightarrow> bool" where
  "inverse_pair f g \<longleftrightarrow> (\<forall>b. length b = 16 \<longrightarrow> length (f b) = 16 \<and> length (g b) = 16 \<and> g (f b) = b \<and> f (g b) = b)"

lemma inverse_pairD:
  assumes "inverse_pair f g" "length b = 16"
  shows "length (f b) = 16" "length (g b) = 16" "g (f b) = b" "f (g b) = b"
  using assms by (simp_all add: inverse_pair_def)

lemma wrapped:
  assumes "inverse_pair f g" "length a = 8" "length r mod 8 = 0"
  obtains a' r' where "w_core f (a, r) = (a', r')" "length a' = 8" "length r' = length r"
    "w_spec f a (chunks 8 r) = a' @ r'" "w_core_inv g (a', r') = (a, r)"
proof -
  obtain a' r' where w: "w_core f (a, r) = (a', r')" by (cases "w_core f (a, r)")
  note reg = aligned_registers [OF assms(2,3)]
  have "registers (length r div 8) (a', r') \<and> w_core_inv g (a', r') = (a, r)"
    using w_core_undo(1) [of f g "length r div 8" "(a, r)", OF inverse_pairD(1,3) [OF assms(1)] reg] w by simp
  moreover have "length r = 8 * (length r div 8)" using reg by (simp add: registers_def)
  moreover have "w_spec f a (chunks 8 r) = a' @ r'"
    using w_core_spec [of f a r, OF inverse_pairD(1) [OF assms(1)] assms(2,3)] w by simp
  ultimately show ?thesis using w that by (simp add: registers_def)
qed

lemma opened:
  assumes "inverse_pair f g" "8 \<le> length ct" "length ct mod 8 = 0"
  obtains a r where "kw_open g ct = (a, r)" "length a = 8" "length r = length ct - 8" "w_spec f a (chunks 8 r) = ct"
proof -
  obtain a r where w: "kw_open g ct = (a, r)" by (cases "kw_open g ct")
  have m: "length (drop 8 ct) mod 8 = 0" using assms(2,3) by (simp add: le_mod_geq)
  have reg: "registers (length (drop 8 ct) div 8) (take 8 ct, drop 8 ct)"
    by (rule aligned_registers) (use assms(2) m in simp_all)
  have "registers (length (drop 8 ct) div 8) (a, r) \<and> w_core f (a, r) = (take 8 ct, drop 8 ct)"
    using w_core_undo(2) [of g f "length (drop 8 ct) div 8" "(take 8 ct, drop 8 ct)",
        OF inverse_pairD(2,4) [OF assms(1)] reg] w by (simp add: kw_open_def)
  moreover from this have l: "length a = 8" "length r = length ct - 8" using reg by (simp_all add: registers_def)
  moreover have "w_spec f a (chunks 8 r) = ct"
    using w_core_spec [of f a r, OF inverse_pairD(1) [OF assms(1)] l(1)] l(2) m calculation by simp
  ultimately show ?thesis using w that by simp
qed

lemma kw_wrap_exact:
  assumes "inverse_pair f g"
  shows "kw_wrap_with f m out env =
    past_guard ModeModule env out (kw_answer m out (w_spec f KW_DEFAULT_IV (chunks 8 m)))"
proof (cases "length m < 16 \<or> length m mod 8 \<noteq> 0 \<or> length out \<noteq> length m + 8")
  case True
  then show ?thesis
    by (simp add: kw_wrap_with_def mode_guard_bind past_guard_def kw_answer_def act_simps split: sum.splits)
next
  case False
  have iv: "length KW_DEFAULT_IV = 8" by (simp add: KW_DEFAULT_IV_def)
  obtain a r where w: "w_core f (KW_DEFAULT_IV, m) = (a, r)" "length a = 8" "length r = length m"
      "w_spec f KW_DEFAULT_IV (chunks 8 m) = a @ r"
    by (rule wrapped [OF assms iv, of m]) (use False in auto)
  have "drop 8 (copy_at out 8 m) = m" "copy_at (copy_at (copy_at out 8 m) 8 r) 0 a = a @ r"
    using False w(2,3) by (simp_all add: copy_at_def)
  with False w show ?thesis
    by (simp add: kw_wrap_with_def mode_guard_bind past_guard_def kw_answer_def act_simps Let_def split: sum.splits)
qed

lemma kw_unwrap_exact:
  assumes "inverse_pair f g"
  shows "kw_unwrap_with g ct out env = past_guard ModeModule env out
    (if length ct < 24 \<or> length ct mod 8 \<noteq> 0 \<or> length out \<noteq> length ct - 8 then (Inl LengthMismatch, out)
     else case kw_open g ct of (a, r) \<Rightarrow> (if a = KW_DEFAULT_IV then Inr () else Inl TagMismatch, r))"
proof (cases "length ct < 24 \<or> length ct mod 8 \<noteq> 0 \<or> length out \<noteq> length ct - 8")
  case True
  then show ?thesis
    by (simp add: kw_unwrap_with_def mode_guard_bind past_guard_def act_simps split: sum.splits)
next
  case False
  obtain a r where o: "kw_open g ct = (a, r)" "length a = 8" by (rule opened [OF assms, of ct]) (use False in auto)
  have "ct_eq8 a KW_DEFAULT_IV \<longleftrightarrow> a = KW_DEFAULT_IV" using o(2) by (intro ct_eq8_eq) (simp_all add: KW_DEFAULT_IV_def)
  with False o(1) show ?thesis
    unfolding kw_open_def kw_unwrap_with_def mode_guard_bind
    by (cases "a = KW_DEFAULT_IV") (simp_all add: past_guard_def act_simps act_bind_def split: sum.splits)
qed

text \<open>Unwrapping succeeds on the wraps and on nothing else.\<close>

lemma kw_accepts:
  assumes "inverse_pair f g"
  shows "kw_unwrap_with g ct out env = (Inr (), p, env') \<longleftrightarrow>
    gate_at env 0 = Inr () \<and> env' = env_later env 1 \<and> length p = length out \<and> 16 \<le> length p \<and> length p mod 8 = 0 \<and>
    ct = w_spec f KW_DEFAULT_IV (chunks 8 p)" (is "?accepted \<longleftrightarrow> ?wrap")
proof
  assume acc: ?accepted
  then have g: "gate_at env 0 = Inr ()" "env' = env_later env 1"
    by (auto simp: kw_unwrap_exact [OF assms] past_guard_def split: sum.splits)
  from acc have ok: "24 \<le> length ct" "length ct mod 8 = 0" "length out = length ct - 8" "kw_open g ct = (KW_DEFAULT_IV, p)"
    by (auto simp: kw_unwrap_exact [OF assms] past_guard_def g split: prod.splits if_splits)
  obtain a r where o: "kw_open g ct = (a, r)" "length a = 8" "length r = length ct - 8" "w_spec f a (chunks 8 r) = ct"
    by (rule opened [OF assms, of ct]) (use ok in auto)
  then show ?wrap using ok g by (auto simp: le_mod_geq)
next
  assume w: ?wrap
  obtain a r where o: "length a = 8" "length r = length p" "w_spec f KW_DEFAULT_IV (chunks 8 p) = a @ r"
      "w_core_inv g (a, r) = (KW_DEFAULT_IV, p)"
    by (rule wrapped [OF assms, of KW_DEFAULT_IV p]) (use w in \<open>auto simp: KW_DEFAULT_IV_def\<close>)
  moreover from w have "gate_at env 0 = Inr ()" "env' = env_later env 1" "length p = length out" "16 \<le> length out"
    "length out mod 8 = 0" "ct = w_spec f KW_DEFAULT_IV (chunks 8 p)" by (auto simp del: mod_eq_0_iff_dvd)
  ultimately show ?accepted
    by (simp add: kw_unwrap_exact [OF assms] past_guard_def kw_open_def)
qed

lemma kwp_padded_obtain:
  obtains q r where "m + 7 = 8 * q + r" "r < 8" "kwp_padded m = 8 * q"
  by (rule that [of "(m + 7) div 8" "(m + 7) mod 8"]) (simp_all add: kwp_padded_def)

lemma kwp_padded_length:
  "kwp_padded m mod 8 = 0" "m \<le> kwp_padded m" "0 < m \<Longrightarrow> 8 \<le> kwp_padded m"
  "0 < m \<Longrightarrow> kwp_padded m = 8 \<longleftrightarrow> m \<le> 8" "kwp_padded m - m < 8"
proof -
  obtain q r where q: "m + 7 = 8 * q + r" "r < 8" "kwp_padded m = 8 * q" by (rule kwp_padded_obtain)
  then show "kwp_padded m mod 8 = 0" by simp
  from q show "m \<le> kwp_padded m" "kwp_padded m - m < 8" by linarith+
  assume "0 < m"
  with q have "1 \<le> q" "q = 1 \<longleftrightarrow> m \<le> 8" by (linarith, auto)
  with q(3) show "8 \<le> kwp_padded m" "kwp_padded m = 8 \<longleftrightarrow> m \<le> 8" by simp_all
qed

lemma kwp_padded_iff:
  assumes "p mod 8 = (0 :: nat)"
  shows "m \<le> p \<and> p - m < 8 \<longleftrightarrow> kwp_padded m = p"
proof
  assume m: "m \<le> p \<and> p - m < 8"
  obtain k where k: "p = 8 * k" using assms by (auto elim!: dvdE)
  obtain q r where "m + 7 = 8 * q + r" "r < 8" "kwp_padded m = 8 * q" by (rule kwp_padded_obtain)
  moreover from this m have "q = k" unfolding k by linarith
  ultimately show "kwp_padded m = p" by (simp add: k)
qed (use kwp_padded_length(2,5) [of m] in auto)

lemma kwp_padded_add: "kwp_padded m = m + (8 - m mod 8) mod 8"
proof -
  have "m \<le> m + (8 - m mod 8) mod 8 \<and> m + (8 - m mod 8) mod 8 - m < 8" by simp
  moreover have "(m + (8 - m mod 8) mod 8) mod 8 = 0"
  proof (cases "m mod 8 = 0")
    case False
    have "m mod 8 < 8" by simp
    then have "m mod 8 + (8 - m mod 8) = 8" by linarith
    then have "(m + (8 - m mod 8)) mod 8 = 0" by (metis mod_add_left_eq mod_self)
    then show ?thesis by (simp add: mod_add_right_eq)
  qed simp
  ultimately show ?thesis using kwp_padded_iff [of "m + (8 - m mod 8) mod 8" m] by metis
qed

text \<open>The alternative initial value, and the padded message, of a message of \<open>n\<close> bytes.\<close>

definition kwp_iv :: "nat \<Rightarrow> bytes" where
  "kwp_iv n = KWP_IV_PREFIX @ be_bytes 4 n"

definition kwp_pad :: "bytes \<Rightarrow> bytes" where
  "kwp_pad m = m @ zeros (kwp_padded (length m) - length m)"

lemma length_kwp_iv [simp]: "length (kwp_iv n) = 8"
  by (simp add: kwp_iv_def KWP_IV_PREFIX_def)

lemma length_kwp_pad [simp]: "length (kwp_pad m) = kwp_padded (length m)"
  using kwp_padded_length(2) [of "length m"] by (simp add: kwp_pad_def)

lemma kwp_spec_eq:
  assumes "m \<noteq> []"
  shows "kwp_spec f m = (if kwp_padded (length m) = 8 then f (kwp_iv (length m) @ kwp_pad m)
    else w_spec f (kwp_iv (length m)) (chunks 8 (kwp_pad m)))"
  using kwp_padded_add [of "length m"] kwp_padded_length(4) [of "length m"] assms
  by (simp add: kwp_spec_def kwp_iv_def KWP_IV_PREFIX_def kwp_pad_def Let_def del: be_bytes.simps)

definition kwp_answer :: "bytes \<Rightarrow> bytes \<Rightarrow> bytes \<Rightarrow> (mode_error + unit) \<times> bytes" where
  "kwp_answer m out result =
     (if length m = 0 \<or> length m > 2 ^ 32 - 1 \<or> length out \<noteq> kwp_padded (length m) + 8 then (Inl LengthMismatch, out)
      else (Inr (), result))"

lemma kwp_wrap_exact:
  assumes "inverse_pair f g"
  shows "kwp_wrap_with f m out env = past_guard ModeModule env out (kwp_answer m out (kwp_spec f m))"
proof (cases "length m = 0 \<or> length m > 2 ^ 32 - 1 \<or> length out \<noteq> kwp_padded (length m) + 8")
  case True
  then show ?thesis
    by (auto simp: kwp_wrap_with_def mode_guard_bind past_guard_def kwp_answer_def act_simps Let_def split: sum.splits)
next
  case False
  then have m: "m \<noteq> []" and out: "length out = kwp_padded (length m) + 8" by auto
  note p = kwp_padded_length [of "length m"]
  have iv: "KWP_IV_PREFIX @ be_of_u32 (word_of_nat (length m)) = kwp_iv (length m)"
    by (simp add: kwp_iv_def be_of_u32_eq)
  have one: "copy_at (copy_at (zeros 16) 0 (kwp_iv (length m))) 8 m = kwp_iv (length m) @ kwp_pad m"
    if "kwp_padded (length m) = 8"
    using that p(2) by (simp add: copy_at_def kwp_pad_def zeros_def)
  obtain a r where w: "w_core f (kwp_iv (length m), kwp_pad m) = (a, r)" "length a = 8" "length r = length (kwp_pad m)"
      "w_spec f (kwp_iv (length m)) (chunks 8 (kwp_pad m)) = a @ r"
    by (rule wrapped [OF assms, of "kwp_iv (length m)" "kwp_pad m"]) (use p(1) in auto)
  let ?out = "copy_at (copy_at out 8 m) (8 + length m) (zeros (length (copy_at out 8 m) - (8 + length m)))"
  have o: "drop 8 ?out = kwp_pad m" "copy_at (copy_at ?out 8 r) 0 a = a @ r"
    using out p(2) w(2,3) by (simp_all add: copy_at_def kwp_pad_def)
  show ?thesis
    unfolding kwp_wrap_with_def mode_guard_bind
    using False m one w o kwp_spec_eq [OF m, of f]
    by (simp add: past_guard_def kwp_answer_def act_simps Let_def iv split: sum.splits)
qed

definition kwp_open :: "(bytes \<Rightarrow> bytes) \<Rightarrow> bytes \<Rightarrow> bytes \<times> bytes" where
  "kwp_open g ct = (if length ct = 16 then (take 8 (g ct), drop 8 (g ct)) else kw_open g ct)"

lemma kwp_opened:
  assumes "inverse_pair f g" "16 \<le> length ct" "length ct mod 8 = 0"
  obtains a r where "kwp_open g ct = (a, r)" "length a = 8" "length r = length ct - 8"
    "ct = (if length r = 8 then f (a @ r) else w_spec f a (chunks 8 r))"
proof (cases "length ct = 16")
  case True
  then show ?thesis using inverse_pairD [OF assms(1) True] that [of "take 8 (g ct)" "drop 8 (g ct)"] by (simp add: kwp_open_def)
next
  case False
  obtain a r where "kw_open g ct = (a, r)" "length a = 8" "length r = length ct - 8" "w_spec f a (chunks 8 r) = ct"
    by (rule opened [OF assms(1), of ct]) (use assms in auto)
  with False assms(2) show ?thesis by (intro that [of a r]) (auto simp: kwp_open_def)
qed

text \<open>What \<open>kwp_unwrap\<close> checks of an opened ciphertext.\<close>

definition kwp_valid :: "bytes \<Rightarrow> bytes \<Rightarrow> nat \<Rightarrow> bool" where
  "kwp_valid a r mli \<longleftrightarrow>
     a = kwp_iv mli \<and> mli < 2 ^ 32 \<and> 0 < mli \<and> kwp_padded mli = length r \<and> drop mli r = zeros (length r - mli)"

lemma kwp_checks:
  assumes "length a = 8" "length r mod 8 = 0" "mli = unat (u32_of_be (a ! 4) (a ! 5) (a ! 6) (a ! 7))"
  shows "foldl (\<lambda>diff k. diff OR (a ! k XOR KWP_IV_PREFIX ! k)) 0 [0..<4] = 0 \<and>
      (mli \<le> length r \<and> length r - mli < 8 \<and> mli > 0) \<and>
      foldl (\<lambda>d k. d OR r ! k) 0 [mli..<length r] = 0 \<longleftrightarrow> kwp_valid a r mli" (is ?valid)
    and "kwp_valid a r n \<Longrightarrow> n = mli"
proof -
  have "length (drop 4 a) = 4" using assms(1) by simp
  then obtain b0 b1 b2 b3 where bs: "drop 4 a = [b0, b1, b2, b3]" by (rule list4E)
  then have nth: "a ! 4 = b0" "a ! 5 = b1" "a ! 6 = b2" "a ! 7 = b3"
    using nth_drop [of 4 a 0] nth_drop [of 4 a 1] nth_drop [of 4 a 2] nth_drop [of 4 a 3] assms(1) by simp_all
  then have mli: "mli = be_val (drop 4 a)" unfolding assms(3) bs by (simp only: unat_u32_of_be)
  then have d: "drop 4 a = be_bytes 4 mli" "mli < 256 ^ 4"
    using be_bytes_val [of "drop 4 a"] be_val_less [of "drop 4 a"] assms(1) by simp_all
  have pre: "foldl (\<lambda>diff k. diff OR (a ! k XOR KWP_IV_PREFIX ! k)) 0 [0..<4] = 0 \<longleftrightarrow> a = kwp_iv mli"
  proof -
    have "foldl (\<lambda>diff k. diff OR (a ! k XOR KWP_IV_PREFIX ! k)) 0 [0..<4] = 0 \<longleftrightarrow> (\<forall>k < 4. a ! k = KWP_IV_PREFIX ! k)"
      by (auto simp: or_fold_zero xor_zero)
    also have "\<dots> \<longleftrightarrow> take 4 a = KWP_IV_PREFIX" using assms(1) by (auto simp: list_eq_iff_nth_eq KWP_IV_PREFIX_def)
    also have "\<dots> \<longleftrightarrow> a = kwp_iv mli"
      unfolding kwp_iv_def d(1) [symmetric] by (metis append_take_drop_id append_same_eq)
    finally show ?thesis .
  qed
  have pad: "foldl (\<lambda>d k. d OR r ! k) 0 [mli..<length r] = 0 \<longleftrightarrow> drop mli r = zeros (length r - mli)" if "mli \<le> length r"
  proof -
    have "foldl (\<lambda>d k. d OR r ! k) 0 [mli..<length r] = 0 \<longleftrightarrow> (\<forall>k. mli \<le> k \<and> k < length r \<longrightarrow> r ! k = 0)"
      by (auto simp: or_fold_zero)
    also have "\<dots> \<longleftrightarrow> (\<forall>k < length r - mli. r ! (mli + k) = 0)"
      by (metis add.commute le_add_diff_inverse less_diff_conv le_add1)
    also have "\<dots> \<longleftrightarrow> drop mli r = zeros (length r - mli)" using that by (auto simp: list_eq_iff_nth_eq zeros_def)
    finally show ?thesis .
  qed
  show ?valid
    using pre pad d(2) kwp_padded_iff [OF assms(2), of mli] by (auto simp: kwp_valid_def)
  show "n = mli" if "kwp_valid a r n"
  proof -
    from that have "drop 4 a = be_bytes 4 n" by (simp add: kwp_valid_def kwp_iv_def KWP_IV_PREFIX_def)
    then have "n mod 256 ^ 4 = mli" using mli be_val_bytes [of 4 n] by simp
    then show ?thesis using that by (simp add: kwp_valid_def)
  qed
qed

lemma kwp_unwrap_exact:
  assumes "inverse_pair f g"
  shows "kwp_unwrap_with g ct buf env = past_guard ModeModule env buf
    (if length ct < 16 \<or> length ct mod 8 \<noteq> 0 \<or> length buf \<noteq> length ct - 8 then (Inl LengthMismatch, buf)
     else case kwp_open g ct of (a, r) \<Rightarrow>
       let mli = unat (u32_of_be (a ! 4) (a ! 5) (a ! 6) (a ! 7))
       in (if kwp_valid a r mli then Inr mli else Inl TagMismatch, r))"
proof (cases "length ct < 16 \<or> length ct mod 8 \<noteq> 0 \<or> length buf \<noteq> length ct - 8")
  case True
  then have c: "(length ct < 2 * SEMI \<or> length ct mod SEMI \<noteq> 0 \<or> length buf \<noteq> length ct - SEMI) = True" by simp
  show ?thesis
    unfolding kwp_unwrap_with_def mode_guard_bind if_P [OF True] act_get_def c if_True
    by (simp add: past_guard_def act_fail_def split: sum.splits)
next
  case False
  then have ok: "16 \<le> length ct" "length ct mod 8 = 0" by simp_all
  obtain a r where o: "kwp_open g ct = (a, r)" "length a = 8" "length r = length ct - 8"
    by (rule kwp_opened [OF assms ok]) (rule that)
  have r: "length r mod 8 = 0" using ok o(3) le_mod_geq [of 8 "length ct"] by simp
  have open': "(if length ct = 2 * SEMI then let blk = g ct in (take SEMI blk, drop SEMI blk)
      else w_core_inv g (take SEMI ct, drop SEMI ct)) = (a, r)"
    using o(1) by (simp add: kwp_open_def kw_open_def Let_def split: if_splits)
  note checks = kwp_checks(1) [OF o(2) r refl]
  have c: "(length ct < 2 * SEMI \<or> length ct mod SEMI \<noteq> 0 \<or> length buf \<noteq> length ct - SEMI) = False"
    using False by simp
  show ?thesis
    unfolding kwp_unwrap_with_def mode_guard_bind if_not_P [OF False] act_get_def c if_False open' o(1)
    unfolding Let_def prod.case SEMI_8
    using checks
    by (cases "kwp_valid a r (unat (u32_of_be (a ! 4) (a ! 5) (a ! 6) (a ! 7)))")
      (auto simp: past_guard_def act_simps act_bind_def split: sum.splits)
qed

text \<open>The same for KWP: success is exactly a wrap, of the bytes the caller is told to take.\<close>

lemma kwp_accepts:
  assumes "inverse_pair f g"
  shows "kwp_unwrap_with g ct buf env = (Inr mli, p, env') \<longleftrightarrow>
    gate_at env 0 = Inr () \<and> env' = env_later env 1 \<and> length p = length buf \<and> 0 < mli \<and> mli < 2 ^ 32 \<and>
    kwp_padded mli = length p \<and> drop mli p = zeros (length p - mli) \<and> ct = kwp_spec f (take mli p)"
    (is "?accepted \<longleftrightarrow> ?wrap")
proof
  assume acc: ?accepted
  then have g: "gate_at env 0 = Inr ()" "env' = env_later env 1"
    by (auto simp: kwp_unwrap_exact [OF assms] past_guard_def split: sum.splits)
  from acc have ok: "16 \<le> length ct" "length ct mod 8 = 0" "length buf = length ct - 8"
    by (auto simp: kwp_unwrap_exact [OF assms] past_guard_def g split: prod.splits if_splits)
  obtain a r where o: "kwp_open g ct = (a, r)" "length a = 8" "length r = length ct - 8"
      "ct = (if length r = 8 then f (a @ r) else w_spec f a (chunks 8 r))"
    by (rule kwp_opened [OF assms ok(1,2)])
  let ?n = "unat (u32_of_be (a ! 4) (a ! 5) (a ! 6) (a ! 7))"
  have "\<not> (length ct < 16 \<or> length ct mod 8 \<noteq> 0 \<or> length buf \<noteq> length ct - 8)" using ok by simp
  then have "past_guard ModeModule env buf (if kwp_valid a r ?n then Inr ?n else Inl TagMismatch, r) = (Inr mli, p, env')"
    using acc unfolding kwp_unwrap_exact [OF assms] o(1) Let_def by (simp only: if_False prod.case)
  then have "p = r" "kwp_valid a p mli" using g by (auto simp: past_guard_def split: if_splits)
  note v = this(2) [unfolded kwp_valid_def]
  have m: "take mli p \<noteq> []" "length (take mli p) = mli" using v kwp_padded_length(2,3) [of mli] by auto
  have "kwp_pad (take mli p) = p"
    using v m(2) by (metis append_take_drop_id kwp_pad_def)
  then have "kwp_spec f (take mli p) = ct"
    using kwp_spec_eq [OF m(1), of f] v o(4) \<open>p = r\<close> m(2) by simp
  then show ?wrap using g ok v o(3) \<open>p = r\<close> by simp
next
  assume w: ?wrap
  then have m: "take mli p \<noteq> []" "length (take mli p) = mli" using kwp_padded_length(2,3) [of mli] by auto
  have pad: "kwp_pad (take mli p) = p"
    using w m(2) by (metis append_take_drop_id kwp_pad_def)
  have l: "8 \<le> length p" "length p mod 8 = 0" using w kwp_padded_length(1,3) [of mli] by auto
  have ct: "ct = (if length p = 8 then f (kwp_iv mli @ p) else w_spec f (kwp_iv mli) (chunks 8 p))"
    using kwp_spec_eq [OF m(1), of f] w pad m(2) by simp
  have "kwp_open g ct = (kwp_iv mli, p) \<and> length ct = length p + 8"
  proof (cases "length p = 8")
    case True
    then show ?thesis using ct inverse_pairD [OF assms, of "kwp_iv mli @ p"] by (simp add: kwp_open_def)
  next
    case False
    obtain a r where "length a = 8" "length r = length p" "w_spec f (kwp_iv mli) (chunks 8 p) = a @ r"
        "w_core_inv g (a, r) = (kwp_iv mli, p)"
      by (rule wrapped [OF assms, of "kwp_iv mli" p]) (use l(2) in auto)
    then show ?thesis using ct False l(1) by (simp add: kwp_open_def kw_open_def)
  qed
  moreover have v: "kwp_valid (kwp_iv mli) p mli" using w by (simp add: kwp_valid_def)
  moreover have "unat (u32_of_be (kwp_iv mli ! 4) (kwp_iv mli ! 5) (kwp_iv mli ! 6) (kwp_iv mli ! 7)) = mli"
    using kwp_checks(2) [of "kwp_iv mli" p _ mli, OF _ l(2) refl v] by simp
  ultimately show ?accepted
    using w l by (simp add: kwp_unwrap_exact [OF assms] past_guard_def Let_def del: mod_eq_0_iff_dvd)
qed

subsection \<open>The properties\<close>

lemma aes_inverse_pair:
  assumes "length key = 4 * aes_nk a"
  shows "inverse_pair (cipher_encrypt (aes_key a key)) (cipher_decrypt (aes_key a key))"
    "inverse_pair (cipher_decrypt (aes_key a key)) (cipher_encrypt (aes_key a key))"
  using aes_key_lengths [of _ a key] aes_block_inverse [OF assms]
  by (simp_all add: inverse_pair_def aes_key_def aes_cipher_def)

text \<open>C34: KW and KWP over a constructed AES key, in the forward and in the inverse-cipher direction, wrap
  as SP 800-38F says: the in-place registers, indexed by pass and position, compute the shift register of
  its wrapping function with its step counter, and KWP encrypts one block directly when the padded key
  data is a single semiblock.  Key data that is empty, not whole semiblocks, shorter than two of them for
  KW, or longer than \<open>2^32 - 1\<close> bytes for KWP, and an output buffer of any other length, are refused with
  the buffer as it was, and a refusal by the module comes first.\<close>

theorem kw_wrap_correct:
  assumes "length key = 4 * aes_nk a"
  shows
    "kw_wrap (aes_key a key) m out env = past_guard ModeModule env out
       (kw_answer m out (w_spec (cipher_encrypt (aes_key a key)) KW_DEFAULT_IV (chunks 8 m))) \<and>
     kw_wrap_inverse_cipher (aes_key a key) m out env = past_guard ModeModule env out
       (kw_answer m out (w_spec (cipher_decrypt (aes_key a key)) KW_DEFAULT_IV (chunks 8 m))) \<and>
     kwp_wrap (aes_key a key) m out env = past_guard ModeModule env out
       (kwp_answer m out (kwp_spec (cipher_encrypt (aes_key a key)) m)) \<and>
     kwp_wrap_inverse_cipher (aes_key a key) m out env = past_guard ModeModule env out
       (kwp_answer m out (kwp_spec (cipher_decrypt (aes_key a key)) m))"
  by (simp add: kw_wrap_def kw_wrap_inverse_cipher_def kwp_wrap_def kwp_wrap_inverse_cipher_def
      kw_wrap_exact [OF aes_inverse_pair(1) [OF assms]] kw_wrap_exact [OF aes_inverse_pair(2) [OF assms]]
      kwp_wrap_exact [OF aes_inverse_pair(1) [OF assms]] kwp_wrap_exact [OF aes_inverse_pair(2) [OF assms]])

theorem kw_wrap_correct_witness:
  "kwp_wrap (aes_key Aes128Key (zeros 16)) [1, 2, 3] (zeros 16) (steady None OPERATIONAL 0) =
     (Inr (), kwp_spec (cipher_encrypt (aes_key Aes128Key (zeros 16))) [1, 2, 3], steady None OPERATIONAL 0)"
  using kw_wrap_correct [of "zeros 16" Aes128Key "[1, 2, 3]" "zeros 16" "steady None OPERATIONAL 0"]
  by (simp add: require_self_test_started_def past_guard_def kwp_answer_def kwp_padded_def)

text \<open>C35: Unwrapping accepts exactly the wraps: in both directions of the cipher, KW unwrap succeeds on a
  ciphertext if and only if the module admits the call and the ciphertext is the wrap of the key data it
  returns, and KWP unwrap succeeds with a length if and only if the ciphertext is the wrap of that many
  first bytes of the buffer and the rest of the buffer is its zero padding.  So what was wrapped unwraps
  to itself, and no other ciphertext of any length is accepted.\<close>

theorem kw_unwrap_correct:
  assumes "length key = 4 * aes_nk a"
  shows
    "(kw_unwrap (aes_key a key) ct out env = (Inr (), p, env') \<longleftrightarrow>
       gate_at env 0 = Inr () \<and> env' = env_later env 1 \<and> length p = length out \<and> 16 \<le> length p \<and>
       length p mod 8 = 0 \<and> ct = w_spec (cipher_encrypt (aes_key a key)) KW_DEFAULT_IV (chunks 8 p)) \<and>
     (kw_unwrap_inverse_cipher (aes_key a key) ct out env = (Inr (), p, env') \<longleftrightarrow>
       gate_at env 0 = Inr () \<and> env' = env_later env 1 \<and> length p = length out \<and> 16 \<le> length p \<and>
       length p mod 8 = 0 \<and> ct = w_spec (cipher_decrypt (aes_key a key)) KW_DEFAULT_IV (chunks 8 p)) \<and>
     (kwp_unwrap (aes_key a key) ct out env = (Inr mli, p, env') \<longleftrightarrow>
       gate_at env 0 = Inr () \<and> env' = env_later env 1 \<and> length p = length out \<and> 0 < mli \<and> mli < 2 ^ 32 \<and>
       kwp_padded mli = length p \<and> drop mli p = zeros (length p - mli) \<and>
       ct = kwp_spec (cipher_encrypt (aes_key a key)) (take mli p)) \<and>
     (kwp_unwrap_inverse_cipher (aes_key a key) ct out env = (Inr mli, p, env') \<longleftrightarrow>
       gate_at env 0 = Inr () \<and> env' = env_later env 1 \<and> length p = length out \<and> 0 < mli \<and> mli < 2 ^ 32 \<and>
       kwp_padded mli = length p \<and> drop mli p = zeros (length p - mli) \<and>
       ct = kwp_spec (cipher_decrypt (aes_key a key)) (take mli p))"
  unfolding kw_unwrap_def kw_unwrap_inverse_cipher_def kwp_unwrap_def kwp_unwrap_inverse_cipher_def
  by (intro conjI kw_accepts kwp_accepts aes_inverse_pair assms)

theorem kw_unwrap_correct_witness:
  "kwp_unwrap (aes_key Aes128Key (zeros 16)) (kwp_spec (cipher_encrypt (aes_key Aes128Key (zeros 16))) [1, 2, 3])
     (replicate 8 7) (steady None OPERATIONAL 0) = (Inr 3, [1, 2, 3, 0, 0, 0, 0, 0], steady None OPERATIONAL 0)"
proof -
  have "length (zeros 16) = 4 * aes_nk Aes128Key" by simp
  from kw_unwrap_correct [OF this, of "kwp_spec (cipher_encrypt (aes_key Aes128Key (zeros 16))) [1, 2, 3]"
      "replicate 8 7" "steady None OPERATIONAL 0" "[1, 2, 3, 0, 0, 0, 0, 0]" "steady None OPERATIONAL 0" 3,
      THEN conjunct2, THEN conjunct2, THEN conjunct1]
  show ?thesis by (simp add: require_self_test_started_def kwp_padded_def zeros_def)
qed

text \<open>
  A mismatch leaves the opened registers in the caller's buffer: unlike CCM, which wipes its output, and
  GCM, which does not write before the tag verifies.
\<close>

lemma kw_mismatch_buffer:
  assumes "length key = 4 * aes_nk a" "kw_unwrap (aes_key a key) ct out env = (Inl TagMismatch, p, env')"
  shows "p = snd (kw_open (cipher_decrypt (aes_key a key)) ct)"
  using assms(2)
  by (auto simp: kw_unwrap_def kw_unwrap_exact [OF aes_inverse_pair(1) [OF assms(1)]] past_guard_def
      split: sum.splits prod.splits if_splits)

end
