(* ===== verification/Aes_Ccm.thy ===== *)
theory Aes_Ccm
  imports Aes_Modes
begin

unbundle bit_operations_syntax

text \<open>
  AES-CCM of \<^verbatim>\<open>src/crates/oxicrypt-aes/src/ccm.rs\<close>: the formatting of its blocks, the CBC-MAC over them
  and both directions, beside SP 800-38C.
\<close>

subsection \<open>Formatting\<close>

definition NLEN_MIN :: usize where "NLEN_MIN = 7"
definition NLEN_MAX :: usize where "NLEN_MAX = 13"

definition tlen_valid :: "usize \<Rightarrow> bool" where
  "tlen_valid tlen \<longleftrightarrow> tlen \<in> {4, 6, 8, 10, 12, 14, 16}"

text \<open>\<open>b[15 - i] = (q & 0xff) as u8; q >>= 8\<close>, for \<open>i\<close> in \<open>0..l\<close>.\<close>

definition write_low_bytes :: "usize \<Rightarrow> u64 \<Rightarrow> bytes \<Rightarrow> bytes" where
  "write_low_bytes l q b =
     fst (foldl (\<lambda>(b, q) i. (b[16 - 1 - i := ucast (q AND 0xff)], drop_bit 8 q)) (b, q) [0..<l])"

definition format_b0 :: "bytes \<Rightarrow> bool \<Rightarrow> usize \<Rightarrow> u64 \<Rightarrow> bytes" where
  "format_b0 nonce adata_present tlen plen =
     (let nlen = length nonce; l = 16 - 1 - nlen;
          a_flag = if adata_present then 0x40 else 0 :: u8;
          t_flag = push_bit 3 ((word_of_nat tlen - 2) div 2) :: u8;
          l_flag = word_of_nat l - 1 :: u8;
          b0 = (zeros 16)[0 := a_flag OR t_flag OR l_flag];
          b0 = copy_at b0 1 nonce
      in write_low_bytes l plen b0)"

definition format_ctr :: "bytes \<Rightarrow> u64 \<Rightarrow> bytes" where
  "format_ctr nonce i =
     (let nlen = length nonce; l = 16 - 1 - nlen;
          c = (zeros 16)[0 := word_of_nat l - 1];
          c = copy_at c 1 nonce
      in write_low_bytes l i c)"

definition ct_eq :: "bytes \<Rightarrow> bytes \<Rightarrow> bool" where
  "ct_eq a b \<longleftrightarrow>
     (if length a \<noteq> length b then False
      else foldl (\<lambda>acc i. acc OR (a ! i XOR b ! i)) 0 [0..<length a] = 0)"

subsection \<open>CBC-MAC\<close>

definition cbc_mac_block :: "(bytes \<Rightarrow> bytes) \<Rightarrow> bytes \<Rightarrow> bytes \<Rightarrow> bytes" where
  "cbc_mac_block enc y block = enc (map2 (XOR) y block)"

text \<open>Full blocks from \<open>off\<close>, then the tail padded with zeros.\<close>

function ccm_absorb :: "(bytes \<Rightarrow> bytes) \<Rightarrow> bytes \<Rightarrow> usize \<Rightarrow> bytes \<Rightarrow> bytes" where
  "ccm_absorb enc data off y =
     (if length data - off \<ge> 16
      then ccm_absorb enc data (off + 16) (cbc_mac_block enc y (take 16 (drop off data)))
      else if length data - off > 0
      then cbc_mac_block enc y (copy_at (zeros 16) 0 (drop off data))
      else y)"
  by pat_completeness auto
termination by (relation "measure (\<lambda>(enc, data, off, y). length data - off)") auto

declare ccm_absorb.simps [simp del]

text \<open>The first block of the associated data: its length in 2, 6 or 10 bytes, then its leading bytes.\<close>

definition aad_prefix :: "bytes \<Rightarrow> bytes \<times> usize" where
  "aad_prefix aad =
     (let alen = word_of_nat (length aad) :: u64; first = zeros 16 in
      if alen < push_bit 16 1 - push_bit 8 1
      then (first[0 := ucast (drop_bit 8 alen AND 0xff), 1 := ucast (alen AND 0xff)], 2)
      else if alen < push_bit 32 1
      then (copy_at (first[0 := 0xff, 1 := 0xfe]) 2 (be_of_u32 (ucast alen)), 6)
      else (copy_at (first[0 := 0xff, 1 := 0xff]) 2 (be_of_u64 alen), 10))"

definition ccm_mac :: "(bytes \<Rightarrow> bytes) \<Rightarrow> bytes \<Rightarrow> bytes \<Rightarrow> bytes \<Rightarrow> usize \<Rightarrow> bytes" where
  "ccm_mac enc nonce aad plaintext tlen =
     (let y = enc (format_b0 nonce (aad \<noteq> []) tlen (word_of_nat (length plaintext)));
          y = (if aad \<noteq> []
               then let (first, prefix_len) = aad_prefix aad;
                        taken = min (16 - prefix_len) (length aad);
                        first = copy_at first prefix_len (take taken aad)
                    in ccm_absorb enc aad taken (cbc_mac_block enc y first)
               else y)
      in ccm_absorb enc plaintext 0 y)"

subsection \<open>CCM\<close>

definition validate_params :: "usize \<Rightarrow> usize \<Rightarrow> usize \<Rightarrow> usize \<Rightarrow> mode_error + unit" where
  "validate_params nonce_len aad_len plaintext_len tlen =
     (if \<not> (NLEN_MIN \<le> nonce_len \<and> nonce_len \<le> NLEN_MAX) then Inl InvalidNonceLength
      else if \<not> tlen_valid tlen then Inl InvalidTagLength
      else let l = 16 - 1 - nonce_len in
           if l < 8 \<and> plaintext_len \<ge> 2 ^ (8 * l) then Inl InvalidPayloadLength
           else if aad_len > 2 ^ 64 - 1 - 2 ^ 16 then Inl InvalidAadLength
           else Inr ())"

definition ccm_keystream :: "(bytes \<Rightarrow> bytes) \<Rightarrow> bytes \<Rightarrow> u64 \<Rightarrow> bytes" where
  "ccm_keystream enc nonce i = enc (format_ctr nonce i)"

definition ccm_encrypt ::
  "block_cipher \<Rightarrow> bytes \<Rightarrow> bytes \<Rightarrow> bytes \<Rightarrow> usize \<Rightarrow> (bytes, mode_error stop, unit) action" where
  "ccm_encrypt cipher nonce aad plaintext tlen =
     act_bind (act_map_err Refused mode_guard) (\<lambda>_. act_get (\<lambda>out.
     case validate_params (length nonce) (length aad) (length plaintext) tlen of
       Inl e \<Rightarrow> act_fail (Refused e)
     | Inr _ \<Rightarrow>
         if length out \<noteq> length plaintext + tlen then act_fail (Refused LengthMismatch)
         else
           let enc = cipher_encrypt cipher;
               y = ccm_mac enc nonce aad plaintext tlen;
               s0 = ccm_keystream enc nonce 0
           in act_bind (xor_stream (\<lambda>i. i + 1) (ccm_keystream enc nonce) plaintext 0 1) (\<lambda>_.
              act_update (\<lambda>out.
                foldl (\<lambda>out k. out[length plaintext + k := y ! k XOR s0 ! k]) out [0..<tlen]))))"

definition ccm_decrypt ::
  "block_cipher \<Rightarrow> bytes \<Rightarrow> bytes \<Rightarrow> bytes \<Rightarrow> usize \<Rightarrow> (bytes, mode_error stop, unit) action" where
  "ccm_decrypt cipher nonce aad ciphertext tlen =
     act_bind (act_map_err Refused mode_guard) (\<lambda>_. act_get (\<lambda>out.
     if length ciphertext < tlen then act_fail (Refused LengthMismatch)
     else
       let plen = length ciphertext - tlen in
       case validate_params (length nonce) (length aad) plen tlen of
         Inl e \<Rightarrow> act_fail (Refused e)
       | Inr _ \<Rightarrow>
           if length out \<noteq> plen then act_fail (Refused LengthMismatch)
           else
             let enc = cipher_encrypt cipher
             in act_bind (xor_stream (\<lambda>i. i + 1) (ccm_keystream enc nonce) (take plen ciphertext) 0 1) (\<lambda>_.
                act_get (\<lambda>out.
                let y = ccm_mac enc nonce aad (take plen out) tlen;
                    s0 = ccm_keystream enc nonce 0;
                    expected_tag = foldl (\<lambda>t k. t[k := y ! k XOR s0 ! k]) (zeros 16) [0..<tlen];
                    received_tag = take tlen (drop plen ciphertext)
                in if \<not> ct_eq (take tlen expected_tag) received_tag
                   then act_bind (act_update (\<lambda>out. zeros (length out))) (\<lambda>_. act_fail (Refused TagMismatch))
                   else act_ok ()))))"

subsection \<open>SP 800-38C\<close>

text \<open>Appendix A: the first block, the associated data and the counter blocks as strings of bytes.\<close>

definition ccm_b0_spec :: "bytes \<Rightarrow> bool \<Rightarrow> nat \<Rightarrow> nat \<Rightarrow> bytes" where
  "ccm_b0_spec nonce adata tlen plen =
     (let q = 15 - length nonce
      in word_of_nat ((if adata then 64 else 0) + 8 * ((tlen - 2) div 2) + (q - 1)) # nonce @ be_bytes q plen)"

definition ccm_aad_spec :: "bytes \<Rightarrow> bytes" where
  "ccm_aad_spec aad =
     (if aad = [] then []
      else if length aad < 2 ^ 16 - 2 ^ 8 then be_bytes 2 (length aad) @ aad
      else if length aad < 2 ^ 32 then [0xff, 0xfe] @ be_bytes 4 (length aad) @ aad
      else [0xff, 0xff] @ be_bytes 8 (length aad) @ aad)"

definition ccm_ctr_spec :: "bytes \<Rightarrow> nat \<Rightarrow> bytes" where
  "ccm_ctr_spec nonce i = (let q = 15 - length nonce in word_of_nat (q - 1) # nonce @ be_bytes q i)"

definition cbc_mac :: "(bytes \<Rightarrow> bytes) \<Rightarrow> bytes list \<Rightarrow> bytes" where
  "cbc_mac enc bs = foldl (\<lambda>y b. enc (map2 (XOR) y b)) (zeros 16) bs"

text \<open>6.1: the ciphertext and the tag.\<close>

definition ccm_payload :: "(bytes \<Rightarrow> bytes) \<Rightarrow> bytes \<Rightarrow> bytes \<Rightarrow> bytes" where
  "ccm_payload enc nonce m = stream_spec (\<lambda>j. enc (ccm_ctr_spec nonce (1 + j))) m"

definition ccm_tag :: "(bytes \<Rightarrow> bytes) \<Rightarrow> bytes \<Rightarrow> bytes \<Rightarrow> bytes \<Rightarrow> nat \<Rightarrow> bytes" where
  "ccm_tag enc nonce aad m tlen =
     take tlen (map2 (XOR)
       (cbc_mac enc (chunks 16 (ccm_b0_spec nonce (aad \<noteq> []) tlen (length m) @
          pad16 (ccm_aad_spec aad) @ pad16 m)))
       (enc (ccm_ctr_spec nonce 0)))"

subsection \<open>The formatted blocks\<close>

lemma be_bytes_front: "be_bytes (Suc n) v = word_of_nat (v div 256 ^ n) # be_bytes n v"
proof (induction n arbitrary: v)
  case (Suc n)
  have "be_bytes (Suc (Suc n)) v = be_bytes (Suc n) (v div 256) @ [word_of_nat v]" by simp
  also have "\<dots> = word_of_nat (v div 256 div 256 ^ n) # be_bytes n (v div 256) @ [word_of_nat v]" unfolding Suc by simp
  finally show ?case by (simp add: div_mult2_eq)
qed simp

lemma low_byte: "(ucast (drop_bit (8 * i) (q :: u64) AND 0xff) :: u8) = word_of_nat (unat q div 256 ^ i)"
proof -
  have "(0xff :: u64) = mask 8" by (simp add: mask_eq_exp_minus_1)
  then have "drop_bit (8 * i) q AND 0xff = take_bit 8 (drop_bit (8 * i) q)" by (simp only: take_bit_eq_mask)
  then have "(ucast (drop_bit (8 * i) q AND 0xff) :: u8) = ucast (take_bit 8 (drop_bit (8 * i) q))" by (simp only:)
  also have "\<dots> = ucast (drop_bit (8 * i) q)" by (rule bit_word_eqI) (auto simp: bit_simps)
  also have "\<dots> = word_of_nat (drop_bit (8 * i) (unat q))" by (rule bit_word_eqI) (auto simp: bit_simps)
  also have "drop_bit (8 * i) (unat q) = unat q div 256 ^ i" by (simp add: drop_bit_eq_div power_mult)
  finally show ?thesis .
qed

lemma write_low_bytes_eq:
  assumes "length b = 16" "l \<le> 16"
  shows "write_low_bytes l q b = take (16 - l) b @ be_bytes l (unat q)"
proof -
  have "i \<le> 16 \<Longrightarrow> foldl (\<lambda>(b, q) i. (b[16 - 1 - i := ucast (q AND 0xff)], drop_bit 8 q)) (b, q) [0..<i] =
      (take (16 - i) b @ be_bytes i (unat q), drop_bit (8 * i) q)" for i
  proof (induction i)
    case (Suc i)
    then have i: "16 - i = Suc (15 - i)" "15 - i < length b" using assms(1) by simp_all
    then have "take (16 - i) b = take (15 - i) b @ [b ! (15 - i)]" by (simp add: take_Suc_conv_app_nth)
    with Suc i assms(1) show ?case
      by (simp add: low_byte be_bytes_front list_update_append drop_bit_drop_bit add.commute del: be_bytes.simps)
  qed (simp add: assms(1))
  from this [of l] assms(2) show ?thesis by (simp add: write_low_bytes_def)
qed

lemma formatted_block:
  assumes "7 \<le> length nonce" "length nonce \<le> 13"
  shows "write_low_bytes (15 - length nonce) q (copy_at ((zeros 16)[0 := x]) 1 nonce) =
    x # nonce @ be_bytes (15 - length nonce) (unat q)"
proof -
  have "(zeros 16)[0 := x] = x # zeros 15" by (simp add: zeros_def numeral_eq_Suc)
  moreover have "copy_at (x # zeros 15) 1 nonce = x # nonce @ zeros (15 - length nonce)"
    using assms by (simp add: copy_at_def zeros_def)
  ultimately show ?thesis
    using assms write_low_bytes_eq [of "x # nonce @ zeros (15 - length nonce)" "15 - length nonce" q]
    by (simp add: zeros_def del: be_bytes.simps)
qed

lemma be_bytes_u64: "n \<le> 8 \<Longrightarrow> be_bytes n (unat (word_of_nat v :: u64)) = be_bytes n v"
proof -
  assume "n \<le> 8"
  then have "(256 :: nat) ^ n dvd 2 ^ 64"
    using le_imp_power_dvd [of n 8 "256 :: nat"] by simp
  then have "v mod 2 ^ 64 mod 256 ^ n = v mod 256 ^ n" by (rule mod_mod_cancel)
  then show ?thesis using be_bytes_mod [of n "v mod 2 ^ 64"] be_bytes_mod [of n v]
    by (simp add: unsigned_of_nat take_bit_eq_mod del: be_bytes.simps)
qed

lemma format_ctr_eq:
  assumes "7 \<le> length nonce" "length nonce \<le> 13"
  shows "format_ctr nonce (word_of_nat i) = ccm_ctr_spec nonce i"
proof -
  have "word_of_nat (15 - length nonce) - 1 = (word_of_nat (15 - length nonce - 1) :: u8)"
    using assms by (simp add: of_nat_diff)
  moreover have "15 - length nonce \<le> 8" using assms by simp
  ultimately show ?thesis
    using formatted_block [OF assms] be_bytes_u64 [of "15 - length nonce" i]
    by (simp add: format_ctr_def ccm_ctr_spec_def Let_def del: be_bytes.simps)
qed

text \<open>The flags of the first block, for every valid tag and length-field size.\<close>

definition flags_agree :: "nat \<Rightarrow> nat \<Rightarrow> bool \<Rightarrow> bool" where
  "flags_agree tlen l adata \<longleftrightarrow>
     ((if adata then 0x40 else 0) OR push_bit 3 ((word_of_nat tlen - 2) div 2) OR (word_of_nat l - 1) :: u8) =
       word_of_nat ((if adata then 64 else 0) + 8 * ((tlen - 2) div 2) + (l - 1))"

lemma all_flags_agree:
  "list_all (\<lambda>t. list_all (\<lambda>l. list_all (flags_agree t l) [True, False]) [2, 3, 4, 5, 6, 7, 8]) [4, 6, 8, 10, 12, 14, 16]"
  by code_simp

lemma format_b0_eq:
  assumes "7 \<le> length nonce" "length nonce \<le> 13" "tlen_valid tlen"
  shows "format_b0 nonce adata tlen (word_of_nat plen) = ccm_b0_spec nonce adata tlen plen"
proof -
  have "15 - length nonce \<in> set [2, 3, 4, 5, 6, 7, 8]" using assms(1,2) by auto
  moreover have "tlen \<in> set [4, 6, 8, 10, 12, 14, 16]" using assms(3) by (simp add: tlen_valid_def)
  moreover have "adata \<in> set [True, False]" by simp
  ultimately have "flags_agree tlen (15 - length nonce) adata"
    using all_flags_agree unfolding list_all_iff by blast
  moreover have "15 - length nonce \<le> 8" using assms(1) by simp
  ultimately show ?thesis
    using formatted_block [OF assms(1,2)] be_bytes_u64 [of "15 - length nonce" plen]
    by (simp add: format_b0_def ccm_b0_spec_def Let_def flags_agree_def del: be_bytes.simps)
qed

subsection \<open>The CBC-MAC\<close>

lemma ccm_absorb_eq:
  "off \<le> length data \<Longrightarrow>
    ccm_absorb enc data off y = foldl (cbc_mac_block enc) y (chunks 16 (pad16 (drop off data)))"
proof (induction "length data - off" arbitrary: off y rule: less_induct)
  case less
  consider (block) "16 \<le> length data - off" | (tail) "0 < length data - off" "length data - off < 16" | (finished) "off = length data"
    using less(2) by linarith
  then show ?case
  proof cases
    case block
    then have "ccm_absorb enc data off y =
        ccm_absorb enc data (off + 16) (cbc_mac_block enc y (take 16 (drop off data)))" by (subst ccm_absorb.simps) simp
    moreover have "chunks 16 (pad16 (drop off data)) = take 16 (drop off data) # chunks 16 (pad16 (drop (off + 16) data))"
      using block chunks_pad16(1) [of "drop off data"] by (simp add: add.commute)
    ultimately show ?thesis using less(1) [of "off + 16"] block by simp
  next
    case tail
    then have "ccm_absorb enc data off y = cbc_mac_block enc y (copy_at (zeros 16) 0 (drop off data))"
      by (subst ccm_absorb.simps) simp
    moreover have "copy_at (zeros 16) 0 (drop off data) = drop off data @ zeros (16 - length (drop off data))"
      by (simp add: copy_at_def zeros_def)
    ultimately show ?thesis using chunks_pad16(2) [of "drop off data"] tail by simp
  next
    case finished
    then show ?thesis by (subst ccm_absorb.simps) (simp add: pad16_simps)
  qed
qed

lemma ccm_absorb_prefixed:
  assumes "length p \<le> 16" "p \<noteq> []" "aad \<noteq> []"
  shows "ccm_absorb enc aad (min (16 - length p) (length aad))
      (cbc_mac_block enc y (copy_at (p @ zeros (16 - length p)) (length p) (take (min (16 - length p) (length aad)) aad))) =
    foldl (cbc_mac_block enc) y (chunks 16 (pad16 (p @ aad)))"
proof (cases "16 \<le> length p + length aad")
  case True
  then have "chunks 16 (pad16 (p @ aad)) = (p @ take (16 - length p) aad) # chunks 16 (pad16 (drop (16 - length p) aad))"
    using chunks_pad16(1) [of "p @ aad"] assms(1) by simp
  moreover have "copy_at (p @ zeros (16 - length p)) (length p) (take (16 - length p) aad) = p @ take (16 - length p) aad"
    using True by (simp add: copy_at_def zeros_def)
  ultimately show ?thesis using True assms(1) ccm_absorb_eq [of "16 - length p" aad enc] by simp
next
  case False
  then have "chunks 16 (pad16 (p @ aad)) = [p @ aad @ zeros (16 - length p - length aad)]"
    using chunks_pad16(2) [of "p @ aad"] assms(2) by simp
  moreover have "copy_at (p @ zeros (16 - length p)) (length p) aad = p @ aad @ zeros (16 - length p - length aad)"
    by (simp add: copy_at_def zeros_def)
  ultimately show ?thesis using False ccm_absorb_eq [of "length aad" aad enc] by (simp add: pad16_simps)
qed

text \<open>The length of the associated data in front of it.\<close>

definition aad_header :: "bytes \<Rightarrow> bytes" where
  "aad_header aad =
     (if length aad < 2 ^ 16 - 2 ^ 8 then be_bytes 2 (length aad)
      else if length aad < 2 ^ 32 then [0xff, 0xfe] @ be_bytes 4 (length aad)
      else [0xff, 0xff] @ be_bytes 8 (length aad))"

lemma aad_header_props: "ccm_aad_spec aad = (if aad = [] then [] else aad_header aad @ aad)"
  "length (aad_header aad) \<le> 16" "aad_header aad \<noteq> []"
proof -
  show "ccm_aad_spec aad = (if aad = [] then [] else aad_header aad @ aad)"
    by (simp add: ccm_aad_spec_def aad_header_def)
  show "length (aad_header aad) \<le> 16" by (simp add: aad_header_def)
  have "1 < length (aad_header aad)" by (simp add: aad_header_def)
  then show "aad_header aad \<noteq> []" by auto
qed

lemma aad_prefix_eq:
  assumes "length aad < 2 ^ 64"
  shows "aad_prefix aad = (aad_header aad @ zeros (16 - length (aad_header aad)), length (aad_header aad))"
proof -
  let ?n = "length aad"
  have u: "unat (word_of_nat ?n :: u64) = ?n" using assms by (simp add: unsigned_of_nat take_bit_nat_eq_self)
  have b1: "(word_of_nat ?n :: u64) < push_bit 16 1 - push_bit 8 1 \<longleftrightarrow> ?n < 2 ^ 16 - 2 ^ 8"
    and b2: "(word_of_nat ?n :: u64) < push_bit 32 1 \<longleftrightarrow> ?n < 2 ^ 32"
    by (simp_all add: word_less_nat_alt u)
  have z: "zeros 16 = 0 # 0 # zeros 14" by (simp add: zeros_def numeral_eq_Suc)
  have c: "copy_at (x # y # zeros 14) 2 b = [x, y] @ b @ zeros (14 - length b)" for x y :: u8 and b
    by (simp add: copy_at_def zeros_def)
  have two: "be_bytes 2 ?n = [ucast (drop_bit 8 (word_of_nat ?n :: u64) AND 0xff), ucast ((word_of_nat ?n :: u64) AND 0xff)]"
    using low_byte [of 1 "word_of_nat ?n"] low_byte [of 0 "word_of_nat ?n"] by (simp add: u numeral_2_eq_2)
  have four: "be_of_u32 (ucast (word_of_nat ?n :: u64)) = be_bytes 4 ?n"
  proof -
    have "(ucast (word_of_nat ?n :: u64) :: u32) = word_of_nat ?n" by (rule bit_word_eqI) (auto simp: bit_simps)
    then show ?thesis by (simp only: be_of_u32_eq)
  qed
  show ?thesis
    unfolding aad_prefix_def Let_def b1 b2 aad_header_def
    by (cases "?n < 2 ^ 16 - 2 ^ 8"; cases "?n < 2 ^ 32")
      (simp_all add: z two four be_of_u64_eq c del: be_bytes.simps)
qed

lemma ccm_mac_eq:
  assumes "\<And>b. length b = 16 \<Longrightarrow> length (enc b) = 16" "7 \<le> length nonce" "length nonce \<le> 13" "tlen_valid tlen"
    and "length aad < 2 ^ 64"
  shows "ccm_mac enc nonce aad m tlen = cbc_mac enc (chunks 16 (ccm_b0_spec nonce (aad \<noteq> []) tlen (length m) @
    pad16 (ccm_aad_spec aad) @ pad16 m))"
proof -
  let ?b0 = "ccm_b0_spec nonce (aad \<noteq> []) tlen (length m)" and ?y = "enc (ccm_b0_spec nonce (aad \<noteq> []) tlen (length m))"
  have l: "length ?b0 = 16" using assms(2,3) by (simp add: ccm_b0_spec_def Let_def)
  then have "map2 (XOR) (zeros 16) ?b0 = ?b0" by (intro nth_equalityI) (simp_all add: zeros_def)
  moreover have "chunks 16 (?b0 @ x) = ?b0 # chunks 16 x" for x
    using chunks_append [of 16 ?b0 x] l chunks_single [OF l] by simp
  moreover have "(if aad \<noteq> []
      then let (first, prefix_len) = aad_prefix aad; taken = min (16 - prefix_len) (length aad);
               first = copy_at first prefix_len (take taken aad)
        in ccm_absorb enc aad taken (cbc_mac_block enc ?y first)
      else ?y) = foldl (cbc_mac_block enc) ?y (chunks 16 (pad16 (ccm_aad_spec aad)))"
    using ccm_absorb_prefixed [of "aad_header aad" aad enc ?y] aad_header_props [of aad]
    by (simp add: aad_prefix_eq [OF assms(5)] Let_def pad16_simps)
  ultimately show ?thesis
    unfolding ccm_mac_def format_b0_eq [OF assms(2-4)] cbc_mac_def Let_def
    by (simp add: chunks_append pad16_simps(1) ccm_absorb_eq cbc_mac_block_def [abs_def] Let_def)
qed

subsection \<open>Both directions\<close>

lemma validate_params_ok:
  assumes "validate_params n al pl t = Inr u"
  shows "7 \<le> n" "n \<le> 13" "tlen_valid t" "al < 2 ^ 64" "t \<le> 16"
  using assms by (auto simp: validate_params_def NLEN_MIN_def NLEN_MAX_def tlen_valid_def Let_def split: if_splits)

lemma counter_from_1: "((\<lambda>i. i + 1) ^^ j) 1 = (word_of_nat (1 + j) :: u64)"
  by (induction j) (simp_all add: add.commute)

lemma length_ccm_ctr: "length nonce \<le> 15 \<Longrightarrow> length (ccm_ctr_spec nonce i) = 16"
  by (simp add: ccm_ctr_spec_def Let_def del: be_bytes.simps)

lemma ccm_stream:
  assumes "\<And>b. length b = 16 \<Longrightarrow> length (enc b) = 16" "7 \<le> length nonce" "length nonce \<le> 13" "length m \<le> length out"
  shows "xor_stream (\<lambda>i. i + 1) (ccm_keystream enc nonce) m 0 1 out env =
    (Inr (), ccm_payload enc nonce m @ drop (length m) out, env)"
    "length (ccm_payload enc nonce m) = length m" "ccm_payload enc nonce (ccm_payload enc nonce m) = m"
proof -
  have k: "ccm_keystream enc nonce (((\<lambda>i. i + 1) ^^ j) 1) = enc (ccm_ctr_spec nonce (1 + j))" for j
    unfolding counter_from_1 ccm_keystream_def format_ctr_eq [OF assms(2,3)] by (rule refl)
  have l: "length (enc (ccm_ctr_spec nonce (1 + j))) = 16" for j
    using assms(3) by (intro assms(1) length_ccm_ctr) simp
  show len: "length (ccm_payload enc nonce m) = length m" unfolding ccm_payload_def by (rule length_stream_spec [OF l])
  show "ccm_payload enc nonce (ccm_payload enc nonce m) = m" unfolding ccm_payload_def by (rule stream_twice [OF l])
  have "length (ccm_keystream enc nonce (((\<lambda>i. i + 1) ^^ j) 1)) = 16" for j unfolding k by (rule l)
  from xor_stream_eq [of "ccm_keystream enc nonce" "\<lambda>i. i + 1" 1 m out env, OF this,
      unfolded k ccm_payload_def [symmetric]] len assms(4)
  show "xor_stream (\<lambda>i. i + 1) (ccm_keystream enc nonce) m 0 1 out env =
      (Inr (), ccm_payload enc nonce m @ drop (length m) out, env)"
    by simp
qed

lemma write_at:
  "n + t \<le> length out \<Longrightarrow>
    foldl (\<lambda>out k. out[n + k := f k]) out [0..<t] = take n out @ map f [0..<t] @ drop (n + t) out"
proof (induction t)
  case (Suc t)
  then have "drop (n + t) out = out ! (n + t) # drop (Suc (n + t)) out" by (simp add: Cons_nth_drop_Suc)
  with Suc show ?case by (simp add: list_update_append)
qed simp

lemma tag_bytes:
  assumes "length y = 16" "length s = 16" "t \<le> 16"
  shows "map (\<lambda>k. y ! k XOR s ! k) [0..<t] = take t (map2 (XOR) y s)"
  using assms by (intro nth_equalityI) simp_all

lemma ct_eq_eq: "ct_eq a b \<longleftrightarrow> a = b"
proof (cases "length a = length b")
  case True
  then have "ct_eq a b \<longleftrightarrow> (\<forall>k < length a. a ! k = b ! k)" by (auto simp: ct_eq_def or_fold_zero xor_zero)
  with True show ?thesis by (simp add: list_eq_iff_nth_eq)
qed (auto simp: ct_eq_def)

lemma ccm_tag_eq:
  assumes "\<And>b. length b = 16 \<Longrightarrow> length (enc b) = 16" "7 \<le> length nonce" "length nonce \<le> 13" "tlen_valid tlen"
    and "length aad < 2 ^ 64" "tlen \<le> 16"
  shows "map (\<lambda>k. ccm_mac enc nonce aad m tlen ! k XOR ccm_keystream enc nonce 0 ! k) [0..<tlen] =
      ccm_tag enc nonce aad m tlen"
    "length (ccm_tag enc nonce aad m tlen) = tlen"
proof -
  let ?bs = "chunks 16 (ccm_b0_spec nonce (aad \<noteq> []) tlen (length m) @ pad16 (ccm_aad_spec aad) @ pad16 m)"
  have m: "ccm_mac enc nonce aad m tlen = cbc_mac enc ?bs" by (rule ccm_mac_eq) (use assms in simp_all)
  have k: "ccm_keystream enc nonce 0 = enc (ccm_ctr_spec nonce 0)"
    using format_ctr_eq [OF assms(2,3), of 0] by (simp add: ccm_keystream_def)
  have l: "length (enc (ccm_ctr_spec nonce 0)) = 16" using assms(3) by (intro assms(1) length_ccm_ctr) simp
  have "16 dvd length (ccm_b0_spec nonce (aad \<noteq> []) tlen (length m))" using assms(2,3) by (simp add: ccm_b0_spec_def Let_def)
  moreover have "16 dvd length (pad16 d)" for d using pad16_simps(1) [of d] by (simp add: mod_eq_0_iff_dvd)
  ultimately have "length (ccm_b0_spec nonce (aad \<noteq> []) tlen (length m) @ pad16 (ccm_aad_spec aad) @ pad16 m) mod 16 = 0"
    by (simp add: mod_eq_0_iff_dvd)
  note b = chunks_aligned [OF this]
  have "length (foldl (\<lambda>y b. enc (map2 (XOR) y b)) y bs) = 16"
    if "length y = 16" "\<forall>b \<in> set bs. length b = 16" for y bs
    using that by (induction bs arbitrary: y) (simp_all add: assms(1))
  then have mac: "length (cbc_mac enc ?bs) = 16" unfolding cbc_mac_def using b by (simp add: zeros_def)
  show "map (\<lambda>k. ccm_mac enc nonce aad m tlen ! k XOR ccm_keystream enc nonce 0 ! k) [0..<tlen] =
      ccm_tag enc nonce aad m tlen"
    unfolding m k ccm_tag_def by (rule tag_bytes [OF mac l assms(6)])
  show "length (ccm_tag enc nonce aad m tlen) = tlen" using mac l assms(6) by (simp add: ccm_tag_def)
qed

lemma ccm_encrypt_exact:
  assumes "\<And>b. length b = 16 \<Longrightarrow> length (cipher_encrypt c b) = 16"
  shows "ccm_encrypt c nonce aad m tlen out env = past_guard (\<lambda>e. Refused (ModeModule e)) env out
    (case validate_params (length nonce) (length aad) (length m) tlen of
       Inl e \<Rightarrow> (Inl (Refused e), out)
     | Inr _ \<Rightarrow>
         if length out \<noteq> length m + tlen then (Inl (Refused LengthMismatch), out)
         else (Inr (), ccm_payload (cipher_encrypt c) nonce m @ ccm_tag (cipher_encrypt c) nonce aad m tlen))"
proof (cases "validate_params (length nonce) (length aad) (length m) tlen")
  case (Inl e)
  then show ?thesis by (simp add: ccm_encrypt_def mode_guard_bind past_guard_def act_simps split: sum.splits)
next
  case (Inr u)
  note v = validate_params_ok [OF Inr]
  show ?thesis
  proof (cases "length out = length m + tlen")
    case False
    then show ?thesis using Inr by (simp add: ccm_encrypt_def mode_guard_bind past_guard_def act_simps split: sum.splits)
  next
    case True
    let ?enc = "cipher_encrypt c"
    note stream = ccm_stream [of ?enc nonce m out, OF assms v(1,2)]
    have "foldl (\<lambda>out k. out[length m + k := ccm_mac ?enc nonce aad m tlen ! k XOR ccm_keystream ?enc nonce 0 ! k])
        (ccm_payload ?enc nonce m @ drop (length m) out) [0..<tlen] =
      ccm_payload ?enc nonce m @ ccm_tag ?enc nonce aad m tlen"
      using stream(2) True by (subst write_at) (simp_all add: ccm_tag_eq(1) [of ?enc, OF assms v])
    then show ?thesis
      unfolding ccm_encrypt_def mode_guard_bind
      using Inr True stream(1)
      by (simp add: past_guard_def act_simps act_bind_def Let_def split: sum.splits)
  qed
qed

lemma ccm_decrypt_exact:
  assumes "\<And>b. length b = 16 \<Longrightarrow> length (cipher_encrypt c b) = 16"
  shows "ccm_decrypt c nonce aad ct tlen out env = past_guard (\<lambda>e. Refused (ModeModule e)) env out
    (if length ct < tlen then (Inl (Refused LengthMismatch), out)
     else case validate_params (length nonce) (length aad) (length ct - tlen) tlen of
       Inl e \<Rightarrow> (Inl (Refused e), out)
     | Inr _ \<Rightarrow>
         if length out \<noteq> length ct - tlen then (Inl (Refused LengthMismatch), out)
         else let m = ccm_payload (cipher_encrypt c) nonce (take (length ct - tlen) ct)
           in if drop (length ct - tlen) ct = ccm_tag (cipher_encrypt c) nonce aad m tlen then (Inr (), m)
              else (Inl (Refused TagMismatch), zeros (length out)))"
proof (cases "length ct < tlen")
  case True
  then show ?thesis by (simp add: ccm_decrypt_def mode_guard_bind past_guard_def act_simps split: sum.splits)
next
  case False
  let ?p = "length ct - tlen"
  show ?thesis
  proof (cases "validate_params (length nonce) (length aad) ?p tlen")
    case (Inl e)
    then show ?thesis using False
      by (simp add: ccm_decrypt_def mode_guard_bind past_guard_def act_simps Let_def split: sum.splits)
  next
    case (Inr u)
    note v = validate_params_ok [OF Inr]
    show ?thesis
    proof (cases "length out = ?p")
      case out: False
      then show ?thesis using False Inr
        by (simp add: ccm_decrypt_def mode_guard_bind past_guard_def act_simps Let_def split: sum.splits)
    next
      case True
      let ?enc = "cipher_encrypt c"
      let ?m = "ccm_payload ?enc nonce (take ?p ct)"
      note stream = ccm_stream [of ?enc nonce "take ?p ct" out, OF assms v(1,2)]
      have m: "length ?m = ?p" "drop ?p out = []" using stream(2) True by simp_all
      note tag = ccm_tag_eq [of ?enc, OF assms v(1-5), of ?m]
      have "foldl (\<lambda>t k. t[0 + k := ccm_mac ?enc nonce aad ?m tlen ! k XOR ccm_keystream ?enc nonce 0 ! k]) (zeros 16) [0..<tlen] =
          take 0 (zeros 16) @ map (\<lambda>k. ccm_mac ?enc nonce aad ?m tlen ! k XOR ccm_keystream ?enc nonce 0 ! k) [0..<tlen] @
            drop (0 + tlen) (zeros 16)"
        using v(5) by (intro write_at) simp
      then have expected: "take tlen (foldl (\<lambda>t k. t[k := ccm_mac ?enc nonce aad ?m tlen ! k XOR ccm_keystream ?enc nonce 0 ! k])
          (zeros 16) [0..<tlen]) = ccm_tag ?enc nonce aad ?m tlen"
        using tag by simp
      have "length (ccm_tag ?enc nonce aad ?m tlen) = tlen" by (rule ccm_tag_eq(2)) (use assms v in simp_all)
      then have t: "take tlen (ccm_tag ?enc nonce aad ?m tlen) = ccm_tag ?enc nonce aad ?m tlen" by simp
      have received: "take tlen (drop ?p ct) = drop ?p ct" using False by simp
      have s: "xor_stream (\<lambda>i. i + 1) (ccm_keystream ?enc nonce) (take ?p ct) 0 1 out env = (Inr (), ?m, env)" for env
        using stream(1) True by simp
      show ?thesis
        unfolding ccm_decrypt_def mode_guard_bind
        using False Inr True m(1) expected received t
        by (simp add: past_guard_def act_simps act_bind_def Let_def s ct_eq_eq split: sum.splits)
    qed
  qed
qed

subsection \<open>The properties\<close>


lemma ccm_accepts_wraps:
  assumes "\<And>b. length b = 16 \<Longrightarrow> length (cipher_encrypt c b) = 16"
  shows "ccm_decrypt c nonce aad ct tlen out env = (Inr (), p, env') \<longleftrightarrow>
    length p = length out \<and> ccm_encrypt c nonce aad p tlen (zeros (length p + tlen)) env = (Inr (), ct, env')"
    (is "?accepted \<longleftrightarrow> ?made")
proof (cases "gate_at env 0")
  case (Inl e)
  then show ?thesis by (simp add: ccm_encrypt_exact [OF assms] ccm_decrypt_exact [OF assms] past_guard_def)
next
  case g: (Inr u)
  let ?enc = "cipher_encrypt c"
  show ?thesis
  proof
    assume acc: ?accepted
    let ?n = "length ct - tlen"
    let ?m = "ccm_payload ?enc nonce (take ?n ct)"
    from acc g have env': "env' = env_later env 1" by (simp add: ccm_decrypt_exact [OF assms] past_guard_def)
    from acc g obtain u where v: "validate_params (length nonce) (length aad) ?n tlen = Inr u"
      and l: "tlen \<le> length ct" "length out = ?n" "p = ?m" "drop ?n ct = ccm_tag ?enc nonce aad ?m tlen"
      by (auto simp: ccm_decrypt_exact [OF assms] past_guard_def Let_def split: sum.splits if_splits)
    note ok = validate_params_ok [OF v]
    note stream = ccm_stream(2,3) [of ?enc nonce "take ?n ct" "take ?n ct", OF assms ok(1,2)]
    have "length p = ?n" using stream(1) l(3) by simp
    moreover have "ccm_payload ?enc nonce p @ ccm_tag ?enc nonce aad p tlen = ct"
      using stream(2) l(3,4) by (metis append_take_drop_id order_refl)
    ultimately show ?made
      using v l(2) env' g by (simp add: ccm_encrypt_exact [OF assms] past_guard_def)
  next
    assume made: ?made
    then have env': "env' = env_later env 1" using g by (simp add: ccm_encrypt_exact [OF assms] past_guard_def)
    from made g obtain u where v: "validate_params (length nonce) (length aad) (length p) tlen = Inr u"
      and l: "length p = length out" "ct = ccm_payload ?enc nonce p @ ccm_tag ?enc nonce aad p tlen"
      by (auto simp: ccm_encrypt_exact [OF assms] past_guard_def split: sum.splits if_splits)
    note ok = validate_params_ok [OF v]
    note stream = ccm_stream(2,3) [of ?enc nonce p p, OF assms ok(1,2)]
    have t: "length (ccm_tag ?enc nonce aad p tlen) = tlen" by (rule ccm_tag_eq(2)) (use assms ok in simp_all)
    have "length ct - tlen = length p" "tlen \<le> length ct" "take (length p) ct = ccm_payload ?enc nonce p"
      "drop (length p) ct = ccm_tag ?enc nonce aad p tlen" "ccm_payload ?enc nonce (ccm_payload ?enc nonce p) = p"
      using l(2) stream t by simp_all
    then show ?accepted
      using v l(1) env' g by (simp add: ccm_decrypt_exact [OF assms] past_guard_def Let_def)
  qed
qed

text \<open>C33: CCM decryption accepts exactly what CCM encryption produces: a ciphertext decrypts to a message
  if and only if encrypting that message under the same key, nonce, associated data and tag length, in the
  same state of the module, gives that ciphertext.  This is the round trip and, in the other direction, that
  no modified ciphertext or tag is accepted unless it is itself the encryption of what is returned.\<close>

theorem ccm_accepts:
  "ccm_decrypt (aes_key a key) nonce aad ct tlen out env = (Inr (), p, env') \<longleftrightarrow>
     length p = length out \<and>
     ccm_encrypt (aes_key a key) nonce aad p tlen (zeros (length p + tlen)) env = (Inr (), ct, env')"
  by (rule ccm_accepts_wraps [OF aes_key_lengths(1)])

end
