(* ===== verification/Mlkem_Field.thy ===== *)
theory Mlkem_Field
  imports Prelude "HOL-Library.Numeral_Type"
begin

text \<open>
  Arithmetic modulo \<open>q = 3329\<close> of \<^verbatim>\<open>src/crates/oxicrypt-ml-kem/src/field.rs\<close>: Montgomery and Barrett reduction on
  signed 16-bit coefficients, and the constant-time comparison and selection.  Signed integers are words read
  by \<open>sint\<close>; a word stands for the residue \<open>zq w\<close> in the ring of integers modulo 3329, the type \<open>3329\<close>.
\<close>

type_synonym i16 = "16 word"
type_synonym i32 = "32 word"
type_synonym zq = 3329

subsection \<open>The code\<close>

definition Q_I32 :: i32 where "Q_I32 = 3329"
definition QINV :: i16 where "QINV = - 3327"
definition R2 :: i16 where "R2 = 1353"

definition montgomery_reduce :: "i32 \<Rightarrow> i16" where
  "montgomery_reduce a =
     (let t = ucast a * QINV
      in ucast (signed_drop_bit 16 (a - scast t * Q_I32)))"

definition fqmul :: "i16 \<Rightarrow> i16 \<Rightarrow> i16" where
  "fqmul a b = montgomery_reduce (scast a * scast b)"

definition barrett_reduce :: "i16 \<Rightarrow> i16" where
  "barrett_reduce a =
     (let v = 20159;
          t = signed_drop_bit 26 (scast a * v + push_bit 25 1);
          r = scast a - t * Q_I32;
          mask = signed_drop_bit 31 (r - Q_I32);
          r = r - and Q_I32 (not mask)
      in ucast r)"

definition reduce_full :: "i16 \<Rightarrow> i16" where
  "reduce_full a =
     (let r = barrett_reduce a;
          s = scast r :: i32;
          s = s + and Q_I32 (signed_drop_bit 31 s)
      in ucast s)"

definition to_mont :: "i16 \<Rightarrow> i16" where
  "to_mont a = fqmul a R2"

definition ct_bytes_eq :: "bytes \<Rightarrow> bytes \<Rightarrow> u8" where
  "ct_bytes_eq a b =
     (let len = if length a < length b then length a else length b;
          diff = foldl (\<lambda>diff i. or diff (xor (a ! i) (b ! i))) 0 [0..<len]
      in if length a \<noteq> length b then or diff 0xFF else diff)"

definition ct_select_32 :: "bytes \<Rightarrow> bytes \<Rightarrow> u8 \<Rightarrow> bytes" where
  "ct_select_32 a b flag =
     (let bit = flag;
          bit = or bit (drop_bit 4 bit);
          bit = or bit (drop_bit 2 bit);
          bit = or bit (drop_bit 1 bit);
          mask = - (and bit 1)
      in map (\<lambda>i. xor (a ! i) (and mask (xor (a ! i) (b ! i)))) [0..<32])"

subsection \<open>Residues\<close>

definition zq :: "i16 \<Rightarrow> zq" where
  "zq w = of_int (sint w)"

lemma zq_of_int_0: "(of_int x :: zq) = 0 \<longleftrightarrow> 3329 dvd x"
  by (simp add: of_int_eq_0_iff_char_dvd)

lemma zq_of_int_eq: "(of_int x :: zq) = of_int y \<longleftrightarrow> x mod 3329 = y mod 3329"
  using zq_of_int_0 [of "x - y"] by (simp add: mod_eq_dvd_iff)

lemma zq_minus_multiple: "(of_int (x - y * 3329) :: zq) = of_int x"
  unfolding zq_of_int_eq by (simp add: mod_eq_dvd_iff)

lemma zq_of_int_mod: "(of_int x :: zq) = of_int (x mod 3329)"
  by (simp add: zq_of_int_eq)

lemma zq_numeral_mod: "(numeral k :: zq) = of_int (numeral k mod 3329)"
  by (metis of_int_numeral zq_of_int_mod)

lemma sint_range16: "- 32768 \<le> sint (w :: i16)" "sint (w :: i16) \<le> 32767"
  using sint_ge [of w] sint_lt [of w] by simp_all

lemma sint_of_int32: "- 2147483648 \<le> x \<Longrightarrow> x \<le> 2147483647 \<Longrightarrow> sint (word_of_int x :: i32) = x"
  by (simp add: sint_sbintrunc' signed_take_bit_int_eq_self)

lemma sint_of_int16: "- 32768 \<le> x \<Longrightarrow> x \<le> 32767 \<Longrightarrow> sint (word_of_int x :: i16) = x"
  by (simp add: sint_sbintrunc' signed_take_bit_int_eq_self)

lemma scast_of_int: "(scast (w :: i16) :: i32) = word_of_int (sint w)"
  by (rule scast_eq)

lemma ucast_of_int: "(ucast (word_of_int x :: i32) :: i16) = word_of_int x"
  by (rule bit_word_eqI) (simp add: bit_simps)

lemma signed_drop_of_int:
  assumes "- 2147483648 \<le> x" "x \<le> 2147483647"
  shows "signed_drop_bit n (word_of_int x :: i32) = word_of_int (x div 2 ^ n)"
proof -
  have "sint (signed_drop_bit n (word_of_int x :: i32)) = x div 2 ^ n"
    by (simp add: sint_signed_drop_bit_eq sint_of_int32 [OF assms] drop_bit_eq_div)
  then have "word_of_int (sint (signed_drop_bit n (word_of_int x :: i32))) = (word_of_int (x div 2 ^ n) :: i32)"
    by (rule arg_cong)
  then show ?thesis by simp
qed

subsection \<open>Montgomery reduction\<close>

text \<open>The reduction subtracts the multiple of \<open>q\<close> that clears the low half, then shifts it away.\<close>

lemma montgomery_reduce_shift:
  assumes "- 2038398976 \<le> A" "A \<le> 2038398975"
  obtains T where "- 32768 \<le> T" "T \<le> 32767" "65536 dvd A - T * 3329"
    "montgomery_reduce (word_of_int A) = word_of_int ((A - T * 3329) div 65536)"
proof
  let ?t = "word_of_int A * QINV :: i16" and ?T = "sint (word_of_int A * QINV :: i16)"
  show T: "- 32768 \<le> ?T" "?T \<le> 32767" by (rule sint_range16)+
  have "?t = word_of_int (A * - 3327)" by (simp add: QINV_def)
  then have "uint ?t = (A * - 3327) mod 65536" by (simp only: uint_word_of_int) simp
  moreover have "uint ?t = ?T mod 65536" by (simp add: uint_sint take_bit_eq_mod)
  ultimately have "?T mod 65536 = (A * - 3327) mod 65536" by simp
  then have "65536 dvd ?T + A * 3327" by (simp add: mod_eq_dvd_iff)
  then obtain k where "?T + A * 3327 = 65536 * k" by (elim dvdE)
  then have "A - ?T * 3329 = 65536 * (169 * A - 3329 * k)" by (simp add: algebra_simps)
  then show "65536 dvd A - ?T * 3329" by (rule dvdI)
  have "word_of_int A - scast ?t * Q_I32 = (word_of_int (A - ?T * 3329) :: i32)"
    by (simp only: scast_of_int Q_I32_def of_int_diff of_int_mult of_int_numeral)
  moreover have "signed_drop_bit 16 (word_of_int (A - ?T * 3329) :: i32) = word_of_int ((A - ?T * 3329) div 2 ^ 16)"
    using assms T by (intro signed_drop_of_int) simp_all
  ultimately show "montgomery_reduce (word_of_int A) = word_of_int ((A - ?T * 3329) div 65536)"
    unfolding montgomery_reduce_def Let_def ucast_of_int by (simp only: ucast_of_int power_numeral) simp
qed

lemma montgomery_reduce_correct:
  assumes "\<bar>sint a\<bar> < 3329 * 32768"
  shows "\<bar>sint (montgomery_reduce a)\<bar> < 3329" "zq (montgomery_reduce a) * 65536 = of_int (sint a)"
proof -
  obtain T where T: "- 32768 \<le> T" "T \<le> 32767" "65536 dvd sint a - T * 3329"
    and r: "montgomery_reduce (word_of_int (sint a)) = word_of_int ((sint a - T * 3329) div 65536)"
    using assms by (rule_tac montgomery_reduce_shift [of "sint a"]) simp_all
  let ?m = "(sint a - T * 3329) div 65536"
  have m: "?m * 65536 = sint a - T * 3329" using T(3) by simp
  with assms T(1,2) have bound: "\<bar>?m\<bar> < 3329" by linarith
  then have s: "sint (montgomery_reduce a) = ?m" using r by (simp add: sint_of_int16)
  then show "\<bar>sint (montgomery_reduce a)\<bar> < 3329" using bound by simp
  have "(of_int ?m :: zq) * 65536 = of_int (sint a - T * 3329)"
    by (metis m of_int_mult of_int_numeral)
  also have "\<dots> = of_int (sint a)" by (rule zq_minus_multiple)
  finally show "zq (montgomery_reduce a) * 65536 = of_int (sint a)" by (simp add: zq_def s)
qed


text \<open>The inverse of \<open>2^16\<close> modulo \<open>q\<close> is 169.\<close>

lemma zq_169: "(65536 :: zq) * 169 = 1"
  using zq_of_int_eq [of "65536 * 169" 1] by simp

lemma montgomery_reduce_zq:
  assumes "\<bar>sint a\<bar> < 3329 * 32768"
  shows "zq (montgomery_reduce a) = 169 * of_int (sint a)"
proof -
  have "zq (montgomery_reduce a) = zq (montgomery_reduce a) * 65536 * 169"
    by (simp only: mult.assoc zq_169 mult_1_right)
  also have "\<dots> = 169 * of_int (sint a)"
    by (simp only: montgomery_reduce_correct(2) [OF assms] mult.commute)
  finally show ?thesis .
qed

lemma fqmul_correct:
  assumes "\<bar>sint a\<bar> < 3329 \<or> \<bar>sint b\<bar> < 3329"
  shows "\<bar>sint (fqmul a b)\<bar> < 3329" "zq (fqmul a b) = 169 * zq a * zq b"
proof -
  have a: "\<bar>sint a\<bar> \<le> 32768" and b: "\<bar>sint b\<bar> \<le> 32768"
    using sint_range16 [of a] sint_range16 [of b] by linarith+
  have "\<bar>sint a * sint b\<bar> \<le> 3328 * 32768"
    unfolding abs_mult
  proof (rule disjE [OF assms])
    assume "\<bar>sint a\<bar> < 3329"
    then show "\<bar>sint a\<bar> * \<bar>sint b\<bar> \<le> 3328 * 32768" using b by (intro mult_mono) simp_all
  next
    assume "\<bar>sint b\<bar> < 3329"
    then have "\<bar>sint b\<bar> * \<bar>sint a\<bar> \<le> 3328 * 32768" using a by (intro mult_mono) simp_all
    then show "\<bar>sint a\<bar> * \<bar>sint b\<bar> \<le> 3328 * 32768" by (simp add: mult.commute)
  qed
  then have bound: "\<bar>sint a * sint b\<bar> < 3329 * 32768" by simp
  moreover have "(scast a * scast b :: i32) = word_of_int (sint a * sint b)" by (simp only: scast_of_int of_int_mult)
  ultimately have s: "sint (scast a * scast b :: i32) = sint a * sint b"
    by (simp only:) (rule sint_of_int32; linarith)
  show "\<bar>sint (fqmul a b)\<bar> < 3329" "zq (fqmul a b) = 169 * zq a * zq b"
    using montgomery_reduce_correct(1) [of "scast a * scast b"] montgomery_reduce_zq [of "scast a * scast b"] bound
    by (simp_all add: fqmul_def s zq_def mult.assoc)
qed

subsection \<open>Barrett reduction\<close>

lemma barrett_reduce_int:
  "barrett_reduce a = word_of_int (sint a - (sint a * 20159 + 33554432) div 67108864 * 3329) \<and>
   \<bar>sint a - (sint a * 20159 + 33554432) div 67108864 * 3329\<bar> \<le> 1664"
proof -
  let ?T = "(sint a * 20159 + 33554432) div 67108864" and ?A = "sint a"
  have A: "- 32768 \<le> ?A" "?A \<le> 32767" by (rule sint_range16)+
  define S where "S = (?A * 20159 + 33554432) mod 67108864"
  have "?A * 20159 + 33554432 = ?T * 67108864 + S" unfolding S_def by (rule div_mult_mod_eq [symmetric])
  moreover have "0 \<le> S" "S < 67108864" by (simp_all add: S_def)
  ultimately have r: "\<bar>?A - ?T * 3329\<bar> \<le> 1664" using A by linarith
  have bits: "push_bit 25 1 = (33554432 :: i32)" by (simp add: push_bit_eq_mult)
  have "scast a * 20159 + push_bit 25 1 = (word_of_int (?A * 20159 + 33554432) :: i32)"
    by (simp only: bits scast_of_int of_int_add of_int_mult of_int_numeral)
  moreover have "signed_drop_bit 26 (word_of_int (?A * 20159 + 33554432) :: i32) = word_of_int ?T"
    using signed_drop_of_int [of "?A * 20159 + 33554432" 26] A by simp
  ultimately have t: "signed_drop_bit 26 (scast a * 20159 + push_bit 25 1 :: i32) = word_of_int ?T" by (simp only:)
  have d: "scast a - word_of_int ?T * Q_I32 = (word_of_int (?A - ?T * 3329) :: i32)"
    by (simp only: scast_of_int Q_I32_def of_int_diff of_int_mult of_int_numeral)
  have "word_of_int (?A - ?T * 3329) - Q_I32 = (word_of_int (?A - ?T * 3329 - 3329) :: i32)"
    by (simp only: Q_I32_def of_int_diff of_int_numeral)
  moreover have "signed_drop_bit 31 (word_of_int (?A - ?T * 3329 - 3329) :: i32) = word_of_int (- 1)"
  proof -
    have "(?A - ?T * 3329 - 3329) div 2 ^ 31 = - 1" 
      by (rule int_div_pos_eq [where r = "?A - ?T * 3329 - 3329 + 2 ^ 31"]) (use r in \<open>simp_all add: abs_le_iff\<close>)
    then show ?thesis using signed_drop_of_int [of "?A - ?T * 3329 - 3329" 31] r by (simp only: abs_le_iff) linarith
  qed
  ultimately have m: "signed_drop_bit 31 (word_of_int (?A - ?T * 3329) - Q_I32) = (- 1 :: i32)" by (simp only: of_int_minus of_int_1)
  have "barrett_reduce a = word_of_int (?A - ?T * 3329)"
    unfolding barrett_reduce_def Let_def t d m by (simp only: ucast_of_int bit.compl_one and_zero_eq diff_zero)
  with r show ?thesis by (rule_tac conjI)
qed

lemma barrett_reduce_correct:
  "\<bar>sint (barrett_reduce a)\<bar> \<le> 1664" "zq (barrett_reduce a) = zq a"
proof -
  let ?R = "sint a - (sint a * 20159 + 33554432) div 67108864 * 3329"
  have "sint (barrett_reduce a) = ?R"
    using barrett_reduce_int [of a] by (auto simp only: sint_of_int16 abs_le_iff)
  then show "\<bar>sint (barrett_reduce a)\<bar> \<le> 1664" "zq (barrett_reduce a) = zq a"
    using barrett_reduce_int [of a] by (simp_all only: zq_def zq_minus_multiple)
qed

lemma reduce_full_correct: "sint (reduce_full a) = sint a mod 3329"
proof -
  let ?r = "sint (barrett_reduce a)"
  have mod: "?r mod 3329 = sint a mod 3329"
    using barrett_reduce_correct(2) [of a] by (simp only: zq_def zq_of_int_eq)
  have "signed_drop_bit 31 (word_of_int ?r :: i32) = word_of_int (?r div 2 ^ 31)"
    using barrett_reduce_correct(1) [of a] by (intro signed_drop_of_int) simp_all
  moreover have "?r div 2 ^ 31 = (if ?r < 0 then - 1 else 0)"
    using barrett_reduce_correct(1) [of a] by auto
  ultimately have shift: "signed_drop_bit 31 (word_of_int ?r :: i32) = (if ?r < 0 then - 1 else 0)"
    by (simp only:) simp
  have "reduce_full a = word_of_int (if ?r < 0 then ?r + 3329 else ?r)"
  proof (cases "?r < 0")
    case True
    then have "reduce_full a = ucast (word_of_int ?r + Q_I32)"
      unfolding reduce_full_def Let_def scast_of_int shift by (simp only: if_True and.right_neutral)
    also have "word_of_int ?r + Q_I32 = (word_of_int (?r + 3329) :: i32)"
      by (simp only: Q_I32_def of_int_add of_int_numeral)
    finally show ?thesis using True by (simp only: ucast_of_int if_True)
  next
    case False
    then show ?thesis
      unfolding reduce_full_def Let_def scast_of_int shift
      by (simp only: if_False and_zero_eq add_0_right ucast_of_int)
  qed
  moreover have "(if ?r < 0 then ?r + 3329 else ?r) = ?r mod 3329"
    using barrett_reduce_correct(1) [of a] mod_add_self2 [of ?r 3329] mod_pos_pos_trivial [of "?r + 3329" 3329]
      mod_pos_pos_trivial [of ?r 3329] by (auto simp: abs_le_iff)
  ultimately show ?thesis using barrett_reduce_correct(1) [of a] mod by (simp add: sint_of_int16)
qed

lemma to_mont_correct: "\<bar>sint (to_mont a)\<bar> < 3329" "zq (to_mont a) = 65536 * zq a"
proof -
  have "sint R2 = 1353" by (simp add: R2_def)
  then have "zq R2 = 1353" by (simp add: zq_def)
  moreover have "(169 * 1353 :: zq) = 65536" using zq_of_int_eq [of "169 * 1353" 65536] by simp
  moreover have "169 * zq a * 1353 = (169 * 1353) * zq a" by (simp only: ac_simps)
  ultimately show "\<bar>sint (to_mont a)\<bar> < 3329" "zq (to_mont a) = 65536 * zq a"
    using fqmul_correct [of a R2] \<open>sint R2 = 1353\<close> by (simp_all only: to_mont_def) simp_all
qed

subsection \<open>Comparison and selection\<close>

lemma fold_or_zero: "foldl (\<lambda>diff i. diff OR f i) d xs = (0 :: u8) \<longleftrightarrow> d = 0 \<and> (\<forall>i\<in>set xs. f i = 0)"
  by (induction xs arbitrary: d) (auto simp: or_eq_0_iff)

lemma xor_zero_iff: "(x :: u8) XOR y = 0 \<longleftrightarrow> x = y"
  by (auto simp: bit_eq_iff bit_xor_iff dest: bit_imp_le_length)

lemma ct_bytes_eq_zero: "ct_bytes_eq a b = 0 \<longleftrightarrow> a = b"
proof (cases "length a = length b")
  case True
  have "ct_bytes_eq a b = 0 \<longleftrightarrow> (\<forall>i < length a. a ! i XOR b ! i = 0)"
    using True by (auto simp: ct_bytes_eq_def Let_def fold_or_zero)
  then show ?thesis using True by (auto simp: list_eq_iff_nth_eq xor_zero_iff)
qed (auto simp: ct_bytes_eq_def Let_def or_eq_0_iff)

lemma ex_less_8: "(\<exists>i < 8. P i) \<longleftrightarrow> P 0 \<or> P 1 \<or> P 2 \<or> P 3 \<or> P 4 \<or> P 5 \<or> P 6 \<or> P (7 :: nat)"
  by (auto simp: numeral_eq_Suc less_Suc_eq)

lemma ct_mask: "- ((let bit = flag; bit = bit OR drop_bit 4 bit; bit = bit OR drop_bit 2 bit;
    bit = bit OR drop_bit 1 bit in bit) AND 1) = (if flag = 0 then 0 else - 1 :: u8)"
proof -
  let ?b = "let bit = flag; bit = bit OR drop_bit 4 bit; bit = bit OR drop_bit 2 bit; bit = bit OR drop_bit 1 bit in bit"
  have "bit ?b 0 \<longleftrightarrow> (\<exists>i < 8. bit flag i)"
    by (auto simp: bit_simps Let_def ex_less_8 numeral_3_eq_3)
  also have "\<dots> \<longleftrightarrow> flag \<noteq> 0" by (auto simp: bit_eq_iff dest: bit_imp_le_length)
  finally have "bit ?b 0 \<longleftrightarrow> flag \<noteq> 0" .
  then show ?thesis by (simp add: and_one_eq odd_iff_mod_2_eq_one bit_0)
qed

lemma ct_select_32_correct:
  assumes "length a = 32" "length b = 32"
  shows "ct_select_32 a b flag = (if flag = 0 then a else b)"
proof (rule nth_equalityI)
  fix i assume "i < length (ct_select_32 a b flag)"
  then have "i < 32" by (simp add: ct_select_32_def Let_def)
  then have "ct_select_32 a b flag ! i = a ! i XOR ((if flag = 0 then 0 else - 1) AND (a ! i XOR b ! i))"
    using ct_mask [of flag] by (simp add: ct_select_32_def Let_def)
  then show "ct_select_32 a b flag ! i = (if flag = 0 then a else b) ! i"
    by (simp add: xor.assoc [symmetric])
qed (use assms in \<open>simp add: ct_select_32_def Let_def\<close>)

subsection \<open>Properties\<close>

text \<open>C40: Field arithmetic is exact and never overflows: Montgomery reduction divides by \<open>2^16\<close> modulo \<open>q\<close> with a
  result in \<open>(-q, q)\<close> for every input below \<open>q * 2^15\<close>, hence every product with one factor in \<open>(-q, q)\<close>;
  Barrett reduction returns the centred residue of any 16-bit value, and full reduction the residue in \<open>[0, q)\<close>.
  Past \<open>q * 2^15\<close> the range is lost, a centred residue can be negative, and the stored constant is the
  inverse of \<open>q\<close>, not its negation.\<close>

theorem mlkem_field_exact:
  "(\<bar>sint a\<bar> < 3329 * 2 ^ 15 \<longrightarrow>
      \<bar>sint (montgomery_reduce a)\<bar> < 3329 \<and> (sint (montgomery_reduce a) * 2 ^ 16) mod 3329 = sint a mod 3329) \<and>
   (\<bar>sint x\<bar> < 3329 \<or> \<bar>sint y\<bar> < 3329 \<longrightarrow>
      \<bar>sint (fqmul x y)\<bar> < 3329 \<and> (sint (fqmul x y) * 2 ^ 16) mod 3329 = (sint x * sint y) mod 3329) \<and>
   \<bar>sint (barrett_reduce x)\<bar> \<le> 1664 \<and> sint (barrett_reduce x) mod 3329 = sint x mod 3329 \<and>
   sint (reduce_full x) = sint x mod 3329 \<and>
   \<bar>sint (to_mont x)\<bar> < 3329 \<and> sint (to_mont x) mod 3329 = (2 ^ 16 * sint x) mod 3329 \<and>
   sint (montgomery_reduce 0x7fffffff) = 32599 \<and> sint (barrett_reduce (- 1)) = - 1 \<and> QINV * 3329 = 1"
proof (intro conjI impI)
  have pow: "(2 :: int) ^ 16 = 65536" by simp
  show "\<bar>sint (montgomery_reduce a)\<bar> < 3329" if "\<bar>sint a\<bar> < 3329 * 2 ^ 15"
    using montgomery_reduce_correct(1) [of a] that by simp
  show "(sint (montgomery_reduce a) * 2 ^ 16) mod 3329 = sint a mod 3329" if "\<bar>sint a\<bar> < 3329 * 2 ^ 15"
  proof -
    have "zq (montgomery_reduce a) * 65536 = of_int (sint a)" using montgomery_reduce_correct(2) [of a] that by simp
    then have "(of_int (sint (montgomery_reduce a) * 65536) :: zq) = of_int (sint a)"
      by (simp only: of_int_mult of_int_numeral zq_def)
    then show ?thesis unfolding zq_of_int_eq pow .
  qed
  show "\<bar>sint (fqmul x y)\<bar> < 3329" if "\<bar>sint x\<bar> < 3329 \<or> \<bar>sint y\<bar> < 3329" by (rule fqmul_correct(1) [OF that])
  show "(sint (fqmul x y) * 2 ^ 16) mod 3329 = (sint x * sint y) mod 3329" if "\<bar>sint x\<bar> < 3329 \<or> \<bar>sint y\<bar> < 3329"
  proof -
    have "zq (fqmul x y) * 65536 = zq x * zq y * (65536 * 169)"
      unfolding fqmul_correct(2) [OF that] by (simp only: ac_simps)
    then have "(of_int (sint (fqmul x y) * 65536) :: zq) = of_int (sint x * sint y)"
      by (simp only: zq_169 mult_1_right of_int_mult of_int_numeral zq_def)
    then show ?thesis unfolding zq_of_int_eq pow .
  qed
  show "\<bar>sint (barrett_reduce x)\<bar> \<le> 1664" by (rule barrett_reduce_correct(1))
  show "sint (barrett_reduce x) mod 3329 = sint x mod 3329"
    using barrett_reduce_correct(2) [of x] by (simp only: zq_def zq_of_int_eq)
  show "sint (reduce_full x) = sint x mod 3329" by (rule reduce_full_correct)
  show "\<bar>sint (to_mont x)\<bar> < 3329" by (rule to_mont_correct(1))
  have "(of_int (sint (to_mont x)) :: zq) = of_int (65536 * sint x)"
    using to_mont_correct(2) [of x] by (simp only: zq_def of_int_mult of_int_numeral)
  then show "sint (to_mont x) mod 3329 = (2 ^ 16 * sint x) mod 3329" unfolding zq_of_int_eq pow .
  show "sint (montgomery_reduce 0x7fffffff) = 32599" by code_simp
  show "sint (barrett_reduce (- 1)) = - 1" by code_simp
  show "QINV * 3329 = 1" by (simp add: QINV_def)
qed

theorem mlkem_field_exact_witness:
  "\<bar>sint (montgomery_reduce 100000000)\<bar> < 3329 \<and>
   (sint (montgomery_reduce 100000000) * 2 ^ 16) mod 3329 = 100000000 mod 3329 \<and>
   (sint (fqmul (- 3328) 32767) * 2 ^ 16) mod 3329 = (- 3328 * 32767) mod 3329"
proof -
  have "sint (100000000 :: i32) = 100000000" "sint (- 3328 :: i16) = - 3328" "sint (32767 :: i16) = 32767" by simp_all
  then show ?thesis using mlkem_field_exact [of 100000000 "- 3328" 32767] by simp
qed

end
