(* ===== verification/Mlkem_Ntt.thy ===== *)
theory Mlkem_Ntt
  imports Mlkem_Field
begin

text \<open>
  The number-theoretic transform of \<^verbatim>\<open>src/crates/oxicrypt-ml-kem/src/ntt.rs\<close>, in both directions and in place
  on 256 signed 16-bit coefficients, and the base-case product.  The transform is shown to be the residues
  modulo the 128 quadratic factors of \<open>X^256 + 1\<close> of FIPS 203, by one lemma on sweeps of butterflies.
\<close>

subsection \<open>The code\<close>

type_synonym coeffs = "i16 list"

definition MLKEM_N :: usize where "MLKEM_N = 256"

definition ZETAS :: coeffs where
  "ZETAS = [
    - 1044, - 758, - 359, - 1517, 1493, 1422, 287, 202, - 171, 622, 1577, 182, 962, - 1202, - 1474, 1468,
    573, - 1325, 264, 383, - 829, 1458, - 1602, - 130, - 681, 1017, 732, 608, - 1542, 411, - 205, - 1571,
    1223, 652, - 552, 1015, - 1293, 1491, - 282, - 1544, 516, - 8, - 320, - 666, - 1618, - 1162, 126, 1469,
    - 853, - 90, - 271, 830, 107, - 1421, - 247, - 951, - 398, 961, - 1508, - 725, 448, - 1065, 677, - 1275,
    - 1103, 430, 555, 843, - 1251, 871, 1550, 105, 422, 587, 177, - 235, - 291, - 460, 1574, 1653,
    - 246, 778, 1159, - 147, - 777, 1483, - 602, 1119, - 1590, 644, - 872, 349, 418, 329, - 156, - 75,
    817, 1097, 603, 610, 1322, - 1285, - 1465, 384, - 1215, - 136, 1218, - 1335, - 874, 220, - 1187, - 1659,
    - 1185, - 1530, - 1278, 794, - 1510, - 854, - 870, 478, - 108, - 308, 996, 991, 958, - 1460, 1522, 1628]"

definition ntt_butterfly :: "i16 \<Rightarrow> usize \<Rightarrow> coeffs \<Rightarrow> usize \<Rightarrow> coeffs" where
  "ntt_butterfly zeta len r j =
     (let t = fqmul zeta (r ! (j + len));
          r = r[j + len := r ! j - t]
      in r[j := r ! j + t])"

text \<open>The loop over \<open>start\<close>; a zero \<open>len\<close>, which no caller passes, would not end.\<close>

function ntt_blocks :: "usize \<Rightarrow> usize \<Rightarrow> usize \<Rightarrow> coeffs \<Rightarrow> usize \<times> coeffs" where
  "ntt_blocks len start k r =
     (if start < MLKEM_N \<and> 0 < len
      then ntt_blocks len (start + 2 * len) (k + 1)
             (foldl (ntt_butterfly (ZETAS ! k) len) r [start..<start + len])
      else (k, r))"
  by pat_completeness auto
termination by (relation "measure (\<lambda>(len, start, k, r). MLKEM_N - start)") auto

function ntt_layers :: "usize \<Rightarrow> usize \<Rightarrow> coeffs \<Rightarrow> coeffs" where
  "ntt_layers len k r =
     (if len \<ge> 2 then case ntt_blocks len 0 k r of (k, r) \<Rightarrow> ntt_layers (len div 2) k r else r)"
  by pat_completeness auto
termination by (relation "measure fst") auto

definition ntt :: "coeffs \<Rightarrow> coeffs" where
  "ntt r = ntt_layers 128 1 r"

definition inv_butterfly :: "i16 \<Rightarrow> usize \<Rightarrow> coeffs \<Rightarrow> usize \<Rightarrow> coeffs" where
  "inv_butterfly zeta len r j =
     (let t = r ! j;
          r = r[j := barrett_reduce (t + r ! (j + len))]
      in r[j + len := fqmul zeta (r ! (j + len) - t)])"

function inv_blocks :: "usize \<Rightarrow> usize \<Rightarrow> usize \<Rightarrow> coeffs \<Rightarrow> usize \<times> coeffs" where
  "inv_blocks len start k r =
     (if start < MLKEM_N \<and> 0 < len
      then inv_blocks len (start + 2 * len) (k - 1)
             (foldl (inv_butterfly (ZETAS ! k) len) r [start..<start + len])
      else (k, r))"
  by pat_completeness auto
termination by (relation "measure (\<lambda>(len, start, k, r). MLKEM_N - start)") auto

function inv_layers :: "usize \<Rightarrow> usize \<Rightarrow> coeffs \<Rightarrow> coeffs" where
  "inv_layers len k r =
     (if len \<le> 128 \<and> 0 < len
      then case inv_blocks len 0 k r of (k, r) \<Rightarrow> inv_layers (2 * len) k r else r)"
  by pat_completeness auto
termination by (relation "measure (\<lambda>(len, k, r). 129 - len)") auto

definition INV_F :: i16 where "INV_F = 1441"

definition inv_ntt :: "coeffs \<Rightarrow> coeffs" where
  "inv_ntt r =
     (let r = inv_layers 2 127 r
      in foldl (\<lambda>r j. r[j := fqmul (r ! j) INV_F]) r [0..<MLKEM_N])"

definition basemul :: "i16 \<Rightarrow> i16 \<Rightarrow> i16 \<Rightarrow> i16 \<Rightarrow> i16 \<Rightarrow> i16 \<times> i16" where
  "basemul a0 a1 b0 b1 zeta =
     (let r0 = fqmul a1 b1;
          r0 = fqmul r0 zeta + fqmul a0 b0;
          r1 = fqmul a0 b1 + fqmul a1 b0
      in (r0, r1))"

declare ntt_blocks.simps [simp del] ntt_layers.simps [simp del] inv_blocks.simps [simp del] inv_layers.simps [simp del]

subsection \<open>Sweeps of butterflies\<close>

text \<open>A butterfly replaces a pair of coefficients \<open>len\<close> apart.\<close>

definition pair_step :: "(i16 \<Rightarrow> i16 \<Rightarrow> i16 \<times> i16) \<Rightarrow> usize \<Rightarrow> coeffs \<Rightarrow> usize \<Rightarrow> coeffs" where
  "pair_step f len r j = (let (x, y) = f (r ! j) (r ! (j + len)) in r[j := x, j + len := y])"

lemma length_pair_step [simp]: "length (pair_step f len r j) = length r"
  by (simp add: pair_step_def split: prod.split)

lemma length_pair_steps [simp]: "length (foldl (pair_step f len) r js) = length r"
  by (induction js arbitrary: r) simp_all

lemma pair_step_nth:
  assumes "j + len < length r" "0 < len"
  shows "pair_step f len r j ! i =
    (if i = j then fst (f (r ! j) (r ! (j + len)))
     else if i = j + len then snd (f (r ! j) (r ! (j + len))) else r ! i)"
  using assms by (auto simp: pair_step_def case_prod_beta nth_list_update)

lemma pair_steps_nth:
  assumes "s + 2 * len \<le> length r" "p \<le> len" "0 < len"
  shows "foldl (pair_step f len) r [s..<s + p] ! i =
    (if s \<le> i \<and> i < s + p then fst (f (r ! i) (r ! (i + len)))
     else if s + len \<le> i \<and> i < s + len + p then snd (f (r ! (i - len)) (r ! i)) else r ! i)"
  using assms(2)
proof (induction p arbitrary: i)
  case (Suc p)
  define r' where "r' = foldl (pair_step f len) r [s..<s + p]"
  have len: "s + p + len < length r'" using Suc.prems assms(1) by (simp add: r'_def)
  have IH: "r' ! i = (if s \<le> i \<and> i < s + p then fst (f (r ! i) (r ! (i + len)))
     else if s + len \<le> i \<and> i < s + len + p then snd (f (r ! (i - len)) (r ! i)) else r ! i)" for i
    using Suc unfolding r'_def by simp
  have "foldl (pair_step f len) r [s..<s + Suc p] = pair_step f len r' (s + p)" by (simp add: r'_def)
  then have "foldl (pair_step f len) r [s..<s + Suc p] ! i =
    (if i = s + p then fst (f (r' ! (s + p)) (r' ! (s + p + len)))
     else if i = s + p + len then snd (f (r' ! (s + p)) (r' ! (s + p + len))) else r' ! i)"
    by (simp only: pair_step_nth [OF len assms(3)])
  moreover have "r' ! (s + p) = r ! (s + p)" "r' ! (s + p + len) = r ! (s + p + len)"
    using IH [of "s + p"] IH [of "s + p + len"] Suc.prems by simp_all
  ultimately show ?case using IH [of i] Suc.prems by auto
qed auto

definition sweep :: "(nat \<Rightarrow> i16 \<Rightarrow> i16 \<Rightarrow> i16 \<times> i16) \<Rightarrow> usize \<Rightarrow> coeffs \<Rightarrow> nat list \<Rightarrow> coeffs" where
  "sweep F len = foldl (\<lambda>r b. foldl (pair_step (F b) len) r [2 * len * b..<2 * len * b + len])"

lemma sweep_simps [simp]:
  "sweep F len r [] = r"
  "sweep F len r (bs @ [b]) = foldl (pair_step (F b) len) (sweep F len r bs) [2 * len * b..<2 * len * b + len]"
  by (simp_all add: sweep_def)

lemma length_sweep [simp]: "length (sweep F len r bs) = length r"
  by (induction bs rule: rev_induct) simp_all

lemma sweep_nth:
  assumes "length r = 2 * len * n" "c \<le> n" "b < n" "m < len"
  defines "i \<equiv> 2 * len * b + m"
  shows "sweep F len r [0..<c] ! i = (if b < c then fst (F b (r ! i) (r ! (i + len))) else r ! i) \<and>
    sweep F len r [0..<c] ! (i + len) = (if b < c then snd (F b (r ! i) (r ! (i + len))) else r ! (i + len))"
  using assms(2)
proof (induction c)
  case (Suc c)
  define r' where "r' = sweep F len r [0..<c]"
  have IH: "r' ! i = (if b < c then fst (F b (r ! i) (r ! (i + len))) else r ! i)"
    "r' ! (i + len) = (if b < c then snd (F b (r ! i) (r ! (i + len))) else r ! (i + len))"
    using Suc by (simp_all add: r'_def)
  have c: "2 * len * c + 2 * len \<le> length r'"
    using Suc.prems assms(1) mult_le_mono2 [of "Suc c" n "2 * len"] by (simp add: r'_def)
  have sep: "b < c \<Longrightarrow> i + len < 2 * len * c" "c < b \<Longrightarrow> 2 * len * c + 2 * len \<le> i"
    using assms(4) mult_le_mono2 [of "Suc b" c "2 * len"] mult_le_mono2 [of "Suc c" b "2 * len"] by (simp_all add: i_def)
  have "sweep F len r [0..<Suc c] = foldl (pair_step (F c) len) r' [2 * len * c..<2 * len * c + len]"
    by (simp add: r'_def)
  then have nth: "sweep F len r [0..<Suc c] ! j =
    (if 2 * len * c \<le> j \<and> j < 2 * len * c + len then fst (F c (r' ! j) (r' ! (j + len)))
     else if 2 * len * c + len \<le> j \<and> j < 2 * len * c + len + len then snd (F c (r' ! (j - len)) (r' ! j))
     else r' ! j)" for j
    using pair_steps_nth [OF c le_refl, of "F c" j] assms(4) by simp
  consider "b < c" | "b = c" | "c < b" by linarith
  then show ?case
  proof cases
    case 1 with sep nth [of i] nth [of "i + len"] IH show ?thesis by simp
  next
    case 2 with nth [of i] nth [of "i + len"] IH assms(4) show ?thesis by (simp add: i_def)
  next
    case 3 with sep nth [of i] nth [of "i + len"] IH assms(4) show ?thesis by simp
  qed
qed simp

subsection \<open>Twiddle factors\<close>

text \<open>The reversal of seven bits, and the table: \<open>ZETAS[k]\<close> is \<open>17^BitRev7(k)\<close> in Montgomery form.\<close>

primrec bit_reversal :: "nat \<Rightarrow> nat \<Rightarrow> nat" where
  "bit_reversal 0 k = 0"
| "bit_reversal (Suc n) k = k mod 2 * 2 ^ n + bit_reversal n (k div 2)"

definition bitrev7 :: "nat \<Rightarrow> nat" where
  "bitrev7 k = bit_reversal 7 k"

lemma bitrev7_sum:
  "bitrev7 k = k mod 2 * 64 + (k div 2 mod 2 * 32 + (k div 4 mod 2 * 16 + (k div 8 mod 2 * 8 +
     (k div 16 mod 2 * 4 + (k div 32 mod 2 * 2 + k div 64 mod 2)))))"
proof -
  have "bitrev7 k = bit_reversal (Suc (Suc (Suc (Suc (Suc (Suc (Suc 0))))))) k"
    unfolding bitrev7_def by (simp add: numeral_eq_Suc del: bit_reversal.simps)
  then show ?thesis by (simp add: div_mult2_eq [symmetric])
qed

lemma map_bitrev7: "map bitrev7 [0..<128] = [
    0, 64, 32, 96, 16, 80, 48, 112, 8, 72, 40, 104, 24, 88, 56, 120,
    4, 68, 36, 100, 20, 84, 52, 116, 12, 76, 44, 108, 28, 92, 60, 124,
    2, 66, 34, 98, 18, 82, 50, 114, 10, 74, 42, 106, 26, 90, 58, 122,
    6, 70, 38, 102, 22, 86, 54, 118, 14, 78, 46, 110, 30, 94, 62, 126,
    1, 65, 33, 97, 17, 81, 49, 113, 9, 73, 41, 105, 25, 89, 57, 121,
    5, 69, 37, 101, 21, 85, 53, 117, 13, 77, 45, 109, 29, 93, 61, 125,
    3, 67, 35, 99, 19, 83, 51, 115, 11, 75, 43, 107, 27, 91, 59, 123,
    7, 71, 39, 103, 23, 87, 55, 119, 15, 79, 47, 111, 31, 95, 63, 127]"
proof -
  have "[0..<128] = [
      0, 1, 2, 3, 4, 5, 6, 7, 8, 9, 10, 11, 12, 13, 14, 15, 16, 17, 18, 19, 20, 21, 22, 23, 24, 25, 26, 27, 28, 29, 30, 31,
      32, 33, 34, 35, 36, 37, 38, 39, 40, 41, 42, 43, 44, 45, 46, 47, 48, 49, 50, 51, 52, 53, 54, 55, 56, 57, 58, 59, 60, 61, 62, 63,
      64, 65, 66, 67, 68, 69, 70, 71, 72, 73, 74, 75, 76, 77, 78, 79, 80, 81, 82, 83, 84, 85, 86, 87, 88, 89, 90, 91, 92, 93, 94, 95,
      96, 97, 98, 99, 100, 101, 102, 103, 104, 105, 106, 107, 108, 109, 110, 111, 112, 113, 114, 115, 116, 117, 118, 119, 120, 121, 122, 123, 124, 125, 126, 127]"
    by code_simp
  then show ?thesis by (simp add: bitrev7_sum)
qed

lemma map_sint_ZETAS: "map sint ZETAS = [
    - 1044, - 758, - 359, - 1517, 1493, 1422, 287, 202, - 171, 622, 1577, 182, 962, - 1202, - 1474, 1468,
    573, - 1325, 264, 383, - 829, 1458, - 1602, - 130, - 681, 1017, 732, 608, - 1542, 411, - 205, - 1571,
    1223, 652, - 552, 1015, - 1293, 1491, - 282, - 1544, 516, - 8, - 320, - 666, - 1618, - 1162, 126, 1469,
    - 853, - 90, - 271, 830, 107, - 1421, - 247, - 951, - 398, 961, - 1508, - 725, 448, - 1065, 677, - 1275,
    - 1103, 430, 555, 843, - 1251, 871, 1550, 105, 422, 587, 177, - 235, - 291, - 460, 1574, 1653,
    - 246, 778, 1159, - 147, - 777, 1483, - 602, 1119, - 1590, 644, - 872, 349, 418, 329, - 156, - 75,
    817, 1097, 603, 610, 1322, - 1285, - 1465, 384, - 1215, - 136, 1218, - 1335, - 874, 220, - 1187, - 1659,
    - 1185, - 1530, - 1278, 794, - 1510, - 854, - 870, 478, - 108, - 308, 996, 991, 958, - 1460, 1522, 1628]"
  unfolding ZETAS_def by simp

lemma ZETAS_by_exponent: "map (nth (map sint ZETAS)) (map bitrev7 [0..<128]) = [
    - 1044, - 1103, 1223, 817, 573, - 246, - 853, - 1185, - 171, 422, 516, - 1215, - 681, - 1590, - 398, - 108,
    1493, - 1251, - 1293, 1322, - 829, - 777, 107, - 1510, 962, - 291, - 1618, - 874, - 1542, 418, 448, 958,
    - 359, 555, - 552, 603, 264, 1159, - 271, - 1278, 1577, 177, - 320, 1218, 732, - 872, - 1508, 996,
    287, 1550, - 282, - 1465, - 1602, - 602, - 247, - 870, - 1474, 1574, 126, - 1187, - 205, - 156, 677, 1522,
    - 758, 430, 652, 1097, - 1325, 778, - 90, - 1530, 622, 587, - 8, - 136, 1017, 644, 961, - 308,
    1422, 871, 1491, - 1285, 1458, 1483, - 1421, - 854, - 1202, - 460, - 1162, 220, 411, 329, - 1065, - 1460,
    - 1517, 843, 1015, 610, 383, - 147, 830, 794, 182, - 235, - 666, - 1335, 608, 349, - 725, 991,
    202, 105, - 1544, 384, - 130, 1119, - 951, 478, 1468, 1653, 1469, - 1659, - 1571, - 75, - 1275, 1628]"
  unfolding map_sint_ZETAS map_bitrev7 by simp

lemma ZETAS_successive: "successively (\<lambda>s s'. (17 * s - s') mod 3329 = 0) (map (nth (map sint ZETAS)) (map bitrev7 [0..<128]))"
  unfolding ZETAS_by_exponent by simp

text \<open>\<open>zeta k\<close> is the residue the code multiplies by when it uses \<open>ZETAS[k]\<close>.\<close>

definition zeta :: "nat \<Rightarrow> zq" where
  "zeta k = 169 * zq (ZETAS ! k)"

lemma bit_reversal_less: "bit_reversal n k < 2 ^ n"
proof (induction n arbitrary: k)
  case (Suc n)
  from Suc.IH [of "k div 2"] show ?case by (cases "even k") (simp_all add: odd_iff_mod_2_eq_one)
qed simp

lemma bitrev7_less: "bitrev7 k < 128"
  using bit_reversal_less [of 7 k] by (simp add: bitrev7_def)

lemma bitrev7_involution: "k < 128 \<Longrightarrow> bitrev7 (bitrev7 k) = k"
proof -
  have "map bitrev7 (map bitrev7 [0..<128]) = [0..<128]"
    unfolding map_bitrev7 by (simp add: bitrev7_sum) code_simp
  then show "bitrev7 (bitrev7 k) = k" if "k < 128" for k
    using that by (metis add.left_neutral diff_zero length_map length_upt nth_map nth_upt)
qed

lemma length_ZETAS: "length ZETAS = 128"
  by (simp add: ZETAS_def)

lemma successively_nth: "successively P xs \<Longrightarrow> Suc i < length xs \<Longrightarrow> P (xs ! i) (xs ! Suc i)"
  by (induction xs arbitrary: i rule: induct_list012) (auto simp: nth_Cons split: nat.splits)

lemma ZETAS_exponent: "e < 128 \<Longrightarrow> zq (ZETAS ! bitrev7 e) = 65536 * 17 ^ e"
proof (induction e)
  case 0
  then show ?case
    using zq_of_int_eq [of "- 1044" 65536] by (simp add: zq_def bitrev7_sum ZETAS_def)
next
  case (Suc e)
  have "(17 * sint (ZETAS ! bitrev7 e) - sint (ZETAS ! bitrev7 (Suc e))) mod 3329 = 0"
    using successively_nth [OF ZETAS_successive, of e] Suc.prems
    by (simp add: length_ZETAS bitrev7_less)
  then have "of_int (17 * sint (ZETAS ! bitrev7 e)) = zq (ZETAS ! bitrev7 (Suc e))"
    by (simp only: zq_def zq_of_int_eq mod_eq_dvd_iff dvd_eq_mod_eq_0)
  then have "zq (ZETAS ! bitrev7 (Suc e)) = of_int (17 * sint (ZETAS ! bitrev7 e))" by (rule sym)
  also have "\<dots> = 17 * zq (ZETAS ! bitrev7 e)" by (simp only: of_int_mult of_int_numeral zq_def)
  also have "\<dots> = 65536 * 17 ^ Suc e" using Suc by (simp only: Suc_lessD power_Suc mult.left_commute)
  finally show ?case .
qed

lemma zeta_power: "k < 128 \<Longrightarrow> zeta k = 17 ^ bitrev7 k"
proof -
  have one: "169 * (65536 * x) = (x :: zq)" for x
    by (simp only: mult.assoc [symmetric] mult.commute [of 169] zq_169 mult_1_left)
  assume "k < 128"
  then show "zeta k = 17 ^ bitrev7 k"
    using ZETAS_exponent [OF bitrev7_less [of k]] by (simp only: zeta_def bitrev7_involution one)
qed

text \<open>How reversals of neighbouring table indices are related.\<close>

lemma bit_reversal_double: "j < 2 ^ n \<Longrightarrow> bit_reversal (Suc n) j = 2 * bit_reversal n j"
proof (induction n arbitrary: j)
  case (Suc n)
  have "bit_reversal (Suc n) (j div 2) = 2 * bit_reversal n (j div 2)"
    using Suc.prems by (intro Suc.IH) auto
  then show ?case by simp
qed simp

lemma bit_reversal_top: "j < 2 ^ n \<Longrightarrow> bit_reversal (Suc n) (2 ^ n + j) = bit_reversal (Suc n) j + 1"
proof (induction n arbitrary: j)
  case (Suc n)
  have "bit_reversal (Suc n) (2 ^ n + j div 2) = bit_reversal (Suc n) (j div 2) + 1"
    using Suc.prems by (intro Suc.IH) auto
  moreover have "(2 ^ Suc n + j) mod 2 = j mod 2" "(2 ^ Suc n + j) div 2 = 2 ^ n + j div 2" by simp_all
  ultimately show ?case by (simp only: bit_reversal.simps(2) [of "Suc n"] add.assoc)
qed simp

lemma bit_reversal_0: "bit_reversal n 0 = 0"
  by (induction n) simp_all

lemma generalize_half: "(2 * m - 1 - b) div 2 = m - 1 - b div (2 :: nat)"
  by (cases "even b") (auto elim!: evenE oddE)

lemma bit_reversal_complement:
  "s < n \<Longrightarrow> b < 2 ^ s \<Longrightarrow> bit_reversal n (2 ^ s + b) + bit_reversal n (2 ^ Suc s - 1 - b) = 2 ^ n"
proof (induction s arbitrary: n b)
  case 0
  then show ?case by (cases n) (simp_all add: bit_reversal_0)
next
  case (Suc s)
  then obtain n' where n: "n = Suc n'" "s < n'" by (cases n) auto
  have "bit_reversal n' (2 ^ s + b div 2) + bit_reversal n' (2 ^ Suc s - 1 - b div 2) = 2 ^ n'"
    using Suc.prems n by (intro Suc.IH) auto
  moreover have "(2 ^ Suc s + b) div 2 = 2 ^ s + b div 2" by simp
  moreover have "(2 ^ Suc (Suc s) - 1 - b) div 2 = 2 ^ Suc s - 1 - b div 2"
    by (simp only: power_Suc [of _ "Suc s"] generalize_half)
  moreover have "(2 ^ Suc s + b) mod 2 + (2 ^ Suc (Suc s) - 1 - b) mod 2 = 1"
    using Suc.prems by (cases "even b") (auto simp: mod_2_eq_odd)
  ultimately show ?case unfolding n(1) bit_reversal.simps(2) by (auto simp: add_mult_distrib [symmetric] mod2_eq_if split: if_splits)
qed

text \<open>
  The factors of \<open>X^256 + 1\<close> form a binary tree: node 1 is \<open>X^256 - (-1)\<close>, and node \<open>k\<close>, for \<open>X^(2n) - root k\<close>,
  splits into \<open>X^n - zeta k\<close> and \<open>X^n + zeta k\<close> at the nodes \<open>2 k\<close> and \<open>2 k + 1\<close>.
\<close>

definition root :: "nat \<Rightarrow> zq" where
  "root k = (if k = 1 then - 1 else if even k then zeta (k div 2) else - zeta (k div 2))"

lemma root_children: "0 < k \<Longrightarrow> root (2 * k) = zeta k" "0 < k \<Longrightarrow> root (2 * k + 1) = - zeta k"
  by (simp_all add: root_def)

lemma power_17: "(17 :: zq) ^ 128 = - 1"
proof -
  have "(of_int (17 ^ 128) :: zq) = of_int (- 1)" by (simp only: zq_of_int_eq) simp
  then show ?thesis by (simp only: of_int_power of_int_numeral of_int_minus of_int_1)
qed

lemma double_bitrev7: "k < 128 \<Longrightarrow> 2 * bitrev7 k = k mod 2 * 128 + bitrev7 (k div 2)"
proof -
  assume k: "k < 128"
  have "bitrev7 k = k mod 2 * 64 + bit_reversal 6 (k div 2)" "bitrev7 (k div 2) = bit_reversal (Suc 6) (k div 2)"
    using bit_reversal.simps(2) [of 6 k] by (simp_all add: bitrev7_def del: bit_reversal.simps)
  with bit_reversal_double [of "k div 2" 6] k show ?thesis by (simp del: bit_reversal.simps)
qed

lemma zeta_square:
  assumes "0 < k" "k < 128"
  shows "zeta k * zeta k = root k"
proof -
  have "zeta k * zeta k = 17 ^ (k mod 2 * 128 + bitrev7 (k div 2))"
    unfolding zeta_power [OF assms(2)] power_add [symmetric] using double_bitrev7 [OF assms(2)] by (simp add: mult_2)
  also have "\<dots> = (- 1) ^ (k mod 2) * 17 ^ bitrev7 (k div 2)"
    by (simp only: power_add mult.commute [of "k mod 2"] power_mult power_17)
  also have "\<dots> = root k"
    using assms by (cases "k = 1"; cases "even k")
      (auto simp: root_def zeta_power bitrev7_sum mod_2_eq_odd)
  finally show ?thesis .
qed

lemma root_leaf:
  assumes "i < 128"
  shows "root (128 + i) = 17 ^ (2 * bitrev7 i + 1)"
proof -
  have top: "bitrev7 (64 + i div 2) = bitrev7 (i div 2) + 1"
    using bit_reversal_top [of "i div 2" 6] assms by (simp add: bitrev7_def)
  have "root (128 + i) = (- 1) ^ (i mod 2) * zeta (64 + i div 2)"
    using div_plus_div_distrib_dvd_left [of 2 128 i] by (auto simp: root_def mod_2_eq_odd)
  also have "\<dots> = 17 ^ (i mod 2 * 128 + bitrev7 (i div 2) + 1)"
    using assms zeta_power [of "64 + i div 2"]
    by (simp only: top power_add mult.commute [of "i mod 2"] power_mult power_17) simp
  finally show ?thesis by (simp only: double_bitrev7 [OF assms])
qed

lemma zeta_inverse:
  assumes "s < 7" "b < 2 ^ s"
  shows "zeta (2 ^ Suc s - 1 - b) * zeta (2 ^ s + b) = - 1"
proof -
  have "2 ^ Suc s \<le> (2 ^ 7 :: nat)" using assms(1) by (intro power_increasing) simp_all
  then have "2 ^ Suc s - 1 - b < 128" "2 ^ s + b < 128" using assms(2) by simp_all
  moreover have "bitrev7 (2 ^ Suc s - 1 - b) + bitrev7 (2 ^ s + b) = 128"
    using bit_reversal_complement [OF assms] unfolding bitrev7_def by simp
  ultimately show ?thesis by (simp only: zeta_power power_add [symmetric] power_17)
qed

subsection \<open>The forward transform\<close>

lemma sint_add16: "- 32768 \<le> sint a + sint b \<Longrightarrow> sint a + sint b \<le> 32767 \<Longrightarrow> sint (a + b :: i16) = sint a + sint b"
  using sint_of_int16 [of "sint a + sint b"] by (simp only: of_int_add of_int_sint scast_id)

lemma sint_sub16: "- 32768 \<le> sint a - sint b \<Longrightarrow> sint a - sint b \<le> 32767 \<Longrightarrow> sint (a - b :: i16) = sint a - sint b"
  using sint_of_int16 [of "sint a - sint b"] by (simp only: of_int_diff of_int_sint scast_id)

definition bounded :: "int \<Rightarrow> coeffs \<Rightarrow> bool" where
  "bounded B r \<longleftrightarrow> (\<forall>x\<in>set r. \<bar>sint x\<bar> \<le> B)"

lemma bounded_nth: "bounded B r \<Longrightarrow> i < length r \<Longrightarrow> \<bar>sint (r ! i)\<bar> \<le> B"
  by (simp add: bounded_def)

lemma bounded_ZETAS: "bounded 3328 ZETAS"
proof -
  have "list_all (\<lambda>x. \<bar>x\<bar> \<le> 3328) (map sint ZETAS)"
    unfolding map_sint_ZETAS by simp
  then show ?thesis by (simp add: bounded_def list_all_iff)
qed

lemma sint_ZETAS: "k < 128 \<Longrightarrow> \<bar>sint (ZETAS ! k)\<bar> < 3329"
  using bounded_nth [OF bounded_ZETAS, of k] by (simp add: length_ZETAS)

lemma fqmul_zeta:
  assumes "k < 128"
  shows "\<bar>sint (fqmul (ZETAS ! k) x)\<bar> < 3329" "zq (fqmul (ZETAS ! k) x) = zeta k * zq x"
  using fqmul_correct [of "ZETAS ! k" x] sint_ZETAS [OF assms] by (simp_all add: zeta_def)

text \<open>
  \<open>residue L f g\<close> has the coefficients of the polynomial with coefficients \<open>f\<close> modulo \<open>X^L - g\<close>.
\<close>

definition residue :: "nat \<Rightarrow> (nat \<Rightarrow> zq) \<Rightarrow> zq \<Rightarrow> nat \<Rightarrow> zq" where
  "residue L f g m = (\<Sum>j<256 div L. f (L * j + m) * g ^ j)"

lemma sum_even_odd: "(\<Sum>j<2 * n. h j) = (\<Sum>j<n. h (2 * j)) + (\<Sum>j<n. h (2 * j + 1))"
  for h :: "nat \<Rightarrow> 'a::comm_monoid_add"
  by (induction n) (simp_all add: ac_simps)

lemma residue_split:
  assumes "256 = 2 * len * n" "0 < len"
  shows "residue len f z m = residue (2 * len) f (z * z) m + z * residue (2 * len) f (z * z) (m + len)"
proof -
  have "256 div len = 2 * n" "256 div (2 * len) = n"
    by (subst assms(1), use assms(2) in simp)+
  then show ?thesis
    unfolding residue_def by (simp only: sum_even_odd sum_distrib_left)
      (simp add: power_mult power2_eq_square power_mult_distrib ac_simps)
qed

definition at_level :: "nat \<Rightarrow> (nat \<Rightarrow> zq) \<Rightarrow> coeffs \<Rightarrow> bool" where
  "at_level s f r \<longleftrightarrow> length r = 256 \<and>
     (\<forall>b < 2 ^ s. \<forall>m < 2 ^ (8 - s). zq (r ! (2 ^ (8 - s) * b + m)) = residue (2 ^ (8 - s)) f (root (2 ^ s + b)) m)"

definition ntt_pair :: "i16 \<Rightarrow> i16 \<Rightarrow> i16 \<Rightarrow> i16 \<times> i16" where
  "ntt_pair z x y = (x + fqmul z y, x - fqmul z y)"

lemma ntt_butterfly_pair: "0 < len \<Longrightarrow> ntt_butterfly z len = pair_step (ntt_pair z) len"
  by (rule ext)+ (simp add: ntt_butterfly_def pair_step_def ntt_pair_def Let_def list_update_swap)

lemma ntt_blocks_sweep:
  assumes "2 * len * n = 256" "c \<le> n"
  shows "ntt_blocks len (2 * len * c) (k + c) r = (k + n, sweep (\<lambda>b. ntt_pair (ZETAS ! (k + b))) len r [c..<n])"
  using assms(2)
proof (induction "n - c" arbitrary: c r)
  case 0
  then show ?case using assms(1) by (subst ntt_blocks.simps) (simp add: MLKEM_N_def)
next
  case (Suc d)
  then have c: "c < n" by simp
  have len: "0 < len" using assms(1) by (cases len) simp_all
  have "2 * len * c < 256" using mult_less_mono2 [OF c, of "2 * len"] len unfolding assms(1) by simp
  then have "ntt_blocks len (2 * len * c) (k + c) r = ntt_blocks len (2 * len * Suc c) (k + Suc c)
      (foldl (pair_step (ntt_pair (ZETAS ! (k + c))) len) r [2 * len * c..<2 * len * c + len])"
    using len by (subst ntt_blocks.simps) (simp add: MLKEM_N_def ntt_butterfly_pair algebra_simps)
  also have "\<dots> = (k + n, sweep (\<lambda>b. ntt_pair (ZETAS ! (k + b))) len
      (foldl (pair_step (ntt_pair (ZETAS ! (k + c))) len) r [2 * len * c..<2 * len * c + len]) [Suc c..<n])"
    using Suc.hyps(2) c by (intro Suc.hyps(1)) simp_all
  also have "\<dots> = (k + n, sweep (\<lambda>b. ntt_pair (ZETAS ! (k + b))) len r [c..<n])"
    using c by (simp add: sweep_def upt_conv_Cons)
  finally show ?case .
qed

text \<open>Every index of a layer is in one half of a block.\<close>

lemma block_index:
  assumes "i < 2 * len * (n :: nat)"
  obtains b m where "b < n" "m < len" "i = 2 * len * b + m \<or> i = 2 * len * b + m + len"
proof -
  let ?b = "i div (2 * len)" and ?m = "i mod (2 * len)"
  have len: "0 < len" using assms by (cases len) simp_all
  have i: "i = 2 * len * ?b + ?m" by simp
  have b: "?b < n" using assms by (simp add: less_mult_imp_div_less mult.commute)
  have "?m < 2 * len" using len by simp
  show thesis
  proof (cases "?m < len")
    case True
    then show thesis using that [of ?b ?m] b i by blast
  next
    case False
    then have "?m - len < len" "i = 2 * len * ?b + (?m - len) + len" using i \<open>?m < 2 * len\<close> by linarith+
    then show thesis using that [of ?b "?m - len"] b by blast
  qed
qed

lemma ntt_layer:
  assumes level: "at_level s f r" and s: "s < 7" and bound: "bounded B r" and B: "B \<le> 29439"
  defines "r' \<equiv> sweep (\<lambda>b. ntt_pair (ZETAS ! (2 ^ s + b))) (2 ^ (7 - s)) r [0..<2 ^ s]"
  shows "at_level (Suc s) f r'" "bounded (B + 3328) r'"
proof -
  let ?l = "2 ^ (7 - s) :: nat" and ?n = "2 ^ s :: nat"
  have L: "2 ^ (8 - s) = 2 * ?l" using s by (simp add: Suc_diff_le flip: power_Suc)
  have n: "2 * ?l * ?n = 256" using s by (simp add: power_add [symmetric])
  have len: "length r = 2 * ?l * ?n" using level n by (simp add: at_level_def)
  have k: "?n + b < 128" if "b < ?n" for b
  proof -
    have "2 ^ Suc s \<le> (2 ^ 7 :: nat)" using s by (intro power_increasing) simp_all
    then show ?thesis using that by simp
  qed
  have old: "zq (r ! (2 * ?l * b + m)) = residue (2 * ?l) f (root (?n + b)) m" if "b < ?n" "m < 2 * ?l" for b m
    using level that by (simp add: at_level_def L)
  have new: "\<bar>sint (r' ! i)\<bar> \<le> B + 3328 \<and> \<bar>sint (r' ! (i + ?l))\<bar> \<le> B + 3328 \<and>
      zq (r' ! i) = residue ?l f (root (2 * (?n + b))) m \<and>
      zq (r' ! (i + ?l)) = residue ?l f (root (2 * (?n + b) + 1)) m"
    if b: "b < ?n" and m: "m < ?l" and i: "i = 2 * ?l * b + m" for b m i
  proof -
    let ?t = "fqmul (ZETAS ! (?n + b)) (r ! (i + ?l))"
    have at: "r' ! i = r ! i + ?t" "r' ! (i + ?l) = r ! i - ?t"
      using sweep_nth [OF len le_refl b m, of "\<lambda>b. ntt_pair (ZETAS ! (?n + b))"] b
      by (simp_all add: r'_def i ntt_pair_def)
    have "2 * ?l * Suc b \<le> 2 * ?l * ?n" using b by (intro mult_le_mono2) simp
    then have "i < length r" using m by (simp add: i len)
    then have ri: "\<bar>sint (r ! i)\<bar> \<le> B" using bound by (rule_tac bounded_nth)
    note t = fqmul_zeta [OF k [OF b], of "r ! (i + ?l)"]
    have s1: "sint (r ! i + ?t) = sint (r ! i) + sint ?t" using ri t(1) B by (intro sint_add16) linarith+
    have s2: "sint (r ! i - ?t) = sint (r ! i) - sint ?t" using ri t(1) B by (intro sint_sub16) linarith+
    have z1: "zq (r ! i + ?t) = zq (r ! i) + zq ?t" by (simp only: zq_def s1 of_int_add)
    have z2: "zq (r ! i - ?t) = zq (r ! i) - zq ?t" by (simp only: zq_def s2 of_int_diff)
    have lo: "zq (r ! i) = residue (2 * ?l) f (root (?n + b)) m" using old [OF b, of m] m by (simp add: i)
    have hi: "zq (r ! (i + ?l)) = residue (2 * ?l) f (root (?n + b)) (m + ?l)"
      using old [OF b, of "m + ?l"] m by (simp add: i add.assoc)
    have pos: "0 < ?n + b" by simp
    have square: "zeta (?n + b) * zeta (?n + b) = root (?n + b)" "- zeta (?n + b) * - zeta (?n + b) = root (?n + b)"
      using zeta_square [OF pos k [OF b]] by simp_all
    note split = residue_split [OF n [symmetric], of f _ m]
    have "zq (r' ! i) = residue ?l f (root (2 * (?n + b))) m"
      unfolding root_children(1) [OF pos] at(1) z1 t(2) lo hi
      using split [of "zeta (?n + b)"] by (simp only: square) simp
    moreover have "zq (r' ! (i + ?l)) = residue ?l f (root (2 * (?n + b) + 1)) m"
      unfolding root_children(2) [OF pos] at(2) z2 t(2) lo hi
      using split [of "- zeta (?n + b)"] by (simp only: square) simp
    moreover have "\<bar>sint (r' ! i)\<bar> \<le> B + 3328" "\<bar>sint (r' ! (i + ?l))\<bar> \<le> B + 3328"
      using ri t(1) unfolding at s1 s2 by linarith+
    ultimately show ?thesis by blast
  qed
  have len': "length r' = 2 * ?l * ?n" by (simp add: r'_def len)
  show "bounded (B + 3328) r'"
    unfolding bounded_def
  proof
    fix x assume "x \<in> set r'"
    then obtain i where i: "i < 2 * ?l * ?n" "x = r' ! i" using len' by (auto simp: in_set_conv_nth)
    obtain b m where "b < ?n" "m < ?l" "i = 2 * ?l * b + m \<or> i = 2 * ?l * b + m + ?l"
      using block_index [OF i(1)] .
    then show "\<bar>sint x\<bar> \<le> B + 3328" using new [of b m "2 * ?l * b + m"] i(2) by auto
  qed
  show "at_level (Suc s) f r'"
    unfolding at_level_def
  proof (intro conjI allI impI)
    show "length r' = 256" using len' n by simp
    fix c m :: nat assume c: "c < 2 ^ Suc s" and m: "m < 2 ^ (8 - Suc s)"
    let ?b = "c div 2"
    have b: "?b < ?n" using c by simp
    have l: "2 ^ (8 - Suc s) = ?l" by simp
    note at = new [OF b m [unfolded l] refl]
    show "zq (r' ! (2 ^ (8 - Suc s) * c + m)) = residue (2 ^ (8 - Suc s)) f (root (2 ^ Suc s + c)) m"
    proof (cases "even c")
      case True
      then have "?l * c = 2 * ?l * ?b" "2 ^ Suc s + c = 2 * (?n + ?b)" by auto
      with at show ?thesis unfolding l by (simp only:)
    next
      case False
      then have c: "c = 2 * ?b + 1" by simp
      have "?l * c + m = 2 * ?l * ?b + m + ?l" by (subst (1) c) (simp add: algebra_simps)
      moreover have "2 ^ Suc s + c = 2 * (?n + ?b) + 1" by (subst (1) c) simp
      ultimately show ?thesis using at unfolding l by (simp only:)
    qed
  qed
qed

text \<open>Seven layers, from one block of 256 coefficients to 128 of two.\<close>

lemma pow2_blocks: "s + d = 7 \<Longrightarrow> 2 * 2 ^ d * 2 ^ s = (256 :: nat)"
proof -
  have "2 * 2 ^ d * 2 ^ s = (2 :: nat) ^ Suc (s + d)" by (simp add: power_add)
  then show "s + d = 7 \<Longrightarrow> 2 * 2 ^ d * 2 ^ s = (256 :: nat)" by simp
qed

lemma ntt_layers_step:
  assumes "s + Suc d = 7"
  shows "ntt_layers (2 ^ Suc d) (2 ^ s) r = ntt_layers (2 ^ d) (2 ^ Suc s)
    (sweep (\<lambda>b. ntt_pair (ZETAS ! (2 ^ s + b))) (2 ^ (7 - s)) r [0..<2 ^ s])"
proof -
  have d: "7 - s = Suc d" using assms by simp
  have "ntt_blocks (2 ^ Suc d) 0 (2 ^ s) r =
      (2 ^ s + 2 ^ s, sweep (\<lambda>b. ntt_pair (ZETAS ! (2 ^ s + b))) (2 ^ (7 - s)) r [0..<2 ^ s])"
    using ntt_blocks_sweep [OF pow2_blocks [OF assms], of 0 "2 ^ s" r] unfolding d by simp
  moreover have "(2 :: nat) ^ Suc d \<ge> 2" "(2 :: nat) ^ Suc d div 2 = 2 ^ d" "2 ^ s + 2 ^ s = (2 :: nat) ^ Suc s" by simp_all
  ultimately show ?thesis by (simp only: ntt_layers.simps [of "2 ^ Suc d"] if_True prod.case)
qed

lemma ntt_layers_correct:
  assumes "s + d = 7" "at_level s f r" "bounded B r" "B + 3328 * int d \<le> 32767"
  shows "at_level 7 f (ntt_layers (2 ^ d) (2 ^ s) r) \<and> bounded (B + 3328 * int d) (ntt_layers (2 ^ d) (2 ^ s) r)"
  using assms
proof (induction d arbitrary: s r B)
  case 0
  then show ?case by (subst (1 2) ntt_layers.simps) simp
next
  case (Suc d)
  have "s < 7" "B \<le> 29439" using Suc.prems by simp_all
  note layer = ntt_layer [OF Suc.prems(2) this(1) Suc.prems(3) this(2)]
  show ?case
    using Suc.IH [OF _ layer] Suc.prems(1,4) unfolding ntt_layers_step [OF Suc.prems(1)] by (simp add: algebra_simps)
qed

lemma at_level_0: "length r = 256 \<Longrightarrow> at_level 0 (\<lambda>i. zq (r ! i)) r"
  by (simp add: at_level_def residue_def)

lemma ntt_correct:
  assumes "length r = 256" "bounded 3328 r"
  shows "at_level 7 (\<lambda>i. zq (r ! i)) (ntt r)" "bounded 26624 (ntt r)"
  using ntt_layers_correct [of 0 7 "\<lambda>i. zq (r ! i)" r 3328] assms at_level_0 [of r] by (simp_all add: ntt_def)

text \<open>
  The transform of FIPS 203: the two coefficients of the polynomial modulo \<open>X^2 - 17^(2 BitRev7(i) + 1)\<close>.
\<close>

definition ntt_spec :: "(nat \<Rightarrow> zq) \<Rightarrow> nat \<Rightarrow> nat \<Rightarrow> zq" where
  "ntt_spec f i m = (\<Sum>j<128. f (2 * j + m) * 17 ^ ((2 * bitrev7 i + 1) * j))"

lemma residue_leaf: "i < 128 \<Longrightarrow> residue 2 f (root (128 + i)) m = ntt_spec f i m"
  by (simp only: root_leaf) (simp add: residue_def ntt_spec_def power_mult [symmetric] power_add)

lemma at_level_leaves:
  "at_level 7 f r \<longleftrightarrow> length r = 256 \<and> (\<forall>i<128. \<forall>m<2. zq (r ! (2 * i + m)) = ntt_spec f i m)"
  by (auto simp: at_level_def residue_leaf)

subsection \<open>The inverse transform\<close>

definition inv_pair :: "i16 \<Rightarrow> i16 \<Rightarrow> i16 \<Rightarrow> i16 \<times> i16" where
  "inv_pair z x y = (barrett_reduce (x + y), fqmul z (y - x))"

lemma inv_butterfly_pair: "0 < len \<Longrightarrow> inv_butterfly z len = pair_step (inv_pair z) len"
  by (rule ext)+ (simp add: inv_butterfly_def pair_step_def inv_pair_def Let_def)

lemma inv_blocks_sweep:
  assumes "2 * len * n = 256" "c \<le> n"
  shows "inv_blocks len (2 * len * c) (k - c) r = (k - n, sweep (\<lambda>b. inv_pair (ZETAS ! (k - b))) len r [c..<n])"
  using assms(2)
proof (induction "n - c" arbitrary: c r)
  case 0
  then show ?case using assms(1) by (subst inv_blocks.simps) (simp add: MLKEM_N_def)
next
  case (Suc d)
  then have c: "c < n" by simp
  have len: "0 < len" using assms(1) by (cases len) simp_all
  have "2 * len * c < 256" using mult_less_mono2 [OF c, of "2 * len"] len unfolding assms(1) by simp
  then have "inv_blocks len (2 * len * c) (k - c) r = inv_blocks len (2 * len * Suc c) (k - Suc c)
      (foldl (pair_step (inv_pair (ZETAS ! (k - c))) len) r [2 * len * c..<2 * len * c + len])"
    using len by (subst inv_blocks.simps) (simp add: MLKEM_N_def inv_butterfly_pair algebra_simps)
  also have "\<dots> = (k - n, sweep (\<lambda>b. inv_pair (ZETAS ! (k - b))) len
      (foldl (pair_step (inv_pair (ZETAS ! (k - c))) len) r [2 * len * c..<2 * len * c + len]) [Suc c..<n])"
    using Suc.hyps(2) c by (intro Suc.hyps(1)) simp_all
  also have "\<dots> = (k - n, sweep (\<lambda>b. inv_pair (ZETAS ! (k - b))) len r [c..<n])"
    using c by (simp add: sweep_def upt_conv_Cons)
  finally show ?case .
qed

lemma residue_scale: "residue L (\<lambda>i. c * f i) g m = c * residue L f g m"
  by (simp add: residue_def sum_distrib_left mult.assoc)

lemma inv_layer:
  assumes level: "at_level (Suc s) f r" and s: "s < 7" and bound: "bounded B r" and B: "B \<le> 16383"
  defines "r' \<equiv> sweep (\<lambda>b. inv_pair (ZETAS ! (2 ^ Suc s - 1 - b))) (2 ^ (7 - s)) r [0..<2 ^ s]"
  shows "at_level s (\<lambda>i. 2 * f i) r'" "bounded 3328 r'"
proof -
  let ?l = "2 ^ (7 - s) :: nat" and ?n = "2 ^ s :: nat"
  have L: "2 ^ (8 - s) = 2 * ?l" using s by (simp add: Suc_diff_le flip: power_Suc)
  have n: "2 * ?l * ?n = 256" using s by (simp add: power_add [symmetric])
  have len: "length r = 2 * ?l * ?n" using level n by (simp add: at_level_def)
  have "2 ^ Suc s \<le> (2 ^ 7 :: nat)" using s by (intro power_increasing) simp_all
  then have k: "?n + b < 128" "2 ^ Suc s - 1 - b < 128" if "b < ?n" for b using that by simp_all
  have old: "zq (r ! (?l * c + m)) = residue ?l f (root (2 * ?n + c)) m" if "c < 2 * ?n" "m < ?l" for c m
    using level that by (simp add: at_level_def)
  have new: "\<bar>sint (r' ! i)\<bar> \<le> 3328 \<and> \<bar>sint (r' ! (i + ?l))\<bar> \<le> 3328 \<and>
      zq (r' ! i) = 2 * residue (2 * ?l) f (root (?n + b)) m \<and>
      zq (r' ! (i + ?l)) = 2 * residue (2 * ?l) f (root (?n + b)) (m + ?l)"
    if b: "b < ?n" and m: "m < ?l" and i: "i = 2 * ?l * b + m" for b m i
  proof -
    let ?z = "zeta (?n + b)" and ?x = "r ! i" and ?y = "r ! (i + ?l)" and ?k = "2 ^ Suc s - 1 - b"
    let ?A = "residue (2 * ?l) f (root (?n + b)) m" and ?B = "residue (2 * ?l) f (root (?n + b)) (m + ?l)"
    have at: "r' ! i = barrett_reduce (?x + ?y)" "r' ! (i + ?l) = fqmul (ZETAS ! ?k) (?y - ?x)"
      using sweep_nth [OF len le_refl b m, of "\<lambda>b. inv_pair (ZETAS ! (2 ^ Suc s - 1 - b))"] b
      by (simp_all add: r'_def i inv_pair_def)
    have "2 * ?l * Suc b \<le> 2 * ?l * ?n" using b by (intro mult_le_mono2) simp
    then have "i < length r" "i + ?l < length r" using m by (simp_all add: i len)
    then have xy: "\<bar>sint ?x\<bar> \<le> B" "\<bar>sint ?y\<bar> \<le> B" by (simp_all only: bounded_nth [OF bound])
    have s1: "sint (?x + ?y) = sint ?x + sint ?y" using xy B by (intro sint_add16) linarith+
    have s2: "sint (?y - ?x) = sint ?y - sint ?x" using xy B by (intro sint_sub16) linarith+
    have z1: "zq (?x + ?y) = zq ?x + zq ?y" by (simp only: zq_def s1 of_int_add)
    have z2: "zq (?y - ?x) = zq ?y - zq ?x" by (simp only: zq_def s2 of_int_diff)
    have pos: "0 < ?n + b" by simp
    have square: "?z * ?z = root (?n + b)" "- ?z * - ?z = root (?n + b)"
      using zeta_square [OF pos k(1) [OF b]] by simp_all
    have l: "0 < ?l" by simp
    note split = residue_split [OF n [symmetric] l, of f _ m]
    have "zq (r ! (?l * (2 * b) + m)) = residue ?l f (root (2 * (?n + b))) m"
      using old [of "2 * b" m] b m by (simp add: distrib_left)
    moreover have "zq (r ! (?l * (2 * b + 1) + m)) = residue ?l f (root (2 * (?n + b) + 1)) m"
      using old [of "2 * b + 1" m] b m by (simp add: distrib_left)
    moreover have "?l * (2 * b) + m = i" "?l * (2 * b + 1) + m = i + ?l" by (simp_all add: i algebra_simps)
    ultimately have x: "zq ?x = ?A + ?z * ?B" and y: "zq ?y = ?A + - ?z * ?B"
      using split [of ?z] split [of "- ?z"] by (simp_all only: root_children [OF pos] square)
    have "zq (r' ! i) = 2 * ?A"
      by (simp only: at barrett_reduce_correct(2) z1 x y) (simp add: algebra_simps)
    moreover have "zq (r' ! (i + ?l)) = zeta ?k * ?z * (- 2 * ?B)"
      by (simp only: at fqmul_zeta(2) [OF k(2) [OF b]] z2 x y) (simp add: algebra_simps)
    moreover have "\<bar>sint (r' ! i)\<bar> \<le> 3328" "\<bar>sint (r' ! (i + ?l))\<bar> \<le> 3328"
      using barrett_reduce_correct(1) [of "?x + ?y"] fqmul_zeta(1) [OF k(2) [OF b], of "?y - ?x"]
      unfolding at by linarith+
    ultimately show ?thesis unfolding zeta_inverse [OF s b] by simp
  qed
  have len': "length r' = 2 * ?l * ?n" by (simp add: r'_def len)
  show "bounded 3328 r'"
    unfolding bounded_def
  proof
    fix x assume "x \<in> set r'"
    then obtain i where i: "i < 2 * ?l * ?n" "x = r' ! i" using len' by (auto simp: in_set_conv_nth)
    obtain b m where "b < ?n" "m < ?l" "i = 2 * ?l * b + m \<or> i = 2 * ?l * b + m + ?l"
      using block_index [OF i(1)] .
    then show "\<bar>sint x\<bar> \<le> 3328" using new [of b m "2 * ?l * b + m"] i(2) by auto
  qed
  show "at_level s (\<lambda>i. 2 * f i) r'"
    unfolding at_level_def L residue_scale
  proof (intro conjI allI impI)
    show "length r' = 256" using len' n by simp
    fix b m assume b: "b < ?n" and m: "m < 2 * ?l"
    show "zq (r' ! (2 * ?l * b + m)) = 2 * residue (2 * ?l) f (root (?n + b)) m"
    proof (cases "m < ?l")
      case True
      then show ?thesis using new [OF b True refl] by simp
    next
      case False
      then have lt: "m - ?l < ?l" using m by simp
      show ?thesis using new [OF b lt refl] False by simp
    qed
  qed
qed

lemma inv_layers_step:
  assumes "s < 7"
  shows "inv_layers (2 ^ (7 - s)) (2 ^ Suc s - 1) r = inv_layers (2 ^ (8 - s)) (2 ^ s - 1)
    (sweep (\<lambda>b. inv_pair (ZETAS ! (2 ^ Suc s - 1 - b))) (2 ^ (7 - s)) r [0..<2 ^ s])"
proof -
  have n: "2 * 2 ^ (7 - s) * 2 ^ s = (256 :: nat)" using assms by (intro pow2_blocks) simp
  have "inv_blocks (2 ^ (7 - s)) 0 (2 ^ Suc s - 1) r = (2 ^ Suc s - 1 - 2 ^ s,
      sweep (\<lambda>b. inv_pair (ZETAS ! (2 ^ Suc s - 1 - b))) (2 ^ (7 - s)) r [0..<2 ^ s])"
    using inv_blocks_sweep [OF n, of 0 "2 ^ Suc s - 1" r] by simp
  moreover have "(2 :: nat) ^ (7 - s) \<le> 128 \<and> 0 < (2 :: nat) ^ (7 - s)"
    using power_increasing [of "7 - s" 7 "2 :: nat"] by simp
  moreover have "2 * 2 ^ (7 - s) = (2 :: nat) ^ (8 - s)" using assms by (simp add: Suc_diff_le flip: power_Suc)
  moreover have "2 ^ Suc s - 1 - 2 ^ s = (2 :: nat) ^ s - 1" by simp
  ultimately show ?thesis by (simp only: inv_layers.simps [of "2 ^ (7 - s)"] simp_thms if_True prod.case)
qed

lemma inv_layers_correct:
  assumes "s \<le> 7" "at_level s f r" "bounded 16383 r"
  shows "at_level 0 (\<lambda>i. 2 ^ s * f i) (inv_layers (2 ^ (8 - s)) (2 ^ s - 1) r)"
  using assms
proof (induction s arbitrary: f r)
  case 0
  then show ?case by (subst inv_layers.simps) simp
next
  case (Suc s)
  then have s: "s < 7" by simp
  note layer = inv_layer [OF Suc.prems(2) s Suc.prems(3)]
  have "bounded 3328 r \<Longrightarrow> bounded 16383 r" for r by (auto simp: bounded_def)
  with Suc.IH [OF _ layer(1)] layer(2) s
  have "at_level 0 (\<lambda>i. 2 ^ s * (2 * f i)) (inv_layers (2 ^ (7 - s)) (2 ^ Suc s - 1) r)"
    unfolding inv_layers_step [OF s] by simp
  then show ?case by (simp add: mult.left_commute mult.assoc)
qed

lemma foldl_update_map:
  "n \<le> length r \<Longrightarrow> foldl (\<lambda>r j. r[j := h (r ! j)]) r [0..<n] = map h (take n r) @ drop n r"
proof (induction n)
  case (Suc n)
  then show ?case
    by (simp add: take_Suc_conv_app_nth nth_append list_update_append Cons_nth_drop_Suc [symmetric])
qed simp

lemma inv_ntt_correct:
  assumes "at_level 7 f r" "bounded 16383 r"
  shows "length (inv_ntt r) = 256" "bounded 3328 (inv_ntt r)" "i < 256 \<Longrightarrow> zq (inv_ntt r ! i) = 65536 * f i"
proof -
  let ?r = "inv_layers 2 127 r"
  have level: "at_level 0 (\<lambda>i. 2 ^ 7 * f i) ?r"
    using inv_layers_correct [OF _ assms] by simp
  then have len: "length ?r = 256" by (simp add: at_level_def)
  then have inv: "inv_ntt r = map (\<lambda>x. fqmul x INV_F) ?r"
    unfolding inv_ntt_def Let_def MLKEM_N_def by (simp add: foldl_update_map [of _ _ "\<lambda>x. fqmul x INV_F"])
  have F: "sint INV_F = 1441" by (simp add: INV_F_def)
  have fq: "\<bar>sint (fqmul x INV_F)\<bar> < 3329" "zq (fqmul x INV_F) = 169 * zq x * zq INV_F" for x
    using fqmul_correct [of x INV_F] F by simp_all
  show "length (inv_ntt r) = 256" by (simp add: inv len)
  show "bounded 3328 (inv_ntt r)" using fq(1) by (simp add: bounded_def inv zle_diff1_eq [symmetric] del: zle_diff1_eq)
  assume i: "i < 256"
  have "zq INV_F = 1441" by (simp only: zq_def F) simp
  moreover have "zq (?r ! i) = 128 * f i" using level i by (simp add: at_level_def residue_def)
  moreover have "169 * (128 * x) * 1441 = (169 * 128 * 1441) * x" for x :: zq by (simp only: ac_simps)
  moreover have "(169 * 128 * 1441 :: zq) = 65536" using zq_of_int_eq [of "169 * 128 * 1441" 65536] by simp
  ultimately show "zq (inv_ntt r ! i) = 65536 * f i" using i len by (simp only: inv nth_map fq(2))
qed

subsection \<open>Properties\<close>

lemma bounded_set: "bounded B r \<longleftrightarrow> list_all (\<lambda>x. \<bar>sint x\<bar> \<le> B) r"
  by (simp add: bounded_def list_all_iff)

text \<open>C37: The transform is that of FIPS 203: on coefficients in \<open>(-q, q)\<close> its seven layers compute the two
  coefficients of the polynomial modulo each \<open>X^2 - 17^(2 BitRev7(i) + 1)\<close> with no 16-bit overflow, every
  result below \<open>8 q\<close>; and the inverse, applied after Barrett reduction, returns the polynomial itself in
  Montgomery form, with coefficients in \<open>(-q, q)\<close>.\<close>

theorem mlkem_ntt_exact:
  assumes "length r = 256" "list_all (\<lambda>x. \<bar>sint x\<bar> < 3329) r"
  shows "length (ntt r) = 256 \<and> list_all (\<lambda>x. \<bar>sint x\<bar> < 8 * 3329) (ntt r) \<and>
    (i < 128 \<and> m < 2 \<longrightarrow> zq (ntt r ! (2 * i + m)) = ntt_spec (\<lambda>j. zq (r ! j)) i m) \<and>
    length (inv_ntt (map barrett_reduce (ntt r))) = 256 \<and>
    list_all (\<lambda>x. \<bar>sint x\<bar> < 3329) (inv_ntt (map barrett_reduce (ntt r))) \<and>
    (n < 256 \<longrightarrow> zq (inv_ntt (map barrett_reduce (ntt r)) ! n) = 2 ^ 16 * zq (r ! n))"
proof -
  have "bounded 3328 r" using assms(2) by (auto simp: bounded_def list_all_iff zle_diff1_eq [symmetric] simp del: zle_diff1_eq)
  note fwd = ntt_correct [OF assms(1) this]
  have "bounded 16383 (map barrett_reduce (ntt r))"
    using barrett_reduce_correct(1) by (auto simp: bounded_def intro: order_trans [where y = 1664])
  moreover have "at_level 7 (\<lambda>i. zq (r ! i)) (map barrett_reduce (ntt r))"
    using fwd(1) by (simp add: at_level_leaves barrett_reduce_correct(2) split: if_splits)
  ultimately have inv: "length (inv_ntt (map barrett_reduce (ntt r))) = 256" "bounded 3328 (inv_ntt (map barrett_reduce (ntt r)))"
    "n < 256 \<Longrightarrow> zq (inv_ntt (map barrett_reduce (ntt r)) ! n) = 65536 * zq (r ! n)"
    using inv_ntt_correct by blast+
  have lt: "\<bar>x\<bar> \<le> 3328 \<Longrightarrow> \<bar>x\<bar> < 3329" "\<bar>x\<bar> \<le> 26624 \<Longrightarrow> \<bar>x\<bar> < 8 * 3329" for x :: int by simp_all
  show ?thesis
    using fwd inv lt unfolding at_level_leaves bounded_set list_all_iff by auto
qed

theorem mlkem_ntt_exact_witness:
  "let r = map word_of_nat [0..<256] in
   zq (ntt r ! 7) = ntt_spec (\<lambda>j. zq (r ! j)) 3 1 \<and>
   zq (inv_ntt (map barrett_reduce (ntt r)) ! 200) = 2 ^ 16 * zq (r ! 200)"
proof -
  have "\<bar>sint (word_of_nat k :: i16)\<bar> < 3329" if "k < 256" for k
    using sint_of_int16 [of "int k"] that by simp
  then have "list_all (\<lambda>x. \<bar>sint x\<bar> < 3329) (map word_of_nat [0..<256] :: coeffs)" by (simp add: list_all_iff)
  from mlkem_ntt_exact [OF _ this, of 3 1 200] show ?thesis by (simp add: Let_def)
qed

end
