(* ===== verification/Mlkem_Poly.thy ===== *)
theory Mlkem_Poly
  imports Mlkem_Ntt
begin

text \<open>
  Polynomials with 256 coefficients of \<^verbatim>\<open>src/crates/oxicrypt-ml-kem/src/poly.rs\<close>, and the vectors and matrices
  of them that \<^verbatim>\<open>ml_kem_impl.rs\<close> generates for a rank \<open>K\<close>.  A \<open>Poly\<close> is its array of coefficients.  The
  products in the transformed domain are shown to be those of the ring \<open>Z_q[X]/(X^256 + 1)\<close>, with no
  overflow of the 16-bit accumulators.
\<close>

subsection \<open>The code\<close>

definition poly_zero :: coeffs where
  "poly_zero = replicate MLKEM_N 0"

definition poly_add_assign :: "coeffs \<Rightarrow> coeffs \<Rightarrow> coeffs" where
  "poly_add_assign self other = foldl (\<lambda>r i. r[i := r ! i + other ! i]) self [0..<MLKEM_N]"

definition poly_sub_assign :: "coeffs \<Rightarrow> coeffs \<Rightarrow> coeffs" where
  "poly_sub_assign self other = foldl (\<lambda>r i. r[i := r ! i - other ! i]) self [0..<MLKEM_N]"

definition poly_reduce :: "coeffs \<Rightarrow> coeffs" where
  "poly_reduce self = foldl (\<lambda>r i. r[i := barrett_reduce (r ! i)]) self [0..<MLKEM_N]"

definition poly_reduce_full :: "coeffs \<Rightarrow> coeffs" where
  "poly_reduce_full self = foldl (\<lambda>r i. r[i := reduce_full (r ! i)]) self [0..<MLKEM_N]"

definition poly_to_mont :: "coeffs \<Rightarrow> coeffs" where
  "poly_to_mont self = foldl (\<lambda>r i. r[i := to_mont (r ! i)]) self [0..<MLKEM_N]"

definition pointwise_step :: "coeffs \<Rightarrow> coeffs \<Rightarrow> coeffs \<Rightarrow> usize \<Rightarrow> coeffs" where
  "pointwise_step a b self i =
     (let z = ZETAS ! (64 + i);
          (r0, r1) = basemul (a ! (4 * i)) (a ! (4 * i + 1)) (b ! (4 * i)) (b ! (4 * i + 1)) z;
          self = self[4 * i := self ! (4 * i) + r0];
          self = self[4 * i + 1 := self ! (4 * i + 1) + r1];
          (r0, r1) = basemul (a ! (4 * i + 2)) (a ! (4 * i + 3)) (b ! (4 * i + 2)) (b ! (4 * i + 3)) (- z);
          self = self[4 * i + 2 := self ! (4 * i + 2) + r0]
      in self[4 * i + 3 := self ! (4 * i + 3) + r1])"

definition pointwise_acc :: "coeffs \<Rightarrow> coeffs \<Rightarrow> coeffs \<Rightarrow> coeffs" where
  "pointwise_acc self a b = foldl (pointwise_step a b) self [0..<64]"

type_synonym polyvec = "coeffs list"

definition polyvec_zero :: "usize \<Rightarrow> polyvec" where
  "polyvec_zero K = replicate K poly_zero"

definition polyvec_ntt :: "usize \<Rightarrow> polyvec \<Rightarrow> polyvec" where
  "polyvec_ntt K polys = foldl (\<lambda>v i. v[i := ntt (v ! i)]) polys [0..<K]"

definition polyvec_inv_ntt :: "usize \<Rightarrow> polyvec \<Rightarrow> polyvec" where
  "polyvec_inv_ntt K polys = foldl (\<lambda>v i. v[i := inv_ntt (v ! i)]) polys [0..<K]"

definition polyvec_add_assign :: "usize \<Rightarrow> polyvec \<Rightarrow> polyvec \<Rightarrow> polyvec" where
  "polyvec_add_assign K polys other = foldl (\<lambda>v i. v[i := poly_add_assign (v ! i) (other ! i)]) polys [0..<K]"

definition inner_product_ntt :: "usize \<Rightarrow> polyvec \<Rightarrow> polyvec \<Rightarrow> coeffs" where
  "inner_product_ntt K a b =
     poly_reduce (foldl (\<lambda>r i. pointwise_acc r (a ! i) (b ! i)) poly_zero [0..<K])"

text \<open>The inner loop of both matrix products: row \<open>i\<close>, given its entries.\<close>

definition mul_row :: "usize \<Rightarrow> (usize \<Rightarrow> coeffs) \<Rightarrow> polyvec \<Rightarrow> polyvec \<Rightarrow> usize \<Rightarrow> polyvec" where
  "mul_row K row s t i =
     (let t = foldl (\<lambda>t j. t[i := pointwise_acc (t ! i) (row j) (s ! j)]) t [0..<K]
      in t[i := poly_reduce (t ! i)])"

definition mul_vec :: "usize \<Rightarrow> coeffs list list \<Rightarrow> polyvec \<Rightarrow> polyvec" where
  "mul_vec K rows s = foldl (\<lambda>t i. mul_row K (\<lambda>j. rows ! i ! j) s t i) (polyvec_zero K) [0..<K]"

definition transpose_mul_vec :: "usize \<Rightarrow> coeffs list list \<Rightarrow> polyvec \<Rightarrow> polyvec" where
  "transpose_mul_vec K rows r = foldl (\<lambda>u i. mul_row K (\<lambda>j. rows ! j ! i) r u i) (polyvec_zero K) [0..<K]"

subsection \<open>Coefficient-wise operations\<close>

lemma foldl_update_nth:
  assumes "n \<le> length r"
  shows "length (foldl (\<lambda>r i. r[i := h i (r ! i)]) r [0..<n]) = length r"
    "i < length r \<Longrightarrow> foldl (\<lambda>r i. r[i := h i (r ! i)]) r [0..<n] ! i = (if i < n then h i (r ! i) else r ! i)"
proof -
  have "length (foldl (\<lambda>r i. r[i := h i (r ! i)]) r [0..<n]) = length r \<and>
    (\<forall>i < length r. foldl (\<lambda>r i. r[i := h i (r ! i)]) r [0..<n] ! i = (if i < n then h i (r ! i) else r ! i))"
    using assms by (induction n) (auto simp: nth_list_update less_Suc_eq)
  then show "length (foldl (\<lambda>r i. r[i := h i (r ! i)]) r [0..<n]) = length r"
    "i < length r \<Longrightarrow> foldl (\<lambda>r i. r[i := h i (r ! i)]) r [0..<n] ! i = (if i < n then h i (r ! i) else r ! i)"
    by blast+
qed

lemma foldl_update_all:
  assumes "length r = n"
  shows "foldl (\<lambda>r i. r[i := h i (r ! i)]) r [0..<n] = map (\<lambda>i. h i (r ! i)) [0..<n]"
  using assms by (intro nth_equalityI) (simp_all add: foldl_update_nth)

lemma poly_loops:
  assumes "length r = 256"
  shows "poly_add_assign r o' = map (\<lambda>i. r ! i + o' ! i) [0..<256]"
    "poly_sub_assign r o' = map (\<lambda>i. r ! i - o' ! i) [0..<256]"
    "poly_reduce r = map barrett_reduce r"
    "poly_reduce_full r = map reduce_full r"
    "poly_to_mont r = map to_mont r"
  using assms unfolding poly_add_assign_def poly_sub_assign_def poly_reduce_def poly_reduce_full_def poly_to_mont_def MLKEM_N_def
  by (simp_all only: foldl_update_all [of _ 256 "\<lambda>i x. x + o' ! i"] foldl_update_all [of _ 256 "\<lambda>i x. x - o' ! i"]
    foldl_update_all [of _ 256 "\<lambda>i x. barrett_reduce x"] foldl_update_all [of _ 256 "\<lambda>i x. reduce_full x"]
    foldl_update_all [of _ 256 "\<lambda>i x. to_mont x"])
    (simp_all add: list_eq_iff_nth_eq)

lemma polyvec_loops:
  assumes "length v = K"
  shows "polyvec_ntt K v = map ntt v" "polyvec_inv_ntt K v = map inv_ntt v"
    "polyvec_add_assign K v w = map (\<lambda>i. poly_add_assign (v ! i) (w ! i)) [0..<K]"
  using assms unfolding polyvec_ntt_def polyvec_inv_ntt_def polyvec_add_assign_def
  by (simp_all only: foldl_update_all [of _ K "\<lambda>i x. ntt x"] foldl_update_all [of _ K "\<lambda>i x. inv_ntt x"]
    foldl_update_all [of _ K "\<lambda>i x. poly_add_assign x (w ! i)"])
    (simp_all add: list_eq_iff_nth_eq)

subsection \<open>The product of transformed polynomials\<close>

lemma basemul_correct:
  assumes "\<bar>sint a0\<bar> < 3329" "\<bar>sint a1\<bar> < 3329" "\<bar>sint z\<bar> < 3329"
  shows "\<bar>sint (fst (basemul a0 a1 b0 b1 z))\<bar> \<le> 6656" "\<bar>sint (snd (basemul a0 a1 b0 b1 z))\<bar> \<le> 6656"
    "zq (fst (basemul a0 a1 b0 b1 z)) = 169 * (zq a0 * zq b0 + 169 * zq z * (zq a1 * zq b1))"
    "zq (snd (basemul a0 a1 b0 b1 z)) = 169 * (zq a0 * zq b1 + zq a1 * zq b0)"
proof -
  let ?p = "fqmul (fqmul a1 b1) z" and ?q = "fqmul a0 b0" and ?r = "fqmul a0 b1" and ?s = "fqmul a1 b0"
  have p: "\<bar>sint ?p\<bar> < 3329" "zq ?p = 169 * zq (fqmul a1 b1) * zq z" using fqmul_correct assms(3) by blast+
  have t: "zq (fqmul a1 b1) = 169 * zq a1 * zq b1" using fqmul_correct assms(2) by blast
  have q: "\<bar>sint ?q\<bar> < 3329" "zq ?q = 169 * zq a0 * zq b0" using fqmul_correct assms(1) by blast+
  have r: "\<bar>sint ?r\<bar> < 3329" "zq ?r = 169 * zq a0 * zq b1" using fqmul_correct assms(1) by blast+
  have s: "\<bar>sint ?s\<bar> < 3329" "zq ?s = 169 * zq a1 * zq b0" using fqmul_correct assms(2) by blast+
  have s0: "sint (?p + ?q) = sint ?p + sint ?q" using p(1) q(1) by (intro sint_add16) linarith+
  have s1: "sint (?r + ?s) = sint ?r + sint ?s" using r(1) s(1) by (intro sint_add16) linarith+
  have fst: "fst (basemul a0 a1 b0 b1 z) = ?p + ?q" and snd: "snd (basemul a0 a1 b0 b1 z) = ?r + ?s"
    by (simp_all add: basemul_def Let_def)
  show "\<bar>sint (fst (basemul a0 a1 b0 b1 z))\<bar> \<le> 6656" "\<bar>sint (snd (basemul a0 a1 b0 b1 z))\<bar> \<le> 6656"
    using p(1) q(1) r(1) s(1) unfolding fst snd s0 s1 by linarith+
  have "zq (?p + ?q) = zq ?p + zq ?q" by (simp only: zq_def s0 of_int_add)
  then show "zq (fst (basemul a0 a1 b0 b1 z)) = 169 * (zq a0 * zq b0 + 169 * zq z * (zq a1 * zq b1))"
    unfolding fst p(2) q(2) t by (simp only: distrib_left ac_simps)
  have "zq (?r + ?s) = zq ?r + zq ?s" by (simp only: zq_def s1 of_int_add)
  then show "zq (snd (basemul a0 a1 b0 b1 z)) = 169 * (zq a0 * zq b1 + zq a1 * zq b0)"
    unfolding snd r(2) s(2) by (simp only: distrib_left ac_simps)
qed

text \<open>The products of the pair at \<open>2 i\<close>: the even pairs use the root, the odd ones its negation.\<close>

definition pair_product :: "coeffs \<Rightarrow> coeffs \<Rightarrow> nat \<Rightarrow> i16 \<times> i16" where
  "pair_product a b i = basemul (a ! (2 * i)) (a ! (2 * i + 1)) (b ! (2 * i)) (b ! (2 * i + 1))
     (if even i then ZETAS ! (64 + i div 2) else - ZETAS ! (64 + i div 2))"

lemma pointwise_step_nth:
  assumes "length self = 256" "i < 64" "j < 128"
  shows "pointwise_step a b self i ! (2 * j) =
      (if j div 2 = i then self ! (2 * j) + fst (pair_product a b j) else self ! (2 * j))"
    "pointwise_step a b self i ! (2 * j + 1) =
      (if j div 2 = i then self ! (2 * j + 1) + snd (pair_product a b j) else self ! (2 * j + 1))"
proof -
  consider "j = 2 * i" | "j = 2 * i + 1" | "j div 2 \<noteq> i" by linarith
  note cases = this
  show "pointwise_step a b self i ! (2 * j) =
      (if j div 2 = i then self ! (2 * j) + fst (pair_product a b j) else self ! (2 * j))"
    by (cases rule: cases)
      (use assms in \<open>auto simp: pointwise_step_def pair_product_def Let_def case_prod_beta nth_list_update numeral_3_eq_3\<close>)
  show "pointwise_step a b self i ! (2 * j + 1) =
      (if j div 2 = i then self ! (2 * j + 1) + snd (pair_product a b j) else self ! (2 * j + 1))"
    by (cases rule: cases)
      (use assms in \<open>auto simp: pointwise_step_def pair_product_def Let_def case_prod_beta nth_list_update numeral_3_eq_3\<close>)
qed

lemma length_pointwise_step [simp]: "length (pointwise_step a b self i) = length self"
  by (simp add: pointwise_step_def Let_def split: prod.split)

lemma pointwise_acc_nth:
  assumes "length self = 256"
  shows "length (pointwise_acc self a b) = 256"
    "j < 128 \<Longrightarrow> pointwise_acc self a b ! (2 * j) = self ! (2 * j) + fst (pair_product a b j)"
    "j < 128 \<Longrightarrow> pointwise_acc self a b ! (2 * j + 1) = self ! (2 * j + 1) + snd (pair_product a b j)"
proof -
  have "length (foldl (pointwise_step a b) self [0..<n]) = 256 \<and> (\<forall>j < 128.
    foldl (pointwise_step a b) self [0..<n] ! (2 * j) =
      (if j div 2 < n then self ! (2 * j) + fst (pair_product a b j) else self ! (2 * j)) \<and>
    foldl (pointwise_step a b) self [0..<n] ! (2 * j + 1) =
      (if j div 2 < n then self ! (2 * j + 1) + snd (pair_product a b j) else self ! (2 * j + 1)))"
    if "n \<le> 64" for n
    using that
  proof (induction n)
    case (Suc n)
    then have IH: "length (foldl (pointwise_step a b) self [0..<n]) = 256"
      "\<And>j. j < 128 \<Longrightarrow> foldl (pointwise_step a b) self [0..<n] ! (2 * j) =
        (if j div 2 < n then self ! (2 * j) + fst (pair_product a b j) else self ! (2 * j))"
      "\<And>j. j < 128 \<Longrightarrow> foldl (pointwise_step a b) self [0..<n] ! (2 * j + 1) =
        (if j div 2 < n then self ! (2 * j + 1) + snd (pair_product a b j) else self ! (2 * j + 1))" by simp_all
    note step = pointwise_step_nth [OF IH(1), of n _ a b]
    show ?case using IH step Suc.prems by (auto simp: less_Suc_eq)
  qed (use assms in simp)
  from this [of 64] show "length (pointwise_acc self a b) = 256"
    "j < 128 \<Longrightarrow> pointwise_acc self a b ! (2 * j) = self ! (2 * j) + fst (pair_product a b j)"
    "j < 128 \<Longrightarrow> pointwise_acc self a b ! (2 * j + 1) = self ! (2 * j + 1) + snd (pair_product a b j)"
    by (auto simp: pointwise_acc_def)
qed

lemma sint_minus16: "\<bar>sint z\<bar> < 3329 \<Longrightarrow> sint (- z :: i16) = - sint z"
  using sint_of_int16 [of "- sint z"] by (simp only: of_int_minus of_int_sint scast_id)

lemma pair_product_correct:
  assumes "length a = 256" "bounded 3328 a" "i < 128"
  shows "\<bar>sint (fst (pair_product a b i))\<bar> \<le> 6656" "\<bar>sint (snd (pair_product a b i))\<bar> \<le> 6656"
    "zq (fst (pair_product a b i)) =
      169 * (zq (a ! (2 * i)) * zq (b ! (2 * i)) + root (128 + i) * (zq (a ! (2 * i + 1)) * zq (b ! (2 * i + 1))))"
    "zq (snd (pair_product a b i)) =
      169 * (zq (a ! (2 * i)) * zq (b ! (2 * i + 1)) + zq (a ! (2 * i + 1)) * zq (b ! (2 * i)))"
proof -
  let ?k = "64 + i div 2"
  let ?z = "if even i then ZETAS ! ?k else - ZETAS ! ?k"
  have k: "?k < 128" using assms(3) by simp
  note sk = sint_ZETAS [OF k]
  have z: "\<bar>sint ?z\<bar> < 3329" using sk by (simp add: sint_minus16)
  have "zq (- ZETAS ! ?k) = - zq (ZETAS ! ?k)" by (simp only: zq_def sint_minus16 [OF sk] of_int_minus)
  then have root: "169 * zq ?z = root (128 + i)"
    using assms(3) div_plus_div_distrib_dvd_left [of 2 128 i] by (simp add: root_def zeta_def)
  have "\<bar>sint (a ! (2 * i))\<bar> < 3329" "\<bar>sint (a ! (2 * i + 1))\<bar> < 3329"
    using bounded_nth [OF assms(2), of "2 * i"] bounded_nth [OF assms(2), of "2 * i + 1"] assms(1,3) by simp_all
  note basemul_correct [OF this z, of "b ! (2 * i)" "b ! (2 * i + 1)"]
  then show "\<bar>sint (fst (pair_product a b i))\<bar> \<le> 6656" "\<bar>sint (snd (pair_product a b i))\<bar> \<le> 6656"
    "zq (fst (pair_product a b i)) =
      169 * (zq (a ! (2 * i)) * zq (b ! (2 * i)) + root (128 + i) * (zq (a ! (2 * i + 1)) * zq (b ! (2 * i + 1))))"
    "zq (snd (pair_product a b i)) =
      169 * (zq (a ! (2 * i)) * zq (b ! (2 * i + 1)) + zq (a ! (2 * i + 1)) * zq (b ! (2 * i)))"
    unfolding pair_product_def root by blast+
qed

text \<open>Multiplication in \<open>Z_q[X]/(X^256 + 1)\<close>, and that the transform is multiplicative.\<close>

definition rq_mult :: "(nat \<Rightarrow> zq) \<Rightarrow> (nat \<Rightarrow> zq) \<Rightarrow> nat \<Rightarrow> zq" where
  "rq_mult a b n =
     (\<Sum>i<256. \<Sum>j<256. a i * b j * (if i + j = n then 1 else if i + j = n + 256 then - 1 else 0))"

text \<open>The weight of \<open>X^n\<close> in coefficient \<open>m\<close> modulo \<open>X^2 - g\<close>.\<close>

definition weight :: "zq \<Rightarrow> nat \<Rightarrow> nat \<Rightarrow> zq" where
  "weight g m n = (if n mod 2 = m then g ^ (n div 2) else 0)"

lemma residue_weight: "m < 2 \<Longrightarrow> residue 2 f g m = (\<Sum>n<256. f n * weight g m n)"
  using sum_even_odd [of "\<lambda>n. f n * weight g m n" 128]
  by (auto simp: residue_def weight_def less_2_cases_iff)

lemma weight_wrap: "g ^ 128 = - 1 \<Longrightarrow> weight g m (n + 256) = - weight g m n"
proof -
  assume "g ^ 128 = - 1"
  moreover have "(n + 256) mod 2 = n mod 2" "(n + 256) div 2 = n div 2 + 128" by presburger+
  ultimately show "weight g m (n + 256) = - weight g m n" by (simp add: weight_def power_add)
qed

lemma weight_add:
  "weight g 0 (i + j) = weight g 0 i * weight g 0 j + g * (weight g 1 i * weight g 1 j)"
  "weight g 1 (i + j) = weight g 0 i * weight g 1 j + weight g 1 i * weight g 0 j"
proof -
  consider (ee) i' j' where "i = 2 * i'" "j = 2 * j'" | (eo) i' j' where "i = 2 * i'" "j = 2 * j' + 1"
    | (oe) i' j' where "i = 2 * i' + 1" "j = 2 * j'" | (oo) i' j' where "i = 2 * i' + 1" "j = 2 * j' + 1"
    by (metis evenE oddE)
  then show "weight g 0 (i + j) = weight g 0 i * weight g 0 j + g * (weight g 1 i * weight g 1 j)"
    and "weight g 1 (i + j) = weight g 0 i * weight g 1 j + weight g 1 i * weight g 0 j"
    by (cases; simp add: weight_def power_add mod_add_eq [symmetric])+
qed

lemma sum_rq_mult:
  assumes "g ^ 128 = - 1"
  shows "(\<Sum>n<256. rq_mult a b n * weight g m n) = (\<Sum>i<256. \<Sum>j<256. a i * b j * weight g m (i + j))"
proof -
  let ?d = "\<lambda>i j n. (if i + j = n then 1 else if i + j = n + 256 then - 1 else 0 :: zq)"
  have pick: "(\<Sum>n<256. ?d i j n * weight g m n) = weight g m (i + j)" if "i < 256" "j < 256" for i j :: nat
  proof (cases "i + j < 256")
    case True
    have "(\<Sum>n<256. ?d i j n * weight g m n) = (\<Sum>n<256. if n = i + j then weight g m (i + j) else 0)"
      using True by (intro sum.cong) auto
    then show ?thesis using True by simp
  next
    case False
    define k where "k = i + j - 256"
    have k: "i + j = k + 256" "k < 256" using False that by (simp_all add: k_def)
    have "(\<Sum>n<256. ?d i j n * weight g m n) = (\<Sum>n<256. if n = k then - weight g m k else 0)"
      using k by (intro sum.cong) auto
    then show ?thesis using k by (simp add: weight_wrap [OF assms])
  qed
  have "(\<Sum>n<256. rq_mult a b n * weight g m n) =
      (\<Sum>n<256. \<Sum>i<256. \<Sum>j<256. a i * b j * (?d i j n * weight g m n))"
    unfolding rq_mult_def by (simp only: sum_distrib_right mult.assoc)
  also have "\<dots> = (\<Sum>i<256. \<Sum>j<256. \<Sum>n<256. a i * b j * (?d i j n * weight g m n))"
    by (subst sum.swap) (intro sum.cong refl sum.swap)
  also have "\<dots> = (\<Sum>i<256. \<Sum>j<256. a i * b j * weight g m (i + j))"
    by (simp only: sum_distrib_left [symmetric]) (intro sum.cong refl, simp only: pick lessThan_iff)
  finally show ?thesis .
qed

lemma sum_product_form:
  "(\<Sum>i<n. \<Sum>j<n. a i * b j * (u i * v j)) = (\<Sum>i<n. a i * u i) * (\<Sum>j<n. b j * v j)"
  for a b u v :: "nat \<Rightarrow> zq"
  by (simp add: sum_product ac_simps)

lemma residue_rq_mult:
  assumes "g ^ 128 = - 1"
  shows "residue 2 (rq_mult a b) g 0 = residue 2 a g 0 * residue 2 b g 0 + g * (residue 2 a g 1 * residue 2 b g 1)"
    "residue 2 (rq_mult a b) g 1 = residue 2 a g 0 * residue 2 b g 1 + residue 2 a g 1 * residue 2 b g 0"
proof -
  have dist: "a i * b j * (x + g * y) = a i * b j * x + g * (a i * b j * y)" for i j x y
    by (simp add: algebra_simps)
  show "residue 2 (rq_mult a b) g 0 = residue 2 a g 0 * residue 2 b g 0 + g * (residue 2 a g 1 * residue 2 b g 1)"
    by (simp add: residue_weight sum_rq_mult [OF assms] weight_add(1) dist sum.distrib sum_product_form
        flip: sum_distrib_left)
  show "residue 2 (rq_mult a b) g 1 = residue 2 a g 0 * residue 2 b g 1 + residue 2 a g 1 * residue 2 b g 0"
    by (simp add: residue_weight sum_rq_mult [OF assms] weight_add(2) distrib_left sum.distrib sum_product_form
        del: One_nat_def)
qed

lemma root_leaf_power: "i < 128 \<Longrightarrow> root (128 + i) ^ 128 = - 1"
proof -
  assume "i < 128"
  then have "root (128 + i) ^ 128 = (17 ^ 128) ^ (2 * bitrev7 i + 1)"
    by (simp only: root_leaf power_mult [symmetric] mult.commute)
  then show "root (128 + i) ^ 128 = - 1" unfolding power_17 by simp
qed

lemma at_level_7:
  "at_level 7 f r \<longleftrightarrow> length r = 256 \<and> (\<forall>i<128. zq (r ! (2 * i)) = residue 2 f (root (128 + i)) 0 \<and>
     zq (r ! (2 * i + 1)) = residue 2 f (root (128 + i)) 1)"
  by (auto simp: at_level_def less_2_cases_iff)

lemma residue_add: "residue L (\<lambda>i. f i + g i) r m = residue L f r m + residue L g r m"
  by (simp add: residue_def distrib_right sum.distrib)

lemma zq_add: "- 32768 \<le> sint a + sint b \<Longrightarrow> sint a + sint b \<le> 32767 \<Longrightarrow> zq (a + b) = zq a + zq b"
  by (simp only: zq_def sint_add16 of_int_add)

lemma zq_sub: "- 32768 \<le> sint a - sint b \<Longrightarrow> sint a - sint b \<le> 32767 \<Longrightarrow> zq (a - b) = zq a - zq b"
  by (simp only: zq_def sint_sub16 of_int_diff)

lemma add_bounded:
  assumes "\<bar>sint x\<bar> \<le> B" "\<bar>sint y\<bar> \<le> C" "B + C \<le> 32767"
  shows "\<bar>sint (x + y :: i16)\<bar> \<le> B + C" "zq (x + y) = zq x + zq y"
    "\<bar>sint (x - y :: i16)\<bar> \<le> B + C" "zq (x - y) = zq x - zq y"
proof -
  have "- 32768 \<le> sint x + sint y" "sint x + sint y \<le> 32767" "- 32768 \<le> sint x - sint y" "sint x - sint y \<le> 32767"
    using assms by linarith+
  note s = sint_add16 [OF this(1,2)] sint_sub16 [OF this(3,4)] and z = zq_add [OF this(1,2)] zq_sub [OF this(3,4)]
  show "\<bar>sint (x + y)\<bar> \<le> B + C" "\<bar>sint (x - y)\<bar> \<le> B + C" using assms unfolding s by linarith+
  show "zq (x + y) = zq x + zq y" "zq (x - y) = zq x - zq y" by (rule z)+
qed

lemma bounded_pairs:
  assumes "length r = 256" "\<And>i. i < 128 \<Longrightarrow> \<bar>sint (r ! (2 * i))\<bar> \<le> B \<and> \<bar>sint (r ! (2 * i + 1))\<bar> \<le> B"
  shows "bounded B r"
  unfolding bounded_def
proof
  fix x assume "x \<in> set r"
  then obtain k where k: "k < 256" "x = r ! k" using assms(1) by (auto simp: in_set_conv_nth)
  then have "k div 2 < 128" by simp
  note assms(2) [OF this]
  moreover have "k = 2 * (k div 2) \<or> k = 2 * (k div 2) + 1" by linarith
  ultimately show "\<bar>sint x\<bar> \<le> B" using k(2) by (auto simp del: div_mult_self2)
qed

lemma pointwise_acc_correct:
  assumes a: "at_level 7 f a" "bounded 3328 a" and b: "at_level 7 g b"
    and self: "at_level 7 h self" "bounded B self" "B + 6656 \<le> 32767"
  shows "at_level 7 (\<lambda>n. h n + 169 * rq_mult f g n) (pointwise_acc self a b)"
    "bounded (B + 6656) (pointwise_acc self a b)"
proof -
  let ?r = "pointwise_acc self a b"
  have len: "length a = 256" "length self = 256" using a(1) self(1) by (simp_all add: at_level_7)
  have pairs: "(\<bar>sint (?r ! (2 * i))\<bar> \<le> B + 6656 \<and> \<bar>sint (?r ! (2 * i + 1))\<bar> \<le> B + 6656) \<and>
      zq (?r ! (2 * i)) = residue 2 (\<lambda>n. h n + 169 * rq_mult f g n) (root (128 + i)) 0 \<and>
      zq (?r ! (2 * i + 1)) = residue 2 (\<lambda>n. h n + 169 * rq_mult f g n) (root (128 + i)) 1"
    if i: "i < 128" for i
  proof -
    note p = pair_product_correct [OF len(1) a(2) i, of b]
    have "\<bar>sint (self ! (2 * i))\<bar> \<le> B" "\<bar>sint (self ! (2 * i + 1))\<bar> \<le> B"
      using bounded_nth [OF self(2), of "2 * i"] bounded_nth [OF self(2), of "2 * i + 1"] len i by simp_all
    note sums = add_bounded(1,2) [OF this(1) p(1) self(3)] add_bounded(1,2) [OF this(2) p(2) self(3)]
    note at = pointwise_acc_nth(2,3) [OF len(2) i, of a b]
    have levels: "zq (a ! (2 * i)) = residue 2 f (root (128 + i)) 0" "zq (a ! (2 * i + 1)) = residue 2 f (root (128 + i)) 1"
      "zq (b ! (2 * i)) = residue 2 g (root (128 + i)) 0" "zq (b ! (2 * i + 1)) = residue 2 g (root (128 + i)) 1"
      "zq (self ! (2 * i)) = residue 2 h (root (128 + i)) 0" "zq (self ! (2 * i + 1)) = residue 2 h (root (128 + i)) 1"
      using a(1) b self(1) i by (simp_all add: at_level_7)
    show ?thesis
      unfolding at residue_add residue_scale residue_rq_mult [OF root_leaf_power [OF i]]
      using sums p(3,4) by (simp only: levels simp_thms)
  qed
  show "at_level 7 (\<lambda>n. h n + 169 * rq_mult f g n) ?r"
    unfolding at_level_7 using pairs pointwise_acc_nth(1) [OF len(2)] by blast
  show "bounded (B + 6656) ?r"
    using pairs pointwise_acc_nth(1) [OF len(2)] by (intro bounded_pairs) blast+
qed

lemma bounded_reduce: "length r = 256 \<Longrightarrow> bounded 1664 (poly_reduce r)"
  using barrett_reduce_correct(1) by (auto simp: poly_loops bounded_def)

lemma at_level_cong:
  assumes "at_level s f r" "length r' = 256" "\<And>i. i < 256 \<Longrightarrow> zq (r' ! i) = zq (r ! i)" "s \<le> 8"
  shows "at_level s f r'"
  unfolding at_level_def
proof (intro conjI allI impI)
  fix b m assume b: "b < (2 :: nat) ^ s" "m < (2 :: nat) ^ (8 - s)"
  have "2 ^ (8 - s) * Suc b \<le> (2 :: nat) ^ (8 - s) * 2 ^ s" using b by (intro mult_le_mono2) simp
  also have "\<dots> = 256" using assms(4) by (simp add: power_add [symmetric])
  finally have "2 ^ (8 - s) * b + m < 256" using b(2) by simp
  then show "zq (r' ! (2 ^ (8 - s) * b + m)) = residue (2 ^ (8 - s)) f (root (2 ^ s + b)) m"
    using assms(1,3) b by (simp add: at_level_def)
qed (rule assms(2))

lemma at_level_length: "at_level s f r \<Longrightarrow> length r = 256"
  by (simp add: at_level_def)

lemma at_level_reduce: "at_level 7 f r \<Longrightarrow> at_level 7 f (poly_reduce r)"
  by (rule at_level_cong) (simp_all add: poly_loops at_level_length barrett_reduce_correct(2))

lemma zq_0: "zq 0 = 0"
  by (simp add: zq_def)

lemma poly_zero_level: "at_level 7 (\<lambda>_. 0) poly_zero" "bounded 0 poly_zero"
  by (simp_all add: at_level_7 poly_zero_def MLKEM_N_def residue_def bounded_def zq_0)

text \<open>The hypotheses on the operands of a vector product: which polynomials they transform.\<close>

definition transforms :: "usize \<Rightarrow> (nat \<Rightarrow> nat \<Rightarrow> zq) \<Rightarrow> (nat \<Rightarrow> coeffs) \<Rightarrow> bool" where
  "transforms K f a \<longleftrightarrow> (\<forall>i < K. at_level 7 (f i) (a i))"

lemma accumulate_correct:
  assumes "transforms K f a" "\<forall>i < K. bounded 3328 (a i)" "transforms K g b" "K \<le> 4" "n \<le> K"
  shows "at_level 7 (\<lambda>k. 169 * (\<Sum>i<n. rq_mult (f i) (g i) k)) (foldl (\<lambda>r i. pointwise_acc r (a i) (b i)) poly_zero [0..<n]) \<and>
    bounded (6656 * int n) (foldl (\<lambda>r i. pointwise_acc r (a i) (b i)) poly_zero [0..<n])"
  using assms(5)
proof (induction n)
  case 0
  then show ?case using poly_zero_level by simp
next
  case (Suc n)
  then have n: "n < K" "6656 * int n + 6656 \<le> 32767" using assms(4) by simp_all
  have "at_level 7 (f n) (a n)" "bounded 3328 (a n)" "at_level 7 (g n) (b n)"
    using assms(1-3) n(1) by (simp_all add: transforms_def)
  note step = pointwise_acc_correct [OF this _ _ n(2)]
  let ?r = "foldl (\<lambda>r i. pointwise_acc r (a i) (b i)) poly_zero [0..<n]"
  have IH: "at_level 7 (\<lambda>k. 169 * (\<Sum>i<n. rq_mult (f i) (g i) k)) ?r" "bounded (6656 * int n) ?r"
    using Suc n(1) by simp_all
  have "169 * (\<Sum>i<n. rq_mult (f i) (g i) k) + 169 * rq_mult (f n) (g n) k = 169 * (\<Sum>i<Suc n. rq_mult (f i) (g i) k)" for k
    by (simp only: distrib_left sum.lessThan_Suc)
  with step [OF IH] show ?case by (simp add: algebra_simps)
qed

lemma inner_product_correct:
  assumes "transforms K f (nth a)" "\<forall>i < K. bounded 3328 (a ! i)" "transforms K g (nth b)" "K \<le> 4"
  shows "at_level 7 (\<lambda>k. 169 * (\<Sum>i<K. rq_mult (f i) (g i) k)) (inner_product_ntt K a b)"
    "bounded 1664 (inner_product_ntt K a b)"
proof -
  let ?r = "foldl (\<lambda>r i. pointwise_acc r (a ! i) (b ! i)) poly_zero [0..<K]"
  have level: "at_level 7 (\<lambda>k. 169 * (\<Sum>i<K. rq_mult (f i) (g i) k)) ?r"
    using accumulate_correct [OF assms order_refl] by blast
  then show "at_level 7 (\<lambda>k. 169 * (\<Sum>i<K. rq_mult (f i) (g i) k)) (inner_product_ntt K a b)"
    unfolding inner_product_ntt_def by (rule at_level_reduce)
  show "bounded 1664 (inner_product_ntt K a b)"
    unfolding inner_product_ntt_def by (intro bounded_reduce at_level_length [OF level])
qed

subsection \<open>Matrix products\<close>

lemma foldl_update_same:
  "i < length t \<Longrightarrow> foldl (\<lambda>t j. t[i := P (t ! i) j]) t js = t[i := foldl P (t ! i) js]"
  by (induction js arbitrary: t) simp_all

lemma mul_row_inner:
  assumes "i < length t" "t ! i = poly_zero"
  shows "mul_row K row s t i = t[i := inner_product_ntt K (map row [0..<K]) s]"
proof -
  have "foldl (\<lambda>r j. pointwise_acc r (row j) (s ! j)) poly_zero [0..<K] =
      foldl (\<lambda>r j. pointwise_acc r (map row [0..<K] ! j) (s ! j)) poly_zero [0..<K]"
    by (intro foldl_cong refl) simp
  then show ?thesis
    using assms foldl_update_same [of i t "\<lambda>r j. pointwise_acc r (row j) (s ! j)" "[0..<K]"]
    by (simp add: mul_row_def inner_product_ntt_def)
qed

lemma mul_rows:
  "foldl (\<lambda>t i. mul_row K (row i) s t i) (polyvec_zero K) [0..<K] =
   map (\<lambda>i. inner_product_ntt K (map (row i) [0..<K]) s) [0..<K]"
proof -
  let ?t = "\<lambda>n. foldl (\<lambda>t i. mul_row K (row i) s t i) (polyvec_zero K) [0..<n]"
  have "?t n = map (\<lambda>i. inner_product_ntt K (map (row i) [0..<K]) s) [0..<n] @ replicate (K - n) poly_zero" if "n \<le> K" for n
    using that
  proof (induction n)
    case (Suc n)
    then have "?t n ! n = poly_zero" "n < length (?t n)" by (simp_all add: nth_append)
    then have "?t (Suc n) = (?t n)[n := inner_product_ntt K (map (row n) [0..<K]) s]" by (simp add: mul_row_inner)
    also have "replicate (K - n) poly_zero = poly_zero # replicate (K - Suc n) poly_zero"
      using Suc.prems by (simp add: replicate_Suc [symmetric] Suc_diff_Suc del: replicate_Suc)
    then have "(?t n)[n := inner_product_ntt K (map (row n) [0..<K]) s] =
        map (\<lambda>i. inner_product_ntt K (map (row i) [0..<K]) s) [0..<Suc n] @ replicate (K - Suc n) poly_zero"
      using Suc by (simp add: list_update_append)
    finally show ?case .
  qed (simp add: polyvec_zero_def)
  from this [of K] show ?thesis by simp
qed

lemma mul_vec_inner:
  "mul_vec K rows s = map (\<lambda>i. inner_product_ntt K (map (\<lambda>j. rows ! i ! j) [0..<K]) s) [0..<K]"
  "transpose_mul_vec K rows s = map (\<lambda>i. inner_product_ntt K (map (\<lambda>j. rows ! j ! i) [0..<K]) s) [0..<K]"
  unfolding mul_vec_def transpose_mul_vec_def by (rule mul_rows)+

text \<open>What the callers compute: back in normal form, the product in the ring.\<close>

lemma zq_169': "169 * (65536 :: zq) = 1" "65536 * (169 * x) = (x :: zq)" "169 * (65536 * x) = (x :: zq)"
proof -
  show a: "169 * (65536 :: zq) = 1" by (simp only: mult.commute [of 169] zq_169)
  show "65536 * (169 * x) = x" "169 * (65536 * x) = x" by (simp_all only: mult.assoc [symmetric] zq_169 a mult_1_left)
qed

lemma at_level_map:
  assumes "at_level 7 f r" "\<And>x. zq (h x) = c * zq x"
  shows "at_level 7 (\<lambda>n. c * f n) (map h r)"
  using assms(1) unfolding at_level_7 residue_scale by (simp add: assms(2))

lemma inner_product_inverse:
  assumes "transforms K f (nth a)" "\<forall>i < K. bounded 3328 (a ! i)" "transforms K g (nth b)" "K \<le> 4"
  shows "length (inv_ntt (inner_product_ntt K a b)) = 256" "bounded 3328 (inv_ntt (inner_product_ntt K a b))"
    "n < 256 \<Longrightarrow> zq (inv_ntt (inner_product_ntt K a b) ! n) = (\<Sum>i<K. rq_mult (f i) (g i) n)"
proof -
  note prod = inner_product_correct [OF assms]
  have "bounded 16383 (inner_product_ntt K a b)" using prod(2) by (auto simp: bounded_def)
  note inv = inv_ntt_correct [OF prod(1) this]
  show "length (inv_ntt (inner_product_ntt K a b)) = 256" "bounded 3328 (inv_ntt (inner_product_ntt K a b))"
    by (rule inv)+
  show "zq (inv_ntt (inner_product_ntt K a b) ! n) = (\<Sum>i<K. rq_mult (f i) (g i) n)" if "n < 256"
    using inv(3) [OF that] by (simp only: zq_169')
qed

lemma inner_product_to_mont:
  assumes "transforms K f (nth a)" "\<forall>i < K. bounded 3328 (a ! i)" "transforms K g (nth b)" "K \<le> 4"
  shows "at_level 7 (\<lambda>n. \<Sum>i<K. rq_mult (f i) (g i) n) (poly_to_mont (inner_product_ntt K a b))"
    "bounded 3328 (poly_to_mont (inner_product_ntt K a b))"
proof -
  let ?r = "inner_product_ntt K a b"
  note prod = inner_product_correct [OF assms]
  note len = at_level_length [OF prod(1)]
  show "bounded 3328 (poly_to_mont ?r)"
    using to_mont_correct(1) by (auto simp: bounded_def poly_loops [OF len] zle_diff1_eq [symmetric] simp del: zle_diff1_eq)
  have "at_level 7 (\<lambda>n. 65536 * (169 * (\<Sum>i<K. rq_mult (f i) (g i) n))) (poly_to_mont ?r)"
    unfolding poly_loops(5) [OF len] by (rule at_level_map [OF prod(1) to_mont_correct(2)])
  then show "at_level 7 (\<lambda>n. \<Sum>i<K. rq_mult (f i) (g i) n) (poly_to_mont ?r)"
    by (simp only: zq_169')
qed

subsection \<open>Properties\<close>

lemma list_all_bounded: "list_all (\<lambda>x. \<bar>sint x\<bar> < 3329) r \<longleftrightarrow> bounded 3328 r"
  by (auto simp: bounded_def list_all_iff zle_diff1_eq [symmetric] simp del: zle_diff1_eq)

lemma reduced_transform:
  assumes "length r = 256" "bounded 3328 r"
  shows "at_level 7 (\<lambda>i. zq (r ! i)) (poly_reduce_full (ntt r))" "bounded 3328 (poly_reduce_full (ntt r))"
proof -
  note fwd = ntt_correct [OF assms]
  note len = at_level_length [OF fwd(1)]
  have zq_full: "zq (reduce_full x) = zq x" for x
    unfolding zq_def zq_of_int_eq reduce_full_correct by simp
  show "at_level 7 (\<lambda>i. zq (r ! i)) (poly_reduce_full (ntt r))"
    by (rule at_level_cong [OF fwd(1)]) (simp_all add: poly_loops len zq_full)
  have "\<bar>sint (reduce_full x)\<bar> \<le> 3328" for x
    unfolding reduce_full_correct using pos_mod_bound [of 3329 "sint x"] pos_mod_sign [of 3329 "sint x"] by linarith
  then show "bounded 3328 (poly_reduce_full (ntt r))" by (simp add: poly_loops len bounded_def)
qed

text \<open>C36: The products the scheme computes in the transformed domain are those of the ring
  \<open>Z_q[X]/(X^256 + 1)\<close>: for vectors of up to four polynomials with coefficients in \<open>(-q, q)\<close>, one of them fully
  reduced after its transform, the inner product transformed back is the sum of the negacyclic products,
  and the matrix products are inner products of the rows and of the columns; no 16-bit accumulator overflows.\<close>

theorem mlkem_ring_products:
  assumes "K \<le> 4" "length a = K" "length b = K"
    and "list_all (\<lambda>p. length p = 256 \<and> list_all (\<lambda>x. \<bar>sint x\<bar> < 3329) p) a"
    and "list_all (\<lambda>p. length p = 256 \<and> list_all (\<lambda>x. \<bar>sint x\<bar> < 3329) p) b"
  shows "(let w = inv_ntt (inner_product_ntt K (map poly_reduce_full (polyvec_ntt K a)) (polyvec_ntt K b)) in
      length w = 256 \<and> list_all (\<lambda>x. \<bar>sint x\<bar> < 3329) w \<and>
      (n < 256 \<longrightarrow> zq (w ! n) = (\<Sum>i<K. rq_mult (\<lambda>j. zq (a ! i ! j)) (\<lambda>j. zq (b ! i ! j)) n))) \<and>
    (i < K \<longrightarrow> mul_vec K rows v ! i = inner_product_ntt K (map (\<lambda>j. rows ! i ! j) [0..<K]) v \<and>
      transpose_mul_vec K rows v ! i = inner_product_ntt K (map (\<lambda>j. rows ! j ! i) [0..<K]) v)"
proof -
  have a: "length (a ! i) = 256" "bounded 3328 (a ! i)" and b: "length (b ! i) = 256" "bounded 3328 (b ! i)" if "i < K" for i
    using assms(2-5) that unfolding list_all_bounded by (auto simp: list_all_length)
  let ?a = "map poly_reduce_full (polyvec_ntt K a)" and ?b = "polyvec_ntt K b"
  have "transforms K (\<lambda>i j. zq (a ! i ! j)) (nth ?a)" "\<forall>i<K. bounded 3328 (?a ! i)"
    using assms(2) reduced_transform [OF a] by (simp_all add: transforms_def polyvec_loops)
  moreover have "transforms K (\<lambda>i j. zq (b ! i ! j)) (nth ?b)"
    using assms(3) ntt_correct(1) [OF b] by (simp add: transforms_def polyvec_loops)
  ultimately have "length (inv_ntt (inner_product_ntt K ?a ?b)) = 256" "bounded 3328 (inv_ntt (inner_product_ntt K ?a ?b))"
    "n < 256 \<Longrightarrow> zq (inv_ntt (inner_product_ntt K ?a ?b) ! n) =
      (\<Sum>i<K. rq_mult (\<lambda>j. zq (a ! i ! j)) (\<lambda>j. zq (b ! i ! j)) n)"
    using inner_product_inverse assms(1) by blast+
  then show ?thesis by (simp add: Let_def list_all_bounded mul_vec_inner)
qed

theorem mlkem_ring_products_witness:
  "let a = replicate 256 3; b = map word_of_nat [0..<256] in
   zq (inv_ntt (inner_product_ntt 1 (map poly_reduce_full (polyvec_ntt 1 [a])) (polyvec_ntt 1 [b])) ! 9) =
   rq_mult (\<lambda>j. zq (a ! j)) (\<lambda>j. zq (b ! j)) 9"
proof -
  have "\<bar>sint (word_of_nat k :: i16)\<bar> < 3329" if "k < 256" for k
    using sint_of_int16 [of "int k"] that by simp
  then have "list_all (\<lambda>x. \<bar>sint x\<bar> < 3329) (map word_of_nat [0..<256] :: coeffs)" by (simp add: list_all_iff)
  moreover have "list_all (\<lambda>x. \<bar>sint x\<bar> < 3329) (replicate 256 3 :: coeffs)" by (simp add: list_all_iff)
  ultimately show ?thesis
    using mlkem_ring_products [of 1 "[replicate 256 3]" "[map word_of_nat [0..<256]]" 9 0 "[]" "[]"]
    by (simp add: Let_def)
qed

end
