(* ===== verification/Mlkem_Encode.thy ===== *)
theory Mlkem_Encode
  imports Mlkem_Ntt
begin

text \<open>
  Byte encoding, compression and centred binomial sampling of \<^verbatim>\<open>src/crates/oxicrypt-ml-kem/src/encode.rs\<close>.  The
  code indexes its slices without checks of its own: its callers pass slices of exactly \<open>32 d\<close> (64 eta) bytes.
  The casts between \<open>i16\<close> and \<open>u16\<close> keep the word.
\<close>

subsection \<open>The code\<close>





definition compress :: "nat \<Rightarrow> u16 \<Rightarrow> u16" where
  "compress d x =
     (let numerator = ucast x * push_bit d 1 + 3329 div 2 :: u64;
          result = numerator div 3329
      in ucast result AND (push_bit d 1 - 1))"

definition decompress :: "nat \<Rightarrow> u16 \<Rightarrow> u16" where
  "decompress d y =
     (let numerator = ucast y * 3329 + push_bit (d - 1) 1 :: u32
      in ucast (drop_bit d numerator))"

definition compress_poly :: "nat \<Rightarrow> coeffs \<Rightarrow> coeffs" where
  "compress_poly d coeffs = foldl (\<lambda>r i. r[i := compress d (r ! i)]) coeffs [0..<MLKEM_N]"

definition decompress_poly :: "nat \<Rightarrow> coeffs \<Rightarrow> coeffs" where
  "decompress_poly d coeffs = foldl (\<lambda>r i. r[i := decompress d (r ! i)]) coeffs [0..<MLKEM_N]"

definition cbd_coefficient :: "i16 \<Rightarrow> i16 \<Rightarrow> i16" where
  "cbd_coefficient a b = (let c = a - b in if sint c < 0 then c + 3329 else c)"

definition cbd2_word :: "bytes \<Rightarrow> usize \<Rightarrow> u32" where
  "cbd2_word bytes i =
     (let t = ucast (bytes ! (4 * i)) OR push_bit 8 (ucast (bytes ! (4 * i + 1))) OR
            push_bit 16 (ucast (bytes ! (4 * i + 2))) OR push_bit 24 (ucast (bytes ! (4 * i + 3)));
          d = t AND 0x55555555;
          e = drop_bit 1 t AND 0x55555555
      in d + e)"

definition sample_cbd2 :: "bytes \<Rightarrow> coeffs \<Rightarrow> coeffs" where
  "sample_cbd2 bytes coeffs =
     foldl (\<lambda>coeffs i.
         let f = cbd2_word bytes i
         in foldl (\<lambda>coeffs j.
              let a = ucast (drop_bit (4 * j) f AND 3);
                  b = ucast (drop_bit (4 * j + 2) f AND 3)
              in coeffs[8 * i + j := cbd_coefficient a b]) coeffs [0..<8])
       coeffs [0..<32]"

definition cbd3_word :: "bytes \<Rightarrow> usize \<Rightarrow> u32" where
  "cbd3_word bytes i =
     (let t = ucast (bytes ! (3 * i)) OR push_bit 8 (ucast (bytes ! (3 * i + 1))) OR
            push_bit 16 (ucast (bytes ! (3 * i + 2)));
          d = t AND 0x00249249;
          e = drop_bit 1 t AND 0x00249249;
          f = drop_bit 2 t AND 0x00249249
      in d + e + f)"

definition sample_cbd3 :: "bytes \<Rightarrow> coeffs \<Rightarrow> coeffs" where
  "sample_cbd3 bytes coeffs =
     foldl (\<lambda>coeffs i.
         let g = cbd3_word bytes i
         in foldl (\<lambda>coeffs j.
              let a = ucast (drop_bit (6 * j) g AND 7);
                  b = ucast (drop_bit (6 * j + 3) g AND 7)
              in coeffs[4 * i + j := cbd_coefficient a b]) coeffs [0..<4])
       coeffs [0..<64]"

definition sample_cbd :: "usize \<Rightarrow> bytes \<Rightarrow> coeffs \<Rightarrow> coeffs" where
  "sample_cbd eta bytes coeffs =
     (if eta = 2 then sample_cbd2 bytes coeffs else if eta = 3 then sample_cbd3 bytes coeffs else coeffs)"

subsection \<open>Encoding\<close>













text \<open>The bits of coefficient \<open>i\<close> in a string of packed coefficients.\<close>

definition unpacked :: "nat \<Rightarrow> bytes \<Rightarrow> nat \<Rightarrow> i16" where
  "unpacked d bytes i = horner_sum of_bool 2 (map (\<lambda>j. bit (bytes ! ((i * d + j) div 8)) ((i * d + j) mod 8)) [0..<d])"


lemma bit_unpacked: "d \<le> 16 \<Longrightarrow> bit (unpacked d bytes i) j \<longleftrightarrow> j < d \<and> bit (bytes ! ((i * d + j) div 8)) ((i * d + j) mod 8)"
  by (auto simp: unpacked_def bit_horner_sum_bit_word_iff)






subsection \<open>Compression\<close>







subsection \<open>Centred binomial sampling\<close>

text \<open>Numbers by their digits, and the digits of a sum whose fields do not carry.\<close>

primrec digits_value :: "nat \<Rightarrow> nat list \<Rightarrow> nat" where
  "digits_value B [] = 0"
| "digits_value B (c # cs) = c + B * digits_value B cs"

lemma digits_value_less: "\<forall>c\<in>set cs. c < B \<Longrightarrow> digits_value B cs < B ^ length cs"
proof (induction cs)
  case (Cons c cs)
  then have "Suc (digits_value B cs) \<le> B ^ length cs" "c < B" by simp_all
  then have "B * Suc (digits_value B cs) \<le> B * B ^ length cs" by (intro mult_le_mono2)
  then show ?case using \<open>c < B\<close> by simp
qed simp

lemma digits_value_nth: "\<forall>c\<in>set cs. c < B \<Longrightarrow> j < length cs \<Longrightarrow> digits_value B cs div B ^ j mod B = cs ! j"
proof (induction cs arbitrary: j)
  case (Cons c cs)
  then show ?case by (cases j) (simp_all add: div_mult2_eq)
qed simp

lemma unat_bits: "unat (w :: u32) = horner_sum of_bool 2 (map (bit w) [0..<32])"
proof -
  have "horner_sum of_bool 2 (map (bit (unat w)) [0..<32]) = take_bit 32 (unat w)"
    by (rule horner_sum_bit_eq_take_bit)
  also have "\<dots> = unat w" using unsigned_less [of w, where 'a = nat] by (simp add: take_bit_nat_eq_self)
  finally show ?thesis by (simp add: bit_unsigned_iff [abs_def])
qed

lemma horner_pairs:
  "horner_sum of_bool 2 (map f [0..<2 * n]) =
   digits_value 4 (map (\<lambda>k. of_bool (f (2 * k)) + 2 * of_bool (f (2 * k + 1))) [0..<n])"
proof (induction n arbitrary: f)
  case (Suc n)
  have "horner_sum of_bool 2 (map f [0..<2 * Suc n]) =
      of_bool (f 0) + 2 * (of_bool (f 1) + 2 * horner_sum of_bool 2 (map (\<lambda>k. f (k + 2)) [0..<2 * n]))"
    by (simp add: map_upt_Suc del: upt_Suc)
  then show ?case
    using Suc.IH [of "\<lambda>k. f (k + 2)"] by (simp add: map_upt_Suc distrib_left del: upt_Suc)
qed simp

lemma horner_triples:
  "horner_sum of_bool 2 (map f [0..<3 * n]) =
   digits_value 8 (map (\<lambda>k. of_bool (f (3 * k)) + 2 * of_bool (f (3 * k + 1)) + 4 * of_bool (f (3 * k + 2))) [0..<n])"
proof (induction n arbitrary: f)
  case (Suc n)
  let ?g = "\<lambda>k. of_bool (f (3 * k)) + 2 * of_bool (f (3 * k + 1)) + 4 * of_bool (f (3 * k + 2)) :: nat"
  let ?h = "horner_sum of_bool 2 (map (\<lambda>k. f (k + 3)) [0..<3 * n]) :: nat"
  have "horner_sum of_bool 2 (map f [0..<3 * Suc n]) = of_bool (f 0) + 2 * (of_bool (f 1) + 2 * (of_bool (f 2) + 2 * ?h))"
    by (simp add: map_upt_Suc numeral_2_eq_2 numeral_3_eq_3 del: upt_Suc)
  also have "\<dots> = ?g 0 + 8 * ?h"
  proof -
    have "f (Suc (Suc 0)) = f 2" by (simp only: numeral_2_eq_2)
    then show ?thesis by simp
  qed
  also have "3 * k + 3 = 3 * Suc k \<and> 3 * k + 1 + 3 = 3 * Suc k + 1 \<and> 3 * k + 2 + 3 = 3 * Suc k + 2" for k :: nat by simp
  then have "?h = digits_value 8 (map (\<lambda>k. ?g (Suc k)) [0..<n])"
    unfolding Suc.IH [of "\<lambda>k. f (k + 3)"] by (simp only:)
  also have "?g 0 + 8 * digits_value 8 (map (\<lambda>k. ?g (Suc k)) [0..<n]) = digits_value 8 (map ?g [0..<Suc n])"
    by (simp add: map_upt_Suc del: upt_Suc)
  finally show ?case .
qed simp

lemma mask_pairs: "list_all (\<lambda>k. bit (0x55555555 :: u32) (2 * k) \<and> \<not> bit (0x55555555 :: u32) (2 * k + 1)) [0..<16]"
  by code_simp

lemma mask_triples:
  "list_all (\<lambda>k. bit (0x00249249 :: u32) (3 * k) \<and> \<not> bit (0x00249249 :: u32) (3 * k + 1) \<and>
     \<not> bit (0x00249249 :: u32) (3 * k + 2)) [0..<8]"
  by code_simp

lemma masked_pairs:
  "unat (t AND 0x55555555 :: u32) = digits_value 4 (map (\<lambda>k. of_bool (bit t (2 * k))) [0..<16])"
proof -
  have "unat (t AND 0x55555555 :: u32) = horner_sum of_bool 2 (map (bit (t AND 0x55555555)) [0..<2 * 16])"
    by (simp add: unat_bits)
  also have "\<dots> = digits_value 4 (map (\<lambda>k. of_bool (bit t (2 * k))) [0..<16])"
    unfolding horner_pairs using mask_pairs
    by (intro arg_cong [of _ _ "digits_value 4"] map_cong refl) (simp add: bit_and_iff list_all_iff)
  finally show ?thesis .
qed

lemma masked_triples:
  assumes "\<And>n. 24 \<le> n \<Longrightarrow> \<not> bit (t :: u32) n"
  shows "unat (t AND 0x00249249) = digits_value 8 (map (\<lambda>k. of_bool (bit t (3 * k))) [0..<8])"
proof -
  have bits: "map (bit (t AND 0x00249249)) [0..<32] = map (bit (t AND 0x00249249)) [0..<3 * 8] @ map (\<lambda>_. False) [24..<32]"
  proof -
    have "[0..<32] = [0..<24] @ [24..<32 :: nat]" using upt_add_eq_append [of 0 24 8] by simp
    then show ?thesis using assms by (simp add: bit_and_iff)
  qed
  have zeros: "horner_sum of_bool (2 :: nat) (map (\<lambda>_. False) xs) = 0" for xs by (induction xs) simp_all
  have "unat (t AND 0x00249249) = horner_sum of_bool 2 (map (bit (t AND 0x00249249)) [0..<3 * 8])"
    unfolding unat_bits bits horner_sum_append zeros by simp
  also have "\<dots> = digits_value 8 (map (\<lambda>k. of_bool (bit t (3 * k))) [0..<8])"
    unfolding horner_triples using mask_triples
    by (intro arg_cong [of _ _ "digits_value 8"] map_cong refl) (simp add: bit_and_iff list_all_iff)
  finally show ?thesis .
qed

lemma digits_value_add:
  "digits_value B (map f xs) + digits_value B (map g xs) = digits_value B (map (\<lambda>x. f x + g x) xs)"
proof (induction xs)
  case (Cons x xs)
  then show ?case by (simp add: Cons.IH [symmetric] algebra_simps)
qed simp

text \<open>The bits of a byte string, and the two words the samplers take apart.\<close>

definition bytes_bit :: "bytes \<Rightarrow> nat \<Rightarrow> bool" where
  "bytes_bit bytes p = bit (bytes ! (p div 8)) (p mod 8)"

lemma bit_byte32: "bit (push_bit (8 * m) (ucast (x :: u8)) :: u32) n \<longleftrightarrow> 8 * m \<le> n \<and> n < 8 * m + 8 \<and> n < 32 \<and> bit x (n - 8 * m)"
  by (auto simp: bit_push_bit_iff bit_ucast_iff dest: bit_imp_le_length)

lemma unat_add32: "unat a + unat b < 2 ^ 32 \<Longrightarrow> unat (a + b :: u32) = unat a + unat b"
  by (simp add: unat_word_ariths)

lemma cbd2_fields:
  assumes "k < 16"
  shows "unat (drop_bit (2 * k) (cbd2_word bytes i) AND 3) =
    of_bool (bytes_bit bytes (32 * i + 2 * k)) + of_bool (bytes_bit bytes (32 * i + 2 * k + 1))"
proof -
  define t :: u32 where "t = ucast (bytes ! (4 * i)) OR push_bit 8 (ucast (bytes ! (4 * i + 1))) OR
    push_bit 16 (ucast (bytes ! (4 * i + 2))) OR push_bit 24 (ucast (bytes ! (4 * i + 3)))"
  have t: "bit t n \<longleftrightarrow> bytes_bit bytes (32 * i + n)" if "n < 32" for n
  proof -
    define q r where "q = n div 8" and "r = n mod 8"
    have n: "n = 8 * q + r" and r: "r < 8" by (simp_all add: q_def r_def)
    have "32 * i + n = r + 8 * (4 * i + q)" by (simp add: n)
    then have "(32 * i + n) div 8 = 4 * i + q" "(32 * i + n) mod 8 = r"
      by (simp_all only: div_mult_self2 mod_mult_self2) (use r in simp_all)
    moreover have "q = 0 \<or> q = 1 \<or> q = 2 \<or> q = 3" using that n by linarith
    ultimately show ?thesis
      unfolding t_def bytes_bit_def bit_or_iff n
      using r bit_byte32 [of 0 "bytes ! (4 * i)" n] bit_byte32 [of 1 "bytes ! (4 * i + 1)" n]
        bit_byte32 [of 2 "bytes ! (4 * i + 2)" n] bit_byte32 [of 3 "bytes ! (4 * i + 3)" n]
      by (elim disjE) (simp_all add: n)
  qed
  let ?c = "\<lambda>k. of_bool (bit t (2 * k)) + of_bool (bit t (2 * k + 1)) :: nat"
  have e: "unat (drop_bit 1 t AND 0x55555555) = digits_value 4 (map (\<lambda>k. of_bool (bit t (2 * k + 1))) [0..<16])"
    unfolding masked_pairs by (simp add: bit_drop_bit_eq add.commute)
  have sum: "unat (t AND 0x55555555) + unat (drop_bit 1 t AND 0x55555555) = digits_value 4 (map ?c [0..<16])"
    unfolding masked_pairs [of t] e by (rule digits_value_add)
  have small: "\<forall>c\<in>set (map ?c [0..<16]). c < 4" by auto
  have "digits_value 4 (map ?c [0..<16]) < 4 ^ 16" using digits_value_less [OF small] by simp
  then have f: "unat (cbd2_word bytes i) = digits_value 4 (map ?c [0..<16])"
    unfolding cbd2_word_def Let_def t_def [symmetric] by (subst unat_add32) (simp_all only: sum, simp)
  have "unat (drop_bit (2 * k) (cbd2_word bytes i) AND 3) = unat (cbd2_word bytes i) div 4 ^ k mod 4"
  proof -
    have "drop_bit (2 * k) (cbd2_word bytes i) AND 3 = take_bit 2 (drop_bit (2 * k) (cbd2_word bytes i))"
      by (simp add: take_bit_eq_mask mask_eq_exp_minus_1)
    then show ?thesis
      by (simp only: unsigned_take_bit_eq unat_drop_bit_eq) (simp add: take_bit_eq_mod drop_bit_eq_div power_mult)
  qed
  also have "\<dots> = ?c k"
    unfolding f using digits_value_nth [OF small, of k] assms by simp
  also have "\<dots> = of_bool (bytes_bit bytes (32 * i + 2 * k)) + of_bool (bytes_bit bytes (32 * i + 2 * k + 1))"
    using t [of "2 * k"] t [of "2 * k + 1"] assms by (simp add: add.assoc)
  finally show ?thesis .
qed

lemma cbd3_fields:
  assumes "k < 8"
  shows "unat (drop_bit (3 * k) (cbd3_word bytes i) AND 7) = of_bool (bytes_bit bytes (24 * i + 3 * k)) +
    of_bool (bytes_bit bytes (24 * i + 3 * k + 1)) + of_bool (bytes_bit bytes (24 * i + 3 * k + 2))"
proof -
  define t :: u32 where "t = ucast (bytes ! (3 * i)) OR push_bit 8 (ucast (bytes ! (3 * i + 1))) OR
    push_bit 16 (ucast (bytes ! (3 * i + 2)))"
  have bytes_of_t: "bit t n \<longleftrightarrow> bit (push_bit (8 * 0) (ucast (bytes ! (3 * i))) :: u32) n \<or>
      bit (push_bit (8 * 1) (ucast (bytes ! (3 * i + 1))) :: u32) n \<or> bit (push_bit (8 * 2) (ucast (bytes ! (3 * i + 2))) :: u32) n" for n
    by (simp add: t_def bit_or_iff)
  have t: "bit t n \<longleftrightarrow> bytes_bit bytes (24 * i + n)" if "n < 24" for n
  proof -
    define q r where "q = n div 8" and "r = n mod 8"
    have n: "n = 8 * q + r" and r: "r < 8" by (simp_all add: q_def r_def)
    have "24 * i + n = r + 8 * (3 * i + q)" by (simp add: n)
    then have "(24 * i + n) div 8 = 3 * i + q" "(24 * i + n) mod 8 = r"
      by (simp_all only: div_mult_self2 mod_mult_self2) (use r in simp_all)
    moreover have "q = 0 \<or> q = 1 \<or> q = 2" using that n by linarith
    ultimately show ?thesis
      unfolding bytes_of_t bit_byte32 bytes_bit_def n using r by (elim disjE) simp_all
  qed
  have high: "\<not> bit t n" if "24 \<le> n" for n unfolding bytes_of_t bit_byte32 using that by simp
  let ?c = "\<lambda>k. of_bool (bit t (3 * k)) + of_bool (bit t (3 * k + 1)) + of_bool (bit t (3 * k + 2)) :: nat"
  have m0: "unat (t AND 0x00249249) = digits_value 8 (map (\<lambda>k. of_bool (bit t (3 * k))) [0..<8])"
    by (rule masked_triples, rule high)
  have e: "unat (drop_bit 1 t AND 0x00249249) = digits_value 8 (map (\<lambda>k. of_bool (bit t (3 * k + 1))) [0..<8])"
    "unat (drop_bit 2 t AND 0x00249249) = digits_value 8 (map (\<lambda>k. of_bool (bit t (3 * k + 2))) [0..<8])"
    by (subst masked_triples, simp add: bit_drop_bit_eq high, simp add: bit_drop_bit_eq add.commute)+
  have sum: "unat (t AND 0x00249249) + unat (drop_bit 1 t AND 0x00249249) + unat (drop_bit 2 t AND 0x00249249) =
      digits_value 8 (map ?c [0..<8])"
    unfolding m0 e by (simp only: digits_value_add)
  have small: "\<forall>c\<in>set (map ?c [0..<8]). c < 8" by auto
  have "digits_value 8 (map ?c [0..<8]) < 8 ^ 8" using digits_value_less [OF small] by simp
  then have lt: "unat (t AND 0x00249249) + unat (drop_bit 1 t AND 0x00249249) + unat (drop_bit 2 t AND 0x00249249) < 2 ^ 32"
    unfolding sum by simp
  have f: "unat (cbd3_word bytes i) = digits_value 8 (map ?c [0..<8])"
    unfolding cbd3_word_def Let_def t_def [symmetric] sum [symmetric]
    using lt unat_add32 [of "t AND 0x00249249" "drop_bit 1 t AND 0x00249249"]
      unat_add32 [of "(t AND 0x00249249) + (drop_bit 1 t AND 0x00249249)" "drop_bit 2 t AND 0x00249249"] by linarith
  have "unat (drop_bit (3 * k) (cbd3_word bytes i) AND 7) = unat (cbd3_word bytes i) div 8 ^ k mod 8"
  proof -
    have "drop_bit (3 * k) (cbd3_word bytes i) AND 7 = take_bit 3 (drop_bit (3 * k) (cbd3_word bytes i))"
      by (simp add: take_bit_eq_mask mask_eq_exp_minus_1)
    then show ?thesis
      by (simp only: unsigned_take_bit_eq unat_drop_bit_eq) (simp add: take_bit_eq_mod drop_bit_eq_div power_mult)
  qed
  also have "\<dots> = ?c k"
    unfolding f using digits_value_nth [OF small, of k] assms by simp
  also have "\<dots> = of_bool (bytes_bit bytes (24 * i + 3 * k)) +
    of_bool (bytes_bit bytes (24 * i + 3 * k + 1)) + of_bool (bytes_bit bytes (24 * i + 3 * k + 2))"
    using t [of "3 * k"] t [of "3 * k + 1"] t [of "3 * k + 2"] assms by (simp add: add.assoc)
  finally show ?thesis .
qed

lemma wrap_3329: "- 3329 \<le> x \<Longrightarrow> x < 3329 \<Longrightarrow> (if x < 0 then x + 3329 else x) = x mod (3329 :: int)"
  using mod_add_self2 [of x 3329] mod_pos_pos_trivial [of "x + 3329" 3329] by auto

lemma cbd_coefficient_exact:
  assumes "unat a \<le> 3" "unat b \<le> 3"
  shows "sint (cbd_coefficient a b) = (int (unat a) - int (unat b)) mod 3329"
proof -
  have small: "sint x = int (unat x)" if "unat x \<le> 3" for x :: i16
  proof -
    have "uint x = int (unat x)" by simp
    then have "0 \<le> uint x" "uint x \<le> 3" using that by linarith+
    moreover have "word_of_int (uint x) = x" by simp
    moreover have "sint (word_of_int (uint x) :: i16) = uint x" using calculation(1,2) by (intro sint_of_int16) linarith+
    ultimately have "sint x = uint x" by (simp only:)
    then show ?thesis by simp
  qed
  have le: "0 \<le> int (unat a)" "int (unat a) \<le> 3" "0 \<le> int (unat b)" "int (unat b) \<le> 3" using assms by linarith+
  have c: "sint (a - b) = int (unat a) - int (unat b)"
    using small [OF assms(1)] small [OF assms(2)] le by (subst sint_sub16) linarith+
  have q: "sint (3329 :: i16) = 3329" by simp
  have "sint (a - b + 3329) = sint (a - b) + 3329" using c le by (subst sint_add16) (unfold q, linarith+)
  then have "sint (cbd_coefficient a b) = (if int (unat a) - int (unat b) < 0 then int (unat a) - int (unat b) + 3329
      else int (unat a) - int (unat b))"
    by (cases "int (unat a) - int (unat b) < 0") (simp_all only: cbd_coefficient_def Let_def c if_True if_False)
  also have "\<dots> = (int (unat a) - int (unat b)) mod 3329"
    using le by (intro wrap_3329) linarith+
  finally show ?thesis .
qed

lemma nested_updates:
  fixes c :: coeffs
  assumes "length c = m * n"
  shows "foldl (\<lambda>c i. foldl (\<lambda>c j. c[m * i + j := v i j]) c [0..<m]) c [0..<n] =
    map (\<lambda>k. v (k div m) (k mod m)) [0..<m * n]"
proof -
  have inner: "foldl (\<lambda>c j. c[s + j := w j]) c [0..<p] = take s c @ map w [0..<p] @ drop (s + p) c"
    if "s + p \<le> length c" for s p w and c :: coeffs
    using that
  proof (induction p)
    case (Suc p)
    then show ?case by (simp add: list_update_append Cons_nth_drop_Suc [symmetric] min_def)
  qed simp
  have "foldl (\<lambda>c i. foldl (\<lambda>c j. c[m * i + j := v i j]) c [0..<m]) c [0..<q] =
      map (\<lambda>k. v (k div m) (k mod m)) [0..<m * q] @ drop (m * q) c" if "q \<le> n" for q
    using that
  proof (induction q)
    case (Suc q)
    have "m * Suc q \<le> m * n" using Suc.prems by (rule mult_le_mono2)
    then have len: "m * q + m \<le> length c" using assms by simp
    let ?pre = "map (\<lambda>k. v (k div m) (k mod m)) [0..<m * q]"
    have "foldl (\<lambda>c i. foldl (\<lambda>c j. c[m * i + j := v i j]) c [0..<m]) c [0..<Suc q] =
        foldl (\<lambda>c j. c[m * q + j := v q j]) (?pre @ drop (m * q) c) [0..<m]"
      using Suc by simp
    also have "\<dots> = ?pre @ map (v q) [0..<m] @ drop (m * q + m) c"
      using inner [of "m * q" m "?pre @ drop (m * q) c" "v q"] len by (simp add: add.commute)
    also have "map (v q) [0..<m] = map (\<lambda>k. v (k div m) (k mod m)) [m * q..<m * q + m]"
      by (intro nth_equalityI) simp_all
    finally show ?case using upt_add_eq_append [of 0 "m * q" m] by (simp add: add.commute [of m])
  qed simp
  from this [of n] show ?thesis using assms by simp
qed

text \<open>Algorithm 8 of FIPS 203.\<close>

definition cbd_spec :: "nat \<Rightarrow> bytes \<Rightarrow> nat \<Rightarrow> int" where
  "cbd_spec eta bytes k =
     ((\<Sum>i<eta. of_bool (bytes_bit bytes (2 * k * eta + i))) -
      (\<Sum>i<eta. of_bool (bytes_bit bytes (2 * k * eta + eta + i)))) mod 3329"

lemma sum_2_3: "(\<Sum>i<2. f i) = f 0 + f 1" "(\<Sum>i<3. f i) = f 0 + f 1 + f 2" for f :: "nat \<Rightarrow> 'a::comm_monoid_add"
  by (simp_all add: numeral_2_eq_2 numeral_3_eq_3)

lemma sample_cbd_exact:
  assumes "eta = 2 \<or> eta = 3" "length c = 256" "k < 256"
  shows "length (sample_cbd eta bytes c) = 256" "sint (sample_cbd eta bytes c ! k) = cbd_spec eta bytes k"
proof -
  let ?v2 = "\<lambda>i j. cbd_coefficient (ucast (drop_bit (4 * j) (cbd2_word bytes i) AND 3))
    (ucast (drop_bit (4 * j + 2) (cbd2_word bytes i) AND 3))"
  let ?v3 = "\<lambda>i j. cbd_coefficient (ucast (drop_bit (6 * j) (cbd3_word bytes i) AND 7))
    (ucast (drop_bit (6 * j + 3) (cbd3_word bytes i) AND 7))"
  have loops: "sample_cbd2 bytes c = map (\<lambda>k. ?v2 (k div 8) (k mod 8)) [0..<256]"
    "sample_cbd3 bytes c = map (\<lambda>k. ?v3 (k div 4) (k mod 4)) [0..<256]"
    using nested_updates [of c 8 32 ?v2] nested_updates [of c 4 64 ?v3] assms(2)
    by (simp_all add: sample_cbd2_def sample_cbd3_def Let_def)
  show "length (sample_cbd eta bytes c) = 256" using assms(1) loops by (auto simp: sample_cbd_def)
  have u: "unat (ucast (x :: u32) :: i16) = unat x" if "unat x \<le> 3" for x
    using that by (simp add: unsigned_ucast_eq take_bit_nat_eq_self)
  show "sint (sample_cbd eta bytes c ! k) = cbd_spec eta bytes k"
  proof (cases "eta = 2")
    case True
    have k: "k = 8 * (k div 8) + k mod 8" "k mod 8 < 8" by simp_all
    have pos: "32 * (k div 8) + 4 * (k mod 8) = 4 * k" using k(1) by linarith
    have a: "unat (drop_bit (4 * (k mod 8)) (cbd2_word bytes (k div 8)) AND 3) =
        of_bool (bytes_bit bytes (4 * k)) + of_bool (bytes_bit bytes (4 * k + 1))"
      using cbd2_fields [of "2 * (k mod 8)" bytes "k div 8"] k(2) pos by simp
    have b: "unat (drop_bit (4 * (k mod 8) + 2) (cbd2_word bytes (k div 8)) AND 3) =
        of_bool (bytes_bit bytes (4 * k + 2)) + of_bool (bytes_bit bytes (4 * k + 3))"
      using cbd2_fields [of "2 * (k mod 8) + 1" bytes "k div 8"] k(2) pos by (simp add: numeral_3_eq_3)
    have "unat (ucast (drop_bit (4 * (k mod 8)) (cbd2_word bytes (k div 8)) AND 3) :: i16) \<le> 3"
      "unat (ucast (drop_bit (4 * (k mod 8) + 2) (cbd2_word bytes (k div 8)) AND 3) :: i16) \<le> 3"
      by (subst u; simp only: a b; simp)+
    from cbd_coefficient_exact [OF this] have "sint (?v2 (k div 8) (k mod 8)) = cbd_spec 2 bytes k"
      by (subst (asm) (1 2) u) (simp_all only: a b cbd_spec_def sum_2_3, simp_all add: mult.commute [of k] numeral_3_eq_3)
    then show ?thesis using True loops(1) assms(3) by (simp add: sample_cbd_def)
  next
    case False
    then have eta: "eta = 3" using assms(1) by simp
    have k: "k = 4 * (k div 4) + k mod 4" "k mod 4 < 4" by simp_all
    have pos: "24 * (k div 4) + 6 * (k mod 4) = 6 * k" using k(1) by linarith
    have a: "unat (drop_bit (6 * (k mod 4)) (cbd3_word bytes (k div 4)) AND 7) =
        of_bool (bytes_bit bytes (6 * k)) + of_bool (bytes_bit bytes (6 * k + 1)) + of_bool (bytes_bit bytes (6 * k + 2))"
      using cbd3_fields [of "2 * (k mod 4)" bytes "k div 4"] k(2) pos by simp
    have b: "unat (drop_bit (6 * (k mod 4) + 3) (cbd3_word bytes (k div 4)) AND 7) =
        of_bool (bytes_bit bytes (6 * k + 3)) + of_bool (bytes_bit bytes (6 * k + 3 + 1)) + of_bool (bytes_bit bytes (6 * k + 3 + 2))"
    proof -
      have "3 * (2 * (k mod 4) + 1) = 6 * (k mod 4) + 3" by simp
      moreover have "24 * (k div 4) + (6 * (k mod 4) + 3) = 6 * k + 3" using k(1) by linarith
      moreover have "2 * (k mod 4) + 1 < 8" using k(2) by simp
      ultimately show ?thesis using cbd3_fields [of "2 * (k mod 4) + 1" bytes "k div 4"] by (simp only:)
    qed
    have "unat (ucast (drop_bit (6 * (k mod 4)) (cbd3_word bytes (k div 4)) AND 7) :: i16) \<le> 3"
      "unat (ucast (drop_bit (6 * (k mod 4) + 3) (cbd3_word bytes (k div 4)) AND 7) :: i16) \<le> 3"
      by (subst u; simp only: a b; simp)+
    from cbd_coefficient_exact [OF this] have "sint (?v3 (k div 4) (k mod 4)) = cbd_spec 3 bytes k"
      by (subst (asm) (1 2) u) (simp_all only: a b cbd_spec_def sum_2_3, simp_all add: mult.commute [of k])
    then show ?thesis using eta loops(2) assms(3) by (simp add: sample_cbd_def)
  qed
qed

subsection \<open>Properties\<close>

text \<open>C0: Encoding, decoding and compression are those of FIPS 203: decoding returns what was encoded, and for
  \<open>d = 12\<close> modulo \<open>q\<close>; encoding returns what was decoded, for \<open>d = 12\<close> exactly the strings of residues below
  \<open>q\<close>; compression rounds to the nearest of the \<open>2^d\<close> steps, returns every value that was decompressed, and
  loses at most half a step around the circle of residues.\<close>

lemma unpacked_less: "d \<le> 16 \<Longrightarrow> unat (unpacked d bytes i) < 2 ^ d"
proof -
  assume d: "d \<le> 16"
  then have "unpacked d bytes i = take_bit d (unpacked d bytes i)"
    by (intro bit_word_eqI) (auto simp: bit_take_bit_iff bit_unpacked)
  then have "unat (unpacked d bytes i) = take_bit d (unat (unpacked d bytes i))" by (metis unsigned_take_bit_eq)
  then show ?thesis by (metis take_bit_nat_less_exp)
qed





text \<open>C39: The centred binomial samplers, which count bits by masks and one addition for eight or four
  coefficients at a time, return what Algorithm 8 of FIPS 203 says bit by bit, in \<open>[0, q)\<close>.\<close>

theorem mlkem_cbd_exact:
  assumes "eta = 2 \<or> eta = 3" "length coeffs = 256" "k < 256"
  shows "length (sample_cbd eta bytes coeffs) = 256 \<and>
    sint (sample_cbd eta bytes coeffs ! k) = cbd_spec eta bytes k \<and>
    0 \<le> sint (sample_cbd eta bytes coeffs ! k) \<and> sint (sample_cbd eta bytes coeffs ! k) < 3329"
  using sample_cbd_exact [OF assms, of bytes] by (simp add: cbd_spec_def)

theorem mlkem_cbd_exact_witness:
  "sint (sample_cbd 2 (replicate 128 0x1b) (replicate 256 0) ! 3) = cbd_spec 2 (replicate 128 0x1b) 3 \<and>
   sint (sample_cbd 2 (replicate 128 0x1b) (replicate 256 0) ! 3) < 3329"
  using mlkem_cbd_exact [of 2 "replicate 256 0" 3 "replicate 128 0x1b"] by simp

end
