(* ===== verification/Spec2Isabelle.thy ===== *)
theory Spec2Isabelle
  imports Module_Gating Module_Machine Entropy_Jitter Drbg_Family Aes_Gcm Aes_Kw Aes_Ccm
    Mlkem_Poly Mlkem_Encode
begin

text \<open>
  A verification library for oxicrypt, a cryptographic module in Rust laid out along FIPS 140-3.  The
  definitions are translated from the sources under \<^verbatim>\<open>src/crates\<close>, keep their names and their order, and
  compute; the theorems say what the code does on every input, errors and refusals included.

  \<^bold>\<open>The program.\<close>  The crate \<^verbatim>\<open>oxicrypt-module\<close> keeps the module's state in two atomics: \<open>STATE\<close>, a 64-bit
  word that packs a state code and the id of the thread running the power-up tests, and \<open>PROFILE\<close>, a
  byte.  \<^verbatim>\<open>initialize_as\<close> runs the integrity group and the self-tests of a list, and moves the state to
  \<open>Operational\<close>, \<open>Error\<close> or \<open>IntegrityUnverified\<close>.  Every algorithm crate asks it before it computes:
  \<open>require_operational\<close> and \<open>require_allowed(service)\<close> at a public entry, and
  \<open>require_self_test_started\<close> in front of each internal step, which also admits the thread that is
  running the tests.  On top of these guards stand SHA-1 and SHA-2 (\<^verbatim>\<open>oxicrypt-sha\<close>), HMAC over them
  (\<^verbatim>\<open>oxicrypt-hmac\<close>), AES and its modes (\<^verbatim>\<open>oxicrypt-aes\<close>), the generators of SP 800-90A over HMAC, hash and
  AES (\<^verbatim>\<open>oxicrypt-drbg\<close>), and the entropy source of SP 800-90B conditioned by SHA-256
  (\<^verbatim>\<open>oxicrypt-entropy\<close>).

  \<^bold>\<open>How effects are modelled.\<close>
  \<^item> Concurrency of initialisation: \<open>Module_Machine\<close> has one step relation in which any number of calls
    interleave, one atomic access per step, and \<open>enter_error_state\<close> may come at any point.  The atomics
    are taken as sequentially consistent; the code uses acquire and release orderings on one word, and a
    profile that is stored before the state is published.
  \<^item> An operation of an algorithm crate passes several guards, and the state can change between them.  So
    the values the guards load are an explicit input (\<open>Gates\<close>): a stream of loads of \<open>STATE\<close> and one of
    \<open>PROFILE\<close>, each guard consuming the next value.  A theorem for all environments covers every schedule;
    \<open>legal_loads\<close> and \<open>live\<close> are the streams the machine allows.
  \<^item> A method with \<open>&mut self\<close> or an output slice is an \<open>action\<close> (\<open>Actions\<close>): it returns a result, the
    state it leaves, also when it fails, and the rest of the environment.  \<open>guarded_run\<close> says how many
    loads an operation makes, what it answers when all are admitted and what holds of the state when any
    one of them is refused.
  \<^item> Errors are constructors of the code's error types in a sum type.  Where the code unwinds (an index out
    of range, a debug assertion with an effect in release builds) the model has the result \<open>Panicked\<close>.
  \<^item> Machine integers are words of their width; \<open>usize\<close> that only measures lengths is \<open>nat\<close>, with the
    checked and saturating operations of the code written out (\<open>checked_sum\<close>, \<open>sat_add\<close>, \<open>sat_mul\<close>).

  \<^bold>\<open>Theories, code and what is proved.\<close>
  \<^item> \<open>Prelude\<close>: types, generic lemmas on lists and words, eager evaluation of words, saturating arithmetic.
  \<^item> \<open>Module_Services\<close>, \<open>Module_State\<close>, \<open>Module_Gating\<close>, \<open>Module_Machine\<close> model \<^verbatim>\<open>oxicrypt-module/src/lib.rs\<close>:
    the 256 services with their discriminants and texts, the LMS block and the CNSA sets; the packed word,
    its decoding and the guards; what each profile admits; and \<open>initialize\<close>, \<open>settle\<close>,
    \<open>already_left_power_off\<close>, the unwind guard and \<open>enter_error_state\<close> as a machine.  Proved: no service
    before all tests have passed, failed states are terminal, the tests run once and in order, a call
    alone refines its sequential specification, the winning call returns within a bound of its own steps
    and the others after it, the profile is frozen once operational, and the profiles' exact contents.
  \<^item> \<open>Gates\<close>, \<open>Actions\<close>: the guards over loads and the calculus of guarded operations.
  \<^item> \<open>Sha_Stream\<close>, \<open>Sha1_Hash\<close>, \<open>Sha256_Hash\<close>, \<open>Sha512_Hash\<close>, \<open>Sha_Family\<close> model \<^verbatim>\<open>oxicrypt-sha/src/sha*.rs\<close>.
    The locales \<open>stream_hash\<close> and \<open>merkle_damgard\<close> hold the streaming lemmas once; each of the seven hashes
    interprets them on its own compression function.  Proved: any chunking hashes to the FIPS 180-4
    digest, the buffer never overruns, the known-answer tests pass, no digest after a failure.
  \<^item> \<open>Hmac\<close> models \<^verbatim>\<open>oxicrypt-hmac/src/lib.rs\<close>, generic over a record of hash operations (the trait
    \<open>BlockHash\<close>) with the locale \<open>block_hash_ops\<close>, interpreted on the seven hashes; it equals FIPS 198-1.
  \<^item> \<open>Entropy_Health\<close> (\<^verbatim>\<open>h.rs\<close>, \<^verbatim>\<open>sp800_90b.rs\<close>, \<^verbatim>\<open>health.rs\<close>), \<open>Entropy_Timer\<close> (\<^verbatim>\<open>timer.rs\<close>), \<open>Entropy_Pipeline\<close>
    (\<^verbatim>\<open>source.rs\<close>, \<^verbatim>\<open>error.rs\<close>, \<^verbatim>\<open>conditioner.rs\<close>, \<^verbatim>\<open>pipeline.rs\<close>) and \<open>Entropy_Jitter\<close> (\<^verbatim>\<open>jitter.rs\<close>) model
    \<^verbatim>\<open>oxicrypt-entropy\<close>.  The trait \<open>NoiseSource\<close> is a record; its contract is the locale
    \<open>noise_source_laws\<close>, which the jitter source interprets.  Proved: the monitor answers as the run and
    window conditions of SP 800-90B say, with the least sufficient cutoffs; startup succeeds exactly after
    1024 tested samples; a health failure poisons a pipeline for good; a conditioned block is SHA-256 of
    enough tested samples; the jitter source answers within 64 measurements.
  \<^item> \<open>Aes_Field\<close>, \<open>Aes_Block\<close> model \<^verbatim>\<open>oxicrypt-aes/src/block.rs\<close>: tables, key schedule and both directions
    equal FIPS 197 over the field \<open>GF(2^8)\<close>, and are inverse.
  \<^item> \<open>Aes_Modes\<close>, \<open>Aes_Gcm\<close> (\<^verbatim>\<open>modes.rs\<close>), \<open>Aes_Ccm\<close> (\<^verbatim>\<open>ccm.rs\<close>), \<open>Aes_Kw\<close> (\<^verbatim>\<open>kw.rs\<close>): the modes over any
    cipher of the locale \<open>block_cipher_laws\<close>, interpreted on the three AES key types.  Each equals its NIST
    specification (SP 800-38A, C, D, F) on every input and is inverted by its counterpart; GCM and CCM
    release nothing for a wrong tag.
  \<^item> \<open>Big_Endian\<close>, \<open>Drbg_Core\<close>, \<open>Drbg_Mechanism\<close>, \<open>Hmac_Drbg\<close>, \<open>Hash_Drbg\<close>, \<open>Ctr_Drbg\<close>, \<open>Drbg_Family\<close> model
    \<^verbatim>\<open>oxicrypt-drbg\<close>.  The locale \<open>drbg_mechanism\<close> is the contract callers rely on (what is refused, and
    what a run leaves); the three generators interpret it, CTR_DRBG twice, with and without the
    derivation function.  Proved: each refines SP 800-90A on its working state; the order of the refusals
    and what they leave; the reseed interval bounds every run of requests; a refusal by the module is
    final and an interrupted call returns zeroes; the health tests pass exactly in an admitted run.
  \<^item> \<open>Mlkem_Field\<close>, \<open>Mlkem_Ntt\<close>, \<open>Mlkem_Poly\<close>, \<open>Mlkem_Encode\<close> model \<^verbatim>\<open>field.rs\<close>, \<^verbatim>\<open>ntt.rs\<close>, \<^verbatim>\<open>poly.rs\<close>, the vectors and
    matrices of \<^verbatim>\<open>ml_kem_impl.rs\<close> and \<^verbatim>\<open>encode.rs\<close> of \<^verbatim>\<open>oxicrypt-ml-kem\<close>.  Coefficients are 16-bit words
    read with a sign and stand for residues in the type \<open>3329\<close>.  Proved: reductions are exact in their
    ranges, the transforms evaluate at the roots of \<open>X^256 + 1\<close> and invert, vector and matrix products are
    those of the ring, encoding and compression are inverted by their counterparts.

  \<^bold>\<open>Bounds and termination.\<close>  Every loop is structural or has a measure; no definition uses fuel.  The output
  loops take a block at a time (\<open>fill_blocks\<close>), the counter loops stop at the first byte without a carry.
  The limits are those of the code: 768 bytes of seed material for the HMAC and hash generators, 192 for
  the block-cipher derivation function, \<open>2^16\<close> bytes per request, \<open>2^48\<close> requests per seed, 64 measurements
  per jitter sample.  The 64-bit bit length in the hashes' padding wraps as in the
  code, so the digests are those of FIPS 180-4 for messages below \<open>2^61\<close> bytes, and their reference
  definition iterates the code's compression function.  The 32-bit GCM counter wraps as in the code.
  ML-KEM sums stay in 16 bits because the transforms keep coefficients below \<open>8 q\<close> and a product of two
  vectors has at most four terms (\<open>K \<le> 4\<close>).

  \<^bold>\<open>What the model shows of the code.\<close>  Unwrapping a key with KW writes the unverified data to the caller's
  buffer before it compares the integrity value; \<open>kw_mismatch_buffer\<close> states what a refused call leaves.
  GCM has no bound of its own on the plaintext.  Several comments say other than the code; they are
  listed with the manifest of the library.

  \<^bold>\<open>Not modelled.\<close>
  \<^item> Thread ids, platform timers and the reading of the running image are system calls; the thread id and
    the timer reads are inputs of the model.
  \<^item> \<open>Drop\<close> and the volatile zeroization of temporaries, which no later call can observe.
  \<^item> The accelerated variants behind features (\<^verbatim>\<open>oxicrypt-aes-accel\<close>, \<^verbatim>\<open>oxicrypt-sha-accel\<close>,
    \<^verbatim>\<open>oxicrypt-keccak-accel\<close>), which are CPU intrinsics.
  \<^item> Known-answer vectors other than those of the modelled self-tests, metadata strings and the dataset
    collection tools of the entropy crate.
  \<^item> Keccak and SHA-3 with the algorithms over them, key generation, encapsulation and decapsulation of
    ML-KEM, which sample through SHAKE, CMAC, the KDFs, the other public-key crates, the C bindings, the
    facade and the harnesses: not reached; of the modelled crates only HMAC calls one of them, for its four
    SHA-3 instances.
\<close>

end
